(* ===== verification/Prelude.thy ===== *)
theory Prelude
  imports Main "HOL-Library.Word" "HOL-Library.Monad_Syntax"
begin

unbundle bit_operations_syntax

text \<open>
  What the components of the kcp-go model share: the machine integers of the Go source as
  fixed-width words, the wrapping time/sequence comparison of \<^verbatim>\<open>_itimediff\<close>, the
  little-endian accessors of \<^verbatim>\<open>encoding/binary\<close>, and generic facts on lists and words.

  A Go run-time panic (an index or a slice bound out of range) is the value \<open>None\<close> of an
  option type; code that cannot panic is a total function.
\<close>

section \<open>Machine integers\<close>

type_synonym byte = "8 word"
type_synonym u8 = "8 word"
type_synonym u16 = "16 word"
type_synonym u32 = "32 word"
type_synonym i32 = "32 word"
type_synonym u64 = "64 word"

named_theorems serial \<open>comparisons of wrapping sequence numbers as distances\<close>

text \<open>
  \<^verbatim>\<open>func _itimediff(later, earlier uint32) int32 { return (int32)(later - earlier) }\<close>.
  The result is kept as a 32-bit word; its signed reading is \<open>sint\<close>.
\<close>

definition itimediff :: "u32 \<Rightarrow> u32 \<Rightarrow> i32" where
  "itimediff later earlier = later - earlier"

section \<open>Little-endian bytes\<close>

definition PutUint16 :: "u16 \<Rightarrow> byte list" where
  "PutUint16 w = [ucast w, ucast (drop_bit 8 w)]"

definition PutUint32 :: "u32 \<Rightarrow> byte list" where
  "PutUint32 w =
     [ucast w, ucast (drop_bit 8 w), ucast (drop_bit 16 w), ucast (drop_bit 24 w)]"

fun Uint16 :: "byte list \<Rightarrow> u16 option" where
  "Uint16 (b0 # b1 # bs) = Some (ucast b0 OR push_bit 8 (ucast b1))"
| "Uint16 bs = None"

fun Uint32 :: "byte list \<Rightarrow> u32 option" where
  "Uint32 (b0 # b1 # b2 # b3 # bs) =
     Some (ucast b0 OR push_bit 8 (ucast b1) OR push_bit 16 (ucast b2) OR push_bit 24 (ucast b3))"
| "Uint32 bs = None"

text \<open>The size of every packet buffer, \<^verbatim>\<open>maxPacketSize\<close> of \<^verbatim>\<open>sess.go\<close>.\<close>

definition maxPacketSize :: nat where "maxPacketSize = 1472"

section \<open>Consecutive sequence numbers\<close>

text \<open>The \<open>n\<close> wrapping sequence numbers \<open>a, a + 1, \<dots>\<close>.\<close>

definition seqs :: "u32 \<Rightarrow> nat \<Rightarrow> u32 list" where
  "seqs a n = map (\<lambda>i. a + of_nat i) [0..<n]"

section \<open>Facts on words\<close>

lemma unat_u32_less: "unat (w :: u32) < 4294967296"
  using unsigned_less [of w] by simp

lemma signed_shift_cases:
  "0 \<le> (i :: int) \<Longrightarrow> i < 2 ^ 32 \<Longrightarrow>
     (i + 2 ^ 31) mod 2 ^ 32 - 2 ^ 31 = (if i < 2 ^ 31 then i else i - 2 ^ 32)"
proof (cases "i < 2 ^ 31")
  case True
  moreover assume "0 \<le> i"
  ultimately show ?thesis by simp
next
  case False
  moreover assume "i < 2 ^ 32"
  moreover have "(i + 2 ^ 31) mod 2 ^ 32 = (i - 2 ^ 31) mod 2 ^ 32"
    using mod_add_self2 [of "i - 2 ^ 31" "2 ^ 32 :: int"] by (simp add: add.commute)
  ultimately show ?thesis by simp
qed

lemma sint_u32_cases:
  "sint (w :: u32) = (if unat w < 2 ^ 31 then int (unat w) else int (unat w) - 2 ^ 32)"
proof -
  have s: "sint w = (int (unat w) + 2 ^ 31) mod 2 ^ 32 - 2 ^ 31"
    by (simp add: sint_uint signed_take_bit_eq_take_bit_shift take_bit_eq_mod)
  have "int (unat w) < 2 ^ 32" using unat_u32_less [of w] by (simp del: of_nat_unat)
  then have "sint w = (if int (unat w) < 2 ^ 31 then int (unat w) else int (unat w) - 2 ^ 32)"
    unfolding s by (intro signed_shift_cases) simp_all
  then show ?thesis by (simp del: of_nat_unat)
qed

lemma itimediff_less_0 [serial]:
  "sint (itimediff a b) < 0 \<longleftrightarrow> 2 ^ 31 \<le> unat (a - b)"
  using unat_u32_less [of "a - b"] by (auto simp: itimediff_def sint_u32_cases simp del: of_nat_unat)

lemma itimediff_ge_0 [serial]:
  "0 \<le> sint (itimediff a b) \<longleftrightarrow> unat (a - b) < 2 ^ 31"
  using itimediff_less_0 [of a b] by linarith

lemma itimediff_eq_0: "sint (itimediff a b) = 0 \<longleftrightarrow> a = b"
  using unat_u32_less [of "a - b"]
  by (auto simp: itimediff_def sint_u32_cases unat_eq_0 simp del: of_nat_unat split: if_splits)

lemma itimediff_gr_0 [serial]:
  "0 < sint (itimediff a b) \<longleftrightarrow> a \<noteq> b \<and> unat (a - b) < 2 ^ 31"
  using itimediff_ge_0 [of a b] itimediff_eq_0 [of a b] by linarith

lemma itimediff_le_0 [serial]:
  "sint (itimediff a b) \<le> 0 \<longleftrightarrow> a = b \<or> 2 ^ 31 \<le> unat (a - b)"
  using itimediff_less_0 [of a b] itimediff_eq_0 [of a b] by linarith

lemma unat_diff_u32:
  "unat (a - b :: u32) =
     (if unat b \<le> unat a then unat a - unat b else 4294967296 + unat a - unat b)"
  by (auto simp: unat_sub_if')

lemma unat_of_nat_u32 [simp]: "n < 4294967296 \<Longrightarrow> unat (of_nat n :: u32) = n"
  by (simp add: unat_of_nat)

lemma of_nat_unat_u32: "b + of_nat (unat (a - b)) = (a :: u32)"
  by simp

text \<open>Distances from a common base decide every comparison inside a half-range window.\<close>

lemma diff_via_base:
  "unat (x - y :: u32) =
     (if unat (y - b) \<le> unat (x - b) then unat (x - b) - unat (y - b)
      else 4294967296 + unat (x - b) - unat (y - b))"
proof -
  have "x - y = (x - b) - (y - b)" by simp
  then show ?thesis by (simp only: unat_diff_u32)
qed

lemma unat_diff_inj: "unat (x - b :: u32) = unat (y - b) \<longleftrightarrow> x = y"
  using word_unat_eq_iff [of "x - b" "y - b"] by simp

text \<open>Inside a half-range window above \<open>b\<close>, the wrapping comparison is the order of distances.\<close>

lemma itimediff_in_window:
  assumes "unat (x - b) < 2 ^ 31" "unat (y - b) < 2 ^ 31"
  shows "0 < sint (itimediff y x) \<longleftrightarrow> unat (x - b) < unat (y - b)"
proof -
  have "y \<noteq> x \<longleftrightarrow> unat (y - b) \<noteq> unat (x - b)" by (simp only: unat_diff_inj)
  then show ?thesis
    using assms unfolding itimediff_gr_0 diff_via_base [of y x b] by simp arith
qed

lemma unat_add_u32:
  "unat (a + b :: u32) = (unat a + unat b) mod 4294967296"
  by (simp add: unat_word_ariths)

lemma unat_succ_diff:
  "x \<noteq> b \<Longrightarrow> unat (x - (b + 1) :: u32) = unat (x - b) - 1"
proof -
  assume "x \<noteq> b"
  then have "unat (x - b) \<noteq> 0" by (simp add: unat_eq_0)
  moreover have "x - (b + 1) = (x - b) - 1" by simp
  ultimately show ?thesis
    by (simp only: unat_diff_u32) (simp split: if_splits)
qed

section \<open>Facts on little-endian bytes\<close>

lemma byte_bit_high [simp]: "8 \<le> n \<Longrightarrow> \<not> bit (b :: byte) n"
  using bit_imp_le_length [of b n] by auto

lemma length_PutUint16 [simp]: "length (PutUint16 w) = 2"
  by (simp add: PutUint16_def)

lemma length_PutUint32 [simp]: "length (PutUint32 w) = 4"
  by (simp add: PutUint32_def)

lemma Uint16_PutUint16 [simp]: "Uint16 (PutUint16 w @ bs) = Some w"
  unfolding PutUint16_def by simp (rule bit_word_eqI, auto simp: bit_simps)

lemma Uint32_PutUint32 [simp]: "Uint32 (PutUint32 w @ bs) = Some w"
proof -
  have "ucast (ucast w :: byte) OR push_bit 8 (ucast (ucast (drop_bit 8 w) :: byte))
      OR push_bit 16 (ucast (ucast (drop_bit 16 w) :: byte))
      OR push_bit 24 (ucast (ucast (drop_bit 24 w) :: byte)) = w" (is "?l = w")
  proof (rule bit_word_eqI)
    fix n assume "n < LENGTH(32)"
    then consider "n < 8" | "8 \<le> n" "n < 16" | "16 \<le> n" "n < 24" | "24 \<le> n" "n < 32"
      by fastforce
    then show "bit ?l n = bit w n" by cases (auto simp: bit_simps)
  qed
  then show ?thesis unfolding PutUint32_def by simp
qed

lemma PutUint16_Uint16: "Uint16 bs = Some w \<Longrightarrow> PutUint16 w = take 2 bs"
proof (induction bs rule: Uint16.induct)
  case (1 b0 b1 bs)
  have "ucast w = b0" and "ucast (drop_bit 8 w) = b1"
    using 1 by (auto intro!: bit_word_eqI simp: bit_simps)
  then show ?case by (simp add: PutUint16_def)
qed auto

lemma PutUint32_Uint32: "Uint32 bs = Some w \<Longrightarrow> PutUint32 w = take 4 bs"
proof (induction bs rule: Uint32.induct)
  case (1 b0 b1 b2 b3 bs)
  have "ucast w = b0" and "ucast (drop_bit 8 w) = b1"
    and "ucast (drop_bit 16 w) = b2" and "ucast (drop_bit 24 w) = b3"
    using 1 by (auto intro!: bit_word_eqI simp: bit_simps)
  then show ?case by (simp add: PutUint32_def)
qed auto

lemma Uint16_defined: "Uint16 bs \<noteq> None \<longleftrightarrow> 2 \<le> length bs"
  by (induction bs rule: Uint16.induct) auto

lemma Uint32_defined: "Uint32 bs \<noteq> None \<longleftrightarrow> 4 \<le> length bs"
  by (induction bs rule: Uint32.induct) auto

section \<open>Facts on sequence numbers\<close>

lemma seqs_0 [simp]: "seqs a 0 = []"
  by (simp add: seqs_def)

lemma length_seqs [simp]: "length (seqs a n) = n"
  by (simp add: seqs_def)

lemma nth_seqs [simp]: "i < n \<Longrightarrow> seqs a n ! i = a + of_nat i"
  by (simp add: seqs_def)

lemma seqs_Suc: "seqs a (Suc n) = a # seqs (a + 1) n"
  by (simp add: seqs_def map_upt_Suc add.assoc del: upt_Suc)

lemma seqs_snoc: "seqs a (Suc n) = seqs a n @ [a + of_nat n]"
  by (simp add: seqs_def)

lemma seqs_append: "seqs a (m + n) = seqs a m @ seqs (a + of_nat m) n"
  by (induction m arbitrary: a) (auto simp: seqs_Suc add.assoc)

lemma seqs_eq_Nil [simp]: "seqs a n = [] \<longleftrightarrow> n = 0"
  by (cases n) (auto simp: seqs_Suc)

lemma drop_seqs: "drop m (seqs a n) = seqs (a + of_nat m) (n - m)"
  by (rule nth_equalityI) (auto simp: add.assoc)

lemma in_set_seqs:
  "n \<le> 4294967296 \<Longrightarrow> x \<in> set (seqs a n) \<longleftrightarrow> unat (x - a) < n"
proof
  assume n: "n \<le> 4294967296" and "x \<in> set (seqs a n)"
  then obtain i where i: "i < n" "x = a + of_nat i" by (auto simp: seqs_def)
  with n show "unat (x - a) < n" by simp
next
  assume "unat (x - a) < n"
  then show "x \<in> set (seqs a n)"
    unfolding seqs_def by (auto intro!: image_eqI [where x = "unat (x - a)"])
qed

lemma distinct_seqs: "n \<le> 4294967296 \<Longrightarrow> distinct (seqs a n)"
  by (auto simp: seqs_def distinct_map inj_on_def dest!: arg_cong [where f = unat])

section \<open>Facts on lists\<close>

lemma update_last_slot: "length xs = Suc n \<Longrightarrow> xs[n := v] = take n xs @ [v]"
  by (simp add: upd_conv_take_nth_drop)

end
