(* ===== verification/Ring_Buffer.thy ===== *)
theory Ring_Buffer
  imports Prelude
begin

text \<open>
  The generic circular queue of \<^verbatim>\<open>ringbuffer.go\<close>. A buffer is \<open>head\<close>, \<open>tail\<close> and
  the backing slice; one slot stays free, so \<open>head = tail\<close> means empty. \<open>zero\<close> is Go's zero
  value of the element type, written into vacated slots. \<^verbatim>\<open>Pop\<close> and \<^verbatim>\<open>Peek\<close> return an
  option for Go's \<^verbatim>\<open>(value, ok)\<close>; \<^verbatim>\<open>At\<close> returns \<open>None\<close> where the slice index panics.
  A pointer handed out by \<^verbatim>\<open>At\<close> or to a \<^verbatim>\<open>ForEach\<close> callback is modelled by a body that
  returns the element's new value.

  The theory shows that every operation keeps \<open>ring_wf\<close> and acts on \<open>ring_list\<close>, the
  logical contents, as the list operation it stands for, and states that contract as the
  locale \<open>fifo\<close>, interpreted here on the ring buffer.
\<close>

section \<open>The buffer and its operations\<close>

definition RINGBUFFER_MIN :: nat where "RINGBUFFER_MIN = 8"
definition RINGBUFFER_EXP :: nat where "RINGBUFFER_EXP = 1024"

record 'a RingBuffer =
  rb_head :: nat
  rb_tail :: nat
  rb_elements :: "'a list"

definition NewRingBuffer :: "'a \<Rightarrow> int \<Rightarrow> 'a RingBuffer" where
  "NewRingBuffer zero sz =
     (let sz = (if sz \<le> int RINGBUFFER_MIN then int RINGBUFFER_MIN else sz)
      in \<lparr>rb_head = 0, rb_tail = 0, rb_elements = replicate (nat sz) zero\<rparr>)"

definition ring_Len :: "'a RingBuffer \<Rightarrow> nat" where
  "ring_Len r =
     (if rb_head r \<le> rb_tail r then rb_tail r - rb_head r
      else length (rb_elements r) - rb_head r + rb_tail r)"

definition ring_IsEmpty :: "'a RingBuffer \<Rightarrow> bool" where
  "ring_IsEmpty r \<longleftrightarrow> rb_head r = rb_tail r"

definition ring_MaxLen :: "'a RingBuffer \<Rightarrow> nat" where
  "ring_MaxLen r = length (rb_elements r) - 1"

definition ring_IsFull :: "'a RingBuffer \<Rightarrow> bool" where
  "ring_IsFull r \<longleftrightarrow> (rb_tail r + 1) mod length (rb_elements r) = rb_head r"

definition grow_size :: "nat \<Rightarrow> nat" where
  "grow_size currentSize =
     (if currentSize < RINGBUFFER_MIN then RINGBUFFER_MIN
      else if currentSize < RINGBUFFER_EXP then currentSize * 2
      else currentSize + (currentSize + 9) div 10)"

definition ring_grow :: "'a \<Rightarrow> 'a RingBuffer \<Rightarrow> 'a RingBuffer" where
  "ring_grow zero r =
     (let currentLength = ring_Len r;
          newSize = grow_size (length (rb_elements r));
          contents =
            (if rb_head r < rb_tail r
             then take (rb_tail r - rb_head r) (drop (rb_head r) (rb_elements r))
             else drop (rb_head r) (rb_elements r) @ take (rb_tail r) (rb_elements r))
      in \<lparr>rb_head = 0, rb_tail = currentLength,
          rb_elements = contents @ replicate (newSize - length contents) zero\<rparr>)"

definition ring_Push :: "'a \<Rightarrow> 'a RingBuffer \<Rightarrow> 'a \<Rightarrow> 'a RingBuffer" where
  "ring_Push zero r v =
     (let r = (if ring_IsFull r then ring_grow zero r else r)
      in r\<lparr>rb_elements := (rb_elements r)[rb_tail r := v],
           rb_tail := (rb_tail r + 1) mod length (rb_elements r)\<rparr>)"

definition ring_Pop :: "'a \<Rightarrow> 'a RingBuffer \<Rightarrow> 'a option \<times> 'a RingBuffer" where
  "ring_Pop zero r =
     (if ring_Len r = 0 then (None, r)
      else (Some (rb_elements r ! rb_head r),
            r\<lparr>rb_elements := (rb_elements r)[rb_head r := zero],
              rb_head := (rb_head r + 1) mod length (rb_elements r)\<rparr>))"

definition ring_Peek :: "'a RingBuffer \<Rightarrow> 'a option" where
  "ring_Peek r = (if ring_Len r = 0 then None else Some (rb_elements r ! rb_head r))"

text \<open>\<^verbatim>\<open>clear(s[a:b])\<close>, and the loops that store the zero value slot by slot.\<close>

definition clear_range :: "'a \<Rightarrow> nat \<Rightarrow> nat \<Rightarrow> 'a list \<Rightarrow> 'a list" where
  "clear_range zero a b xs = fold (\<lambda>i ys. ys[i := zero]) [a..<b] xs"

definition ring_Clear :: "'a \<Rightarrow> 'a RingBuffer \<Rightarrow> 'a RingBuffer" where
  "ring_Clear zero r =
     (let es = rb_elements r;
          es = (if rb_head r \<le> rb_tail r then clear_range zero (rb_head r) (rb_tail r) es
                else clear_range zero 0 (rb_tail r) (clear_range zero (rb_head r) (length es) es))
      in r\<lparr>rb_elements := es, rb_head := 0, rb_tail := 0\<rparr>)"

definition ring_Discard :: "'a \<Rightarrow> 'a RingBuffer \<Rightarrow> int \<Rightarrow> nat \<times> 'a RingBuffer" where
  "ring_Discard zero r n =
     (if n \<le> 0 then (0, r)
      else let currentLen = ring_Len r;
               n = min (nat n) currentLen
        in if n = currentLen then (n, ring_Clear zero r)
           else let es = rb_elements r; cap = length es; end = rb_head r + n
             in if end < cap
                then (n, r\<lparr>rb_elements := clear_range zero (rb_head r) end es, rb_head := end\<rparr>)
                else (n, r\<lparr>rb_elements :=
                            clear_range zero 0 (end - cap) (clear_range zero (rb_head r) cap es),
                           rb_head := end - cap\<rparr>))"

definition ring_slot :: "'a RingBuffer \<Rightarrow> nat \<Rightarrow> nat" where
  "ring_slot r i =
     (let j = rb_head r + i
      in if j \<ge> length (rb_elements r) then j - length (rb_elements r) else j)"

definition ring_At :: "'a RingBuffer \<Rightarrow> nat \<Rightarrow> 'a option" where
  "ring_At r i =
     (if ring_slot r i < length (rb_elements r) then Some (rb_elements r ! ring_slot r i) else None)"

text \<open>A store through the pointer \<^verbatim>\<open>At(i)\<close> returned.\<close>

definition ring_store :: "'a RingBuffer \<Rightarrow> nat \<Rightarrow> 'a \<Rightarrow> 'a RingBuffer" where
  "ring_store r i v = r\<lparr>rb_elements := (rb_elements r)[ring_slot r i := v]\<rparr>"

text \<open>
  Visiting slots in a given order: the body gets the loop state and the element, and
  returns the new state, the element's new value and whether to go on.
\<close>

type_synonym ('s, 'a) body = "'s \<Rightarrow> 'a \<Rightarrow> ('s \<times> 'a \<times> bool) option"

fun iter_slots :: "('s, 'a) body \<Rightarrow> nat list \<Rightarrow> 's \<Rightarrow> 'a list \<Rightarrow> ('s \<times> 'a list) option" where
  "iter_slots f [] s xs = Some (s, xs)"
| "iter_slots f (i # js) s xs =
     (if i < length xs
      then case f s (xs ! i) of
             None \<Rightarrow> None
           | Some (s', x', go_on) \<Rightarrow>
               if go_on then iter_slots f js s' (xs[i := x']) else Some (s', xs[i := x'])
      else None)"

definition run_slots ::
  "('s, 'a) body \<Rightarrow> nat list \<Rightarrow> 's \<Rightarrow> 'a RingBuffer \<Rightarrow> ('s \<times> 'a RingBuffer) option" where
  "run_slots f js s r =
     map_option (\<lambda>(s', es). (s', r\<lparr>rb_elements := es\<rparr>)) (iter_slots f js s (rb_elements r))"

definition ring_ForEach ::
  "('s, 'a) body \<Rightarrow> 's \<Rightarrow> 'a RingBuffer \<Rightarrow> ('s \<times> 'a RingBuffer) option" where
  "ring_ForEach f s r =
     (if ring_Len r = 0 then Some (s, r)
      else if rb_head r < rb_tail r then run_slots f [rb_head r..<rb_tail r] s r
      else run_slots f ([rb_head r..<length (rb_elements r)] @ [0..<rb_tail r]) s r)"

definition ring_ForEachReverse ::
  "('s, 'a) body \<Rightarrow> 's \<Rightarrow> 'a RingBuffer \<Rightarrow> ('s \<times> 'a RingBuffer) option" where
  "ring_ForEachReverse f s r =
     (if ring_Len r = 0 then Some (s, r)
      else if rb_head r < rb_tail r then run_slots f (rev [rb_head r..<rb_tail r]) s r
      else run_slots f (rev [0..<rb_tail r] @ rev [rb_head r..<length (rb_elements r)]) s r)"

text \<open>
  The loop \<^verbatim>\<open>for ri := 0; ri < r.Len(); ri++ { seg := r.At(ri); ... }\<close> of \<^verbatim>\<open>kcp.go\<close>. Its
  bodies write through the pointer and never push or pop, so \<^verbatim>\<open>Len\<close> and the slots of the
  indices stay those of the start.
\<close>

definition ring_scan ::
  "('s, 'a) body \<Rightarrow> 's \<Rightarrow> 'a RingBuffer \<Rightarrow> ('s \<times> 'a RingBuffer) option" where
  "ring_scan f s r = run_slots f (map (ring_slot r) [0..<ring_Len r]) s r"

section \<open>Contents and invariant\<close>

definition ring_wf :: "'a RingBuffer \<Rightarrow> bool" where
  "ring_wf r \<longleftrightarrow>
     RINGBUFFER_MIN \<le> length (rb_elements r) \<and>
     rb_head r < length (rb_elements r) \<and> rb_tail r < length (rb_elements r)"

definition ring_slots :: "'a RingBuffer \<Rightarrow> nat list" where
  "ring_slots r =
     (if rb_head r \<le> rb_tail r then [rb_head r..<rb_tail r]
      else [rb_head r..<length (rb_elements r)] @ [0..<rb_tail r])"

definition ring_list :: "'a RingBuffer \<Rightarrow> 'a list" where
  "ring_list r = map ((!) (rb_elements r)) (ring_slots r)"

text \<open>The visit of a plain list with the same kind of body.\<close>

fun iter_list :: "('s, 'a) body \<Rightarrow> 's \<Rightarrow> 'a list \<Rightarrow> ('s \<times> 'a list) option" where
  "iter_list f s [] = Some (s, [])"
| "iter_list f s (x # xs) =
     (case f s x of
        None \<Rightarrow> None
      | Some (s', x', go_on) \<Rightarrow>
          if go_on then map_option (\<lambda>(s'', ys). (s'', x' # ys)) (iter_list f s' xs)
          else Some (s', x' # xs))"

lemmas ring_defs = ring_wf_def ring_Len_def ring_slots_def ring_list_def RINGBUFFER_MIN_def

lemma ring_list_cases:
  "ring_wf r \<Longrightarrow> ring_list r =
     (if rb_head r \<le> rb_tail r
      then take (rb_tail r - rb_head r) (drop (rb_head r) (rb_elements r))
      else drop (rb_head r) (rb_elements r) @ take (rb_tail r) (rb_elements r))"
  by (rule nth_equalityI) (auto simp: ring_defs nth_append)

lemma length_ring_list: "length (ring_list r) = ring_Len r"
  by (simp add: ring_defs)

lemma length_ring_slots: "length (ring_slots r) = ring_Len r"
  by (simp add: ring_defs)

lemma distinct_ring_slots: "ring_wf r \<Longrightarrow> distinct (ring_slots r)"
  by (auto simp: ring_defs)

lemma ring_slots_bound: "ring_wf r \<Longrightarrow> i \<in> set (ring_slots r) \<Longrightarrow> i < length (rb_elements r)"
  by (auto simp: ring_defs split: if_splits)

lemma ring_slot_nth: "ring_wf r \<Longrightarrow> i < ring_Len r \<Longrightarrow> ring_slot r i = ring_slots r ! i"
  by (auto simp: ring_defs ring_slot_def Let_def nth_append)

lemma map_ring_slot: "ring_wf r \<Longrightarrow> map (ring_slot r) [0..<ring_Len r] = ring_slots r"
  by (rule nth_equalityI) (simp_all add: length_ring_slots ring_slot_nth)

lemma ring_At_nth: "ring_wf r \<Longrightarrow> i < ring_Len r \<Longrightarrow> ring_At r i = Some (ring_list r ! i)"
  by (simp add: ring_At_def ring_slot_nth ring_slots_bound length_ring_slots ring_list_def)

section \<open>The operations act on the contents as list operations\<close>

lemma NewRingBuffer_wf [simp]: "ring_wf (NewRingBuffer zero n)"
  by (auto simp: NewRingBuffer_def Let_def ring_defs)

lemma NewRingBuffer_list [simp]: "ring_list (NewRingBuffer zero n) = []"
  by (simp add: NewRingBuffer_def Let_def ring_defs)

lemma ring_IsEmpty_iff: "ring_wf r \<Longrightarrow> ring_IsEmpty r \<longleftrightarrow> ring_list r = []"
  by (auto simp: ring_IsEmpty_def ring_defs)

lemma ring_Len_0_iff: "ring_Len r = 0 \<longleftrightarrow> ring_list r = []"
  by (simp flip: length_ring_list)

lemma ring_Len_bound: "ring_wf r \<Longrightarrow> ring_Len r \<le> ring_MaxLen r"
  by (auto simp: ring_MaxLen_def ring_defs)

lemma ring_IsFull_iff: "ring_wf r \<Longrightarrow> ring_IsFull r \<longleftrightarrow> ring_Len r = ring_MaxLen r"
  by (auto simp: ring_IsFull_def ring_MaxLen_def ring_defs mod_Suc split: if_splits)

lemma grow_size_less: "n < grow_size n"
  by (auto simp: grow_size_def RINGBUFFER_MIN_def RINGBUFFER_EXP_def)

lemma grow_contents:
  assumes "ring_wf r" "ring_IsFull r"
  shows "ring_grow zero r = \<lparr>rb_head = 0, rb_tail = ring_Len r,
    rb_elements = ring_list r @ replicate (grow_size (length (rb_elements r)) - ring_Len r) zero\<rparr>"
proof -
  from assms have "rb_head r \<noteq> rb_tail r"
    by (auto simp: ring_IsFull_iff ring_MaxLen_def ring_defs)
  with assms show ?thesis
    by (auto simp: ring_grow_def Let_def ring_list_cases simp flip: length_ring_list)
qed

lemma ring_grow_wf: "ring_wf r \<Longrightarrow> ring_IsFull r \<Longrightarrow> ring_wf (ring_grow zero r)"
  using grow_size_less [of "length (rb_elements r)"] ring_Len_bound [of r]
  by (auto simp: grow_contents ring_wf_def length_ring_list ring_MaxLen_def)

lemma ring_grow_list: "ring_wf r \<Longrightarrow> ring_IsFull r \<Longrightarrow> ring_list (ring_grow zero r) = ring_list r"
  using ring_grow_wf [of r zero]
  by (simp add: ring_list_cases [of "ring_grow zero r"]) (simp add: grow_contents length_ring_list)

lemma ring_grow_not_full: "ring_wf r \<Longrightarrow> ring_IsFull r \<Longrightarrow> \<not> ring_IsFull (ring_grow zero r)"
  using grow_size_less [of "length (rb_elements r)"] ring_Len_bound [of r] ring_grow_wf [of r zero]
    ring_grow_list [of r zero]
  by (simp add: ring_IsFull_iff flip: length_ring_list)
     (auto simp: grow_contents ring_IsFull_iff ring_MaxLen_def length_ring_list ring_wf_def)

lemma store_wf:
  "ring_wf r \<Longrightarrow> ring_wf (r\<lparr>rb_elements := (rb_elements r)[rb_tail r := v],
     rb_tail := Suc (rb_tail r) mod length (rb_elements r)\<rparr>)"
  by (auto simp: ring_wf_def RINGBUFFER_MIN_def intro: mod_less_divisor)

lemma store_list:
  assumes "ring_wf r" "\<not> ring_IsFull r"
  shows "ring_list (r\<lparr>rb_elements := (rb_elements r)[rb_tail r := v],
     rb_tail := Suc (rb_tail r) mod length (rb_elements r)\<rparr>) = ring_list r @ [v]"
  using assms store_wf [OF assms(1), of v]
  by (simp add: ring_list_cases)
     (auto simp: ring_wf_def ring_IsFull_def mod_Suc take_Suc_conv_app_nth drop_update_swap
       Suc_diff_le nth_list_update drop_update_cancel take_update_cancel update_last_slot
       split: if_splits)

lemma ring_Push_wf: "ring_wf r \<Longrightarrow> ring_wf (ring_Push zero r v)"
  using ring_grow_wf [of r zero] by (auto simp: ring_Push_def Let_def dest: store_wf [of _ v])

lemma ring_Push_list: "ring_wf r \<Longrightarrow> ring_list (ring_Push zero r v) = ring_list r @ [v]"
  using ring_grow_wf [of r zero] ring_grow_list [of r zero] ring_grow_not_full [of r zero]
  by (auto simp: ring_Push_def Let_def store_list)

lemma ring_Peek_list: "ring_wf r \<Longrightarrow> ring_Peek r = (case ring_list r of [] \<Rightarrow> None | x # _ \<Rightarrow> Some x)"
  by (cases "ring_list r")
     (auto simp: ring_Peek_def ring_Len_0_iff, auto simp: ring_defs upt_conv_Cons upt_eq_Cons_conv split: if_splits)

lemma ring_Pop_None: "ring_list r = [] \<Longrightarrow> ring_Pop zero r = (None, r)"
  by (simp add: ring_Pop_def ring_Len_0_iff)

lemma ring_Pop_wf: "ring_wf r \<Longrightarrow> ring_wf (snd (ring_Pop zero r))"
  by (auto simp: ring_Pop_def ring_wf_def RINGBUFFER_MIN_def intro: mod_less_divisor)

lemma ring_Pop_list: "ring_wf r \<Longrightarrow> ring_list (snd (ring_Pop zero r)) = tl (ring_list r)"
  using ring_Pop_wf [of r zero]
  by (simp add: ring_list_cases)
     (auto simp: ring_Pop_def ring_wf_def ring_Len_def mod_Suc tl_take drop_update_cancel tl_drop
       simp flip: drop_Suc split: if_splits)

lemma ring_Pop_hd: "ring_wf r \<Longrightarrow> ring_list r \<noteq> [] \<Longrightarrow> fst (ring_Pop zero r) = Some (hd (ring_list r))"
  using ring_Peek_list [of r]
  by (auto simp: ring_Pop_def ring_Peek_def ring_Len_0_iff split: list.splits)

lemma clear_range_Suc:
  "clear_range zero a (Suc b) xs = (if a \<le> b then (clear_range zero a b xs)[b := zero] else xs)"
  by (simp add: clear_range_def)

lemma clear_range_0 [simp]: "clear_range zero a 0 xs = xs"
  by (simp add: clear_range_def)

lemma length_clear_range [simp]: "length (clear_range zero a b xs) = length xs"
  by (induction b) (auto simp: clear_range_Suc)

lemma clear_range_Nil [simp]: "clear_range zero a b xs = [] \<longleftrightarrow> xs = []"
  using length_clear_range [of zero a b xs] by (metis length_0_conv)

lemma clear_range_nth:
  "i < length xs \<Longrightarrow> clear_range zero a b xs ! i = (if a \<le> i \<and> i < b then zero else xs ! i)"
  by (induction b) (auto simp: clear_range_Suc nth_list_update less_Suc_eq)

lemma drop_clear_range: "b \<le> c \<Longrightarrow> drop c (clear_range zero a b xs) = drop c xs"
  by (rule nth_equalityI) (auto simp: clear_range_nth)

lemma take_clear_range: "c \<le> a \<Longrightarrow> take c (clear_range zero a b xs) = take c xs"
  by (rule nth_equalityI) (auto simp: clear_range_nth)

lemma take_drop_clear_range:
  "j + k \<le> a \<Longrightarrow> take k (drop j (clear_range zero a b xs)) = take k (drop j xs)"
  by (simp add: take_drop take_clear_range)

lemma ring_Clear_wf: "ring_wf r \<Longrightarrow> ring_wf (ring_Clear zero r)"
  by (auto simp: ring_Clear_def Let_def ring_wf_def)

lemma ring_Clear_list [simp]: "ring_list (ring_Clear zero r) = []"
  by (simp add: ring_Clear_def Let_def ring_defs)

lemma ring_Discard_fst: "fst (ring_Discard zero r n) = min (nat n) (ring_Len r)"
  by (auto simp: ring_Discard_def Let_def)

lemma ring_Discard_wf: "ring_wf r \<Longrightarrow> ring_wf (snd (ring_Discard zero r n))"
  by (auto simp: ring_Discard_def Let_def ring_Clear_wf)
     (auto simp: ring_wf_def ring_Len_def split: if_splits)

lemma ring_Discard_part:
  assumes wf: "ring_wf r" and n: "0 < n" "nat n < ring_Len r"
  shows "ring_list (snd (ring_Discard zero r n)) = drop (nat n) (ring_list r)"
proof -
  let ?es = "rb_elements r" and ?e = "rb_head r + nat n"
  have wf': "ring_wf (snd (ring_Discard zero r n))" using wf by (rule ring_Discard_wf)
  have *: "snd (ring_Discard zero r n) =
      (if ?e < length ?es then r\<lparr>rb_elements := clear_range zero (rb_head r) ?e ?es, rb_head := ?e\<rparr>
       else r\<lparr>rb_elements := clear_range zero 0 (?e - length ?es)
                (clear_range zero (rb_head r) (length ?es) ?es), rb_head := ?e - length ?es\<rparr>)"
    using n by (simp add: ring_Discard_def Let_def min_def)
  show ?thesis
  proof (cases "?e < length ?es")
    case True
    with wf wf' n show ?thesis unfolding *
      by (cases "rb_head r \<le> rb_tail r")
         (auto simp: ring_list_cases ring_Len_def drop_clear_range take_clear_range drop_take add.commute)
  next
    case False
    with wf wf' n show ?thesis unfolding *
      by (cases "rb_head r \<le> rb_tail r")
         (auto simp: ring_list_cases ring_Len_def ring_wf_def drop_clear_range take_drop_clear_range
           drop_take add.commute)
  qed
qed

lemma ring_Discard_list:
  assumes "ring_wf r"
  shows "ring_list (snd (ring_Discard zero r n)) = drop (nat n) (ring_list r)"
proof (cases "0 < n \<and> nat n < ring_Len r")
  case True
  with assms show ?thesis by (simp add: ring_Discard_part)
next
  case False
  then show ?thesis
    by (auto simp: ring_Discard_def Let_def min_def simp flip: length_ring_list)
qed

lemma ring_store_wf: "ring_wf r \<Longrightarrow> ring_wf (ring_store r i v)"
  by (simp add: ring_store_def ring_wf_def)

lemma ring_store_list:
  assumes "ring_wf r" "i < ring_Len r"
  shows "ring_list (ring_store r i v) = (ring_list r)[i := v]"
proof (rule nth_equalityI)
  have slots: "ring_slots (ring_store r i v) = ring_slots r"
    by (simp add: ring_slots_def ring_store_def)
  then show "length (ring_list (ring_store r i v)) = length ((ring_list r)[i := v])"
    by (simp add: ring_list_def)
  fix j assume "j < length (ring_list (ring_store r i v))"
  then have j: "j < ring_Len r" using slots by (simp add: ring_list_def length_ring_slots)
  have "ring_slots r ! j = ring_slots r ! i \<longleftrightarrow> j = i"
    using distinct_ring_slots [OF assms(1)] j assms(2)
    by (simp add: nth_eq_iff_index_eq length_ring_slots)
  then show "ring_list (ring_store r i v) ! j = (ring_list r)[i := v] ! j"
    using assms j slots
    by (auto simp: ring_list_def ring_store_def ring_slot_nth nth_list_update length_ring_slots
        ring_slots_bound)
qed

section \<open>Loops over the contents\<close>

lemma iter_slots_length: "iter_slots f js s xs = Some (s', ys) \<Longrightarrow> length ys = length xs"
  by (induction f js s xs rule: iter_slots.induct) (auto split: if_splits option.splits)

lemma iter_slots_other:
  "iter_slots f js s xs = Some (s', ys) \<Longrightarrow> i \<notin> set js \<Longrightarrow> ys ! i = xs ! i"
  by (induction f js s xs rule: iter_slots.induct) (auto split: if_splits option.splits)

lemma iter_slots_list:
  "distinct js \<Longrightarrow> \<forall>j\<in>set js. j < length xs \<Longrightarrow>
     map_option (\<lambda>(s', ys). (s', map ((!) ys) js)) (iter_slots f js s xs) =
     iter_list f s (map ((!) xs) js)"
proof (induction js arbitrary: s xs)
  case (Cons j js)
  show ?case
  proof (cases "f s (xs ! j)")
    case (Some a)
    obtain s' x' c where a: "a = (s', x', c)" by (cases a)
    have same: "map ((!) (xs[j := x'])) js = map ((!) xs) js"
      using Cons.prems by (auto simp: nth_list_update)
    have IH: "map_option (\<lambda>(s', ys). (s', map ((!) ys) js)) (iter_slots f js s' (xs[j := x'])) =
        iter_list f s' (map ((!) xs) js)"
      using Cons.IH [of "xs[j := x']" s'] Cons.prems same by simp
    show ?thesis
    proof (cases "iter_slots f js s' (xs[j := x'])")
      case None
      with IH show ?thesis using Some a Cons.prems same by auto
    next
      case (Some b)
      then obtain s'' ys where b: "iter_slots f js s' (xs[j := x']) = Some (s'', ys)" by (cases b) auto
      then have "ys ! j = x'"
        using iter_slots_other [OF b, of j] Cons.prems by simp
      with IH [symmetric] b show ?thesis using \<open>f s (xs ! j) = Some a\<close> a Cons.prems same by auto
    qed
  qed (use Cons.prems in simp)
qed simp

lemma run_slots_keeps:
  "run_slots f js s r = Some (s', r') \<Longrightarrow>
     rb_head r' = rb_head r \<and> rb_tail r' = rb_tail r \<and> length (rb_elements r') = length (rb_elements r)"
  by (auto simp: run_slots_def dest: iter_slots_length)

lemma run_slots_wf: "run_slots f js s r = Some (s', r') \<Longrightarrow> ring_wf r \<Longrightarrow> ring_wf r'"
  by (auto simp: ring_wf_def dest!: run_slots_keeps)

lemma run_slots_map:
  assumes "distinct js" "\<forall>j\<in>set js. j < length (rb_elements r)"
  shows "map_option (\<lambda>(s', r'). (s', map ((!) (rb_elements r')) js)) (run_slots f js s r) =
    iter_list f s (map ((!) (rb_elements r)) js)"
  using iter_slots_list [OF assms, of f s]
  by (simp add: run_slots_def option.map_comp comp_def case_prod_unfold)

lemma run_slots_slots:
  assumes "run_slots f js s r = Some (s', r')"
  shows "ring_slots r' = ring_slots r"
  using run_slots_keeps [OF assms] by (simp add: ring_slots_def)

lemma run_slots_ring_list:
  assumes "ring_wf r"
  shows "map_option (\<lambda>(s', r'). (s', ring_list r')) (run_slots f (ring_slots r) s r) =
    iter_list f s (ring_list r)"
proof -
  have "map_option (\<lambda>(s', r'). (s', ring_list r')) (run_slots f (ring_slots r) s r) =
      map_option (\<lambda>(s', r'). (s', map ((!) (rb_elements r')) (ring_slots r)))
        (run_slots f (ring_slots r) s r)"
    by (rule option.map_cong0)
       (auto simp: ring_list_def run_slots_slots)
  then show ?thesis
    using run_slots_map [of "ring_slots r" r f s] assms
    by (simp add: distinct_ring_slots ring_slots_bound ring_list_def)
qed

lemma ring_scan_slots: "ring_wf r \<Longrightarrow> ring_scan f s r = run_slots f (ring_slots r) s r"
  by (simp add: ring_scan_def map_ring_slot)

lemma ring_scan_list:
  "ring_wf r \<Longrightarrow>
     map_option (\<lambda>(s', r'). (s', ring_list r')) (ring_scan f s r) = iter_list f s (ring_list r)"
  by (simp add: ring_scan_slots run_slots_ring_list)

lemma ring_scan_wf: "ring_scan f s r = Some (s', r') \<Longrightarrow> ring_wf r \<Longrightarrow> ring_wf r'"
  by (auto simp: ring_scan_def intro: run_slots_wf)

lemma ring_scan_obtain:
  assumes "ring_wf r" "iter_list f s (ring_list r) = Some (s', ys)"
  shows "\<exists>r'. ring_scan f s r = Some (s', r') \<and> ring_wf r' \<and> ring_list r' = ys"
  using ring_scan_list [OF assms(1), of f s] assms ring_scan_wf [of f s r]
  by (cases "ring_scan f s r") auto

text \<open>
  The rule most clients use: a body that never panics on elements satisfying \<open>Q\<close>, keeps \<open>P\<close> of
  its own state, and changes each element within \<open>R\<close>.
\<close>

lemma iter_list_inv:
  assumes "\<And>s x. P s \<Longrightarrow> Q x \<Longrightarrow> \<exists>s' x' g. f s x = Some (s', x', g) \<and> P s' \<and> R x x'"
    and "\<And>x. R x x" "P s" "\<forall>x\<in>set xs. Q x"
  shows "\<exists>s' ys. iter_list f s xs = Some (s', ys) \<and> P s' \<and> list_all2 R xs ys"
  using assms(3,4)
proof (induction xs arbitrary: s)
  case (Cons x xs)
  obtain s' x' g where f: "f s x = Some (s', x', g)" "P s'" "R x x'"
    using assms(1) [of s x] Cons.prems by auto
  obtain s'' ys where "iter_list f s' xs = Some (s'', ys)" "P s''" "list_all2 R xs ys"
    using Cons.IH [OF f(2)] Cons.prems by auto
  then show ?case using f assms(2) by (auto intro: list_all2_refl)
qed simp

lemma ring_scan_inv:
  assumes "ring_wf r" "\<And>s x. P s \<Longrightarrow> Q x \<Longrightarrow> \<exists>s' x' g. f s x = Some (s', x', g) \<and> P s' \<and> R x x'"
    and "\<And>x. R x x" "P s" "\<forall>x\<in>set (ring_list r). Q x"
  shows "\<exists>s' r'. ring_scan f s r = Some (s', r') \<and> ring_wf r' \<and> P s' \<and> list_all2 R (ring_list r) (ring_list r')"
  using iter_list_inv [of P Q f R s "ring_list r", OF assms(2-5)] ring_scan_obtain [OF assms(1)] by metis

lemma ring_ForEach_slots: "ring_wf r \<Longrightarrow> ring_ForEach f s r = run_slots f (ring_slots r) s r"
  by (auto simp: ring_ForEach_def ring_slots_def ring_Len_def ring_wf_def run_slots_def)

text \<open>\<^verbatim>\<open>ForEach\<close> visits the same slots in the same order as the index loop with \<^verbatim>\<open>At\<close>.\<close>

lemma ring_ForEach_scan: "ring_wf r \<Longrightarrow> ring_ForEach f s r = ring_scan f s r"
  by (simp add: ring_ForEach_slots ring_scan_slots)

lemma ring_ForEachReverse_slots:
  "ring_wf r \<Longrightarrow> ring_ForEachReverse f s r = run_slots f (rev (ring_slots r)) s r"
  by (auto simp: ring_ForEachReverse_def ring_slots_def ring_Len_def ring_wf_def run_slots_def)

lemma ring_ForEachReverse_list:
  assumes "ring_wf r"
  shows "map_option (\<lambda>(s', r'). (s', rev (ring_list r'))) (ring_ForEachReverse f s r) =
    iter_list f s (rev (ring_list r))"
proof -
  have "map_option (\<lambda>(s', r'). (s', rev (ring_list r'))) (run_slots f (rev (ring_slots r)) s r) =
      map_option (\<lambda>(s', r'). (s', map ((!) (rb_elements r')) (rev (ring_slots r))))
        (run_slots f (rev (ring_slots r)) s r)"
    by (rule option.map_cong0) (auto simp: ring_list_def rev_map run_slots_slots)
  then show ?thesis
    using run_slots_map [of "rev (ring_slots r)" r f s] assms
    by (simp add: ring_ForEachReverse_slots distinct_ring_slots ring_slots_bound ring_list_def rev_map)
qed

section \<open>The queue contract\<close>

text \<open>
  What \<^verbatim>\<open>kcp.go\<close> relies on: a first-in first-out queue whose contents are a list. The
  client lemmas say that elements leave in the order they entered, whatever was queued
  before, however often the backing store grew.
\<close>

locale fifo =
  fixes empty :: 'q
    and push :: "'q \<Rightarrow> 'a \<Rightarrow> 'q"
    and pop :: "'q \<Rightarrow> 'a option \<times> 'q"
    and contents :: "'q \<Rightarrow> 'a list"
    and invar :: "'q \<Rightarrow> bool"
  assumes invar_empty: "invar empty"
    and contents_empty: "contents empty = []"
    and invar_push: "invar q \<Longrightarrow> invar (push q x)"
    and contents_push: "invar q \<Longrightarrow> contents (push q x) = contents q @ [x]"
    and invar_pop: "invar q \<Longrightarrow> invar (snd (pop q))"
    and pop_empty: "invar q \<Longrightarrow> contents q = [] \<Longrightarrow> pop q = (None, q)"
    and pop_hd: "invar q \<Longrightarrow> contents q \<noteq> [] \<Longrightarrow> fst (pop q) = Some (hd (contents q))"
    and contents_pop: "invar q \<Longrightarrow> contents (snd (pop q)) = tl (contents q)"
begin

fun push_all :: "'q \<Rightarrow> 'a list \<Rightarrow> 'q" where
  "push_all q [] = q"
| "push_all q (x # xs) = push_all (push q x) xs"

fun pop_n :: "nat \<Rightarrow> 'q \<Rightarrow> 'a list \<times> 'q" where
  "pop_n 0 q = ([], q)"
| "pop_n (Suc n) q =
     (case pop q of (None, q') \<Rightarrow> ([], q')
      | (Some x, q') \<Rightarrow> (case pop_n n q' of (xs, q'') \<Rightarrow> (x # xs, q'')))"

lemma push_all_invar: "invar q \<Longrightarrow> invar (push_all q xs)"
  by (induction xs arbitrary: q) (auto simp: invar_push)

lemma push_all_contents: "invar q \<Longrightarrow> contents (push_all q xs) = contents q @ xs"
  by (induction xs arbitrary: q) (auto simp: invar_push contents_push)

lemma pop_cases:
  "invar q \<Longrightarrow> pop q = (case contents q of [] \<Rightarrow> (None, q) | x # _ \<Rightarrow> (Some x, snd (pop q)))"
  by (cases "contents q") (auto simp: pop_empty prod_eq_iff pop_hd)

lemma pop_n_contents:
  "invar q \<Longrightarrow> fst (pop_n n q) = take n (contents q) \<and>
     contents (snd (pop_n n q)) = drop n (contents q) \<and> invar (snd (pop_n n q))"
proof (induction n arbitrary: q)
  case (Suc n)
  show ?case
  proof (cases "contents q")
    case Nil
    with Suc.prems show ?thesis by (simp add: pop_empty)
  next
    case (Cons x xs)
    with Suc.prems have "pop q = (Some x, snd (pop q))" by (subst pop_cases) simp_all
    with Suc.IH [of "snd (pop q)"] Suc.prems Cons show ?thesis
      by (auto simp: invar_pop contents_pop split: prod.splits)
  qed
qed simp

lemma fifo_order: "invar q \<Longrightarrow> fst (pop_n (length (contents q) + n) (push_all q xs)) = contents q @ take n xs"
  by (simp add: pop_n_contents push_all_invar push_all_contents)

end

interpretation ring: fifo "NewRingBuffer zero n" "ring_Push zero" "ring_Pop zero" ring_list ring_wf
  for zero :: 'a and n :: int
  by unfold_locales
    (simp_all add: ring_Push_wf ring_Push_list ring_Pop_wf ring_Pop_None ring_Pop_hd ring_Pop_list)

section \<open>Properties\<close>

text \<open>The ring buffer is a first-in first-out queue: after any pushes, however often the backing
  array wrapped around or grew, elements are popped in the order they were pushed, behind
  those already there.\<close>

theorem ring_keeps_order:
  assumes "ring_wf r"
  shows "fst (ring.pop_n zero (length (ring_list r) + n) (ring.push_all zero r xs)) = ring_list r @ take n xs"
  by (rule ring.fifo_order [OF assms])

theorem ring_keeps_order_witness:
  "fst (ring.pop_n 0 5 (ring.push_all 0 (NewRingBuffer (0 :: nat) 2) [7, 8, 9])) = [7, 8, 9]"
proof -
  have "ring_wf (NewRingBuffer (0 :: nat) 2)" by simp
  from ring_keeps_order [OF this, of 0 5 "[7, 8, 9]"] show ?thesis by simp
qed

text \<open>The index loop over \<^verbatim>\<open>At\<close> and the \<^verbatim>\<open>ForEach\<close> iterator visit the same elements in the same
  order with the same effect: both act on the contents as a fold over the list, and a body that
  panics or stops early does so at the same element.\<close>

theorem ring_ForEach_is_fold:
  assumes "ring_wf r"
  shows "ring_ForEach f s r = ring_scan f s r \<and>
    map_option (\<lambda>(s', r'). (s', ring_list r')) (ring_ForEach f s r) = iter_list f s (ring_list r)"
  using ring_ForEach_scan [OF assms, of f s] ring_scan_list [OF assms, of f s] by simp

theorem ring_ForEach_is_fold_witness:
  "map_option fst (ring_ForEach (\<lambda>s x. Some (s + x, x, True)) 0 (ring_Push 0 (ring_Push 0 (NewRingBuffer (0 :: nat) 2) 4) 5)) = Some 9"
proof -
  let ?r = "ring_Push 0 (ring_Push 0 (NewRingBuffer (0 :: nat) 2) 4) 5"
  have w: "ring_wf ?r" "ring_list ?r = [4, 5]" by (simp_all add: ring_Push_wf ring_Push_list)
  from ring_ForEach_is_fold [OF w(1), of "\<lambda>s x. Some (s + x, x, True)" 0, THEN conjunct2]
  have "map_option (\<lambda>(s', r'). (s', ring_list r')) (ring_ForEach (\<lambda>s x. Some (s + x, x, True)) 0 ?r) = Some (9, [4, 5])"
    by (simp add: w(2))
  then show ?thesis by auto
qed

text \<open>\<^verbatim>\<open>Discard\<close> drops exactly the first elements, as many as it reports, in every layout of the
  ring.\<close>

theorem ring_Discard_drops:
  assumes "ring_wf r"
  shows "ring_wf (snd (ring_Discard zero r n)) \<and> fst (ring_Discard zero r n) = min (nat n) (ring_Len r) \<and>
    ring_list (snd (ring_Discard zero r n)) = drop (fst (ring_Discard zero r n)) (ring_list r)"
  using ring_Discard_wf [OF assms, of zero n] ring_Discard_fst [of zero r n] ring_Discard_list [OF assms, of zero n]
  by (auto simp: length_ring_list min_def)

theorem ring_Discard_drops_witness:
  "fst (ring_Discard 0 (ring_Push 0 (NewRingBuffer (0 :: nat) 2) 4) 3) = 1"
proof -
  have "ring_wf (ring_Push 0 (NewRingBuffer (0 :: nat) 2) 4)" by (simp add: ring_Push_wf)
  from ring_Discard_drops [OF this, of 0 3] show ?thesis by (simp add: ring_Push_list flip: length_ring_list)
qed

end
