(* ===== verification/Binary_Heap.thy ===== *)
theory Binary_Heap
  imports Prelude "HOL-Library.Multiset"
begin

text \<open>
  The array heap of Go's \<^verbatim>\<open>container/heap\<close> as \<^verbatim>\<open>kcp.go\<close> uses it: \<^verbatim>\<open>heap.Push\<close> and
  \<^verbatim>\<open>heap.Pop\<close> with their \<^verbatim>\<open>up\<close> and \<^verbatim>\<open>down\<close> loops, over a comparison \<open>lt\<close>. The comparison of
  sequence numbers wraps around, so it is an order only inside a half-range window. The
  locale \<open>heap_order\<close> says so: on elements that are \<open>ok\<close>, \<open>lt\<close> compares a key.
\<close>

section \<open>The heap operations\<close>

definition heap_swap :: "nat \<Rightarrow> nat \<Rightarrow> 'a list \<Rightarrow> 'a list" where
  "heap_swap i j h = h[i := h ! j, j := h ! i]"

function heap_up :: "('a \<Rightarrow> 'a \<Rightarrow> bool) \<Rightarrow> nat \<Rightarrow> 'a list \<Rightarrow> 'a list" where
  "heap_up lt j h =
     (let i = (j - 1) div 2
      in if i = j \<or> \<not> lt (h ! j) (h ! i) then h else heap_up lt i (heap_swap i j h))"
  by pat_completeness auto
termination
  by (relation "measure (\<lambda>(lt, j, h). j)") auto

function heap_down :: "('a \<Rightarrow> 'a \<Rightarrow> bool) \<Rightarrow> nat \<Rightarrow> nat \<Rightarrow> 'a list \<Rightarrow> 'a list" where
  "heap_down lt i n h =
     (let j1 = 2 * i + 1
      in if j1 \<ge> n then h
         else let j2 = j1 + 1;
                  j = (if j2 < n \<and> lt (h ! j2) (h ! j1) then j2 else j1)
              in if \<not> lt (h ! j) (h ! i) then h else heap_down lt j n (heap_swap i j h))"
  by pat_completeness auto
termination
  by (relation "measure (\<lambda>(lt, i, n, h). n - i)") (auto simp: Let_def)

declare heap_up.simps [simp del] heap_down.simps [simp del]

definition heap_Push :: "('a \<Rightarrow> 'a \<Rightarrow> bool) \<Rightarrow> 'a list \<Rightarrow> 'a \<Rightarrow> 'a list" where
  "heap_Push lt h x = heap_up lt (length h) (h @ [x])"

text \<open>On an empty heap \<^verbatim>\<open>Swap(0, -1)\<close> panics.\<close>

definition heap_Pop :: "('a \<Rightarrow> 'a \<Rightarrow> bool) \<Rightarrow> 'a list \<Rightarrow> ('a \<times> 'a list) option" where
  "heap_Pop lt h =
     (if h = [] then None
      else let n = length h - 1;
               h' = heap_down lt 0 n (heap_swap 0 n h)
           in Some (last h', butlast h'))"

section \<open>Elements are kept\<close>

lemma length_heap_swap [simp]: "length (heap_swap i j h) = length h"
  by (simp add: heap_swap_def)

lemma heap_swap_nth:
  "i < length h \<Longrightarrow> j < length h \<Longrightarrow> k < length h \<Longrightarrow>
     heap_swap i j h ! k = (if k = j then h ! i else if k = i then h ! j else h ! k)"
  by (auto simp: heap_swap_def nth_list_update)

lemma mset_heap_swap: "i < length h \<Longrightarrow> j < length h \<Longrightarrow> mset (heap_swap i j h) = mset h"
  by (auto simp: heap_swap_def mset_swap)

lemma mset_heap_up: "j < length h \<Longrightarrow> mset (heap_up lt j h) = mset h"
proof (induction lt j h rule: heap_up.induct)
  case (1 lt j h)
  then show ?case
    by (subst heap_up.simps) (auto simp: Let_def mset_heap_swap)
qed

lemma length_heap_up [simp]: "j < length h \<Longrightarrow> length (heap_up lt j h) = length h"
  using mset_heap_up mset_eq_length by blast

lemma mset_heap_down: "i < n \<Longrightarrow> n \<le> length h \<Longrightarrow> mset (heap_down lt i n h) = mset h"
proof (induction lt i n h rule: heap_down.induct)
  case (1 lt i n h)
  then show ?case
    by (subst heap_down.simps) (auto simp: Let_def mset_heap_swap)
qed

lemma heap_down_outside:
  "n \<le> k \<Longrightarrow> k < length h \<Longrightarrow> i < n \<Longrightarrow> heap_down lt i n h ! k = h ! k"
proof (induction lt i n h rule: heap_down.induct)
  case (1 lt i n h)
  then show ?case
    by (subst heap_down.simps) (auto simp: Let_def heap_swap_nth)
qed

lemma length_heap_down [simp]: "length (heap_down lt i n h) = length h"
proof (induction lt i n h rule: heap_down.induct)
  case (1 lt i n h)
  then show ?case by (subst heap_down.simps) (auto simp: Let_def)
qed

section \<open>Heap order\<close>

abbreviation parent :: "nat \<Rightarrow> nat" where
  "parent i \<equiv> (i - Suc 0) div 2"

lemma parent_less: "0 < i \<Longrightarrow> parent i < i"
  by auto

locale heap_order =
  fixes lt :: "'a \<Rightarrow> 'a \<Rightarrow> bool"
    and key :: "'a \<Rightarrow> 'k::linorder"
    and ok :: "'a \<Rightarrow> bool"
  assumes less_key: "ok a \<Longrightarrow> ok b \<Longrightarrow> lt a b \<longleftrightarrow> key a < key b"
begin

definition is_heap :: "'a list \<Rightarrow> bool" where
  "is_heap h \<longleftrightarrow> (\<forall>i<length h. 0 < i \<longrightarrow> key (h ! parent i) \<le> key (h ! i))"

definition all_ok :: "'a list \<Rightarrow> bool" where
  "all_ok h \<longleftrightarrow> (\<forall>x\<in>set h. ok x)"

text \<open>The order may fail only between \<open>j\<close> and its parent (\<open>up\<close>) or its children (\<open>down\<close>).\<close>

definition heap_but_up :: "nat \<Rightarrow> 'a list \<Rightarrow> bool" where
  "heap_but_up j h \<longleftrightarrow> (\<forall>i<length h. 0 < i \<longrightarrow>
     (i \<noteq> j \<longrightarrow> key (h ! parent i) \<le> key (h ! i)) \<and>
     (parent i = j \<longrightarrow> 0 < j \<longrightarrow> key (h ! parent j) \<le> key (h ! i)))"

definition heap_but_down :: "nat \<Rightarrow> nat \<Rightarrow> 'a list \<Rightarrow> bool" where
  "heap_but_down j n h \<longleftrightarrow> (\<forall>i<n. 0 < i \<longrightarrow>
     (parent i \<noteq> j \<longrightarrow> key (h ! parent i) \<le> key (h ! i)) \<and>
     (parent i = j \<longrightarrow> 0 < j \<longrightarrow> key (h ! parent j) \<le> key (h ! i)))"

lemma less_nth:
  "all_ok h \<Longrightarrow> i < length h \<Longrightarrow> j < length h \<Longrightarrow> lt (h ! i) (h ! j) \<longleftrightarrow> key (h ! i) < key (h ! j)"
  by (simp add: all_ok_def less_key)

lemma all_ok_swap: "all_ok h \<Longrightarrow> i < length h \<Longrightarrow> j < length h \<Longrightarrow> all_ok (heap_swap i j h)"
  using mset_heap_swap [of i h j] unfolding all_ok_def by (metis set_mset_mset)

lemma but_up_step:
  assumes but: "heap_but_up j h" and j: "0 < j" "j < length h"
    and lt: "key (h ! j) < key (h ! parent j)"
  shows "heap_but_up (parent j) (heap_swap (parent j) j h)"
  unfolding heap_but_up_def
proof (intro allI impI conjI)
  let ?p = "parent j" and ?h = "heap_swap (parent j) j h"
  have p: "?p < j" using j by auto
  have le: "key (h ! parent i) \<le> key (h ! i)" if "i < length h" "0 < i" "i \<noteq> j" for i
    using but that by (simp add: heap_but_up_def)
  have child: "key (h ! ?p) \<le> key (h ! i)" if "i < length h" "0 < i" "parent i = j" for i
    using but that j by (simp add: heap_but_up_def)
  note nth = heap_swap_nth [of ?p h j]
  fix i assume i: "i < length ?h" "0 < i"
  then have pi: "parent i < i" by auto
  {
    assume "i \<noteq> ?p"
    show "key (?h ! parent i) \<le> key (?h ! i)"
    proof (cases "i = j")
      case True
      then show ?thesis using i j p lt by (simp add: nth)
    next
      case False
      then show ?thesis
        using i j p pi lt le [of i] child [of i] \<open>i \<noteq> ?p\<close> by (auto simp: nth)
    qed
  next
    assume pip: "parent i = ?p" and "0 < ?p"
    then have pp: "parent ?p < ?p" by (intro parent_less)
    have top: "key (h ! parent ?p) \<le> key (h ! ?p)" using le [of ?p] p j \<open>0 < ?p\<close> by simp
    show "key (?h ! parent ?p) \<le> key (?h ! i)"
    proof (cases "i = j")
      case True
      then show ?thesis using pp p j top by (simp add: nth)
    next
      case False
      then show ?thesis using pp p j top le [of i] pip pi i by (auto simp: nth)
    qed
  }
qed

lemma is_heap_up:
  "all_ok h \<Longrightarrow> j < length h \<Longrightarrow> heap_but_up j h \<Longrightarrow> is_heap (heap_up lt j h)"
proof (induction j arbitrary: h rule: less_induct)
  case (less j)
  let ?p = "parent j"
  show ?case
  proof (cases "?p = j \<or> \<not> key (h ! j) < key (h ! ?p)")
    case True
    then have "is_heap h"
      using less.prems by (auto simp: is_heap_def heap_but_up_def not_less)
    then show ?thesis using True less.prems by (subst heap_up.simps) (auto simp: Let_def less_nth)
  next
    case False
    then have j: "0 < j" by auto
    then have p: "?p < j" by auto
    have "is_heap (heap_up lt ?p (heap_swap ?p j h))"
      using less.prems p j False by (intro less.IH all_ok_swap but_up_step) auto
    then show ?thesis using False less.prems p by (subst heap_up.simps) (auto simp: Let_def less_nth)
  qed
qed

lemma but_down_step:
  assumes but: "heap_but_down i n h" and n: "n \<le> length h" and j: "j < n" "0 < j" "parent j = i"
    and lt: "key (h ! j) < key (h ! i)"
    and least: "\<And>k. k < n \<Longrightarrow> 0 < k \<Longrightarrow> parent k = i \<Longrightarrow> key (h ! j) \<le> key (h ! k)"
  shows "heap_but_down j n (heap_swap i j h)"
  unfolding heap_but_down_def
proof (intro allI impI conjI)
  let ?h = "heap_swap i j h"
  have ij: "i < j" using j by auto
  have le: "key (h ! parent k) \<le> key (h ! k)" if "k < n" "0 < k" "parent k \<noteq> i" for k
    using but that by (simp add: heap_but_down_def)
  have child: "key (h ! parent i) \<le> key (h ! k)" if "k < n" "0 < k" "parent k = i" "0 < i" for k
    using but that by (simp add: heap_but_down_def)
  note nth = heap_swap_nth [of i h j]
  fix k assume k: "k < n" "0 < k"
  then have pk: "parent k < k" by auto
  {
    assume pkj: "parent k \<noteq> j"
    show "key (?h ! parent k) \<le> key (?h ! k)"
    proof (cases "parent k = i")
      case True
      then show ?thesis using k j n ij lt least [of k] pk by (auto simp: nth)
    next
      case False
      then show ?thesis using k j n ij pkj pk le [of k] child [of j] by (auto simp: nth)
    qed
  next
    assume "parent k = j" "0 < j"
    then show "key (?h ! parent j) \<le> key (?h ! k)"
      using k j n ij pk le [of k] by (auto simp: nth)
  }
qed

lemma least_child:
  assumes "all_ok h" "n \<le> length h" "2 * i + 1 < n"
    and "j = (if 2 * i + 2 < n \<and> lt (h ! (2 * i + 2)) (h ! (2 * i + 1)) then 2 * i + 2 else 2 * i + 1)"
    and "k < n" "0 < k" "parent k = i"
  shows "key (h ! j) \<le> key (h ! k)"
proof -
  have "k = 2 * i + 1 \<or> k = 2 * i + 2" using assms(6,7) by auto
  then show ?thesis using assms(1-5) by (auto simp: less_nth)
qed

lemma is_heap_down:
  "all_ok h \<Longrightarrow> n \<le> length h \<Longrightarrow> i < n \<Longrightarrow> heap_but_down i n h \<Longrightarrow> heap_but_down n n (heap_down lt i n h)"
proof (induction "n - i" arbitrary: i h rule: less_induct)
  case less
  define j where "j = (if 2 * i + 2 < n \<and> lt (h ! (2 * i + 2)) (h ! (2 * i + 1))
    then 2 * i + 2 else 2 * i + 1)"
  show ?case
  proof (cases "2 * i + 1 < n \<and> lt (h ! j) (h ! i)")
    case False
    have "key (h ! i) \<le> key (h ! k)" if k: "k < n" "0 < k" "parent k = i" for k
    proof -
      have in_n: "2 * i + 1 < n" using k by auto
      then have "j < n" by (simp add: j_def)
      then have "key (h ! i) \<le> key (h ! j)"
        using False in_n less.prems by (simp add: less_nth not_less)
      also have "\<dots> \<le> key (h ! k)"
        using less.prems in_n j_def k by (intro least_child)
      finally show ?thesis .
    qed
    then have "heap_but_down n n h"
      using less.prems(4) by (force simp: heap_but_down_def)
    then show ?thesis using False by (subst heap_down.simps) (auto simp: Let_def j_def)
  next
    case True
    then have j: "j < n" "0 < j" "parent j = i" "i < j" by (auto simp: j_def)
    have "heap_but_down n n (heap_down lt j n (heap_swap i j h))"
    proof (rule less.hyps)
      show "heap_but_down j n (heap_swap i j h)"
        using less.prems j True by (intro but_down_step least_child) (auto simp: less_nth j_def)
    qed (use less.prems j in \<open>auto intro!: all_ok_swap\<close>)
    then show ?thesis using True by (subst heap_down.simps) (auto simp: Let_def j_def)
  qed
qed

lemma heap_top_least: "is_heap h \<Longrightarrow> i < length h \<Longrightarrow> key (h ! 0) \<le> key (h ! i)"
proof (induction i rule: less_induct)
  case (less i)
  show ?case
  proof (cases "i = 0")
    case False
    then have p: "parent i < i" by (simp add: parent_less)
    have "key (h ! 0) \<le> key (h ! parent i)" using less p by simp
    also have "\<dots> \<le> key (h ! i)" using less.prems False by (simp add: is_heap_def)
    finally show ?thesis .
  qed simp
qed

lemma is_heap_Nil [simp]: "is_heap []"
  by (simp add: is_heap_def)

lemma is_heap_Push:
  assumes "is_heap h" "all_ok h" "ok x"
  shows "is_heap (heap_Push lt h x)"
proof -
  have "heap_but_up (length h) (h @ [x])"
    unfolding heap_but_up_def
  proof (intro allI impI conjI)
    fix i assume i: "i < length (h @ [x])" "0 < i"
    then have p: "parent i < i" by (simp add: parent_less)
    { assume "i \<noteq> length h"
      then show "key ((h @ [x]) ! parent i) \<le> key ((h @ [x]) ! i)"
        using assms(1) i p by (simp add: is_heap_def nth_append) }
    { assume "parent i = length h"
      then show "key ((h @ [x]) ! parent (length h)) \<le> key ((h @ [x]) ! i)" using i p by simp }
  qed
  moreover have "all_ok (h @ [x])" using assms(2,3) by (simp add: all_ok_def)
  ultimately show ?thesis by (simp add: heap_Push_def is_heap_up)
qed

lemma is_heap_Pop:
  assumes "is_heap h" "all_ok h" "heap_Pop lt h = Some (x, h')"
  shows "is_heap h'" and "x = h ! 0"
proof -
  let ?n = "length h - 1" and ?s = "heap_swap 0 (length h - 1) h"
  from assms(3) have ne: "h \<noteq> []" and x: "x = last (heap_down lt 0 ?n ?s)"
    and h': "h' = butlast (heap_down lt 0 ?n ?s)"
    by (auto simp: heap_Pop_def Let_def split: if_splits)
  have "h' = take ?n (heap_down lt 0 ?n ?s)" by (simp add: h' butlast_conv_take)
  have top: "heap_down lt 0 ?n ?s ! ?n = h ! 0"
  proof (cases "?n = 0")
    case True
    then show ?thesis using ne by (subst heap_down.simps) (simp add: heap_swap_nth)
  next
    case False
    then show ?thesis using ne by (simp add: heap_down_outside heap_swap_nth)
  qed
  show "x = h ! 0" using ne top by (simp add: x last_conv_nth flip: length_greater_0_conv)
  show "is_heap h'"
  proof (cases "?n = 0")
    case True
    then have "h' = []" using h' by (simp add: butlast_conv_take)
    then show ?thesis by simp
  next
    case False
    have "heap_but_down 0 ?n ?s"
      unfolding heap_but_down_def
    proof (intro allI impI conjI)
      fix i assume i: "i < ?n" "0 < i"
      { assume "parent i \<noteq> 0"
        then show "key (?s ! parent i) \<le> key (?s ! i)"
          using i ne assms(1) parent_less [of i] by (simp add: heap_swap_nth is_heap_def) }
    qed simp
    then have "heap_but_down ?n ?n (heap_down lt 0 ?n ?s)"
      using False assms(2) ne by (intro is_heap_down all_ok_swap) auto
    then show ?thesis
      unfolding is_heap_def
    proof (intro allI impI)
      fix i assume but: "heap_but_down ?n ?n (heap_down lt 0 ?n ?s)" and i: "i < length h'" "0 < i"
      then have "i < ?n" "parent i < i" by (simp_all add: h' parent_less)
      then show "key (h' ! parent i) \<le> key (h' ! i)"
        using but i by (simp add: heap_but_down_def h' nth_butlast)
    qed
  qed
qed

end

lemma mset_heap_Push: "mset (heap_Push lt h x) = add_mset x (mset h)"
  by (simp add: heap_Push_def mset_heap_up)

lemma heap_Pop_None [simp]: "heap_Pop lt h = None \<longleftrightarrow> h = []"
  by (simp add: heap_Pop_def Let_def)

lemma mset_heap_Pop:
  assumes "heap_Pop lt h = Some (x, h')"
  shows "mset h = add_mset x (mset h')"
proof -
  let ?d = "heap_down lt 0 (length h - 1) (heap_swap 0 (length h - 1) h)"
  from assms have ne: "h \<noteq> []" and d: "last ?d = x" "butlast ?d = h'"
    by (auto simp: heap_Pop_def Let_def split: if_splits)
  then have "?d \<noteq> []" by (simp flip: length_greater_0_conv)
  then have "?d = h' @ [x]" using d by (metis append_butlast_last_id)
  moreover have "mset ?d = mset h"
  proof (cases "length h - 1 = 0")
    case True
    then show ?thesis using ne by (subst heap_down.simps) (simp add: mset_heap_swap)
  next
    case False
    then show ?thesis using ne by (simp add: mset_heap_down mset_heap_swap)
  qed
  ultimately show ?thesis by simp
qed

end
