(* ===== verification/Segment.thy ===== *)
theory Segment
  imports Binary_Heap
begin

text \<open>
  The KCP segment of \<^verbatim>\<open>kcp.go\<close>: the struct, its 24-byte wire header (\<^verbatim>\<open>encode\<close>, and the
  parsing at the head of \<^verbatim>\<open>Input\<close>'s loop), and \<^verbatim>\<open>segmentHeap\<close>, the min-heap of
  out-of-order segments with its set of marks.

  The theory shows that parsing inverts encoding in both directions, and that the heap,
  whose comparison wraps around, always pops a segment with the sequence number nearest to
  the next expected one and never holds two segments with one sequence number.
\<close>

section \<open>Constants\<close>

definition IKCP_RTO_NDL :: u32 where "IKCP_RTO_NDL = 30"
definition IKCP_RTO_MIN :: u32 where "IKCP_RTO_MIN = 100"
definition IKCP_RTO_DEF :: u32 where "IKCP_RTO_DEF = 200"
definition IKCP_RTO_MAX :: u32 where "IKCP_RTO_MAX = 60000"
definition IKCP_CMD_PUSH :: u8 where "IKCP_CMD_PUSH = 81"
definition IKCP_CMD_ACK :: u8 where "IKCP_CMD_ACK = 82"
definition IKCP_CMD_WASK :: u8 where "IKCP_CMD_WASK = 83"
definition IKCP_CMD_WINS :: u8 where "IKCP_CMD_WINS = 84"
definition IKCP_ASK_SEND :: u32 where "IKCP_ASK_SEND = 1"
definition IKCP_ASK_TELL :: u32 where "IKCP_ASK_TELL = 2"
definition IKCP_WND_SND :: nat where "IKCP_WND_SND = 32"
definition IKCP_WND_RCV :: nat where "IKCP_WND_RCV = 32"
definition IKCP_MTU_DEF :: u32 where "IKCP_MTU_DEF = 1400"
definition IKCP_INTERVAL :: u32 where "IKCP_INTERVAL = 100"
definition IKCP_OVERHEAD :: nat where "IKCP_OVERHEAD = 24"
definition IKCP_DEADLINK :: u32 where "IKCP_DEADLINK = 20"
definition IKCP_THRESH_INIT :: u32 where "IKCP_THRESH_INIT = 2"
definition IKCP_THRESH_MIN :: u32 where "IKCP_THRESH_MIN = 2"
definition IKCP_PROBE_INIT :: u32 where "IKCP_PROBE_INIT = 500"
definition IKCP_PROBE_LIMIT :: u32 where "IKCP_PROBE_LIMIT = 120000"
definition IKCP_SN_OFFSET :: nat where "IKCP_SN_OFFSET = 12"

lemmas kcp_consts =
  IKCP_RTO_NDL_def IKCP_RTO_MIN_def IKCP_RTO_DEF_def IKCP_RTO_MAX_def
  IKCP_CMD_PUSH_def IKCP_CMD_ACK_def IKCP_CMD_WASK_def IKCP_CMD_WINS_def
  IKCP_ASK_SEND_def IKCP_ASK_TELL_def IKCP_WND_SND_def IKCP_WND_RCV_def IKCP_MTU_DEF_def
  IKCP_INTERVAL_def IKCP_OVERHEAD_def IKCP_DEADLINK_def IKCP_THRESH_INIT_def
  IKCP_THRESH_MIN_def IKCP_PROBE_INIT_def IKCP_PROBE_LIMIT_def IKCP_SN_OFFSET_def

section \<open>Segments and their wire header\<close>

text \<open>\<open>seg_data = None\<close> is Go's nil slice: a segment whose buffer was recycled.\<close>

record segment =
  seg_conv :: u32
  seg_cmd :: u8
  seg_frg :: u8
  seg_wnd :: u16
  seg_ts :: u32
  seg_sn :: u32
  seg_una :: u32
  seg_rto :: u32
  seg_xmit :: u32
  seg_resendts :: u32
  seg_fastack :: u32
  seg_acked :: u32
  seg_data :: "byte list option"

record ackItem =
  ack_sn :: u32
  ack_ts :: u32

definition zero_segment :: segment where
  "zero_segment = \<lparr>seg_conv = 0, seg_cmd = 0, seg_frg = 0, seg_wnd = 0, seg_ts = 0, seg_sn = 0,
     seg_una = 0, seg_rto = 0, seg_xmit = 0, seg_resendts = 0, seg_fastack = 0, seg_acked = 0,
     seg_data = None\<rparr>"

definition seg_bytes :: "segment \<Rightarrow> byte list" where
  "seg_bytes s = (case seg_data s of None \<Rightarrow> [] | Some d \<Rightarrow> d)"

text \<open>\<^verbatim>\<open>encode\<close>: the bytes it writes. The counter \<^verbatim>\<open>OutSegs\<close> it increments is not followed.\<close>

definition segment_encode :: "segment \<Rightarrow> byte list" where
  "segment_encode s =
     PutUint32 (seg_conv s) @ [seg_cmd s] @ [seg_frg s] @ PutUint16 (seg_wnd s) @
     PutUint32 (seg_ts s) @ PutUint32 (seg_sn s) @ PutUint32 (seg_una s) @
     PutUint32 (of_nat (length (seg_bytes s)))"

text \<open>The header fields \<^verbatim>\<open>Input\<close> reads from the front of a datagram.\<close>

record header =
  h_conv :: u32
  h_cmd :: u8
  h_frg :: u8
  h_wnd :: u16
  h_ts :: u32
  h_sn :: u32
  h_una :: u32
  h_len :: u32

definition parse_header :: "byte list \<Rightarrow> header option" where
  "parse_header data =
     (if length data < IKCP_OVERHEAD then None
      else do {
        c \<leftarrow> Uint32 data;
        w \<leftarrow> Uint16 (drop 6 data);
        t \<leftarrow> Uint32 (drop 8 data);
        n \<leftarrow> Uint32 (drop 12 data);
        u \<leftarrow> Uint32 (drop 16 data);
        l \<leftarrow> Uint32 (drop 20 data);
        Some \<lparr>h_conv = c, h_cmd = data ! 4, h_frg = data ! 5, h_wnd = w, h_ts = t, h_sn = n,
              h_una = u, h_len = l\<rparr>})"

definition header_of :: "segment \<Rightarrow> header" where
  "header_of s = \<lparr>h_conv = seg_conv s, h_cmd = seg_cmd s, h_frg = seg_frg s, h_wnd = seg_wnd s,
     h_ts = seg_ts s, h_sn = seg_sn s, h_una = seg_una s, h_len = of_nat (length (seg_bytes s))\<rparr>"

section \<open>The heap of out-of-order segments\<close>

record segmentHeap =
  sh_segments :: "segment list"
  sh_marks :: "u32 set"

definition newSegmentHeap :: segmentHeap where
  "newSegmentHeap = \<lparr>sh_segments = [], sh_marks = {}\<rparr>"

definition segmentHeap_Len :: "segmentHeap \<Rightarrow> nat" where
  "segmentHeap_Len h = length (sh_segments h)"

definition segment_Less :: "segment \<Rightarrow> segment \<Rightarrow> bool" where
  "segment_Less a b \<longleftrightarrow> 0 < sint (itimediff (seg_sn b) (seg_sn a))"

definition segmentHeap_Push :: "segmentHeap \<Rightarrow> segment \<Rightarrow> segmentHeap" where
  "segmentHeap_Push h x =
     \<lparr>sh_segments = heap_Push segment_Less (sh_segments h) x,
      sh_marks = insert (seg_sn x) (sh_marks h)\<rparr>"

definition segmentHeap_Pop :: "segmentHeap \<Rightarrow> (segment \<times> segmentHeap) option" where
  "segmentHeap_Pop h =
     (case heap_Pop segment_Less (sh_segments h) of
        None \<Rightarrow> None
      | Some (x, xs) \<Rightarrow> Some (x, \<lparr>sh_segments = xs, sh_marks = sh_marks h - {seg_sn x}\<rparr>))"

definition segmentHeap_Has :: "segmentHeap \<Rightarrow> u32 \<Rightarrow> bool" where
  "segmentHeap_Has h n \<longleftrightarrow> n \<in> sh_marks h"

section \<open>Encoding and parsing\<close>

lemma length_segment_encode [simp]: "length (segment_encode s) = IKCP_OVERHEAD"
  by (simp add: segment_encode_def kcp_consts)

lemma parse_encode: "parse_header (segment_encode s @ rest) = Some (header_of s)"
  by (simp add: parse_header_def header_of_def segment_encode_def kcp_consts nth_append)

lemma parse_header_defined: "parse_header d \<noteq> None \<longleftrightarrow> IKCP_OVERHEAD \<le> length d"
proof -
  have *: "\<exists>w. Uint32 (drop n d) = Some w" if "n + 4 \<le> length d" for n
    using Uint32_defined [of "drop n d"] that by auto
  have **: "\<exists>w. Uint16 (drop n d) = Some w" if "n + 2 \<le> length d" for n
    using Uint16_defined [of "drop n d"] that by auto
  show ?thesis
    using * [of 0] ** [of 6] * [of 8] * [of 12] * [of 16] * [of 20]
    by (auto simp: parse_header_def kcp_consts)
qed

definition header_bytes :: "header \<Rightarrow> byte list" where
  "header_bytes h = PutUint32 (h_conv h) @ [h_cmd h, h_frg h] @ PutUint16 (h_wnd h) @
     PutUint32 (h_ts h) @ PutUint32 (h_sn h) @ PutUint32 (h_una h) @ PutUint32 (h_len h)"

lemma header_bytes_of: "segment_encode s = header_bytes (header_of s)"
  by (simp add: segment_encode_def header_bytes_def header_of_def)

lemma header_bytes_parse:
  assumes "parse_header d = Some h"
  shows "header_bytes h = take IKCP_OVERHEAD d"
proof -
  have len: "24 \<le> length d" using assms parse_header_defined [of d] by (auto simp: kcp_consts)
  from assms len have f: "PutUint32 (h_conv h) = take 4 d" "h_cmd h = d ! 4" "h_frg h = d ! 5"
    "PutUint16 (h_wnd h) = take 2 (drop 6 d)" "PutUint32 (h_ts h) = take 4 (drop 8 d)"
    "PutUint32 (h_sn h) = take 4 (drop 12 d)" "PutUint32 (h_una h) = take 4 (drop 16 d)"
    "PutUint32 (h_len h) = take 4 (drop 20 d)"
    by (auto simp: parse_header_def kcp_consts bind_eq_Some_conv
        dest: PutUint32_Uint32 PutUint16_Uint16 split: if_splits)
  have b: "[d ! 4, d ! 5] = take 2 (drop 4 d)"
    using len by (auto intro!: nth_equalityI simp: less_Suc_eq numeral_2_eq_2)
  have "take 24 d = take 4 d @ take 2 (drop 4 d) @ take 2 (drop 6 d) @ take 4 (drop 8 d) @
      take 4 (drop 12 d) @ take 4 (drop 16 d) @ take 4 (drop 20 d)"
    using take_add [of 4 20 d] take_add [of 2 18 "drop 4 d"] take_add [of 2 16 "drop 6 d"]
      take_add [of 4 12 "drop 8 d"] take_add [of 4 8 "drop 12 d"] take_add [of 4 4 "drop 16 d"]
    by simp
  then show ?thesis by (simp add: header_bytes_def f b kcp_consts)
qed

section \<open>The heap pops the nearest sequence number\<close>

definition sn_dist :: "u32 \<Rightarrow> segment \<Rightarrow> nat" where
  "sn_dist b s = unat (seg_sn s - b)"

definition sn_near :: "u32 \<Rightarrow> segment \<Rightarrow> bool" where
  "sn_near b s \<longleftrightarrow> sn_dist b s < 2 ^ 31"

interpretation sn: heap_order segment_Less "sn_dist b" "sn_near b" for b
proof
  fix x y assume "sn_near b x" "sn_near b y"
  then show "segment_Less x y \<longleftrightarrow> sn_dist b x < sn_dist b y"
    using itimediff_in_window [of "seg_sn x" b "seg_sn y"]
    by (simp add: segment_Less_def sn_near_def sn_dist_def)
qed

definition segmentHeap_wf :: "u32 \<Rightarrow> segmentHeap \<Rightarrow> bool" where
  "segmentHeap_wf b h \<longleftrightarrow>
     sn.is_heap b (sh_segments h) \<and> sn.all_ok b (sh_segments h) \<and>
     distinct (map seg_sn (sh_segments h)) \<and> sh_marks h = seg_sn ` set (sh_segments h)"

lemma newSegmentHeap_wf [simp]: "segmentHeap_wf b newSegmentHeap"
  by (simp add: segmentHeap_wf_def newSegmentHeap_def sn.all_ok_def)

lemma segmentHeap_Has_iff:
  "segmentHeap_wf b h \<Longrightarrow> segmentHeap_Has h n \<longleftrightarrow> n \<in> seg_sn ` set (sh_segments h)"
  by (simp add: segmentHeap_wf_def segmentHeap_Has_def)

lemma segmentHeap_Push_wf:
  assumes "segmentHeap_wf b h" "sn_near b x" "\<not> segmentHeap_Has h (seg_sn x)"
  shows "segmentHeap_wf b (segmentHeap_Push h x)"
proof -
  let ?xs = "heap_Push segment_Less (sh_segments h) x"
  have m: "mset ?xs = add_mset x (mset (sh_segments h))" by (rule mset_heap_Push)
  then have st: "set ?xs = insert x (set (sh_segments h))" by (metis set_mset_add_mset_insert set_mset_mset)
  have "mset (map seg_sn ?xs) = mset (map seg_sn (x # sh_segments h))" using m by simp
  then have "distinct (map seg_sn ?xs) \<longleftrightarrow> distinct (map seg_sn (x # sh_segments h))"
    by (rule mset_eq_imp_distinct_iff)
  then show ?thesis
    using assms st by (auto simp: segmentHeap_wf_def segmentHeap_Push_def segmentHeap_Has_def
        sn.all_ok_def sn.is_heap_Push)
qed

lemma set_segmentHeap_Push [simp]:
  "set (sh_segments (segmentHeap_Push h x)) = insert x (set (sh_segments h))"
  using mset_heap_Push [of segment_Less "sh_segments h" x]
  by (simp add: segmentHeap_Push_def) (metis set_mset_add_mset_insert set_mset_mset)

lemma length_segmentHeap_Push [simp]:
  "length (sh_segments (segmentHeap_Push h x)) = Suc (length (sh_segments h))"
  using mset_heap_Push [of segment_Less "sh_segments h" x]
  by (simp add: segmentHeap_Push_def) (metis size_add_mset size_mset)

lemma segmentHeap_Pop_None [simp]: "segmentHeap_Pop h = None \<longleftrightarrow> sh_segments h = []"
  by (cases "sh_segments h = []") (auto simp: segmentHeap_Pop_def heap_Pop_def Let_def)

lemma segmentHeap_Pop_mset:
  "segmentHeap_Pop h = Some (x, h') \<Longrightarrow> mset (sh_segments h) = add_mset x (mset (sh_segments h'))"
  by (auto simp: segmentHeap_Pop_def split: option.splits dest: mset_heap_Pop)

lemma segmentHeap_Pop_length:
  "segmentHeap_Pop h = Some (x, h') \<Longrightarrow> length (sh_segments h) = Suc (length (sh_segments h'))"
  by (metis segmentHeap_Pop_mset size_add_mset size_mset)

lemma segmentHeap_Pop_set:
  "segmentHeap_Pop h = Some (x, h') \<Longrightarrow> set (sh_segments h) = insert x (set (sh_segments h'))"
  by (metis segmentHeap_Pop_mset set_mset_add_mset_insert set_mset_mset)

lemma segmentHeap_Pop_wf:
  assumes "segmentHeap_wf b h" "segmentHeap_Pop h = Some (x, h')"
  shows "segmentHeap_wf b h'" and "seg_sn x \<notin> seg_sn ` set (sh_segments h')"
    and "\<forall>y\<in>set (sh_segments h). sn_dist b x \<le> sn_dist b y"
proof -
  have m: "mset (map seg_sn (sh_segments h)) = mset (map seg_sn (x # sh_segments h'))"
    using segmentHeap_Pop_mset [OF assms(2)] by simp
  then have d: "distinct (map seg_sn (x # sh_segments h'))"
    using assms(1) mset_eq_imp_distinct_iff [OF m] by (simp add: segmentHeap_wf_def)
  then show "seg_sn x \<notin> seg_sn ` set (sh_segments h')" by simp
  from assms(2) have pop: "heap_Pop segment_Less (sh_segments h) = Some (x, sh_segments h')"
    and marks: "sh_marks h' = sh_marks h - {seg_sn x}"
    by (auto simp: segmentHeap_Pop_def split: option.splits)
  from assms(1) have hp: "sn.is_heap b (sh_segments h)" "sn.all_ok b (sh_segments h)"
    by (simp_all add: segmentHeap_wf_def)
  show "segmentHeap_wf b h'"
    using sn.is_heap_Pop(1) [OF hp pop] hp d marks assms(1) segmentHeap_Pop_set [OF assms(2)]
    by (auto simp: segmentHeap_wf_def sn.all_ok_def)
  show "\<forall>y\<in>set (sh_segments h). sn_dist b x \<le> sn_dist b y"
    using sn.heap_top_least [OF hp(1)] sn.is_heap_Pop(2) [OF hp pop] by (auto simp: in_set_conv_nth)
qed

text \<open>When the expected number has left the heap, the window may slide past it.\<close>

lemma sn_dist_slide: "seg_sn s \<noteq> b \<Longrightarrow> sn_dist (b + 1) s = sn_dist b s - 1"
  by (simp add: sn_dist_def unat_succ_diff)

lemma segmentHeap_wf_slide:
  assumes "segmentHeap_wf b h" "b \<notin> seg_sn ` set (sh_segments h)"
  shows "segmentHeap_wf (b + 1) h"
proof -
  have nth: "seg_sn (sh_segments h ! i) \<noteq> b" if "i < length (sh_segments h)" for i
    using assms(2) that by (metis image_eqI nth_mem)
  from assms have "sn.is_heap (b + 1) (sh_segments h)"
    unfolding sn.is_heap_def
    by (auto simp: segmentHeap_wf_def sn.is_heap_def nth sn_dist_slide less_imp_diff_less intro!: diff_le_mono)
  moreover have "sn_near (b + 1) x" if x: "x \<in> set (sh_segments h)" for x
  proof -
    have "seg_sn x \<noteq> b" using assms(2) x by auto
    then show ?thesis
      using x assms(1) by (simp add: segmentHeap_wf_def sn.all_ok_def sn_near_def sn_dist_slide
          less_imp_diff_less)
  qed
  ultimately show ?thesis using assms by (simp add: segmentHeap_wf_def sn.all_ok_def)
qed

section \<open>Properties\<close>

text \<open>Parsing inverts encoding: whatever follows the 24 header bytes of a segment, the parser reads
  back every field and the payload length.\<close>

theorem header_round_trip: "parse_header (segment_encode s @ rest) = Some (header_of s)"
  by (rule parse_encode)

text \<open>Encoding inverts parsing: any 24 bytes parse, and writing the parsed fields gives the same bytes
  back, so no bit of a header is ignored.\<close>

theorem header_is_faithful:
  assumes "IKCP_OVERHEAD \<le> length d"
  shows "\<exists>h. parse_header d = Some h \<and> header_bytes h = take IKCP_OVERHEAD d"
  using parse_header_defined [of d] header_bytes_parse [of d] assms by auto

theorem header_is_faithful_witness: "\<exists>h. parse_header (replicate 24 7) = Some h \<and> header_bytes h = replicate 24 7"
  using header_is_faithful [of "replicate 24 7"] by (simp add: IKCP_OVERHEAD_def)

text \<open>The heap of out-of-order segments, whose comparison wraps around at 32 bits, always pops the
  segment whose number comes first after the expected one, keeps the rest, and keeps its set of
  marks in step with its contents.\<close>

theorem segmentHeap_pops_nearest:
  assumes "segmentHeap_wf b h" "segmentHeap_Pop h = Some (x, h')"
  shows "(\<forall>y\<in>set (sh_segments h). unat (seg_sn x - b) \<le> unat (seg_sn y - b)) \<and>
    mset (sh_segments h) = add_mset x (mset (sh_segments h')) \<and> segmentHeap_wf b h' \<and>
    sh_marks h' = seg_sn ` set (sh_segments h') \<and> \<not> segmentHeap_Has h' (seg_sn x)"
  using segmentHeap_Pop_wf [OF assms] segmentHeap_Pop_mset [OF assms(2)]
  by (simp add: sn_dist_def segmentHeap_wf_def segmentHeap_Has_def)

theorem segmentHeap_pops_nearest_witness:
  "\<exists>x h'. segmentHeap_Pop (segmentHeap_Push (segmentHeap_Push newSegmentHeap (zero_segment\<lparr>seg_sn := 1\<rparr>)) (zero_segment\<lparr>seg_sn := 0xFFFFFFFF\<rparr>)) = Some (x, h') \<and>
     seg_sn x = 0xFFFFFFFF"
proof -
  let ?a = "zero_segment\<lparr>seg_sn := 1\<rparr>" and ?c = "zero_segment\<lparr>seg_sn := 0xFFFFFFFF\<rparr>"
  let ?h = "segmentHeap_Push (segmentHeap_Push newSegmentHeap ?a) ?c"
  have "segmentHeap_wf 0xFFFFFFFE (segmentHeap_Push newSegmentHeap ?a)"
    by (rule segmentHeap_Push_wf [OF newSegmentHeap_wf])
       (simp_all add: sn_near_def sn_dist_def segmentHeap_Has_def newSegmentHeap_def)
  then have wf: "segmentHeap_wf 0xFFFFFFFE ?h"
    by (rule segmentHeap_Push_wf)
       (simp_all add: sn_near_def sn_dist_def segmentHeap_Has_def segmentHeap_Push_def newSegmentHeap_def)
  have st: "set (sh_segments ?h) = {?c, ?a}" by (simp add: newSegmentHeap_def)
  have "length (sh_segments ?h) = 2" by (simp add: newSegmentHeap_def)
  then have "sh_segments ?h \<noteq> []" by (metis list.size(3) zero_neq_numeral)
  then obtain x h' where p: "segmentHeap_Pop ?h = Some (x, h')"
    by (cases "segmentHeap_Pop ?h") auto
  have "x \<in> {?c, ?a}" using segmentHeap_Pop_set [OF p] st by auto
  moreover have "unat (seg_sn x - 0xFFFFFFFE) \<le> unat (seg_sn ?c - 0xFFFFFFFE)"
    using segmentHeap_pops_nearest [OF wf p] st by blast
  ultimately have "seg_sn x = 0xFFFFFFFF" by (elim insertE) simp_all
  then show ?thesis using p by blast
qed

end
