(* ===== verification/Snmp.thy ===== *)
theory Snmp
  imports Prelude
begin

text \<open>
  The statistics of \<^verbatim>\<open>snmp.go\<close> and \<^verbatim>\<open>snmp_on.go\<close> that the modelled code updates: a record
  of 64-bit counters and one definition per update method. The counters are atomic and
  process-wide; the model threads them through the operations that touch them.
\<close>

record Snmp =
  BytesSent :: u64
  BytesReceived :: u64
  MaxConn :: u64
  ActiveOpens :: u64
  PassiveOpens :: u64
  CurrEstab :: u64
  InErrs :: u64
  InCsumErrors :: u64
  KCPInErrors :: u64
  InPkts :: u64
  OutPkts :: u64
  InSegs :: u64
  OutSegs :: u64
  InBytes :: u64
  OutBytes :: u64
  RetransSegs :: u64
  FastRetransSegs :: u64
  EarlyRetransSegs :: u64
  LostSegs :: u64
  RepeatSegs :: u64
  FECFullShardSet :: u64
  FECRecovered :: u64
  FECErrs :: u64
  FECParityShards :: u64
  FECShardSet :: u64
  FECShardMin :: u64
  RingBufferSndQueue :: u64
  RingBufferRcvQueue :: u64
  RingBufferSndBuffer :: u64
  OOBPackets :: u64

definition newSnmp :: Snmp where
  "newSnmp = \<lparr>BytesSent = 0, BytesReceived = 0, MaxConn = 0,
     ActiveOpens = 0, PassiveOpens = 0, CurrEstab = 0,
     InErrs = 0, InCsumErrors = 0, KCPInErrors = 0,
     InPkts = 0, OutPkts = 0, InSegs = 0,
     OutSegs = 0, InBytes = 0, OutBytes = 0,
     RetransSegs = 0, FastRetransSegs = 0, EarlyRetransSegs = 0,
     LostSegs = 0, RepeatSegs = 0, FECFullShardSet = 0,
     FECRecovered = 0, FECErrs = 0, FECParityShards = 0,
     FECShardSet = 0, FECShardMin = 0, RingBufferSndQueue = 0,
     RingBufferRcvQueue = 0, RingBufferSndBuffer = 0, OOBPackets = 0\<rparr>"

definition snmp_Reset :: "Snmp \<Rightarrow> Snmp" where
  "snmp_Reset s = s\<lparr>BytesSent := 0, BytesReceived := 0, MaxConn := 0,
     ActiveOpens := 0, PassiveOpens := 0, CurrEstab := 0,
     InErrs := 0, InCsumErrors := 0, KCPInErrors := 0,
     InPkts := 0, OutPkts := 0, InSegs := 0,
     OutSegs := 0, InBytes := 0, OutBytes := 0,
     RetransSegs := 0, FastRetransSegs := 0, EarlyRetransSegs := 0,
     LostSegs := 0, RepeatSegs := 0, FECFullShardSet := 0,
     FECRecovered := 0, FECErrs := 0, FECParityShards := 0,
     FECShardSet := 0, FECShardMin := 0, RingBufferSndQueue := 0,
     RingBufferRcvQueue := 0, RingBufferSndBuffer := 0, OOBPackets := 0\<rparr>"

definition addInSegs :: "u64 \<Rightarrow> Snmp \<Rightarrow> Snmp" where
  "addInSegs delta s = s\<lparr>InSegs := InSegs s + delta\<rparr>"

definition increaseOutSegs :: "Snmp \<Rightarrow> Snmp" where
  "increaseOutSegs s = s\<lparr>OutSegs := OutSegs s + 1\<rparr>"

definition addRetransSegs :: "u64 \<Rightarrow> Snmp \<Rightarrow> Snmp" where
  "addRetransSegs delta s = s\<lparr>RetransSegs := RetransSegs s + delta\<rparr>"

definition addFastRetransSegs :: "u64 \<Rightarrow> Snmp \<Rightarrow> Snmp" where
  "addFastRetransSegs delta s = s\<lparr>FastRetransSegs := FastRetransSegs s + delta\<rparr>"

definition addEarlyRetransSegs :: "u64 \<Rightarrow> Snmp \<Rightarrow> Snmp" where
  "addEarlyRetransSegs delta s = s\<lparr>EarlyRetransSegs := EarlyRetransSegs s + delta\<rparr>"

definition addLostSegs :: "u64 \<Rightarrow> Snmp \<Rightarrow> Snmp" where
  "addLostSegs delta s = s\<lparr>LostSegs := LostSegs s + delta\<rparr>"

definition increaseRepeatSegs :: "Snmp \<Rightarrow> Snmp" where
  "increaseRepeatSegs s = s\<lparr>RepeatSegs := RepeatSegs s + 1\<rparr>"

definition increaseFECFullShardSet :: "Snmp \<Rightarrow> Snmp" where
  "increaseFECFullShardSet s = s\<lparr>FECFullShardSet := FECFullShardSet s + 1\<rparr>"

definition addFECRecovered :: "nat \<Rightarrow> Snmp \<Rightarrow> Snmp" where
  "addFECRecovered delta s = s\<lparr>FECRecovered := FECRecovered s + of_nat delta\<rparr>"

definition increaseFECErrs :: "Snmp \<Rightarrow> Snmp" where
  "increaseFECErrs s = s\<lparr>FECErrs := FECErrs s + 1\<rparr>"

definition increaseFECParityShards :: "Snmp \<Rightarrow> Snmp" where
  "increaseFECParityShards s = s\<lparr>FECParityShards := FECParityShards s + 1\<rparr>"

definition increaseFECShardSet :: "Snmp \<Rightarrow> Snmp" where
  "increaseFECShardSet s = s\<lparr>FECShardSet := FECShardSet s + 1\<rparr>"

definition storeFECShardSet :: "nat \<Rightarrow> Snmp \<Rightarrow> Snmp" where
  "storeFECShardSet val s = s\<lparr>FECShardSet := of_nat val\<rparr>"

definition storeFECShardMin :: "u32 \<Rightarrow> Snmp \<Rightarrow> Snmp" where
  "storeFECShardMin v s = s\<lparr>FECShardMin := ucast v\<rparr>"

definition storeRingBufferSndQueue :: "nat \<Rightarrow> Snmp \<Rightarrow> Snmp" where
  "storeRingBufferSndQueue val s = s\<lparr>RingBufferSndQueue := of_nat val\<rparr>"

definition storeRingBufferRcvQueue :: "nat \<Rightarrow> Snmp \<Rightarrow> Snmp" where
  "storeRingBufferRcvQueue val s = s\<lparr>RingBufferRcvQueue := of_nat val\<rparr>"

definition storeRingBufferSndBuffer :: "nat \<Rightarrow> Snmp \<Rightarrow> Snmp" where
  "storeRingBufferSndBuffer val s = s\<lparr>RingBufferSndBuffer := of_nat val\<rparr>"

definition addBytesSent :: "nat \<Rightarrow> Snmp \<Rightarrow> Snmp" where
  "addBytesSent delta s = s\<lparr>BytesSent := BytesSent s + of_nat delta\<rparr>"

definition addBytesReceived :: "nat \<Rightarrow> Snmp \<Rightarrow> Snmp" where
  "addBytesReceived delta s = s\<lparr>BytesReceived := BytesReceived s + of_nat delta\<rparr>"

definition increaseInPkts :: "Snmp \<Rightarrow> Snmp" where
  "increaseInPkts s = s\<lparr>InPkts := InPkts s + 1\<rparr>"

definition addOutPkts :: "nat \<Rightarrow> Snmp \<Rightarrow> Snmp" where
  "addOutPkts delta s = s\<lparr>OutPkts := OutPkts s + of_nat delta\<rparr>"

definition increaseActiveOpens :: "Snmp \<Rightarrow> Snmp" where
  "increaseActiveOpens s = s\<lparr>ActiveOpens := ActiveOpens s + 1\<rparr>"

definition increasePassiveOpens :: "Snmp \<Rightarrow> Snmp" where
  "increasePassiveOpens s = s\<lparr>PassiveOpens := PassiveOpens s + 1\<rparr>"

text \<open>The read of the maximum and the exchange are two atomic steps; without interference they are one.\<close>

definition increaseCurrEstab :: "Snmp \<Rightarrow> Snmp" where
  "increaseCurrEstab s =
     (let currestab = CurrEstab s + 1; maxconn = MaxConn s; s = s\<lparr>CurrEstab := currestab\<rparr>
      in if currestab > maxconn then s\<lparr>MaxConn := currestab\<rparr> else s)"

definition decreaseCurrEstab :: "Snmp \<Rightarrow> Snmp" where
  "decreaseCurrEstab s = s\<lparr>CurrEstab := CurrEstab s + NOT 0\<rparr>"

definition increaseInErrs :: "Snmp \<Rightarrow> Snmp" where
  "increaseInErrs s = s\<lparr>InErrs := InErrs s + 1\<rparr>"

definition increaseInCsumErrors :: "Snmp \<Rightarrow> Snmp" where
  "increaseInCsumErrors s = s\<lparr>InCsumErrors := InCsumErrors s + 1\<rparr>"

definition addKCPInErrors :: "u64 \<Rightarrow> Snmp \<Rightarrow> Snmp" where
  "addKCPInErrors delta s = s\<lparr>KCPInErrors := KCPInErrors s + delta\<rparr>"

definition addInBytes :: "nat \<Rightarrow> Snmp \<Rightarrow> Snmp" where
  "addInBytes delta s = s\<lparr>InBytes := InBytes s + of_nat delta\<rparr>"

definition addOutBytes :: "nat \<Rightarrow> Snmp \<Rightarrow> Snmp" where
  "addOutBytes delta s = s\<lparr>OutBytes := OutBytes s + of_nat delta\<rparr>"

definition increaseOOBPackets :: "Snmp \<Rightarrow> Snmp" where
  "increaseOOBPackets s = s\<lparr>OOBPackets := OOBPackets s + 1\<rparr>"

section \<open>The table\<close>

definition snmp_Header :: "string list" where
  "snmp_Header = [
    ''BytesSent'', ''BytesReceived'', ''MaxConn'', ''ActiveOpens'', ''PassiveOpens'',
    ''CurrEstab'', ''InErrs'', ''InCsumErrors'', ''KCPInErrors'', ''InPkts'', ''OutPkts'',
    ''InSegs'', ''OutSegs'', ''InBytes'', ''OutBytes'', ''RetransSegs'', ''FastRetransSegs'',
    ''EarlyRetransSegs'', ''LostSegs'', ''RepeatSegs'', ''FECFullShards'', ''FECParityShards'',
    ''FECErrs'', ''FECRecovered'', ''FECShardSet'', ''FECShardMin'', ''RingBufferSndQueue'',
    ''RingBufferRcvQueue'', ''RingBufferSndBuffer'', ''OOBPackets''
  ]"

definition snmp_Copy :: "Snmp \<Rightarrow> Snmp" where
  "snmp_Copy s = newSnmp\<lparr>
    BytesSent := BytesSent s, BytesReceived := BytesReceived s, MaxConn := MaxConn s,
    ActiveOpens := ActiveOpens s, PassiveOpens := PassiveOpens s, CurrEstab := CurrEstab s,
    InErrs := InErrs s, InCsumErrors := InCsumErrors s, KCPInErrors := KCPInErrors s,
    InPkts := InPkts s, OutPkts := OutPkts s, InSegs := InSegs s, OutSegs := OutSegs s,
    InBytes := InBytes s, OutBytes := OutBytes s, RetransSegs := RetransSegs s,
    FastRetransSegs := FastRetransSegs s, EarlyRetransSegs := EarlyRetransSegs s,
    LostSegs := LostSegs s, RepeatSegs := RepeatSegs s, FECFullShardSet := FECFullShardSet s,
    FECParityShards := FECParityShards s, FECErrs := FECErrs s, FECRecovered := FECRecovered s,
    FECShardSet := FECShardSet s, FECShardMin := FECShardMin s,
    RingBufferSndQueue := RingBufferSndQueue s, RingBufferRcvQueue := RingBufferRcvQueue s,
    RingBufferSndBuffer := RingBufferSndBuffer s, OOBPackets := OOBPackets s\<rparr>"

text \<open>\<^verbatim>\<open>strconv.FormatUint(n, 10)\<close>\<close>

fun decimal :: "nat \<Rightarrow> string" where
  "decimal n = (if n < 10 then [] else decimal (n div 10)) @ [char_of (48 + n mod 10)]"

declare decimal.simps [simp del]

definition snmp_ToSlice :: "Snmp \<Rightarrow> string list" where
  "snmp_ToSlice s =
     (let snmp = snmp_Copy s in map (decimal \<circ> unat) [
    BytesSent snmp, BytesReceived snmp, MaxConn snmp, ActiveOpens snmp, PassiveOpens snmp,
    CurrEstab snmp, InErrs snmp, InCsumErrors snmp, KCPInErrors snmp, InPkts snmp,
    OutPkts snmp, InSegs snmp, OutSegs snmp, InBytes snmp, OutBytes snmp, RetransSegs snmp,
    FastRetransSegs snmp, EarlyRetransSegs snmp, LostSegs snmp, RepeatSegs snmp,
    FECFullShardSet snmp, FECParityShards snmp, FECErrs snmp, FECRecovered snmp,
    FECShardSet snmp, FECShardMin snmp, RingBufferSndQueue snmp, RingBufferRcvQueue snmp,
    RingBufferSndBuffer snmp, OOBPackets snmp])"

lemma snmp_Copy_id: "snmp_Copy s = s"
  by (simp add: snmp_Copy_def newSnmp_def)

end
