(* ===== verification/Kcp_State.thy ===== *)
theory Kcp_State
  imports Ring_Buffer Segment Snmp
begin

text \<open>
  The state of one KCP connection (\<^verbatim>\<open>type KCP struct\<close>) and the operations of \<^verbatim>\<open>kcp.go\<close> that
  only configure it: \<^verbatim>\<open>NewKCP\<close>, \<^verbatim>\<open>SetMtu\<close>, \<^verbatim>\<open>NoDelay\<close>, \<^verbatim>\<open>WndSize\<close>, \<^verbatim>\<open>WaitSnd\<close>, \<^verbatim>\<open>ResetRTO\<close>, and
  the small helpers the other components share.

  Four fields after the struct's own hold what the code reaches through globals and
  callbacks: \<open>ticks\<close>, the number of clock readings so far; \<open>sent\<close>, the packets passed to
  the output callback, in order; \<open>pool_out\<close>, the buffers taken from \<^verbatim>\<open>defaultBufferPool\<close> and not
  yet put back; \<open>snmp\<close>, the statistics. The trace logger is left out.
\<close>

section \<open>The connection state\<close>

record kcp =
  conv :: u32
  mtu :: u32
  mss :: u32
  state :: u32
  snd_una :: u32
  snd_nxt :: u32
  rcv_nxt :: u32
  ssthresh :: u32
  rx_rttvar :: i32
  rx_srtt :: i32
  rx_rto :: u32
  rx_minrto :: u32
  snd_wnd :: u32
  rcv_wnd :: u32
  rmt_wnd :: u32
  cwnd :: u32
  incr :: u32
  probe :: u32
  ts_probe :: u32
  probe_wait :: u32
  interval :: u32
  ts_flush :: u32
  nodelay :: u32
  updated :: u32
  dead_link :: u32
  fastresend :: i32
  nocwnd :: i32
  stream :: i32
  snd_queue :: "segment RingBuffer"
  rcv_queue :: "segment RingBuffer"
  snd_buf :: "segment RingBuffer"
  rcv_buf :: segmentHeap
  acklist :: "ackItem list"
  buffer_len :: nat
  ticks :: nat
  sent :: "byte list list"
  pool_out :: int
  snmp :: Snmp

definition NewKCP :: "u32 \<Rightarrow> kcp" where
  "NewKCP c =
     \<lparr>conv = c, mtu = IKCP_MTU_DEF, mss = IKCP_MTU_DEF - of_nat IKCP_OVERHEAD, state = 0,
      snd_una = 0, snd_nxt = 0, rcv_nxt = 0, ssthresh = IKCP_THRESH_INIT,
      rx_rttvar = 0, rx_srtt = 0, rx_rto = IKCP_RTO_DEF, rx_minrto = IKCP_RTO_MIN,
      snd_wnd = of_nat IKCP_WND_SND, rcv_wnd = of_nat IKCP_WND_RCV, rmt_wnd = of_nat IKCP_WND_RCV,
      cwnd = 0, incr = 0, probe = 0, ts_probe = 0, probe_wait = 0,
      interval = IKCP_INTERVAL, ts_flush = IKCP_INTERVAL, nodelay = 0, updated = 0,
      dead_link = IKCP_DEADLINK, fastresend = 0, nocwnd = 0, stream = 0,
      snd_queue = NewRingBuffer zero_segment (int IKCP_WND_SND * 2),
      rcv_queue = NewRingBuffer zero_segment (int IKCP_WND_RCV * 2),
      snd_buf = NewRingBuffer zero_segment (int IKCP_WND_SND * 2),
      rcv_buf = newSegmentHeap, acklist = [],
      buffer_len = unat ((IKCP_MTU_DEF + of_nat IKCP_OVERHEAD) * 3),
      ticks = 0, sent = [], pool_out = 0, snmp = newSnmp\<rparr>"

section \<open>Clock, statistics and buffers\<close>

text \<open>\<^verbatim>\<open>currentMs()\<close>: the clock is a parameter, the sequence of readings it returns.\<close>

type_synonym clock = "nat \<Rightarrow> u32"

definition currentMs :: "clock \<Rightarrow> kcp \<Rightarrow> u32 \<times> kcp" where
  "currentMs clk k = (clk (ticks k), k\<lparr>ticks := Suc (ticks k)\<rparr>)"

definition count_snmp :: "(Snmp \<Rightarrow> Snmp) \<Rightarrow> kcp \<Rightarrow> kcp" where
  "count_snmp f k = k\<lparr>snmp := f (snmp k)\<rparr>"

text \<open>
  \<^verbatim>\<open>defaultBufferPool.Get()[:size]\<close>: pool buffers have capacity \<^verbatim>\<open>maxPacketSize\<close>, and a longer
  slice of one panics. The code overwrites the whole slice it takes, so the model keeps
  only how many buffers are out.
\<close>

definition pool_Get :: "nat \<Rightarrow> kcp \<Rightarrow> kcp option" where
  "pool_Get n k = (if n \<le> maxPacketSize then Some (k\<lparr>pool_out := pool_out k + 1\<rparr>) else None)"

definition recycleSegment :: "segment \<Rightarrow> kcp \<Rightarrow> segment \<times> kcp" where
  "recycleSegment s k =
     (case seg_data s of
        None \<Rightarrow> (s, k)
      | Some d \<Rightarrow> (s\<lparr>seg_data := None\<rparr>, k\<lparr>pool_out := pool_out k - 1\<rparr>))"

abbreviation queue_push :: "segment RingBuffer \<Rightarrow> segment \<Rightarrow> segment RingBuffer" where
  "queue_push \<equiv> ring_Push zero_segment"

abbreviation queue_pop :: "segment RingBuffer \<Rightarrow> segment option \<times> segment RingBuffer" where
  "queue_pop \<equiv> ring_Pop zero_segment"

section \<open>Configuration\<close>

definition max_seg_size :: "nat \<Rightarrow> segment \<Rightarrow> (nat \<times> segment \<times> bool) option" where
  "max_seg_size bufferSize s =
     (let sz = IKCP_OVERHEAD + length (seg_bytes s)
      in Some (if sz > bufferSize then sz else bufferSize, s, True))"

definition SetMtu :: "int \<Rightarrow> kcp \<Rightarrow> (int \<times> kcp) option" where
  "SetMtu m k =
     (if m \<le> int IKCP_OVERHEAD then Some (- 1, k)
      else do {
        (n, sb) \<leftarrow> ring_ForEach max_seg_size (nat ((m + int IKCP_OVERHEAD) * 3)) (snd_buf k);
        (n, sq) \<leftarrow> ring_ForEach max_seg_size n (snd_queue k);
        Some (0, k\<lparr>mtu := of_int m, mss := of_int m - of_nat IKCP_OVERHEAD, buffer_len := n\<rparr>)})"

definition NoDelay :: "int \<Rightarrow> int \<Rightarrow> int \<Rightarrow> int \<Rightarrow> kcp \<Rightarrow> kcp" where
  "NoDelay nodly itv resend nc k =
     (let k = (if nodly \<ge> 0
               then k\<lparr>nodelay := of_int nodly,
                      rx_minrto := if nodly \<noteq> 0 then IKCP_RTO_NDL else IKCP_RTO_MIN\<rparr>
               else k);
          k = (if itv \<ge> 0
               then k\<lparr>interval := of_int (if itv > 5000 then 5000 else if itv < 10 then 10 else itv)\<rparr>
               else k);
          k = (if resend \<ge> 0 then k\<lparr>fastresend := of_int resend\<rparr> else k)
      in if nc \<ge> 0 then k\<lparr>nocwnd := of_int nc\<rparr> else k)"

definition WndSize :: "int \<Rightarrow> int \<Rightarrow> kcp \<Rightarrow> kcp" where
  "WndSize sndwnd rcvwnd k =
     (let k = (if sndwnd > 0 then k\<lparr>snd_wnd := of_int sndwnd\<rparr> else k)
      in if rcvwnd > 0 then k\<lparr>rcv_wnd := of_int rcvwnd\<rparr> else k)"

definition WaitSnd :: "kcp \<Rightarrow> nat" where
  "WaitSnd k = ring_Len (snd_buf k) + ring_Len (snd_queue k)"

definition reset_seg :: "u32 \<Rightarrow> u32 \<Rightarrow> unit \<Rightarrow> segment \<Rightarrow> (unit \<times> segment \<times> bool) option" where
  "reset_seg rto current u s = Some ((), s\<lparr>seg_rto := rto, seg_resendts := current\<rparr>, True)"

definition ResetRTO :: "clock \<Rightarrow> kcp \<Rightarrow> kcp option" where
  "ResetRTO clk k =
     (let (current, k) = currentMs clk k
      in map_option (\<lambda>(u, sb). k\<lparr>snd_buf := sb\<rparr>)
           (ring_ForEach (reset_seg (rx_rto k) current) () (snd_buf k)))"

definition wnd_unused :: "kcp \<Rightarrow> u16" where
  "wnd_unused k =
     (if ring_Len (rcv_queue k) < unat (rcv_wnd k)
      then of_nat (unat (rcv_wnd k) - ring_Len (rcv_queue k)) else 0)"

section \<open>Queues and buffers of segments\<close>

text \<open>How many segments hold a pool buffer.\<close>

definition live :: "segment list \<Rightarrow> int" where
  "live ss = int (length (filter (\<lambda>s. seg_data s \<noteq> None) ss))"

lemma live_simps [simp]:
  "live [] = 0"
  "live (s # ss) = (if seg_data s = None then 0 else 1) + live ss"
  "live (xs @ ys) = live xs + live ys"
  by (simp_all add: live_def)

lemma queue_pop_Cons:
  "ring_wf q \<Longrightarrow> ring_list q = s # ss \<Longrightarrow>
     \<exists>q'. queue_pop q = (Some s, q') \<and> ring_wf q' \<and> ring_list q' = ss"
  by (cases "queue_pop q")
     (metis fst_conv snd_conv list.sel(1,3) list.discI ring_Pop_hd ring_Pop_list ring_Pop_wf)

lemma recycleSegment_eq:
  "recycleSegment s k =
     (s\<lparr>seg_data := None\<rparr>, k\<lparr>pool_out := pool_out k - (if seg_data s = None then 0 else 1)\<rparr>)"
  by (cases "seg_data s") (simp_all add: recycleSegment_def)

lemma queue_pop_Nil: "ring_list q = [] \<Longrightarrow> queue_pop q = (None, q)"
  by (rule ring_Pop_None)

end
