(* ===== verification/Kcp_Receive.thy ===== *)
theory Kcp_Receive
  imports Kcp_State
begin

text \<open>
  The receiving half of \<^verbatim>\<open>kcp.go\<close>: \<^verbatim>\<open>PeekSize\<close>, \<^verbatim>\<open>Recv\<close>, \<^verbatim>\<open>ack_push\<close> and \<^verbatim>\<open>parse_data\<close>.

  Its invariant \<open>rcv_wf\<close> is the reliability of the receiver: the segments waiting in
  \<^verbatim>\<open>rcv_queue\<close> carry consecutive sequence numbers that end just below \<^verbatim>\<open>rcv_nxt\<close>, and
  \<^verbatim>\<open>rcv_buf\<close> holds, once each, only numbers at or above \<^verbatim>\<open>rcv_nxt\<close>. The lemmas show that
  \<^verbatim>\<open>parse_data\<close> keeps it for every segment, drains as many in-order segments as the window
  allows, and that \<^verbatim>\<open>Recv\<close> returns exactly the first message and never panics.
\<close>

section \<open>Operations\<close>

definition peek_seg :: "nat \<Rightarrow> segment \<Rightarrow> (nat \<times> segment \<times> bool) option" where
  "peek_seg n s = Some (n + length (seg_bytes s), s, seg_frg s \<noteq> 0)"

text \<open>\<^verbatim>\<open>int(seg.frg+1)\<close> adds in \<^verbatim>\<open>uint8\<close>: for \<^verbatim>\<open>frg = 255\<close> it is 0.\<close>

definition PeekSize :: "kcp \<Rightarrow> int option" where
  "PeekSize k =
     (case ring_Peek (rcv_queue k) of
        None \<Rightarrow> Some (- 1)
      | Some s \<Rightarrow>
          if seg_frg s = 0 then Some (int (length (seg_bytes s)))
          else if ring_Len (rcv_queue k) < unat (seg_frg s + 1) then Some (- 1)
          else map_option (\<lambda>(n, r). int n) (ring_scan peek_seg 0 (rcv_queue k)))"

text \<open>
  The loop of \<^verbatim>\<open>Recv\<close> that merges fragments. It returns the bytes stored at the front of the
  caller's buffer, of which \<open>room\<close> bytes are left; \<^verbatim>\<open>buffer[len(seg.data):]\<close> panics when the
  segment is longer. The queue empties after \<^verbatim>\<open>Len\<close> pops, so one unit of fuel more suffices.
\<close>

fun recv_merge :: "nat \<Rightarrow> nat \<Rightarrow> byte list \<Rightarrow> kcp \<Rightarrow> (byte list \<times> kcp) option" where
  "recv_merge 0 room acc k = None"
| "recv_merge (Suc fuel) room acc k =
     (case queue_pop (rcv_queue k) of
        (None, q) \<Rightarrow> Some (acc, k\<lparr>rcv_queue := q\<rparr>)
      | (Some s, q) \<Rightarrow>
          if room < length (seg_bytes s) then None
          else let (s', k') = recycleSegment s (k\<lparr>rcv_queue := q\<rparr>)
            in if seg_frg s' = 0 then Some (acc @ seg_bytes s, k')
               else recv_merge fuel (room - length (seg_bytes s)) (acc @ seg_bytes s) k')"

text \<open>The loop of \<^verbatim>\<open>Recv\<close> and \<^verbatim>\<open>parse_data\<close> that moves segments in order.\<close>

function rcv_move :: "kcp \<Rightarrow> kcp" where
  "rcv_move k =
     (case segmentHeap_Pop (rcv_buf k) of
        None \<Rightarrow> k
      | Some (s, h) \<Rightarrow>
          if seg_sn s = rcv_nxt k \<and> ring_Len (rcv_queue k) < unat (rcv_wnd k)
          then rcv_move (k\<lparr>rcv_buf := h, rcv_queue := queue_push (rcv_queue k) s,
                           rcv_nxt := rcv_nxt k + 1\<rparr>)
          else k\<lparr>rcv_buf := segmentHeap_Push h s\<rparr>)"
  by pat_completeness auto
termination
  by (relation "measure (\<lambda>k. length (sh_segments (rcv_buf k)))") (auto dest: segmentHeap_Pop_length)

declare rcv_move.simps [simp del]

definition Recv :: "nat \<Rightarrow> kcp \<Rightarrow> (int \<times> byte list \<times> kcp) option" where
  "Recv buflen k = do {
     peeksize \<leftarrow> PeekSize k;
     if peeksize < 0 then Some (- 1, [], k)
     else if peeksize > int buflen then Some (- 2, [], k)
     else do {
       let fast_recover = (ring_Len (rcv_queue k) \<ge> unat (rcv_wnd k));
       (bs, k) \<leftarrow> recv_merge (Suc (ring_Len (rcv_queue k))) buflen [] k;
       let k = rcv_move k;
       let k = (if ring_Len (rcv_queue k) < unat (rcv_wnd k) \<and> fast_recover
                then k\<lparr>probe := probe k OR IKCP_ASK_TELL\<rparr> else k);
       Some (int (length bs), bs, k)
     }}"

definition ack_push :: "u32 \<Rightarrow> u32 \<Rightarrow> kcp \<Rightarrow> kcp" where
  "ack_push n t k = k\<lparr>acklist := acklist k @ [\<lparr>ack_sn = n, ack_ts = t\<rparr>]\<rparr>"

definition parse_data :: "segment \<Rightarrow> kcp \<Rightarrow> (bool \<times> kcp) option" where
  "parse_data newseg k =
     (let n = seg_sn newseg
      in if 0 \<le> sint (itimediff n (rcv_nxt k + rcv_wnd k)) \<or> sint (itimediff n (rcv_nxt k)) < 0
         then Some (True, k)
         else if \<not> segmentHeap_Has (rcv_buf k) n
         then do {
           k \<leftarrow> pool_Get (length (seg_bytes newseg)) k;
           let newseg = newseg\<lparr>seg_data := Some (seg_bytes newseg)\<rparr>;
           Some (False, rcv_move (k\<lparr>rcv_buf := segmentHeap_Push (rcv_buf k) newseg\<rparr>))}
         else Some (True, rcv_move k))"

section \<open>The receiver's invariant\<close>

definition queue_in_order :: "kcp \<Rightarrow> bool" where
  "queue_in_order k \<longleftrightarrow>
     (let n = ring_Len (rcv_queue k)
      in map seg_sn (ring_list (rcv_queue k)) = seqs (rcv_nxt k - of_nat n) n)"

definition rcv_wf :: "kcp \<Rightarrow> bool" where
  "rcv_wf k \<longleftrightarrow>
     ring_wf (rcv_queue k) \<and> segmentHeap_wf (rcv_nxt k) (rcv_buf k) \<and> queue_in_order k"

text \<open>The first message of a queue: the segments up to the first one with \<^verbatim>\<open>frg = 0\<close>.\<close>

fun split_msg :: "segment list \<Rightarrow> segment list \<times> segment list" where
  "split_msg [] = ([], [])"
| "split_msg (s # ss) =
     (if seg_frg s = 0 then ([s], ss) else (s # fst (split_msg ss), snd (split_msg ss)))"

abbreviation msg_bytes :: "segment list \<Rightarrow> byte list" where
  "msg_bytes ss \<equiv> concat (map seg_bytes ss)"

lemma NewKCP_rcv_wf: "rcv_wf (NewKCP c)"
  by (simp add: rcv_wf_def NewKCP_def queue_in_order_def Let_def flip: length_ring_list)

section \<open>Moving segments in order\<close>

lemma queue_in_order_push:
  assumes "ring_wf (rcv_queue k)" "queue_in_order k" "seg_sn s = rcv_nxt k"
  shows "queue_in_order (k\<lparr>rcv_buf := h, rcv_queue := queue_push (rcv_queue k) s, rcv_nxt := rcv_nxt k + 1\<rparr>)"
  using assms
  by (simp add: queue_in_order_def Let_def ring_Push_list seqs_snoc flip: length_ring_list)

text \<open>\<open>moves k moved k'\<close>: \<open>k'\<close> is \<open>k\<close> with the segments \<open>moved\<close> taken from the heap to the queue.\<close>

definition moves :: "kcp \<Rightarrow> segment list \<Rightarrow> kcp \<Rightarrow> bool" where
  "moves k moved k' \<longleftrightarrow> (\<exists>q h.
     k' = k\<lparr>rcv_buf := h, rcv_queue := q, rcv_nxt := rcv_nxt k + of_nat (length moved)\<rparr> \<and>
     ring_list q = ring_list (rcv_queue k) @ moved \<and>
     map seg_sn moved = seqs (rcv_nxt k) (length moved) \<and>
     mset (sh_segments (rcv_buf k)) = mset moved + mset (sh_segments h))"

lemma movesE:
  assumes "moves k moved k'"
  obtains q h where "k' = k\<lparr>rcv_buf := h, rcv_queue := q, rcv_nxt := rcv_nxt k + of_nat (length moved)\<rparr>"
    "ring_list q = ring_list (rcv_queue k) @ moved" "map seg_sn moved = seqs (rcv_nxt k) (length moved)"
    "mset (sh_segments (rcv_buf k)) = mset moved + mset (sh_segments h)"
  using assms by (auto simp: moves_def)

text \<open>Nothing that could be delivered is left waiting.\<close>

definition rcv_drained :: "kcp \<Rightarrow> bool" where
  "rcv_drained k \<longleftrightarrow>
     unat (rcv_wnd k) \<le> ring_Len (rcv_queue k) \<or> rcv_nxt k \<notin> seg_sn ` set (sh_segments (rcv_buf k))"

lemma rcv_move_step:
  assumes wf: "rcv_wf k" and pop: "segmentHeap_Pop (rcv_buf k) = Some (s, h)" and s: "seg_sn s = rcv_nxt k"
  defines "k1 \<equiv> k\<lparr>rcv_buf := h, rcv_queue := queue_push (rcv_queue k) s, rcv_nxt := rcv_nxt k + 1\<rparr>"
  shows "rcv_wf k1" and "moves k1 moved k' \<Longrightarrow> moves k (s # moved) k'"
proof -
  from wf have w: "ring_wf (rcv_queue k)" "segmentHeap_wf (rcv_nxt k) (rcv_buf k)" "queue_in_order k"
    by (simp_all add: rcv_wf_def)
  note popped = segmentHeap_Pop_wf [OF w(2) pop] segmentHeap_Pop_mset [OF pop]
  show "rcv_wf k1"
    using w popped s queue_in_order_push [of k s h] segmentHeap_wf_slide [of "rcv_nxt k" h]
    by (simp add: k1_def rcv_wf_def ring_Push_wf)
  show "moves k (s # moved) k'" if "moves k1 moved k'"
    using that
  proof (rule movesE)
    fix q h'
    assume "k' = k1\<lparr>rcv_buf := h', rcv_queue := q, rcv_nxt := rcv_nxt k1 + of_nat (length moved)\<rparr>"
      "ring_list q = ring_list (rcv_queue k1) @ moved" "map seg_sn moved = seqs (rcv_nxt k1) (length moved)"
      "mset (sh_segments (rcv_buf k1)) = mset moved + mset (sh_segments h')"
    then show ?thesis
      unfolding moves_def using w popped s
      by (intro exI [of _ q] exI [of _ h']) (simp add: k1_def ring_Push_list seqs_Suc add.assoc)
  qed
qed

lemma rcv_move_stop:
  assumes wf: "rcv_wf k" and pop: "segmentHeap_Pop (rcv_buf k) = Some (s, h)"
    and stop: "\<not> (seg_sn s = rcv_nxt k \<and> ring_Len (rcv_queue k) < unat (rcv_wnd k))"
  defines "k1 \<equiv> k\<lparr>rcv_buf := segmentHeap_Push h s\<rparr>"
  shows "rcv_wf k1" "moves k [] k1" "rcv_drained k1"
proof -
  from wf have w: "segmentHeap_wf (rcv_nxt k) (rcv_buf k)" by (simp add: rcv_wf_def)
  note popped = segmentHeap_Pop_wf [OF w pop] segmentHeap_Pop_mset [OF pop] segmentHeap_Pop_set [OF pop]
  have "segmentHeap_wf (rcv_nxt k) (segmentHeap_Push h s)"
    using popped w by (intro segmentHeap_Push_wf)
      (auto simp: segmentHeap_Has_iff [OF popped(1)] segmentHeap_wf_def sn.all_ok_def)
  then show "rcv_wf k1" using wf by (simp add: k1_def rcv_wf_def queue_in_order_def)
  show "moves k [] k1"
    using popped(4) mset_heap_Push [of segment_Less "sh_segments h" s]
    unfolding moves_def
    by (intro exI [of _ "rcv_queue k"] exI [of _ "segmentHeap_Push h s"]) (simp add: k1_def segmentHeap_Push_def)
  show "rcv_drained k1" unfolding rcv_drained_def
  proof (rule ccontr)
    assume c: "\<not> (unat (rcv_wnd k1) \<le> ring_Len (rcv_queue k1) \<or>
      rcv_nxt k1 \<notin> seg_sn ` set (sh_segments (rcv_buf k1)))"
    then have "sn_dist (rcv_nxt k) s = 0"
      using popped(3,5) by (fastforce simp: k1_def sn_dist_def)
    then have "seg_sn s = rcv_nxt k" by (simp add: sn_dist_def unat_eq_0)
    with stop c show False by (simp add: k1_def)
  qed
qed

lemma rcv_move_moves:
  "rcv_wf k \<Longrightarrow> \<exists>moved. moves k moved (rcv_move k) \<and> rcv_wf (rcv_move k) \<and> rcv_drained (rcv_move k)"
proof (induction k rule: rcv_move.induct)
  case (1 k)
  show ?case
  proof (cases "segmentHeap_Pop (rcv_buf k)")
    case None
    then have "rcv_move k = k" by (subst rcv_move.simps) (simp only: None option.case)
    with None show ?thesis
      using "1.prems" unfolding moves_def rcv_drained_def
      by (intro exI [of _ "[]"] conjI exI [of _ "rcv_queue k"] exI [of _ "rcv_buf k"]) simp_all
  next
    case (Some a)
    then obtain s h where pop: "segmentHeap_Pop (rcv_buf k) = Some (s, h)" by (cases a) auto
    show ?thesis
    proof (cases "seg_sn s = rcv_nxt k \<and> ring_Len (rcv_queue k) < unat (rcv_wnd k)")
      case True
      then show ?thesis
        using "1.IH" [OF pop refl True] rcv_move_step [OF "1.prems" pop] pop
        by (auto simp: rcv_move.simps [of k])
    next
      case False
      then show ?thesis
        using rcv_move_stop [OF "1.prems" pop False] pop
        by (intro exI [of _ "[]"]) (auto simp: rcv_move.simps [of k])
    qed
  qed
qed

section \<open>Reading a message\<close>

lemma split_msg_append: "fst (split_msg ss) @ snd (split_msg ss) = ss"
  by (induction ss) auto

lemma recv_merge_spec:
  assumes "ring_wf (rcv_queue k)" "ring_Len (rcv_queue k) < fuel"
    and "split_msg (ring_list (rcv_queue k)) = (m, rest)" "length (msg_bytes m) \<le> room"
  shows "\<exists>q. recv_merge fuel room acc k =
      Some (acc @ msg_bytes m, k\<lparr>rcv_queue := q, pool_out := pool_out k - live m\<rparr>) \<and>
      ring_wf q \<and> ring_list q = rest"
  using assms
proof (induction fuel arbitrary: room acc k m)
  case (Suc fuel)
  show ?case
  proof (cases "ring_list (rcv_queue k)")
    case Nil
    with Suc.prems show ?thesis by (intro exI [of _ "rcv_queue k"]) (simp add: ring_Pop_None)
  next
    case (Cons s ss)
    obtain q where q: "queue_pop (rcv_queue k) = (Some s, q)" "ring_wf q" "ring_list q = ss"
      using queue_pop_Cons [OF Suc.prems(1) Cons] by blast
    let ?k = "k\<lparr>rcv_queue := q, pool_out := pool_out k - (if seg_data s = None then 0 else 1)\<rparr>"
    have "length (seg_bytes s) \<le> room"
      using Suc.prems(3,4) Cons by (auto split: if_splits)
    then have step: "recv_merge (Suc fuel) room acc k =
        (if seg_frg s = 0 then Some (acc @ seg_bytes s, ?k)
         else recv_merge fuel (room - length (seg_bytes s)) (acc @ seg_bytes s) ?k)"
      by (simp add: q recycleSegment_eq)
    show ?thesis
    proof (cases "seg_frg s = 0")
      case True
      then show ?thesis
        unfolding step using Suc.prems(3) Cons q by (intro exI [of _ q]) auto
    next
      case False
      then obtain m' where m: "m = s # m'" "split_msg ss = (m', rest)"
        using Suc.prems(3) Cons by (cases "split_msg ss") auto
      have "ring_Len q < fuel"
        using Suc.prems(2) Cons q(3) by (simp flip: length_ring_list)
      moreover have "length (msg_bytes m') \<le> room - length (seg_bytes s)"
        using Suc.prems(4) m by simp
      ultimately obtain q' where "recv_merge fuel (room - length (seg_bytes s)) (acc @ seg_bytes s) ?k =
          Some ((acc @ seg_bytes s) @ msg_bytes m', ?k\<lparr>rcv_queue := q', pool_out := pool_out ?k - live m'\<rparr>)"
          "ring_wf q'" "ring_list q' = rest"
        using Suc.IH [of ?k m' "room - length (seg_bytes s)" "acc @ seg_bytes s"] q m by auto
      then show ?thesis
        unfolding step using False m by (intro exI [of _ q']) simp
    qed
  qed
qed simp

lemma iter_peek_seg:
  "iter_list peek_seg n ss = Some (n + length (msg_bytes (fst (split_msg ss))), ss)"
  by (induction ss arbitrary: n) (auto simp: peek_seg_def)

definition peek_list :: "segment list \<Rightarrow> int" where
  "peek_list ss =
     (case ss of [] \<Rightarrow> - 1
      | s # _ \<Rightarrow> if seg_frg s \<noteq> 0 \<and> length ss < unat (seg_frg s + 1) then - 1
                else int (length (msg_bytes (fst (split_msg ss)))))"

lemma PeekSize_list:
  assumes "ring_wf (rcv_queue k)"
  shows "PeekSize k = Some (peek_list (ring_list (rcv_queue k)))"
proof -
  have "map_option (\<lambda>(n, r). int n) (ring_scan peek_seg 0 (rcv_queue k)) =
      map_option (\<lambda>(n, ss). int n)
        (map_option (\<lambda>(n, r). (n, ring_list r)) (ring_scan peek_seg 0 (rcv_queue k)))"
    by (simp add: option.map_comp comp_def case_prod_unfold)
  then have "map_option (\<lambda>(n, r). int n) (ring_scan peek_seg 0 (rcv_queue k)) =
      Some (int (length (msg_bytes (fst (split_msg (ring_list (rcv_queue k)))))))"
    by (simp add: ring_scan_list [OF assms] iter_peek_seg)
  then show ?thesis
    using assms by (auto simp: PeekSize_def ring_Peek_list peek_list_def split: list.splits
        simp flip: length_ring_list)
qed

text \<open>
  \<^verbatim>\<open>Recv\<close> in one equation: the error codes leave the state alone; otherwise it returns the
  bytes of the first message, takes its segments off the queue, and refills the queue.
\<close>

lemma Recv_spec:
  assumes wf: "ring_wf (rcv_queue k)" and split: "split_msg (ring_list (rcv_queue k)) = (m, rest)"
    and peek: "0 \<le> peek_list (ring_list (rcv_queue k))" "length (msg_bytes m) \<le> buflen"
  shows "\<exists>q. ring_wf q \<and> ring_list q = rest \<and>
    Recv buflen k = Some (int (length (msg_bytes m)), msg_bytes m,
      let k' = rcv_move (k\<lparr>rcv_queue := q, pool_out := pool_out k - live m\<rparr>)
      in if ring_Len (rcv_queue k') < unat (rcv_wnd k') \<and> ring_Len (rcv_queue k) \<ge> unat (rcv_wnd k)
         then k'\<lparr>probe := probe k' OR IKCP_ASK_TELL\<rparr> else k')"
proof -
  have n: "peek_list (ring_list (rcv_queue k)) = int (length (msg_bytes m))"
    using peek(1) split by (auto simp: peek_list_def split: list.splits if_splits)
  obtain q where q: "recv_merge (Suc (ring_Len (rcv_queue k))) buflen [] k =
      Some (msg_bytes m, k\<lparr>rcv_queue := q, pool_out := pool_out k - live m\<rparr>)" "ring_wf q" "ring_list q = rest"
    using recv_merge_spec [OF wf _ split peek(2), of "Suc (ring_Len (rcv_queue k))" "[]"] by auto
  show ?thesis
    using q peek(2) by (intro exI [of _ q])
      (simp add: Recv_def PeekSize_list [OF wf] n Let_def del: recv_merge.simps)
qed

lemma Recv_error:
  assumes "ring_wf (rcv_queue k)"
  shows "peek_list (ring_list (rcv_queue k)) < 0 \<Longrightarrow> Recv buflen k = Some (- 1, [], k)"
    and "int buflen < peek_list (ring_list (rcv_queue k)) \<Longrightarrow> Recv buflen k = Some (- 2, [], k)"
  using assms by (simp_all add: Recv_def PeekSize_list)

section \<open>Every operation keeps the receiver well-formed\<close>

lemma queue_in_order_drop:
  assumes "queue_in_order k" "ring_list q = drop n (ring_list (rcv_queue k))"
  shows "queue_in_order (k\<lparr>rcv_queue := q\<rparr>)"
proof -
  let ?N = "ring_Len (rcv_queue k)"
  have "map seg_sn (ring_list q) = drop n (seqs (rcv_nxt k - of_nat ?N) ?N)"
    using assms by (simp add: queue_in_order_def Let_def flip: drop_map)
  then show ?thesis
    using assms(2) by (simp add: queue_in_order_def Let_def drop_seqs flip: length_ring_list)
      (cases "n \<le> length (ring_list (rcv_queue k))"; simp add: algebra_simps)
qed

lemma rcv_wf_frame:
  "rcv_queue k' = rcv_queue k \<Longrightarrow> rcv_buf k' = rcv_buf k \<Longrightarrow> rcv_nxt k' = rcv_nxt k \<Longrightarrow>
     rcv_wf k' \<longleftrightarrow> rcv_wf k"
  by (simp add: rcv_wf_def queue_in_order_def)

lemma split_msg_drop: "snd (split_msg ss) = drop (length (fst (split_msg ss))) ss"
  using split_msg_append [of ss] by (metis append_eq_conv_conj)

lemma Recv_ok:
  assumes wf: "rcv_wf k" and split: "split_msg (ring_list (rcv_queue k)) = (m, rest)"
    and peek: "0 \<le> peek_list (ring_list (rcv_queue k))" "length (msg_bytes m) \<le> buflen"
  shows "\<exists>k' moved. Recv buflen k = Some (int (length (msg_bytes m)), msg_bytes m, k') \<and>
    rcv_wf k' \<and> rcv_drained k' \<and> ring_list (rcv_queue k') = rest @ moved \<and>
    rcv_nxt k' = rcv_nxt k + of_nat (length moved) \<and>
    mset (sh_segments (rcv_buf k)) = mset moved + mset (sh_segments (rcv_buf k')) \<and>
    pool_out k' = pool_out k - live m"
proof -
  have rwf: "ring_wf (rcv_queue k)" using wf by (simp add: rcv_wf_def)
  obtain q where q: "ring_wf q" "ring_list q = rest" and R: "Recv buflen k = Some (int (length (msg_bytes m)), msg_bytes m,
      let k' = rcv_move (k\<lparr>rcv_queue := q, pool_out := pool_out k - live m\<rparr>)
      in if ring_Len (rcv_queue k') < unat (rcv_wnd k') \<and> ring_Len (rcv_queue k) \<ge> unat (rcv_wnd k)
         then k'\<lparr>probe := probe k' OR IKCP_ASK_TELL\<rparr> else k')"
    using Recv_spec [OF rwf split peek] by blast
  let ?k = "k\<lparr>rcv_queue := q, pool_out := pool_out k - live m\<rparr>"
  have "rcv_wf (k\<lparr>rcv_queue := q\<rparr>)"
    using wf q split queue_in_order_drop [of k q "length m"] split_msg_drop [of "ring_list (rcv_queue k)"]
    by (simp add: rcv_wf_def)
  then have "rcv_wf ?k" by (subst rcv_wf_frame [of _ "k\<lparr>rcv_queue := q\<rparr>"]) simp_all
  then obtain moved where mv: "moves ?k moved (rcv_move ?k)" "rcv_wf (rcv_move ?k)" "rcv_drained (rcv_move ?k)"
    using rcv_move_moves by blast
  define k' where "k' = (let k' = rcv_move ?k
      in if ring_Len (rcv_queue k') < unat (rcv_wnd k') \<and> ring_Len (rcv_queue k) \<ge> unat (rcv_wnd k)
         then k'\<lparr>probe := probe k' OR IKCP_ASK_TELL\<rparr> else k')"
  have same: "rcv_queue k' = rcv_queue (rcv_move ?k)" "rcv_buf k' = rcv_buf (rcv_move ?k)"
    "rcv_nxt k' = rcv_nxt (rcv_move ?k)" "rcv_wnd k' = rcv_wnd (rcv_move ?k)"
    "pool_out k' = pool_out (rcv_move ?k)"
    by (simp_all add: k'_def Let_def)
  have "rcv_wf k'" "rcv_drained k'"
    using mv(2,3) same rcv_wf_frame [of k' "rcv_move ?k"] by (simp_all add: rcv_drained_def)
  moreover have "Recv buflen k = Some (int (length (msg_bytes m)), msg_bytes m, k')"
    unfolding R k'_def ..
  moreover have "ring_list (rcv_queue k') = rest @ moved" "rcv_nxt k' = rcv_nxt k + of_nat (length moved)"
    "mset (sh_segments (rcv_buf k)) = mset moved + mset (sh_segments (rcv_buf k'))"
    "pool_out k' = pool_out k - live m"
    unfolding same using mv(1) q(2) by (auto elim!: movesE)
  ultimately show ?thesis by blast
qed

section \<open>Accepting a segment\<close>

definition in_rcv_window :: "kcp \<Rightarrow> u32 \<Rightarrow> bool" where
  "in_rcv_window k n \<longleftrightarrow>
     sint (itimediff n (rcv_nxt k + rcv_wnd k)) < 0 \<and> 0 \<le> sint (itimediff n (rcv_nxt k))"

lemma parse_data_outside: "\<not> in_rcv_window k (seg_sn s) \<Longrightarrow> parse_data s k = Some (True, k)"
  by (auto simp: parse_data_def in_rcv_window_def Let_def not_less not_le)

lemma parse_data_repeat:
  "in_rcv_window k (seg_sn s) \<Longrightarrow> segmentHeap_Has (rcv_buf k) (seg_sn s) \<Longrightarrow>
     parse_data s k = Some (True, rcv_move k)"
  by (auto simp: parse_data_def in_rcv_window_def Let_def not_less not_le)

lemma parse_data_new:
  "in_rcv_window k (seg_sn s) \<Longrightarrow> \<not> segmentHeap_Has (rcv_buf k) (seg_sn s) \<Longrightarrow>
     length (seg_bytes s) \<le> maxPacketSize \<Longrightarrow>
     parse_data s k = Some (False, rcv_move (k\<lparr>pool_out := pool_out k + 1,
       rcv_buf := segmentHeap_Push (rcv_buf k) (s\<lparr>seg_data := Some (seg_bytes s)\<rparr>)\<rparr>))"
  by (auto simp: parse_data_def in_rcv_window_def Let_def not_less not_le pool_Get_def)

lemma rcv_wf_insert:
  assumes wf: "rcv_wf k" and s: "in_rcv_window k (seg_sn s)" "\<not> segmentHeap_Has (rcv_buf k) (seg_sn s)"
  shows "rcv_wf (k\<lparr>pool_out := p, rcv_buf := segmentHeap_Push (rcv_buf k) s\<rparr>)"
proof -
  have "sn_near (rcv_nxt k) s"
    using s(1) by (simp add: in_rcv_window_def sn_near_def sn_dist_def serial)
  then have "segmentHeap_wf (rcv_nxt k) (segmentHeap_Push (rcv_buf k) s)"
    using wf s(2) by (simp add: rcv_wf_def segmentHeap_Push_wf)
  then show ?thesis using wf by (simp add: rcv_wf_def queue_in_order_def)
qed

lemma parse_data_wf:
  assumes wf: "rcv_wf k" and len: "length (seg_bytes s) \<le> maxPacketSize"
  shows "\<exists>r k'. parse_data s k = Some (r, k') \<and> rcv_wf k' \<and> rcv_wnd k' = rcv_wnd k"
proof -
  consider "\<not> in_rcv_window k (seg_sn s)"
    | "in_rcv_window k (seg_sn s)" "segmentHeap_Has (rcv_buf k) (seg_sn s)"
    | "in_rcv_window k (seg_sn s)" "\<not> segmentHeap_Has (rcv_buf k) (seg_sn s)" by blast
  then show ?thesis
  proof cases
    case 2
    then show ?thesis
      using rcv_move_moves [OF wf] by (auto simp: parse_data_repeat elim!: movesE)
  next
    case 3
    let ?s = "s\<lparr>seg_data := Some (seg_bytes s)\<rparr>"
    have "rcv_wf (k\<lparr>pool_out := pool_out k + 1, rcv_buf := segmentHeap_Push (rcv_buf k) ?s\<rparr>)"
      using wf 3 by (intro rcv_wf_insert) simp_all
    from rcv_move_moves [OF this] 3 len show ?thesis
      by (auto simp: parse_data_new elim!: movesE)
  qed (use wf in \<open>auto simp: parse_data_outside\<close>)
qed

lemma parse_data_accepts:
  assumes wf: "rcv_wf k" and new: "in_rcv_window k (seg_sn s)" "\<not> segmentHeap_Has (rcv_buf k) (seg_sn s)"
    and len: "length (seg_bytes s) \<le> maxPacketSize"
  shows "\<exists>k' moved. parse_data s k = Some (False, k') \<and> rcv_wf k' \<and> rcv_drained k' \<and>
    ring_list (rcv_queue k') = ring_list (rcv_queue k) @ moved \<and>
    rcv_nxt k' = rcv_nxt k + of_nat (length moved) \<and>
    mset moved + mset (sh_segments (rcv_buf k')) =
      add_mset (s\<lparr>seg_data := Some (seg_bytes s)\<rparr>) (mset (sh_segments (rcv_buf k))) \<and>
    pool_out k' = pool_out k + 1"
proof -
  let ?s = "s\<lparr>seg_data := Some (seg_bytes s)\<rparr>"
  let ?k = "k\<lparr>pool_out := pool_out k + 1, rcv_buf := segmentHeap_Push (rcv_buf k) ?s\<rparr>"
  have "rcv_wf ?k" using wf new by (intro rcv_wf_insert) simp_all
  from rcv_move_moves [OF this] obtain moved where
    mv: "moves ?k moved (rcv_move ?k)" "rcv_wf (rcv_move ?k)" "rcv_drained (rcv_move ?k)" by blast
  have "mset (sh_segments (segmentHeap_Push (rcv_buf k) ?s)) = add_mset ?s (mset (sh_segments (rcv_buf k)))"
    by (simp add: segmentHeap_Push_def mset_heap_Push)
  then have "ring_list (rcv_queue (rcv_move ?k)) = ring_list (rcv_queue k) @ moved"
    "rcv_nxt (rcv_move ?k) = rcv_nxt k + of_nat (length moved)"
    "mset moved + mset (sh_segments (rcv_buf (rcv_move ?k))) = add_mset ?s (mset (sh_segments (rcv_buf k)))"
    "pool_out (rcv_move ?k) = pool_out k + 1"
    using mv(1) by (auto elim!: movesE)
  with mv new len show ?thesis by (auto simp: parse_data_new)
qed

end
