(* ===== verification/Kcp_Send.thy ===== *)
theory Kcp_Send
  imports Kcp_State
begin

text \<open>
  The sending half of \<^verbatim>\<open>kcp.go\<close>: \<^verbatim>\<open>Send\<close>, the RTT estimator \<^verbatim>\<open>update_ack\<close>, and the handling of
  acknowledgements by \<^verbatim>\<open>shrink_buf\<close>, \<^verbatim>\<open>parse_ack\<close>, \<^verbatim>\<open>parse_fastack\<close> and \<^verbatim>\<open>parse_una\<close>.

  Its invariant \<open>snd_wf\<close> says that \<^verbatim>\<open>snd_buf\<close> holds exactly the numbers from \<^verbatim>\<open>snd_una\<close> up to
  \<^verbatim>\<open>snd_nxt\<close>, in order, and that a segment loses its data only when it is acknowledged.
\<close>

section \<open>Queueing user data\<close>

text \<open>
  Stream mode fills the last queued segment first. Its buffer has capacity \<^verbatim>\<open>maxPacketSize\<close>;
  growing it further panics.
\<close>

definition send_append :: "byte list \<Rightarrow> kcp \<Rightarrow> (byte list \<times> kcp) option" where
  "send_append buffer k =
     (let n = ring_Len (snd_queue k)
      in if n > 0
         then do {
           s \<leftarrow> ring_At (snd_queue k) (n - 1);
           let oldlen = length (seg_bytes s);
           if oldlen < unat (mss k)
           then let capacity = unat (mss k) - oldlen; extend = min (length buffer) capacity
             in if oldlen + extend > maxPacketSize then None
                else Some (drop extend buffer,
                  k\<lparr>snd_queue := ring_store (snd_queue k) (n - 1)
                      (s\<lparr>seg_data := Some (seg_bytes s @ take extend buffer)\<rparr>)\<rparr>)
           else Some (buffer, k)}
         else Some (buffer, k))"

text \<open>The fragment loop; the argument counts the fragments left, so \<^verbatim>\<open>frg\<close> is the one below it.\<close>

fun send_frags :: "nat \<Rightarrow> byte list \<Rightarrow> kcp \<Rightarrow> kcp option" where
  "send_frags 0 buffer k = Some k"
| "send_frags (Suc n) buffer k =
     (let sz = min (length buffer) (unat (mss k))
      in do {
        k \<leftarrow> pool_Get sz k;
        let s = zero_segment\<lparr>seg_data := Some (take sz buffer),
                  seg_frg := (if stream k = 0 then of_nat n else 0)\<rparr>;
        send_frags n (drop sz buffer) (k\<lparr>snd_queue := queue_push (snd_queue k) s\<rparr>)})"

text \<open>
  Fragmentation of what stream mode left over. With \<^verbatim>\<open>mss = 0\<close> the division panics. More than
  255 fragments are refused.
\<close>

definition send_split :: "byte list \<Rightarrow> kcp \<Rightarrow> (int \<times> kcp) option" where
  "send_split buffer k =
     (if length buffer > unat (mss k) \<and> mss k = 0 then None
      else let count =
             (if length buffer \<le> unat (mss k) then 1
              else (length buffer + unat (mss k) - 1) div unat (mss k))
        in if count > 255 then Some (- 2, k)
           else let count = (if count = 0 then 1 else count)
             in map_option (\<lambda>k. (0, k)) (send_frags count buffer k))"

definition Send :: "byte list \<Rightarrow> kcp \<Rightarrow> (int \<times> kcp) option" where
  "Send buffer k =
     (if buffer = [] then Some (- 1, k)
      else if stream k \<noteq> 0
      then do {
        (buffer, k) \<leftarrow> send_append buffer k;
        if buffer = [] then Some (0, k) else send_split buffer k}
      else send_split buffer k)"

section \<open>Round-trip time\<close>

definition update_ack :: "i32 \<Rightarrow> kcp \<Rightarrow> kcp" where
  "update_ack rtt k =
     (let (srtt, rttvar) =
        (if rx_srtt k = 0 then (rtt, signed_drop_bit 1 rtt)
         else let delta = rtt - rx_srtt k;
                  srtt = rx_srtt k + signed_drop_bit 3 delta;
                  delta = (if sint delta < 0 then - delta else delta)
              in if sint rtt < sint (srtt - rx_rttvar k)
                 then (srtt, rx_rttvar k + signed_drop_bit 5 (delta - rx_rttvar k))
                 else (srtt, rx_rttvar k + signed_drop_bit 2 (delta - rx_rttvar k)));
        rto = srtt + max (interval k) (push_bit 2 rttvar)
      in k\<lparr>rx_srtt := srtt, rx_rttvar := rttvar,
           rx_rto := min (max (rx_minrto k) rto) IKCP_RTO_MAX\<rparr>)"

section \<open>Acknowledgements\<close>

definition shrink_buf :: "kcp \<Rightarrow> kcp" where
  "shrink_buf k =
     (case ring_Peek (snd_buf k) of
        Some s \<Rightarrow> k\<lparr>snd_una := seg_sn s\<rparr>
      | None \<Rightarrow> k\<lparr>snd_una := snd_nxt k\<rparr>)"

definition ack_seg :: "u32 \<Rightarrow> kcp \<Rightarrow> segment \<Rightarrow> (kcp \<times> segment \<times> bool) option" where
  "ack_seg n k s =
     (if n = seg_sn s
      then let (s', k') = recycleSegment (s\<lparr>seg_acked := 1\<rparr>) k in Some (k', s', False)
      else if sint (itimediff n (seg_sn s)) < 0 then Some (k, s, False)
      else Some (k, s, True))"

definition outside_inflight :: "u32 \<Rightarrow> kcp \<Rightarrow> bool" where
  "outside_inflight n k \<longleftrightarrow>
     sint (itimediff n (snd_una k)) < 0 \<or> 0 \<le> sint (itimediff n (snd_nxt k))"

definition parse_ack :: "u32 \<Rightarrow> kcp \<Rightarrow> kcp option" where
  "parse_ack n k =
     (if outside_inflight n k then Some k
      else map_option (\<lambda>(k', sb). k'\<lparr>snd_buf := sb\<rparr>) (ring_scan (ack_seg n) k (snd_buf k)))"

definition fastack_seg ::
  "u32 \<Rightarrow> u32 \<Rightarrow> i32 \<Rightarrow> bool \<Rightarrow> segment \<Rightarrow> (bool \<times> segment \<times> bool) option" where
  "fastack_seg n t resend should s =
     (if sint (itimediff n (seg_sn s)) < 0 then Some (should, s, False)
      else if n \<noteq> seg_sn s \<and> sint (itimediff (seg_ts s) t) \<le> 0
      then if seg_fastack s \<noteq> 0xFFFFFFFF
           then Some (should \<or> seg_fastack s + 1 \<ge> resend,
                      s\<lparr>seg_fastack := seg_fastack s + 1\<rparr>, True)
           else Some (should, s, True)
      else Some (should, s, True))"

definition parse_fastack :: "u32 \<Rightarrow> u32 \<Rightarrow> kcp \<Rightarrow> (bool \<times> kcp) option" where
  "parse_fastack n t k =
     (if outside_inflight n k then Some (False, k)
      else map_option (\<lambda>(should, sb). (should, k\<lparr>snd_buf := sb\<rparr>))
             (ring_scan (fastack_seg n t (fastresend k)) False (snd_buf k)))"

definition una_seg :: "u32 \<Rightarrow> nat \<times> kcp \<Rightarrow> segment \<Rightarrow> ((nat \<times> kcp) \<times> segment \<times> bool) option" where
  "una_seg una st s =
     (case st of (c, k) \<Rightarrow>
        if 0 < sint (itimediff una (seg_sn s))
        then let (s', k') = recycleSegment s k in Some ((Suc c, k'), s', True)
        else Some ((c, k), s, False))"

definition parse_una :: "u32 \<Rightarrow> kcp \<Rightarrow> (nat \<times> kcp) option" where
  "parse_una una k = do {
     ((c, k'), sb) \<leftarrow> ring_scan (una_seg una) (0, k) (snd_buf k);
     Some (c, k'\<lparr>snd_buf := snd (ring_Discard zero_segment sb (int c))\<rparr>)}"

section \<open>The sender's invariant\<close>

text \<open>
  Segments on the wire, oldest first, carry the numbers \<^verbatim>\<open>snd_una .. snd_nxt-1\<close>. The peer
  advertises its window in 16 bits, which bounds how many there can be.
\<close>

definition inflight_wf :: "kcp \<Rightarrow> bool" where
  "inflight_wf k \<longleftrightarrow>
     ring_wf (snd_buf k) \<and>
     map seg_sn (ring_list (snd_buf k)) = seqs (snd_una k) (ring_Len (snd_buf k)) \<and>
     snd_nxt k = snd_una k + of_nat (ring_Len (snd_buf k)) \<and>
     ring_Len (snd_buf k) \<le> 65535"

definition data_kept :: "segment list \<Rightarrow> bool" where
  "data_kept ss \<longleftrightarrow> (\<forall>s\<in>set ss. seg_data s = None \<longleftrightarrow> seg_acked s = 1)"

definition fresh :: "segment list \<Rightarrow> bool" where
  "fresh ss \<longleftrightarrow> (\<forall>s\<in>set ss. seg_data s \<noteq> None \<and> seg_acked s = 0 \<and> seg_xmit s = 0)"

lemma fresh_simps [simp]:
  "fresh []" "fresh (s # ss) \<longleftrightarrow> (seg_data s \<noteq> None \<and> seg_acked s = 0 \<and> seg_xmit s = 0) \<and> fresh ss"
  "fresh (xs @ ys) \<longleftrightarrow> fresh xs \<and> fresh ys"
  by (auto simp: fresh_def)

lemma data_kept_simps [simp]:
  "data_kept []" "data_kept (s # ss) \<longleftrightarrow> (seg_data s = None \<longleftrightarrow> seg_acked s = 1) \<and> data_kept ss"
  "data_kept (xs @ ys) \<longleftrightarrow> data_kept xs \<and> data_kept ys"
  by (auto simp: data_kept_def)

lemma fresh_data_kept: "fresh ss \<Longrightarrow> data_kept ss"
  by (auto simp: fresh_def data_kept_def)

definition snd_wf :: "kcp \<Rightarrow> bool" where
  "snd_wf k \<longleftrightarrow>
     inflight_wf k \<and> data_kept (ring_list (snd_buf k)) \<and>
     ring_wf (snd_queue k) \<and> fresh (ring_list (snd_queue k)) \<and> unat (rmt_wnd k) \<le> 65535"

section \<open>Fragmentation\<close>

fun frags :: "bool \<Rightarrow> nat \<Rightarrow> nat \<Rightarrow> byte list \<Rightarrow> segment list" where
  "frags msg mx 0 b = []"
| "frags msg mx (Suc n) b =
     zero_segment\<lparr>seg_data := Some (take mx b), seg_frg := (if msg then of_nat n else 0)\<rparr>
     # frags msg mx n (drop mx b)"

lemma length_frags [simp]: "length (frags msg mx n b) = n"
  by (induction msg mx n b rule: frags.induct) auto

lemma frags_bytes: "concat (map seg_bytes (frags msg mx n b)) = take (n * mx) b"
  by (induction msg mx n b rule: frags.induct) (auto simp: seg_bytes_def take_add)

lemma frags_size: "s \<in> set (frags msg mx n b) \<Longrightarrow> length (seg_bytes s) \<le> mx"
  by (induction msg mx n b rule: frags.induct) (auto simp: seg_bytes_def)

lemma frags_fresh: "fresh (frags msg mx n b)"
  by (induction msg mx n b rule: frags.induct) (auto simp: fresh_def zero_segment_def)

lemma live_frags [simp]: "live (frags msg mx n b) = int n"
  by (induction msg mx n b rule: frags.induct) auto

lemma frags_frg: "map seg_frg (frags True mx n b) = rev (map of_nat [0..<n])"
  by (induction True mx n b rule: frags.induct) auto

lemma send_frags_spec:
  assumes "ring_wf (snd_queue k)" "unat (mss k) \<le> maxPacketSize"
  shows "\<exists>q. send_frags n b k = Some (k\<lparr>snd_queue := q, pool_out := pool_out k + int n\<rparr>) \<and>
    ring_wf q \<and> ring_list q = ring_list (snd_queue k) @ frags (stream k = 0) (unat (mss k)) n b"
  using assms
proof (induction n arbitrary: b k)
  case 0
  then show ?case by (intro exI [of _ "snd_queue k"]) simp
next
  case (Suc n)
  let ?sz = "min (length b) (unat (mss k))"
  let ?s = "zero_segment\<lparr>seg_data := Some (take ?sz b), seg_frg := (if stream k = 0 then of_nat n else 0)\<rparr>"
  let ?k = "k\<lparr>pool_out := pool_out k + 1, snd_queue := queue_push (snd_queue k) ?s\<rparr>"
  have step: "send_frags (Suc n) b k = send_frags n (drop ?sz b) ?k"
    using Suc.prems(2) by (simp add: pool_Get_def Let_def min.coboundedI2)
  have "take ?sz b = take (unat (mss k)) b" "drop ?sz b = drop (unat (mss k)) b"
    by (simp_all add: min_def)
  then show ?case
    unfolding step using Suc.IH [of ?k "drop ?sz b"] Suc.prems
    by (auto simp: ring_Push_wf ring_Push_list add.assoc)
qed

text \<open>The number of fragments \<^verbatim>\<open>Send\<close> makes.\<close>

definition frag_count :: "nat \<Rightarrow> nat \<Rightarrow> nat" where
  "frag_count mx len = (if len \<le> mx then 1 else (len + mx - 1) div mx)"

lemma frag_count_enough:
  assumes "0 < mx"
  shows "len \<le> frag_count mx len * mx"
proof (cases "len \<le> mx")
  case False
  define q r where "q = (len + mx - 1) div mx" and "r = (len + mx - 1) mod mx"
  have "q * mx + r = len + mx - 1" by (simp only: q_def r_def div_mult_mod_eq)
  moreover have "r < mx" using assms by (simp add: r_def)
  ultimately have "len \<le> q * mx" by linarith
  with False show ?thesis by (simp add: frag_count_def q_def)
qed (simp add: frag_count_def)

lemma frag_count_pos: "0 < mx \<Longrightarrow> 0 < frag_count mx len"
  by (auto simp: frag_count_def div_greater_zero_iff)

abbreviation seg_sizes :: "nat \<Rightarrow> segment list \<Rightarrow> bool" where
  "seg_sizes mx ss \<equiv> \<forall>s\<in>set ss. length (seg_bytes s) \<le> mx"

lemma send_append_spec:
  assumes wf: "ring_wf (snd_queue k)" and mss: "unat (mss k) \<le> maxPacketSize" and fr: "fresh (ring_list (snd_queue k))"
  shows "\<exists>e q. send_append b k = Some (drop e b, k\<lparr>snd_queue := q\<rparr>) \<and> ring_wf q \<and> fresh (ring_list q) \<and>
    concat (map seg_bytes (ring_list q)) = concat (map seg_bytes (ring_list (snd_queue k))) @ take e b \<and>
    length (ring_list q) = length (ring_list (snd_queue k)) \<and>
    (\<forall>mx. unat (mss k) \<le> mx \<longrightarrow> seg_sizes mx (ring_list (snd_queue k)) \<longrightarrow> seg_sizes mx (ring_list q))"
proof -
  let ?L = "ring_list (snd_queue k)" and ?n = "ring_Len (snd_queue k)"
  let ?none = "send_append b k = Some (drop 0 b, k\<lparr>snd_queue := snd_queue k\<rparr>)"
  have skip: ?thesis if ?none
    using that wf fr by (intro exI [of _ 0] exI [of _ "snd_queue k"]) simp
  show ?thesis
  proof (cases "?L = []")
    case True
    then show ?thesis by (intro skip) (simp add: send_append_def flip: length_ring_list)
  next
    case False
    then obtain pre s where L: "?L = pre @ [s]" by (metis rev_exhaust)
    then have n: "?n = Suc (length pre)" by (simp flip: length_ring_list)
    have at: "ring_At (snd_queue k) (length pre) = Some s"
      using wf n by (simp add: ring_At_nth L)
    show ?thesis
    proof (cases "length (seg_bytes s) < unat (mss k)")
      case True
      let ?e = "min (length b) (unat (mss k) - length (seg_bytes s))"
      let ?s = "s\<lparr>seg_data := Some (seg_bytes s @ take ?e b)\<rparr>"
      let ?q = "ring_store (snd_queue k) (length pre) ?s"
      have q: "ring_wf ?q" "ring_list ?q = pre @ [?s]"
        using wf n by (simp_all add: ring_store_wf ring_store_list L)
      have "length (seg_bytes s) + ?e \<le> maxPacketSize" using mss True by linarith
      then have "send_append b k = Some (drop ?e b, k\<lparr>snd_queue := ?q\<rparr>)"
        using True by (simp add: send_append_def n at Let_def)
      moreover have "fresh (ring_list ?q)" using fr by (simp add: q L fresh_def)
      moreover have "length (seg_bytes ?s) \<le> unat (mss k)"
        using True by (simp add: seg_bytes_def [of ?s]) 
      ultimately show ?thesis using q
        by (intro exI [of _ ?e] exI [of _ ?q]) (auto simp: L seg_bytes_def [of ?s])
    next
      case False
      then show ?thesis by (intro skip) (simp add: send_append_def n at)
    qed
  qed
qed


lemma frag_count_large:
  assumes "0 < mx" "255 < frag_count mx len"
  shows "255 * mx < len"
proof -
  have "256 \<le> (len + mx - 1) div mx" "\<not> len \<le> mx" using assms(2) by (auto simp: frag_count_def split: if_splits)
  then have "256 * mx \<le> len + mx - 1" using assms(1) by (metis div_times_less_eq_dividend le_trans mult_le_mono1)
  then show ?thesis using assms(1) by linarith
qed

text \<open>
  The whole of \<^verbatim>\<open>Send\<close>, in message and in stream mode: with return code 0 the queue holds the old
  bytes followed by the new ones, in segments of at most \<^verbatim>\<open>mss\<close> bytes.
\<close>

definition send_effect :: "byte list \<Rightarrow> kcp \<Rightarrow> int \<Rightarrow> kcp \<Rightarrow> bool" where
  "send_effect b k r k' \<longleftrightarrow> (\<exists>q n. k' = k\<lparr>snd_queue := q, pool_out := pool_out k + int n\<rparr> \<and>
    ring_wf q \<and> fresh (ring_list q) \<and> ring_Len q = ring_Len (snd_queue k) + n \<and>
    (r = 0 \<longrightarrow> concat (map seg_bytes (ring_list q)) = concat (map seg_bytes (ring_list (snd_queue k))) @ b) \<and>
    (r = 0 \<or> r = - 2 \<and> n = 0 \<and> 255 * unat (mss k) < length b) \<and>
    (\<forall>mx. unat (mss k) \<le> mx \<longrightarrow> seg_sizes mx (ring_list (snd_queue k)) \<longrightarrow> seg_sizes mx (ring_list q)))"

lemma send_frags_effect:
  assumes "ring_wf (snd_queue k)" "0 < unat (mss k)" "unat (mss k) \<le> maxPacketSize" "fresh (ring_list (snd_queue k))"
    "n = frag_count (unat (mss k)) (length b)" 
  shows "\<exists>k'. send_frags n b k = Some k' \<and> send_effect b k 0 k'"
proof -
  let ?F = "frags (stream k = 0) (unat (mss k)) n b"
  obtain q where q: "send_frags n b k = Some (k\<lparr>snd_queue := q, pool_out := pool_out k + int n\<rparr>)"
    "ring_wf q" "ring_list q = ring_list (snd_queue k) @ ?F"
    using send_frags_spec [OF assms(1,3)] by blast
  have "length b \<le> n * unat (mss k)" using frag_count_enough assms(2,5) by blast
  then have "concat (map seg_bytes ?F) = b" by (simp add: frags_bytes)
  moreover have "ring_Len q = ring_Len (snd_queue k) + n" using q(3) by (simp flip: length_ring_list)
  moreover have "fresh (ring_list q)" using assms(4) frags_fresh [of "stream k = 0" "unat (mss k)" n b]
    by (auto simp: q(3) fresh_def)
  ultimately show ?thesis
    using q unfolding send_effect_def
    by (intro exI [of _ "k\<lparr>snd_queue := q, pool_out := pool_out k + int n\<rparr>"] conjI exI [of _ q] exI [of _ n])
       (auto dest: frags_size)
qed

lemma send_split_eq:
  assumes "0 < unat (mss k)"
  shows "send_split b k =
    (if frag_count (unat (mss k)) (length b) > 255 then Some (- 2, k)
     else map_option (\<lambda>k. (0, k)) (send_frags (frag_count (unat (mss k)) (length b)) b k))"
proof -
  have "mss k \<noteq> 0" using assms by auto
  then show ?thesis
    using frag_count_pos [OF assms, of "length b"]
    by (simp add: send_split_def Let_def flip: frag_count_def)
qed

lemma send_split_spec:
  assumes "ring_wf (snd_queue k)" "0 < unat (mss k)" "unat (mss k) \<le> maxPacketSize" "fresh (ring_list (snd_queue k))"
  shows "\<exists>r k'. send_split b k = Some (r, k') \<and> send_effect b k r k'"
proof (cases "frag_count (unat (mss k)) (length b) > 255")
  case True
  then have "send_effect b k (- 2) k"
    unfolding send_effect_def using assms frag_count_large [OF assms(2)]
    by (intro exI [of _ "snd_queue k"] exI [of _ 0]) simp
  with True show ?thesis by (simp add: send_split_eq [OF assms(2)])
next
  case False
  then show ?thesis using send_frags_effect [OF assms refl, of b] by (auto simp: send_split_eq [OF assms(2)])
qed

lemma Send_spec:
  assumes "ring_wf (snd_queue k)" "0 < unat (mss k)" "unat (mss k) \<le> maxPacketSize"
    "fresh (ring_list (snd_queue k))" "b \<noteq> []"
  shows "\<exists>r k'. Send b k = Some (r, k') \<and> send_effect b k r k'"
proof (cases "stream k = 0")
  case True
  then show ?thesis using send_split_spec [OF assms(1-4)] assms(5) by (simp add: Send_def)
next
  case False
  let ?mss = "unat (mss k)"
  obtain e q where ap: "send_append b k = Some (drop e b, k\<lparr>snd_queue := q\<rparr>)"
    and q: "ring_wf q" "fresh (ring_list q)" "ring_Len q = ring_Len (snd_queue k)"
      "concat (map seg_bytes (ring_list q)) = concat (map seg_bytes (ring_list (snd_queue k))) @ take e b"
      "\<forall>mx. ?mss \<le> mx \<longrightarrow> seg_sizes mx (ring_list (snd_queue k)) \<longrightarrow> seg_sizes mx (ring_list q)"
    using send_append_spec [OF assms(1,3,4), of b] by (auto simp: length_ring_list)
  let ?k = "k\<lparr>snd_queue := q\<rparr>" and ?b = "drop e b"
  have S: "Send b k = (if ?b = [] then Some (0, ?k) else send_split ?b ?k)"
    using False assms(5) by (simp add: Send_def ap)
  obtain r k' where k': "send_split ?b ?k = Some (r, k')" "send_effect ?b ?k r k'"
    using send_split_spec [of ?k ?b] q assms by auto
  have "send_effect b k r k'"
  proof -
    obtain q' n where "k' = k\<lparr>snd_queue := q', pool_out := pool_out k + int n\<rparr>" "ring_wf q'" "fresh (ring_list q')"
      "ring_Len q' = ring_Len (snd_queue k) + n"
      "r = 0 \<longrightarrow> concat (map seg_bytes (ring_list q')) = concat (map seg_bytes (ring_list q)) @ ?b"
      "r = 0 \<or> r = - 2 \<and> n = 0 \<and> 255 * ?mss < length ?b"
      "\<forall>mx. ?mss \<le> mx \<longrightarrow> seg_sizes mx (ring_list q) \<longrightarrow> seg_sizes mx (ring_list q')"
      using k'(2) q(3) unfolding send_effect_def by auto
    then show ?thesis
      unfolding send_effect_def using q(4,5) by (intro exI [of _ q'] exI [of _ n]) (simp; linarith?)
  qed
  moreover have "send_effect b k 0 ?k" if "?b = []"
    unfolding send_effect_def using that q by (intro exI [of _ q] exI [of _ 0]) auto
  ultimately show ?thesis using S k'(1) by auto
qed

section \<open>The retransmission timeout\<close>

lemma update_ack_rto:
  "rx_rto (update_ack rtt k) \<le> IKCP_RTO_MAX"
  "rx_minrto k \<le> IKCP_RTO_MAX \<Longrightarrow> rx_minrto k \<le> rx_rto (update_ack rtt k)"
  by (simp_all add: update_ack_def Let_def case_prod_unfold)

lemma sint_add_small: "- (2 ^ 31) \<le> sint (a :: i32) + sint b \<Longrightarrow> sint a + sint b < 2 ^ 31 \<Longrightarrow> sint (a + b) = sint a + sint b"
  by (simp add: sint_word_ariths signed_take_bit_int_eq_self)

lemma sint_diff_small: "- (2 ^ 31) \<le> sint (a :: i32) - sint b \<Longrightarrow> sint a - sint b < 2 ^ 31 \<Longrightarrow> sint (a - b) = sint a - sint b"
  by (simp add: sint_word_ariths signed_take_bit_int_eq_self)

lemma sint_minus_small: "- (2 ^ 31) < sint (a :: i32) \<Longrightarrow> sint (- a) = - sint a"
  using sint_lt [of a] by (simp add: sint_word_ariths signed_take_bit_int_eq_self)

lemma sint_shift: "sint (signed_drop_bit n (a :: i32)) = sint a div 2 ^ n"
  by (simp add: sint_signed_drop_bit_eq drop_bit_eq_div)

lemma sint_i32_less: "sint (a :: i32) < 2 ^ 31"
  using sint_lt [of a] by simp

text \<open>The estimator over the integers.\<close>

definition rtt_step :: "int \<Rightarrow> int \<Rightarrow> int \<Rightarrow> int \<times> int" where
  "rtt_step rtt srtt var =
     (if srtt = 0 then (rtt, rtt div 2)
      else let srtt' = srtt + (rtt - srtt) div 8; d = \<bar>rtt - srtt\<bar>
        in (srtt', var + (d - var) div (if rtt < srtt' - var then 32 else 4)))"

lemma div_step:
  assumes "0 \<le> x" "0 \<le> (y::int)" "0 < m"
  shows "0 \<le> x + (y - x) div m" "x + (y - x) div m \<le> max x y"
proof -
  have "(- x) div m \<le> (y - x) div m" using assms by (intro zdiv_mono1) auto
  moreover have "(- x) div 1 \<le> (- x) div m" using assms zdiv_mono2_neg [of "- x" 1 m] by (cases "x = 0") auto
  ultimately show "0 \<le> x + (y - x) div m" by simp
  show "x + (y - x) div m \<le> max x y"
  proof (cases "y \<le> x")
    case True
    then have "(y - x) div m \<le> 0" using assms(3) by (simp add: div_nonpos_pos_le0)
    then show ?thesis by linarith
  next
    case False
    then have "(y - x) div m \<le> y - x" using assms(3) by (intro int_div_le_self) simp
    then show ?thesis by linarith
  qed
qed

definition rtt_wf :: "kcp \<Rightarrow> bool" where
  "rtt_wf k \<longleftrightarrow> 0 \<le> sint (rx_srtt k) \<and> 0 \<le> sint (rx_rttvar k)"

lemma rtt_step_range:
  assumes "0 \<le> rtt" "0 \<le> srtt" "0 \<le> var" "rtt_step rtt srtt var = (srtt', var')"
  shows "0 \<le> srtt' \<and> srtt' \<le> max rtt srtt" "0 \<le> var' \<and> var' \<le> max var (max rtt srtt)"
proof -
  define d where "d = \<bar>rtt - srtt\<bar>"
  have d: "0 \<le> d" "d \<le> max rtt srtt" using assms by (auto simp: d_def)
  show "0 \<le> srtt' \<and> srtt' \<le> max rtt srtt"
    using assms div_step [of srtt rtt 8] by (auto simp: rtt_step_def Let_def max.commute split: if_splits)
  show "0 \<le> var' \<and> var' \<le> max var (max rtt srtt)"
  proof (cases "srtt = 0")
    case True
    then show ?thesis using assms by (auto simp: rtt_step_def)
  next
    case False
    then obtain m where "var' = var + (d - var) div m" "0 < m"
      using assms(4) by (auto simp: rtt_step_def Let_def d_def split: if_splits)
    then show ?thesis using div_step [of var d m] assms(3) d by auto
  qed
qed

text \<open>No step of the estimator overflows 32 bits.\<close>

lemma sint_step:
  assumes "0 \<le> sint (x :: i32)" "sint d = y - sint x" "0 \<le> y" "y < 2 ^ 31"
  shows "sint (x + signed_drop_bit n d) = sint x + (y - sint x) div 2 ^ n"
proof -
  have "max (sint x) y < 2 ^ 31" using assms(4) sint_i32_less [of x] by simp
  then have "- (2 ^ 31) \<le> sint x + (y - sint x) div 2 ^ n" "sint x + (y - sint x) div 2 ^ n < 2 ^ 31"
    using div_step [OF assms(1,3), of "2 ^ n"] by auto
  then show ?thesis using sint_add_small [of x "signed_drop_bit n d"] by (simp add: sint_shift assms(2))
qed

lemma sint_distance:
  assumes "0 \<le> sint (x :: i32)" "0 \<le> sint y"
  shows "sint (y - x) = sint y - sint x"
    and "sint (if sint (y - x) < 0 then - (y - x) else y - x) = \<bar>sint y - sint x\<bar>"
proof -
  show d: "sint (y - x) = sint y - sint x"
    using assms sint_i32_less [of x] sint_i32_less [of y] by (intro sint_diff_small) linarith+
  have "sint (- (y - x)) = - sint (y - x)"
    by (rule sint_minus_small) (use d assms sint_i32_less [of x] in linarith)
  then show "sint (if sint (y - x) < 0 then - (y - x) else y - x) = \<bar>sint y - sint x\<bar>"
    using d by (cases "sint (y - x) < 0") (simp_all only: if_True if_False abs_if)
qed

lemma update_ack_fields:
  fixes rtt :: i32
  assumes "rx_srtt k \<noteq> 0"
  defines "d \<equiv> rtt - rx_srtt k"
  defines "srtt \<equiv> rx_srtt k + signed_drop_bit 3 d"
  shows "rx_srtt (update_ack rtt k) = srtt"
    and "rx_rttvar (update_ack rtt k) = rx_rttvar k +
      signed_drop_bit (if sint rtt < sint (srtt - rx_rttvar k) then 5 else 2) ((if sint d < 0 then - d else d) - rx_rttvar k)"
  using assms(1) by (simp_all add: update_ack_def Let_def srtt_def d_def)

lemma update_ack_exact:
  assumes "rtt_wf k" "0 \<le> sint rtt"
  shows "(sint (rx_srtt (update_ack rtt k)), sint (rx_rttvar (update_ack rtt k))) =
    rtt_step (sint rtt) (sint (rx_srtt k)) (sint (rx_rttvar k))"
proof (cases "rx_srtt k = 0")
  case True
  then show ?thesis by (simp add: update_ack_def rtt_step_def Let_def sint_shift)
next
  case False
  let ?S = "sint (rx_srtt k)" and ?V = "sint (rx_rttvar k)" and ?d = "rtt - rx_srtt k"
  let ?D = "if sint ?d < 0 then - ?d else ?d"
  have nn: "0 \<le> ?S" "0 \<le> ?V" "?S < 2 ^ 31" "?V < 2 ^ 31" "sint rtt < 2 ^ 31" "?S \<noteq> 0"
    using assms False sint_i32_less [of "rx_srtt k"] sint_i32_less [of "rx_rttvar k"] sint_i32_less [of rtt]
    by (auto simp: rtt_wf_def signed_eq_0_iff)
  note d = sint_distance(1) [OF nn(1) assms(2)] and D = sint_distance(2) [OF nn(1) assms(2)]
  have s: "sint (rx_srtt k + signed_drop_bit 3 ?d) = ?S + (sint rtt - ?S) div 8"
    using sint_step [OF nn(1) d assms(2) nn(5), of 3] by simp
  have b: "\<bar>sint rtt - ?S\<bar> < 2 ^ 31" using nn assms(2) by auto
  have DV: "sint (?D - rx_rttvar k) = \<bar>sint rtt - ?S\<bar> - ?V"
    unfolding D [symmetric] by (rule sint_diff_small; unfold D; use nn b in linarith)
  note v = sint_step [OF nn(2) DV abs_ge_zero b]
  have r: "0 \<le> ?S + (sint rtt - ?S) div 8" "?S + (sint rtt - ?S) div 8 < 2 ^ 31"
    using div_step [OF nn(1) assms(2), of 8] nn by auto
  have c: "sint (rx_srtt k + signed_drop_bit 3 ?d - rx_rttvar k) = ?S + (sint rtt - ?S) div 8 - ?V"
    unfolding s [symmetric] by (rule sint_diff_small; unfold s; use nn r in linarith)
  show ?thesis
    unfolding update_ack_fields [OF False] v c s rtt_step_def Let_def using nn(6) by simp
qed

lemma update_ack_rtt_wf: "rtt_wf k \<Longrightarrow> 0 \<le> sint rtt \<Longrightarrow> rtt_wf (update_ack rtt k)"
  using rtt_step_range [of "sint rtt" "sint (rx_srtt k)" "sint (rx_rttvar k)"] update_ack_exact [of k rtt]
  by (metis rtt_wf_def)


section \<open>Cumulative acknowledgement\<close>

lemma una_seg_apply:
  "una_seg una (c, k) s =
     (if 0 < sint (itimediff una (seg_sn s))
      then Some ((Suc c, k\<lparr>pool_out := pool_out k - (if seg_data s = None then 0 else 1)\<rparr>),
                 s\<lparr>seg_data := None\<rparr>, True)
      else Some ((c, k), s, False))"
  by (simp add: una_seg_def recycleSegment_eq)

lemma iter_una:
  assumes "\<forall>i<length ss. i < c \<longrightarrow> 0 < sint (itimediff una (seg_sn (ss ! i)))"
    and "c < length ss \<Longrightarrow> \<not> 0 < sint (itimediff una (seg_sn (ss ! c)))" "c \<le> length ss"
  shows "iter_list (una_seg una) (c0, k) ss = Some ((c0 + c,
    k\<lparr>pool_out := pool_out k - live (take c ss)\<rparr>), map (seg_data_update (\<lambda>_. None)) (take c ss) @ drop c ss)"
  using assms
proof (induction ss arbitrary: c c0 k)
  case (Cons s ss)
  show ?case
  proof (cases c)
    case 0
    with Cons.prems show ?thesis by (auto simp: una_seg_apply)
  next
    case (Suc c')
    have "iter_list (una_seg una) (Suc c0, k\<lparr>pool_out := pool_out k - (if seg_data s = None then 0 else 1)\<rparr>) ss =
        Some ((Suc c0 + c', k\<lparr>pool_out := pool_out k - (if seg_data s = None then 0 else 1) - live (take c' ss)\<rparr>),
          map (seg_data_update (\<lambda>_. None)) (take c' ss) @ drop c' ss)"
      using Cons.prems Suc by (subst Cons.IH [of c']) auto
    then show ?thesis
      using Cons.prems(1) Suc by (auto simp: una_seg_apply diff_diff_add)
  qed
qed simp

definition una_count :: "u32 \<Rightarrow> kcp \<Rightarrow> nat" where
  "una_count una k =
     (let d = unat (una - snd_una k) in if d < 2 ^ 31 then min d (ring_Len (snd_buf k)) else 0)"

lemma una_count_le: "una_count una k \<le> ring_Len (snd_buf k)"
  by (simp add: una_count_def Let_def)

lemma unat_diff_inflight:
  "unat (una - (a + of_nat i) :: u32) =
     (if i \<le> unat (una - a) then unat (una - a) - i else 4294967296 + unat (una - a) - i)"
  if "i < 4294967296"
  using diff_via_base [of una "a + of_nat i" a] that by simp

lemma una_count_inflight:
  assumes "inflight_wf k"
  shows "\<forall>i<length (ring_list (snd_buf k)). i < una_count una k \<longrightarrow>
      0 < sint (itimediff una (seg_sn (ring_list (snd_buf k) ! i)))"
    and "una_count una k < length (ring_list (snd_buf k)) \<Longrightarrow>
      \<not> 0 < sint (itimediff una (seg_sn (ring_list (snd_buf k) ! una_count una k)))"
proof -
  let ?n = "ring_Len (snd_buf k)" and ?d = "unat (una - snd_una k)"
  have nth: "seg_sn (ring_list (snd_buf k) ! i) = snd_una k + of_nat i" if "i < ?n" for i
    using assms that by (metis inflight_wf_def length_ring_list nth_map nth_seqs)
  have n: "?n \<le> 65535" using assms by (simp add: inflight_wf_def)
  have pos: "0 < sint (itimediff una (snd_una k + of_nat i)) \<longleftrightarrow> i < ?d \<and> ?d < 2 ^ 31 + i"
    if "i < ?n" for i
  proof -
    have u: "unat (una - (snd_una k + of_nat i)) = 0 \<longleftrightarrow> una = snd_una k + of_nat i"
      by (simp add: unat_eq_0)
    have i: "i < 4294967296" using that n by simp
    show ?thesis
      using u unat_u32_less [of "una - snd_una k"] that n
      unfolding itimediff_gr_0 unat_diff_inflight [OF i] by (simp split: if_splits) arith
  qed
  show "\<forall>i<length (ring_list (snd_buf k)). i < una_count una k \<longrightarrow>
      0 < sint (itimediff una (seg_sn (ring_list (snd_buf k) ! i)))"
    by (auto simp: una_count_def Let_def length_ring_list nth pos split: if_splits)
  show "una_count una k < length (ring_list (snd_buf k)) \<Longrightarrow>
      \<not> 0 < sint (itimediff una (seg_sn (ring_list (snd_buf k) ! una_count una k)))"
    by (simp add: length_ring_list nth pos)
       (auto simp: una_count_def Let_def split: if_splits)
qed

lemma parse_una_spec:
  assumes "inflight_wf k"
  shows "\<exists>sb. parse_una una k = Some (una_count una k,
      k\<lparr>pool_out := pool_out k - live (take (una_count una k) (ring_list (snd_buf k))), snd_buf := sb\<rparr>) \<and>
      ring_wf sb \<and> ring_list sb = drop (una_count una k) (ring_list (snd_buf k))"
proof -
  let ?c = "una_count una k" and ?L = "ring_list (snd_buf k)"
  have wf: "ring_wf (snd_buf k)" using assms by (simp add: inflight_wf_def)
  have "iter_list (una_seg una) (0, k) ?L = Some ((0 + ?c, k\<lparr>pool_out := pool_out k - live (take ?c ?L)\<rparr>),
      map (seg_data_update (\<lambda>_. None)) (take ?c ?L) @ drop ?c ?L)"
    using una_count_inflight [OF assms, of una] una_count_le [of una k]
    by (intro iter_una) (simp_all add: length_ring_list)
  from ring_scan_obtain [OF wf this] obtain sb where
    "ring_scan (una_seg una) (0, k) (snd_buf k) = Some ((?c, k\<lparr>pool_out := pool_out k - live (take ?c ?L)\<rparr>), sb)"
    "ring_wf sb" "ring_list sb = map (seg_data_update (\<lambda>_. None)) (take ?c ?L) @ drop ?c ?L"
    by auto
  then show ?thesis
    using una_count_le [of una k]
    by (auto simp: parse_una_def ring_Discard_wf ring_Discard_list length_ring_list)
qed

lemma inflight_wf_drop:
  assumes wf: "inflight_wf k" and c: "c \<le> ring_Len (snd_buf k)"
    and sb: "ring_wf sb" "ring_list sb = drop c (ring_list (snd_buf k))"
  shows "shrink_buf (k\<lparr>pool_out := p, snd_buf := sb\<rparr>) = k\<lparr>pool_out := p, snd_buf := sb, snd_una := snd_una k + of_nat c\<rparr>"
    and "inflight_wf (k\<lparr>pool_out := p, snd_buf := sb, snd_una := snd_una k + of_nat c\<rparr>)"
proof -
  let ?n = "ring_Len (snd_buf k)"
  have sns: "map seg_sn (ring_list sb) = seqs (snd_una k + of_nat c) (?n - c)"
    using wf sb(2) by (simp add: inflight_wf_def drop_seqs flip: drop_map)
  have len: "ring_Len sb = ?n - c" using sb(2) by (simp flip: length_ring_list)
  show "shrink_buf (k\<lparr>pool_out := p, snd_buf := sb\<rparr>) =
      k\<lparr>pool_out := p, snd_buf := sb, snd_una := snd_una k + of_nat c\<rparr>"
  proof (cases "ring_list sb")
    case Nil
    then have "c = ?n" using len c by (simp flip: length_ring_list)
    then show ?thesis using Nil sb wf by (simp add: shrink_buf_def ring_Peek_list inflight_wf_def)
  next
    case (Cons s ss)
    then have "seg_sn s = snd_una k + of_nat c"
      using sns by (cases "?n - c") (auto simp: seqs_Suc)
    then show ?thesis using Cons sb by (simp add: shrink_buf_def ring_Peek_list)
  qed
  show "inflight_wf (k\<lparr>pool_out := p, snd_buf := sb, snd_una := snd_una k + of_nat c\<rparr>)"
    using wf sns len sb(1) c by (auto simp: inflight_wf_def)
qed

lemma una_shrink_spec:
  assumes "inflight_wf k"
  shows "\<exists>k1 sb. parse_una una k = Some (una_count una k, k1) \<and>
    shrink_buf k1 = k\<lparr>pool_out := pool_out k - live (take (una_count una k) (ring_list (snd_buf k))),
      snd_buf := sb, snd_una := snd_una k + of_nat (una_count una k)\<rparr> \<and>
    ring_list sb = drop (una_count una k) (ring_list (snd_buf k)) \<and> inflight_wf (shrink_buf k1)"
proof -
  let ?c = "una_count una k"
  let ?p = "pool_out k - live (take ?c (ring_list (snd_buf k)))"
  obtain sb where sb: "parse_una una k = Some (?c, k\<lparr>pool_out := ?p, snd_buf := sb\<rparr>)"
    "ring_wf sb" "ring_list sb = drop ?c (ring_list (snd_buf k))"
    using parse_una_spec [OF assms] by blast
  note drop = inflight_wf_drop [OF assms una_count_le sb(2,3), of ?p]
  show ?thesis
    using sb drop by (intro exI [of _ "k\<lparr>pool_out := ?p, snd_buf := sb\<rparr>"] exI [of _ sb]) simp
qed

section \<open>Selective acknowledgement\<close>

lemma outside_inflight_iff:
  assumes "inflight_wf k"
  shows "outside_inflight n k \<longleftrightarrow> ring_Len (snd_buf k) \<le> unat (n - snd_una k)"
proof -
  let ?N = "ring_Len (snd_buf k)"
  have N: "?N \<le> 65535" and nxt: "snd_nxt k = snd_una k + of_nat ?N" using assms by (simp_all add: inflight_wf_def)
  have "?N < 4294967296" using N by simp
  then show ?thesis
    using unat_u32_less [of "n - snd_una k"] N
    unfolding outside_inflight_def nxt itimediff_less_0 itimediff_ge_0 unat_diff_inflight [OF \<open>?N < 4294967296\<close>]
    by (simp split: if_splits) arith
qed

definition mark_acked :: "segment \<Rightarrow> segment" where
  "mark_acked s = s\<lparr>seg_acked := 1, seg_data := None\<rparr>"

lemma mark_acked_simps [simp]:
  "seg_sn (mark_acked s) = seg_sn s" "seg_data (mark_acked s) = None" "seg_acked (mark_acked s) = 1"
  by (simp_all add: mark_acked_def)

lemma ack_seg_apply:
  "ack_seg n k s =
     (if n = seg_sn s
      then Some (k\<lparr>pool_out := pool_out k - (if seg_data s = None then 0 else 1)\<rparr>,
                 mark_acked s, False)
      else Some (k, s, \<not> sint (itimediff n (seg_sn s)) < 0))"
  by (simp add: ack_seg_def recycleSegment_eq mark_acked_def)

lemma iter_ack:
  assumes "map seg_sn ss = seqs a (length ss)" "length ss \<le> 65535" "unat (n - a) = i" "i < length ss"
  shows "iter_list (ack_seg n) k ss =
    Some (k\<lparr>pool_out := pool_out k - (if seg_data (ss ! i) = None then 0 else 1)\<rparr>,
          ss[i := mark_acked (ss ! i)])"
  using assms
proof (induction ss arbitrary: a i)
  case Nil
  from Nil.prems(4) show ?case by simp
next
  case (Cons s ss)
  have s: "seg_sn s = a" and ss: "map seg_sn ss = seqs (a + 1) (length ss)"
    using Cons.prems(1) by (simp_all add: seqs_Suc)
  show ?case
  proof (cases "n = a")
    case True
    then have "i = 0" using Cons.prems(3) by simp
    then show ?thesis using True s by (simp add: ack_seg_apply)
  next
    case False
    then obtain j where j: "i = Suc j" "unat (n - (a + 1)) = j"
      using Cons.prems(3) by (cases i) (auto simp: unat_succ_diff unat_eq_0)
    have l: "length ss \<le> 65535" "j < length ss" using Cons.prems(2,4) j(1) by simp_all
    have "unat (n - a) < 2147483648" using Cons.prems(3) j(1) l by linarith
    then have step: "ack_seg n k s = Some (k, s, True)"
      using False s by (simp add: ack_seg_apply itimediff_less_0)
    show ?thesis
      unfolding j(1) using Cons.IH [OF ss l(1) j(2) l(2)] by (simp add: step)
  qed
qed

lemma parse_ack_spec:
  assumes "inflight_wf k"
  shows "unat (n - snd_una k) < ring_Len (snd_buf k) \<Longrightarrow> \<exists>sb. parse_ack n k =
      Some (k\<lparr>pool_out := pool_out k - (if seg_data (ring_list (snd_buf k) ! unat (n - snd_una k)) = None then 0 else 1),
              snd_buf := sb\<rparr>) \<and> ring_wf sb \<and>
      ring_list sb = (ring_list (snd_buf k))[unat (n - snd_una k) := mark_acked (ring_list (snd_buf k) ! unat (n - snd_una k))]"
    and "ring_Len (snd_buf k) \<le> unat (n - snd_una k) \<Longrightarrow> parse_ack n k = Some k"
proof -
  have wf: "ring_wf (snd_buf k)" using assms by (simp add: inflight_wf_def)
  show "parse_ack n k = Some k" if "ring_Len (snd_buf k) \<le> unat (n - snd_una k)"
    using that by (simp add: parse_ack_def outside_inflight_iff [OF assms])
  assume i: "unat (n - snd_una k) < ring_Len (snd_buf k)"
  note it = iter_ack [of "ring_list (snd_buf k)" "snd_una k" n _ k]
  show "\<exists>sb. parse_ack n k =
      Some (k\<lparr>pool_out := pool_out k - (if seg_data (ring_list (snd_buf k) ! unat (n - snd_una k)) = None then 0 else 1),
              snd_buf := sb\<rparr>) \<and> ring_wf sb \<and>
      ring_list sb = (ring_list (snd_buf k))[unat (n - snd_una k) := mark_acked (ring_list (snd_buf k) ! unat (n - snd_una k))]"
    using ring_scan_obtain [OF wf it] assms i
    by (auto simp: parse_ack_def outside_inflight_iff [OF assms] inflight_wf_def length_ring_list)
qed

lemma parse_fastack_spec:
  assumes "ring_wf (snd_buf k)"
  shows "\<exists>should sb. parse_fastack n t k = Some (should, k\<lparr>snd_buf := sb\<rparr>) \<and> ring_wf sb \<and>
    list_all2 (\<lambda>s s'. \<exists>x. s' = s\<lparr>seg_fastack := x\<rparr>) (ring_list (snd_buf k)) (ring_list sb)"
proof -
  let ?R = "\<lambda>s s'. \<exists>x. s' = s\<lparr>seg_fastack := x\<rparr>"
  have refl: "?R s s" for s :: segment by (rule exI [of _ "seg_fastack s"]) simp
  have "\<exists>a' s' g. fastack_seg n t (fastresend k) a s = Some (a', s', g) \<and> True \<and> ?R s s'" for a s
    using refl [of s] by (auto simp: fastack_seg_def)
  then obtain a sb where "ring_scan (fastack_seg n t (fastresend k)) False (snd_buf k) = Some (a, sb)" "ring_wf sb"
      "list_all2 ?R (ring_list (snd_buf k)) (ring_list sb)"
    using ring_scan_inv [OF assms, of "\<lambda>_. True" "\<lambda>_. True" _ ?R False] refl by blast
  moreover have "\<exists>sb. k = k\<lparr>snd_buf := sb\<rparr> \<and> ring_wf sb \<and> list_all2 ?R (ring_list (snd_buf k)) (ring_list sb)"
    using assms refl by (intro exI [of _ "snd_buf k"]) (auto intro: list_all2_refl)
  ultimately show ?thesis by (auto simp: parse_fastack_def)
qed

section \<open>Acknowledgements keep the sender well-formed\<close>

lemma list_all2_map_eq: "list_all2 R xs ys \<Longrightarrow> (\<And>x y. R x y \<Longrightarrow> g y = g x) \<Longrightarrow> map g ys = map g xs"
  by (induction rule: list_all2_induct) auto

lemma data_kept_map:
  "map seg_data ys = map seg_data xs \<Longrightarrow> map seg_acked ys = map seg_acked xs \<Longrightarrow> data_kept xs \<Longrightarrow> data_kept ys"
  unfolding data_kept_def by (simp add: all_set_conv_all_nth list_eq_iff_nth_eq)

lemma snd_wf_buf:
  assumes "snd_wf k" "ring_wf sb" "map seg_sn (ring_list sb) = map seg_sn (ring_list (snd_buf k))"
    "data_kept (ring_list sb)"
  shows "snd_wf (k\<lparr>pool_out := p, snd_buf := sb\<rparr>)" "snd_wf (k\<lparr>snd_buf := sb\<rparr>)"
proof -
  have "ring_Len sb = ring_Len (snd_buf k)" using assms(3) by (metis length_map length_ring_list)
  then show "snd_wf (k\<lparr>pool_out := p, snd_buf := sb\<rparr>)" "snd_wf (k\<lparr>snd_buf := sb\<rparr>)"
    using assms by (simp_all add: snd_wf_def inflight_wf_def)
qed

lemma live_update:
  "i < length ss \<Longrightarrow> live (ss[i := s]) =
     live ss - (if seg_data (ss ! i) = None then 0 else 1) + (if seg_data s = None then 0 else 1)"
  by (induction ss arbitrary: i) (auto split: nat.splits)

lemma live_map: "live ss = int (length (filter (\<lambda>d. d \<noteq> None) (map seg_data ss)))"
  by (simp add: live_def filter_map comp_def)

lemma live_take_drop: "live (take n ss) + live (drop n ss) = live ss"
  by (metis append_take_drop_id live_simps(3))

text \<open>What an acknowledgement may change: some segments lose their buffer, which goes back to the pool.\<close>

definition ack_effect :: "kcp \<Rightarrow> kcp \<Rightarrow> bool" where
  "ack_effect k k' \<longleftrightarrow> (\<exists>sb u. k' = k\<lparr>pool_out := pool_out k + live (ring_list sb) - live (ring_list (snd_buf k)),
     snd_buf := sb, snd_una := u\<rparr> \<and> list_all2 (\<lambda>s s'. seg_bytes s' = seg_bytes s \<or> seg_data s' = None)
       (drop (ring_Len (snd_buf k) - ring_Len sb) (ring_list (snd_buf k))) (ring_list sb))"

lemma parse_ack_wf:
  assumes "snd_wf k"
  shows "\<exists>k'. parse_ack n k = Some k' \<and> snd_wf k' \<and> ack_effect k k'"
proof -
  let ?i = "unat (n - snd_una k)" and ?L = "ring_list (snd_buf k)"
  have wf: "inflight_wf k" "data_kept ?L" using assms by (simp_all add: snd_wf_def)
  show ?thesis
  proof (cases "?i < ring_Len (snd_buf k)")
    case True
    then obtain sb where sb: "parse_ack n k =
        Some (k\<lparr>pool_out := pool_out k - (if seg_data (?L ! ?i) = None then 0 else 1), snd_buf := sb\<rparr>)"
      "ring_wf sb" "ring_list sb = ?L[?i := mark_acked (?L ! ?i)]"
      using parse_ack_spec(1) [OF wf(1)] by blast
    have "map seg_sn (ring_list sb) = map seg_sn ?L"
      using True by (simp add: sb(3) map_update list_update_same_conv length_ring_list)
    moreover have "data_kept (ring_list sb)"
      using wf(2) set_update_subset_insert [of ?L ?i] by (fastforce simp: data_kept_def sb(3))
    moreover have len: "ring_Len sb = ring_Len (snd_buf k)"
      using sb(3) by (metis length_list_update length_ring_list)
    moreover have "ack_effect k (k\<lparr>pool_out := pool_out k - (if seg_data (?L ! ?i) = None then 0 else 1), snd_buf := sb\<rparr>)"
      unfolding ack_effect_def using True
      by (intro exI [of _ sb] exI [of _ "snd_una k"])
         (simp add: len sb(3) live_update length_ring_list list_all2_conv_all_nth nth_list_update)
    ultimately show ?thesis using snd_wf_buf [OF assms sb(2)] sb(1) by auto
  next
    case False
    have "ack_effect k k"
      unfolding ack_effect_def by (intro exI [of _ "snd_buf k"] exI [of _ "snd_una k"]) (simp add: list_all2_refl)
    with False show ?thesis using parse_ack_spec(2) [OF wf(1)] assms by simp
  qed
qed

lemma parse_fastack_wf:
  assumes "snd_wf k"
  shows "\<exists>r k'. parse_fastack n t k = Some (r, k') \<and> snd_wf k' \<and> ack_effect k k'"
proof -
  have "ring_wf (snd_buf k)" "data_kept (ring_list (snd_buf k))"
    using assms by (simp_all add: snd_wf_def inflight_wf_def)
  then obtain r sb where sb: "parse_fastack n t k = Some (r, k\<lparr>snd_buf := sb\<rparr>)" "ring_wf sb"
      "list_all2 (\<lambda>s s'. \<exists>x. s' = s\<lparr>seg_fastack := x\<rparr>) (ring_list (snd_buf k)) (ring_list sb)"
    using parse_fastack_spec by blast
  have same: "map seg_sn (ring_list sb) = map seg_sn (ring_list (snd_buf k))"
    "map seg_data (ring_list sb) = map seg_data (ring_list (snd_buf k))"
    "map seg_acked (ring_list sb) = map seg_acked (ring_list (snd_buf k))"
    by (rule list_all2_map_eq [OF sb(3)]; elim exE; simp)+
  have len: "ring_Len sb = ring_Len (snd_buf k)" using same(1) by (metis length_map length_ring_list)
  have "live (ring_list sb) = live (ring_list (snd_buf k))"
    unfolding live_map same(2) ..
  moreover have "list_all2 (\<lambda>s s'. seg_bytes s' = seg_bytes s \<or> seg_data s' = None) (ring_list (snd_buf k)) (ring_list sb)"
    by (rule list_all2_mono [OF sb(3)]) (auto simp: seg_bytes_def)
  ultimately have "ack_effect k (k\<lparr>snd_buf := sb\<rparr>)"
    unfolding ack_effect_def by (intro exI [of _ sb] exI [of _ "snd_una k"]) (simp add: len)
  then show ?thesis
    using snd_wf_buf(2) [OF assms sb(2) same(1)] data_kept_map [OF same(2,3)] sb(1) assms
    by (simp add: snd_wf_def)
qed

lemma una_shrink_wf:
  assumes "snd_wf k"
  shows "\<exists>k1. parse_una una k = Some (una_count una k, k1) \<and> snd_wf (shrink_buf k1) \<and>
    ack_effect k (shrink_buf k1) \<and> snd_una (shrink_buf k1) = snd_una k + of_nat (una_count una k)"
proof -
  let ?c = "una_count una k" and ?L = "ring_list (snd_buf k)"
  have wf: "inflight_wf k" "data_kept ?L" using assms by (simp_all add: snd_wf_def)
  obtain k1 sb where k1: "parse_una una k = Some (?c, k1)"
    "shrink_buf k1 = k\<lparr>pool_out := pool_out k - live (take ?c ?L), snd_buf := sb, snd_una := snd_una k + of_nat ?c\<rparr>"
    "ring_list sb = drop ?c ?L" "inflight_wf (shrink_buf k1)"
    using una_shrink_spec [OF wf(1)] by blast
  have "data_kept (ring_list sb)" using wf(2) by (auto simp: data_kept_def k1(3) dest: in_set_dropD)
  then have "snd_wf (shrink_buf k1)" using k1(2,4) assms by (simp add: snd_wf_def)
  moreover have "ring_Len sb = ring_Len (snd_buf k) - ?c" using k1(3) by (simp flip: length_ring_list)
  then have "ack_effect k (shrink_buf k1)"
    unfolding ack_effect_def k1(2) using una_count_le [of una k] live_take_drop [of ?c ?L]
    by (intro exI [of _ sb] exI [of _ "snd_una k + of_nat ?c"]) (simp add: k1(3) list_all2_refl)
  ultimately show ?thesis using k1(1,2) by simp
qed

end
