(* ===== verification/Kcp_Flush.thy ===== *)
theory Kcp_Flush
  imports Kcp_Send
begin

text \<open>
  \<^verbatim>\<open>flush\<close> of \<^verbatim>\<open>kcp.go\<close>, phase by phase as its comments number them, with \<^verbatim>\<open>makeSpace\<close>, and the
  timer entry points \<^verbatim>\<open>Update\<close> and \<^verbatim>\<open>Check\<close>.

  The pair \<^verbatim>\<open>buffer, ptr\<close> is modelled by the bytes written between the two; writing past the
  end of \<^verbatim>\<open>buffer\<close> is a panic, \<open>None\<close>. The lemmas show that this never happens, that a packet never
  exceeds the MTU unless it is a single segment queued under a larger one, that no segment is
  lost between \<^verbatim>\<open>snd_queue\<close> and \<^verbatim>\<open>snd_buf\<close>, and that the number of segments in flight respects
  the three windows.
\<close>

section \<open>Writing segments\<close>

datatype FlushType = IKCP_FLUSH_ACKONLY | IKCP_FLUSH_FULL

definition kcp_output :: "byte list \<Rightarrow> kcp \<Rightarrow> kcp" where
  "kcp_output w k = k\<lparr>sent := sent k @ [w]\<rparr>"

definition makeSpace :: "byte list \<Rightarrow> nat \<Rightarrow> kcp \<Rightarrow> byte list \<times> kcp" where
  "makeSpace w space k =
     (if length w + space > unat (mtu k) then ([], kcp_output w k) else (w, k))"

definition put_bytes :: "byte list \<Rightarrow> byte list \<Rightarrow> kcp \<Rightarrow> byte list option" where
  "put_bytes w d k = (if length w + length d \<le> buffer_len k then Some (w @ d) else None)"

section \<open>The phases of flush\<close>

text \<open>Phase 1. The first argument is the index of the first acknowledgement of the list.\<close>

fun flush_acks :: "nat \<Rightarrow> ackItem list \<Rightarrow> segment \<Rightarrow> byte list \<Rightarrow> kcp \<Rightarrow>
    (segment \<times> byte list \<times> kcp) option" where
  "flush_acks i [] seg w k = Some (seg, w, k)"
| "flush_acks i (ack # acks) seg w k =
     (let (w, k) = makeSpace w IKCP_OVERHEAD k
      in if 0 \<le> sint (itimediff (ack_sn ack) (rcv_nxt k)) \<or> int (length (acklist k)) - 1 = int i
         then let seg = seg\<lparr>seg_sn := ack_sn ack, seg_ts := ack_ts ack\<rparr>
           in (case put_bytes w (segment_encode seg) k of
                 None \<Rightarrow> None
               | Some w \<Rightarrow> flush_acks (Suc i) acks seg w k)
         else flush_acks (Suc i) acks seg w k)"

text \<open>Phase 2.\<close>

definition flush_probe :: "clock \<Rightarrow> kcp \<Rightarrow> kcp" where
  "flush_probe clk k =
     (if rmt_wnd k = 0
      then let (current, k) = currentMs clk k
        in if probe_wait k = 0
           then k\<lparr>probe_wait := IKCP_PROBE_INIT, ts_probe := current + IKCP_PROBE_INIT\<rparr>
           else if 0 \<le> sint (itimediff current (ts_probe k))
           then let wait = max (probe_wait k) IKCP_PROBE_INIT;
                    wait = wait + wait div 2;
                    wait = min wait IKCP_PROBE_LIMIT
             in k\<lparr>probe_wait := wait, ts_probe := current + wait, probe := probe k OR IKCP_ASK_SEND\<rparr>
           else k
      else k\<lparr>ts_probe := 0, probe_wait := 0\<rparr>)"

text \<open>Phase 3, once for each of the two commands.\<close>

definition flush_ask :: "u32 \<Rightarrow> u8 \<Rightarrow> segment \<Rightarrow> byte list \<Rightarrow> kcp \<Rightarrow>
    (segment \<times> byte list \<times> kcp) option" where
  "flush_ask flag command seg w k =
     (if probe k AND flag \<noteq> 0
      then let seg = seg\<lparr>seg_cmd := command\<rparr>; (w, k) = makeSpace w IKCP_OVERHEAD k
        in map_option (\<lambda>w. (seg, w, k)) (put_bytes w (segment_encode seg) k)
      else Some (seg, w, k))"

definition flush_asks :: "segment \<Rightarrow> byte list \<Rightarrow> kcp \<Rightarrow> (segment \<times> byte list \<times> kcp) option" where
  "flush_asks seg w k = do {
     (seg, w, k) \<leftarrow> flush_ask IKCP_ASK_SEND IKCP_CMD_WASK seg w k;
     (seg, w, k) \<leftarrow> flush_ask IKCP_ASK_TELL IKCP_CMD_WINS seg w k;
     Some (seg, w, k\<lparr>probe := 0\<rparr>)}"

text \<open>Phase 4. Each turn pops \<^verbatim>\<open>snd_queue\<close>, so one unit of fuel more than its length suffices.\<close>

definition flush_window :: "kcp \<Rightarrow> u32" where
  "flush_window k =
     (let w = min (snd_wnd k) (rmt_wnd k) in if nocwnd k = 0 then min (cwnd k) w else w)"

fun flush_move :: "nat \<Rightarrow> u32 \<Rightarrow> nat \<Rightarrow> kcp \<Rightarrow> (nat \<times> kcp) option" where
  "flush_move 0 wnd newSegsCount k = None"
| "flush_move (Suc fuel) wnd newSegsCount k =
     (if 0 \<le> sint (itimediff (snd_nxt k) (snd_una k + wnd)) then Some (newSegsCount, k)
      else case queue_pop (snd_queue k) of
        (None, q) \<Rightarrow> Some (newSegsCount, k\<lparr>snd_queue := q\<rparr>)
      | (Some s, q) \<Rightarrow>
          flush_move fuel wnd (Suc newSegsCount)
            (k\<lparr>snd_queue := q,
               snd_buf := queue_push (snd_buf k)
                 (s\<lparr>seg_conv := conv k, seg_cmd := IKCP_CMD_PUSH, seg_sn := snd_nxt k\<rparr>),
               snd_nxt := snd_nxt k + 1\<rparr>))"

text \<open>Phase 5: why a segment is sent, what that does to it, and the transmission itself.\<close>

datatype xmit_reason = Initial_Xmit | Fast_Xmit | Early_Xmit | Timeout_Xmit

definition xmit_reason :: "u32 \<Rightarrow> nat \<Rightarrow> u32 \<Rightarrow> segment \<Rightarrow> xmit_reason option" where
  "xmit_reason resent newSegsCount current s =
     (if seg_xmit s = 0 then Some Initial_Xmit
      else if seg_fastack s \<ge> resent \<and> seg_fastack s \<noteq> 0xFFFFFFFF then Some Fast_Xmit
      else if seg_fastack s > 0 \<and> seg_fastack s \<noteq> 0xFFFFFFFF \<and> newSegsCount = 0 then Some Early_Xmit
      else if 0 \<le> sint (itimediff current (seg_resendts s)) then Some Timeout_Xmit
      else None)"

definition reschedule :: "kcp \<Rightarrow> u32 \<Rightarrow> xmit_reason \<Rightarrow> segment \<Rightarrow> segment" where
  "reschedule k current why s =
     (case why of
        Initial_Xmit \<Rightarrow> s\<lparr>seg_rto := rx_rto k, seg_resendts := current + rx_rto k\<rparr>
      | Timeout_Xmit \<Rightarrow>
          let rto = seg_rto s + (if nodelay k = 0 then rx_rto k else rx_rto k div 2)
          in s\<lparr>seg_rto := rto, seg_fastack := 0, seg_resendts := current + rto\<rparr>
      | _ \<Rightarrow> s\<lparr>seg_fastack := 0xFFFFFFFF, seg_rto := rx_rto k, seg_resendts := current + rx_rto k\<rparr>)"

record flush_state =
  fs_k :: kcp
  fs_written :: "byte list"
  fs_current :: u32
  fs_change :: u64
  fs_lost :: u64
  fs_fast :: u64
  fs_early :: u64
  fs_next :: u32

definition count_xmit :: "xmit_reason \<Rightarrow> flush_state \<Rightarrow> flush_state" where
  "count_xmit why fs =
     (case why of
        Initial_Xmit \<Rightarrow> fs
      | Fast_Xmit \<Rightarrow> fs\<lparr>fs_change := fs_change fs + 1, fs_fast := fs_fast fs + 1\<rparr>
      | Early_Xmit \<Rightarrow> fs\<lparr>fs_change := fs_change fs + 1, fs_early := fs_early fs + 1\<rparr>
      | Timeout_Xmit \<Rightarrow> fs\<lparr>fs_lost := fs_lost fs + 1\<rparr>)"

definition transmit :: "clock \<Rightarrow> segment \<Rightarrow> flush_state \<Rightarrow> segment \<Rightarrow> (flush_state \<times> segment) option" where
  "transmit clk seg fs s =
     (let (current, k) = currentMs clk (fs_k fs);
          s = s\<lparr>seg_xmit := seg_xmit s + 1, seg_ts := current, seg_wnd := seg_wnd seg, seg_una := seg_una seg\<rparr>;
          (w, k) = makeSpace (fs_written fs) (IKCP_OVERHEAD + length (seg_bytes s)) k
      in do {
        w \<leftarrow> put_bytes w (segment_encode s) k;
        w \<leftarrow> put_bytes w (seg_bytes s) k;
        let k = (if seg_xmit s \<ge> dead_link k then k\<lparr>state := 0xFFFFFFFF\<rparr> else k);
        Some (fs\<lparr>fs_k := k, fs_written := w, fs_current := current\<rparr>, s)})"

definition nearest_rto :: "flush_state \<Rightarrow> segment \<Rightarrow> flush_state" where
  "nearest_rto fs s =
     (let rto = itimediff (seg_resendts s) (fs_current fs)
      in if 0 < sint rto \<and> rto < fs_next fs then fs\<lparr>fs_next := rto\<rparr> else fs)"

definition flush_seg :: "clock \<Rightarrow> u32 \<Rightarrow> nat \<Rightarrow> segment \<Rightarrow> flush_state \<Rightarrow> segment \<Rightarrow>
    (flush_state \<times> segment \<times> bool) option" where
  "flush_seg clk resent newSegsCount seg fs s =
     (if seg_acked s = 1 then Some (fs, s, True)
      else case xmit_reason resent newSegsCount (fs_current fs) s of
        None \<Rightarrow> Some (nearest_rto fs s, s, True)
      | Some why \<Rightarrow>
          map_option (\<lambda>(fs, s). (nearest_rto fs s, s, True))
            (transmit clk seg (count_xmit why fs) (reschedule (fs_k fs) (fs_current fs) why s)))"

text \<open>Phase 6.\<close>

definition flush_stats :: "flush_state \<Rightarrow> Snmp \<Rightarrow> Snmp" where
  "flush_stats fs st =
     (let lost = fs_lost fs; total = lost;
          st = (if lost > 0 then addLostSegs lost st else st);
          (st, total) = (if fs_fast fs > 0 then (addFastRetransSegs (fs_fast fs) st, total + fs_fast fs) else (st, total));
          (st, total) = (if fs_early fs > 0 then (addEarlyRetransSegs (fs_early fs) st, total + fs_early fs) else (st, total))
      in if total > 0 then addRetransSegs total st else st)"

definition flush_cwnd :: "u32 \<Rightarrow> u32 \<Rightarrow> flush_state \<Rightarrow> kcp \<Rightarrow> kcp" where
  "flush_cwnd wnd resent fs k =
     (if nocwnd k = 0
      then let k = (if fs_change fs > 0
                    then let inflight = snd_nxt k - snd_una k;
                             thresh = max (inflight div 2) IKCP_THRESH_MIN
                      in k\<lparr>ssthresh := thresh, cwnd := thresh + resent, incr := (thresh + resent) * mss k\<rparr>
                    else k);
               k = (if fs_lost fs > 0
                    then k\<lparr>ssthresh := max (wnd div 2) IKCP_THRESH_MIN, cwnd := 1, incr := mss k\<rparr>
                    else k)
        in if cwnd k < 1 then k\<lparr>cwnd := 1, incr := mss k\<rparr> else k
      else k)"

section \<open>flush, Update and Check\<close>

definition flush_segs :: "clock \<Rightarrow> u32 \<Rightarrow> nat \<Rightarrow> segment \<Rightarrow> FlushType \<Rightarrow> flush_state \<Rightarrow> flush_state option" where
  "flush_segs clk resent newSegsCount seg flushType fs =
     (if flushType = IKCP_FLUSH_FULL
      then map_option (\<lambda>(fs, sb). fs\<lparr>fs_k := (fs_k fs)\<lparr>snd_buf := sb\<rparr>\<rparr>)
             (ring_scan (flush_seg clk resent newSegsCount seg) fs (snd_buf (fs_k fs)))
      else Some fs)"

definition fast_limit :: "kcp \<Rightarrow> u32" where
  "fast_limit k = (if sint (fastresend k) \<le> 0 then 0xFFFFFFFF else fastresend k)"

definition flush_rest :: "byte list \<Rightarrow> kcp \<Rightarrow> kcp" where
  "flush_rest w k =
     (let k = (if length w > 0 then kcp_output w k else k)
      in count_snmp (storeRingBufferSndBuffer (ring_Len (snd_buf k)) \<circ>
           storeRingBufferRcvQueue (ring_Len (rcv_queue k)) \<circ>
           storeRingBufferSndQueue (ring_Len (snd_queue k))) k)"

text \<open>Phases 1 to 3, which write segments without data.\<close>

definition flush_control :: "clock \<Rightarrow> kcp \<Rightarrow> (segment \<times> byte list \<times> kcp) option" where
  "flush_control clk k = do {
     let seg = zero_segment\<lparr>seg_conv := conv k, seg_cmd := IKCP_CMD_ACK, seg_wnd := wnd_unused k,
                            seg_una := rcv_nxt k\<rparr>;
     (seg, w, k) \<leftarrow> flush_acks 0 (acklist k) seg [] k;
     let k = flush_probe clk (k\<lparr>acklist := []\<rparr>);
     flush_asks seg w k}"

text \<open>Phases 4 to 6.\<close>

definition flush_data :: "clock \<Rightarrow> FlushType \<Rightarrow> segment \<Rightarrow> byte list \<Rightarrow> kcp \<Rightarrow> (u32 \<times> kcp) option" where
  "flush_data clk flushType seg w k = do {
     let wnd = flush_window k;
     (newSegsCount, k) \<leftarrow> flush_move (Suc (ring_Len (snd_queue k))) wnd 0 k;
     let resent = fast_limit k;
     let (current, k) = currentMs clk k;
     fs \<leftarrow> flush_segs clk resent newSegsCount seg flushType
       \<lparr>fs_k = k, fs_written = w, fs_current = current, fs_change = 0, fs_lost = 0, fs_fast = 0,
        fs_early = 0, fs_next = interval k\<rparr>;
     let k = flush_cwnd wnd resent fs (count_snmp (flush_stats fs) (fs_k fs));
     Some (fs_next fs, flush_rest (fs_written fs) k)}"

definition flush :: "clock \<Rightarrow> FlushType \<Rightarrow> kcp \<Rightarrow> (u32 \<times> kcp) option" where
  "flush clk flushType k = do {
     (seg, w, k) \<leftarrow> flush_control clk k;
     flush_data clk flushType seg w k}"

text \<open>The timer of \<^verbatim>\<open>Update\<close>: whether to flush now, and when to flush next.\<close>

definition update_timer :: "u32 \<Rightarrow> kcp \<Rightarrow> bool \<times> kcp" where
  "update_timer current k =
     (let k = (if updated k = 0 then k\<lparr>updated := 1, ts_flush := current\<rparr> else k);
          slap = sint (itimediff current (ts_flush k));
          (slap, k) = (if slap \<ge> 10000 \<or> slap < - 10000 then (0, k\<lparr>ts_flush := current\<rparr>) else (slap, k))
      in if slap \<ge> 0
         then let k = k\<lparr>ts_flush := ts_flush k + interval k\<rparr>
           in (True, if 0 \<le> sint (itimediff current (ts_flush k))
                     then k\<lparr>ts_flush := current + interval k\<rparr> else k)
         else (False, k))"

definition Update :: "clock \<Rightarrow> kcp \<Rightarrow> kcp option" where
  "Update clk k =
     (let (current, k) = currentMs clk k; (due, k) = update_timer current k
      in if due then map_option snd (flush clk IKCP_FLUSH_FULL k) else Some k)"

text \<open>The loop of \<^verbatim>\<open>Check\<close>: \<open>Inl\<close> is its early return, \<open>Inr\<close> the least positive distance so far.\<close>

definition check_seg :: "u32 \<Rightarrow> unit + int \<Rightarrow> segment \<Rightarrow> ((unit + int) \<times> segment \<times> bool) option" where
  "check_seg current st s =
     (case st of
        Inl u \<Rightarrow> Some (Inl u, s, False)
      | Inr tm_packet \<Rightarrow>
          let diff = sint (itimediff (seg_resendts s) current)
          in if diff \<le> 0 then Some (Inl (), s, False)
             else Some (Inr (if diff < tm_packet then diff else tm_packet), s, True))"

definition Check :: "clock \<Rightarrow> kcp \<Rightarrow> (u32 \<times> kcp) option" where
  "Check clk k =
     (let (current, k) = currentMs clk k
      in if updated k = 0 then Some (current, k)
         else let d = sint (itimediff current (ts_flush k));
                  ts = (if d \<ge> 10000 \<or> d < - 10000 then current else ts_flush k)
           in if 0 \<le> sint (itimediff current ts) then Some (current, k)
              else let tm_flush = sint (itimediff ts current)
                in (case ring_scan (check_seg current) (Inr 0x7fffffff) (snd_buf k) of
                      None \<Rightarrow> None
                    | Some (Inl u, r) \<Rightarrow> Some (current, k)
                    | Some (Inr tm_packet, r) \<Rightarrow>
                        let minimal = (if tm_packet \<ge> tm_flush then of_int tm_flush else of_int tm_packet);
                            minimal = (if minimal \<ge> interval k then interval k else minimal)
                        in Some (current + minimal, k)))"

section \<open>What is written\<close>

text \<open>
  The bytes of a packet are whole segments, one after the other. \<open>framed L ps w segs\<close>: the packets
  \<open>ps\<close> handed out so far and the bytes \<open>w\<close> not handed out yet carry the segments \<open>segs\<close>, in
  order and none split over two packets, and no packet is longer than \<open>L\<close>.
\<close>

definition frame :: "segment \<Rightarrow> byte list" where
  "frame s = segment_encode s @ seg_bytes s"

definition framed :: "nat \<Rightarrow> byte list list \<Rightarrow> byte list \<Rightarrow> segment list \<Rightarrow> bool" where
  "framed L ps w segs \<longleftrightarrow>
     (\<exists>pss ws. ps = map (\<lambda>ss. concat (map frame ss)) pss \<and> w = concat (map frame ws) \<and>
        concat pss @ ws = segs) \<and> (\<forall>p\<in>set (w # ps). length p \<le> L)"

lemma length_frame [simp]: "length (frame s) = IKCP_OVERHEAD + length (seg_bytes s)"
  by (simp add: frame_def)

lemma framed_Nil [simp]: "framed L [] [] []"
  by (auto simp: framed_def)

lemma framed_short: "framed L ps w segs \<Longrightarrow> length w \<le> L"
  by (simp add: framed_def)

lemma framed_output:
  assumes "framed L ps w segs"
  shows "framed L (ps @ [w]) [] segs"
proof -
  obtain pss ws where "ps = map (\<lambda>ss. concat (map frame ss)) pss" "w = concat (map frame ws)"
    "concat pss @ ws = segs" using assms by (auto simp: framed_def)
  then have "ps @ [w] = map (\<lambda>ss. concat (map frame ss)) (pss @ [ws]) \<and> [] = concat (map frame []) \<and>
      concat (pss @ [ws]) @ [] = segs" by simp
  moreover have "\<forall>p\<in>set ([] # ps @ [w]). length p \<le> L" using assms by (auto simp: framed_def)
  ultimately show ?thesis unfolding framed_def by blast
qed

lemma framed_put:
  assumes "framed L ps w segs" "length w + length (frame s) \<le> L"
  shows "framed L ps (w @ frame s) (segs @ [s])"
proof -
  obtain pss ws where "ps = map (\<lambda>ss. concat (map frame ss)) pss" "w = concat (map frame ws)"
    "concat pss @ ws = segs" using assms(1) by (auto simp: framed_def)
  then have "ps = map (\<lambda>ss. concat (map frame ss)) pss \<and> w @ frame s = concat (map frame (ws @ [s])) \<and>
      concat pss @ (ws @ [s]) = segs @ [s]" by auto
  moreover have "\<forall>p\<in>set ((w @ frame s) # ps). length p \<le> L" using assms by (auto simp: framed_def)
  ultimately show ?thesis unfolding framed_def by blast
qed

definition room :: "nat \<Rightarrow> kcp \<Rightarrow> bool" where
  "room L k \<longleftrightarrow> IKCP_OVERHEAD < unat (mtu k) \<and> unat (mtu k) \<le> L \<and> L \<le> buffer_len k"

lemma makeSpace_framed:
  assumes "framed L ps w segs" "sent k = base @ ps" "room L k" "n \<le> L"
  shows "\<exists>w1 ps1. makeSpace w n k = (w1, k\<lparr>sent := base @ ps1\<rparr>) \<and> framed L ps1 w1 segs \<and> length w1 + n \<le> L"
proof (cases "length w + n > unat (mtu k)")
  case True
  then show ?thesis
    using assms framed_output [OF assms(1)]
    by (intro exI [of _ "[]"] exI [of _ "ps @ [w]"]) (simp add: makeSpace_def kcp_output_def)
next
  case False
  then show ?thesis
    using assms by (intro exI [of _ w] exI [of _ ps]) (simp add: makeSpace_def room_def flip: assms(2))
qed

text \<open>A segment without data, such as an acknowledgement.\<close>

lemma write_header:
  assumes "framed L ps w segs" "sent k = base @ ps" "room L k" "seg_data s = None"
  shows "\<exists>w1 ps1. makeSpace w IKCP_OVERHEAD k = (w1, k\<lparr>sent := base @ ps1\<rparr>) \<and> framed L ps1 w1 segs \<and>
    put_bytes w1 (segment_encode s) (k\<lparr>sent := base @ ps1\<rparr>) = Some (w1 @ frame s) \<and>
    framed L ps1 (w1 @ frame s) (segs @ [s])"
proof -
  have "IKCP_OVERHEAD \<le> L" using assms(3) by (simp add: room_def)
  from makeSpace_framed [OF assms(1-3) this] obtain w1 ps1 where
    m: "makeSpace w IKCP_OVERHEAD k = (w1, k\<lparr>sent := base @ ps1\<rparr>)" "framed L ps1 w1 segs" "length w1 + IKCP_OVERHEAD \<le> L"
    by blast
  have "frame s = segment_encode s" using assms(4) by (simp add: frame_def seg_bytes_def)
  then show ?thesis
    using m assms(3) framed_put [OF m(2), of s]
    by (intro exI [of _ w1] exI [of _ ps1]) (simp add: put_bytes_def room_def)
qed

section \<open>Acknowledgements and probes\<close>

text \<open>The acknowledgements worth sending: those not yet covered by \<^verbatim>\<open>una\<close>, and the last.\<close>

fun acks_out :: "u32 \<Rightarrow> ackItem list \<Rightarrow> ackItem list" where
  "acks_out nxt [] = []"
| "acks_out nxt (a # as) =
     (if 0 \<le> sint (itimediff (ack_sn a) nxt) \<or> as = [] then a # acks_out nxt as else acks_out nxt as)"

definition ack_seg_of :: "segment \<Rightarrow> ackItem \<Rightarrow> segment" where
  "ack_seg_of seg a = seg\<lparr>seg_sn := ack_sn a, seg_ts := ack_ts a\<rparr>"

lemma flush_acks_spec:
  assumes "framed L ps w segs" "sent k = base @ ps" "room L k" "seg_data seg = None"
    "i + length acks = length (acklist k)"
  shows "\<exists>n t w1 ps1. flush_acks i acks seg w k = Some (seg\<lparr>seg_sn := n, seg_ts := t\<rparr>, w1, k\<lparr>sent := base @ ps1\<rparr>) \<and>
    framed L ps1 w1 (segs @ map (ack_seg_of seg) (acks_out (rcv_nxt k) acks))"
  using assms
proof (induction acks arbitrary: i seg w k ps segs)
  case Nil
  then show ?case
    by (intro exI [of _ "seg_sn seg"] exI [of _ "seg_ts seg"] exI [of _ w] exI [of _ ps]) (simp flip: Nil.prems(2))
next
  case (Cons a as)
  let ?s = "ack_seg_of seg a"
  have d: "seg_data ?s = None" using Cons.prems(4) by (simp add: ack_seg_of_def)
  from write_header [OF Cons.prems(1-3) d] obtain w1 ps1 where
    w: "makeSpace w IKCP_OVERHEAD k = (w1, k\<lparr>sent := base @ ps1\<rparr>)" "framed L ps1 w1 segs"
    "put_bytes w1 (segment_encode ?s) (k\<lparr>sent := base @ ps1\<rparr>) = Some (w1 @ frame ?s)"
    "framed L ps1 (w1 @ frame ?s) (segs @ [?s])" by blast
  let ?k = "k\<lparr>sent := base @ ps1\<rparr>"
  have last: "int (length (acklist k)) - 1 = int i \<longleftrightarrow> as = []"
    using Cons.prems(5) by (cases as) auto
  have r: "sent ?k = base @ ps1" "room L ?k" "Suc i + length as = length (acklist ?k)"
    using Cons.prems(3,5) by (simp_all add: room_def)
  have same: "ack_seg_of ?s = ack_seg_of seg" by (simp add: ack_seg_of_def fun_eq_iff)
  show ?case
  proof (cases "0 \<le> sint (itimediff (ack_sn a) (rcv_nxt k)) \<or> as = []")
    case True
    then have step: "flush_acks i (a # as) seg w k = flush_acks (Suc i) as ?s (w1 @ frame ?s) ?k"
      using w(3) by (simp add: w(1) last ack_seg_of_def Let_def)
    show ?thesis
      unfolding step using Cons.IH [OF w(4) r(1,2) d r(3)] True by (simp add: same) (simp add: ack_seg_of_def)
  next
    case False
    then have step: "flush_acks i (a # as) seg w k = flush_acks (Suc i) as seg w1 ?k"
      by (simp add: w(1) last)
    show ?thesis
      unfolding step using Cons.IH [OF w(2) r(1,2) Cons.prems(4) r(3)] False by simp
  qed
qed

lemma flush_probe_eq:
  "flush_probe clk k = k\<lparr>ticks := ticks (flush_probe clk k), probe_wait := probe_wait (flush_probe clk k),
     ts_probe := ts_probe (flush_probe clk k), probe := probe (flush_probe clk k)\<rparr>"
  by (simp add: flush_probe_def currentMs_def Let_def)

lemma flush_ask_spec:
  assumes "framed L ps w segs" "sent k = base @ ps" "room L k" "seg_data seg = None"
  shows "\<exists>c w1 ps1 outs. flush_ask flag command seg w k = Some (seg\<lparr>seg_cmd := c\<rparr>, w1, k\<lparr>sent := base @ ps1\<rparr>) \<and>
    framed L ps1 w1 (segs @ outs) \<and> outs = (if probe k AND flag \<noteq> 0 then [seg\<lparr>seg_cmd := command\<rparr>] else [])"
proof (cases "probe k AND flag = 0")
  case True
  then show ?thesis using assms
    by (intro exI [of _ "seg_cmd seg"] exI [of _ w] exI [of _ ps]) (simp add: flush_ask_def flip: assms(2))
next
  case False
  let ?s = "seg\<lparr>seg_cmd := command\<rparr>"
  from assms(4) have "seg_data ?s = None" by simp
  from write_header [OF assms(1-3) this] False show ?thesis
    by (intro exI [of _ command]) (auto simp: flush_ask_def Let_def)
qed

lemma flush_asks_spec:
  assumes "framed L ps w segs" "sent k = base @ ps" "room L k" "seg_data seg = None"
  shows "\<exists>c w1 ps1 outs. flush_asks seg w k = Some (seg\<lparr>seg_cmd := c\<rparr>, w1, k\<lparr>sent := base @ ps1, probe := 0\<rparr>) \<and>
    framed L ps1 w1 (segs @ outs) \<and>
    outs = (if probe k AND IKCP_ASK_SEND \<noteq> 0 then [seg\<lparr>seg_cmd := IKCP_CMD_WASK\<rparr>] else []) @
           (if probe k AND IKCP_ASK_TELL \<noteq> 0 then [seg\<lparr>seg_cmd := IKCP_CMD_WINS\<rparr>] else [])"
proof -
  obtain c w1 ps1 o1 where a: "flush_ask IKCP_ASK_SEND IKCP_CMD_WASK seg w k = Some (seg\<lparr>seg_cmd := c\<rparr>, w1, k\<lparr>sent := base @ ps1\<rparr>)"
    "framed L ps1 w1 (segs @ o1)" "o1 = (if probe k AND IKCP_ASK_SEND \<noteq> 0 then [seg\<lparr>seg_cmd := IKCP_CMD_WASK\<rparr>] else [])"
    using flush_ask_spec [OF assms] by blast
  let ?k = "k\<lparr>sent := base @ ps1\<rparr>" and ?s = "seg\<lparr>seg_cmd := c\<rparr>"
  have r: "sent ?k = base @ ps1" "room L ?k" "seg_data ?s = None" using assms(3,4) by (simp_all add: room_def)
  obtain c' w2 ps2 o2 where b: "flush_ask IKCP_ASK_TELL IKCP_CMD_WINS ?s w1 ?k = Some (?s\<lparr>seg_cmd := c'\<rparr>, w2, ?k\<lparr>sent := base @ ps2\<rparr>)"
    "framed L ps2 w2 ((segs @ o1) @ o2)" "o2 = (if probe ?k AND IKCP_ASK_TELL \<noteq> 0 then [?s\<lparr>seg_cmd := IKCP_CMD_WINS\<rparr>] else [])"
    using flush_ask_spec [OF a(2) r] by blast
  show ?thesis
    using a b by (intro exI [of _ c'] exI [of _ w2] exI [of _ ps2] exI [of _ "o1 @ o2"]) (simp add: flush_asks_def)
qed

section \<open>Filling the window\<close>

definition to_push :: "kcp \<Rightarrow> u32 \<Rightarrow> segment \<Rightarrow> segment" where
  "to_push k n s = s\<lparr>seg_conv := conv k, seg_cmd := IKCP_CMD_PUSH, seg_sn := n\<rparr>"

fun number :: "kcp \<Rightarrow> u32 \<Rightarrow> segment list \<Rightarrow> segment list" where
  "number k n [] = []"
| "number k n (s # ss) = to_push k n s # number k (n + 1) ss"

lemma length_number [simp]: "length (number k n ss) = length ss"
  by (induction ss arbitrary: n) auto

lemma number_sn: "map seg_sn (number k n ss) = seqs n (length ss)"
  by (induction ss arbitrary: n) (auto simp: to_push_def seqs_Suc)

lemma number_data: "map seg_data (number k n ss) = map seg_data ss"
  by (induction ss arbitrary: n) (auto simp: to_push_def)

lemma number_bytes: "map seg_bytes (number k n ss) = map seg_bytes ss"
  by (induction ss arbitrary: n) (auto simp: to_push_def seg_bytes_def)

lemma number_fresh: "fresh ss \<Longrightarrow> fresh (number k n ss)"
  by (induction ss arbitrary: n) (simp_all add: to_push_def)

lemma number_conv: "conv k' = conv k \<Longrightarrow> number k' n ss = number k n ss"
  by (induction ss arbitrary: n) (simp_all add: to_push_def)

text \<open>The window test is exact: it compares the number of segments in flight.\<close>

lemma window_test:
  assumes "inflight_wf k" "unat wnd \<le> 65535"
  shows "0 \<le> sint (itimediff (snd_nxt k) (snd_una k + wnd)) \<longleftrightarrow> unat wnd \<le> ring_Len (snd_buf k)"
proof -
  have n: "ring_Len (snd_buf k) \<le> 65535" and nxt: "snd_nxt k = snd_una k + of_nat (ring_Len (snd_buf k))"
    using assms(1) by (simp_all add: inflight_wf_def)
  have e: "snd_nxt k - (snd_una k + wnd) = of_nat (ring_Len (snd_buf k)) - wnd" by (simp add: nxt)
  have u: "unat (of_nat (ring_Len (snd_buf k)) - wnd) = (if unat wnd \<le> ring_Len (snd_buf k)
      then ring_Len (snd_buf k) - unat wnd else 4294967296 + ring_Len (snd_buf k) - unat wnd)"
    using n by (simp add: unat_diff_u32)
  show ?thesis unfolding itimediff_ge_0 e u using n assms(2) by auto
qed

lemma inflight_wf_push:
  assumes "inflight_wf k" "ring_Len (snd_buf k) < 65535" "seg_sn s = snd_nxt k"
  shows "inflight_wf (k\<lparr>snd_queue := q, snd_buf := queue_push (snd_buf k) s, snd_nxt := snd_nxt k + 1\<rparr>)"
proof -
  have "ring_Len (queue_push (snd_buf k) s) = Suc (ring_Len (snd_buf k))"
    using assms(1) by (simp add: inflight_wf_def ring_Push_list flip: length_ring_list)
  then show ?thesis
    using assms by (simp add: inflight_wf_def ring_Push_wf ring_Push_list seqs_snoc)
qed

definition move_effect :: "u32 \<Rightarrow> kcp \<Rightarrow> segment list \<Rightarrow> kcp \<Rightarrow> bool" where
  "move_effect wnd k moved k' \<longleftrightarrow> (\<exists>q sb.
     k' = k\<lparr>snd_queue := q, snd_buf := sb, snd_nxt := snd_nxt k + of_nat (length moved)\<rparr> \<and>
     ring_wf q \<and> ring_list (snd_queue k) = moved @ ring_list q \<and>
     ring_list sb = ring_list (snd_buf k) @ number k (snd_nxt k) moved \<and>
     ring_Len sb \<le> max (ring_Len (snd_buf k)) (unat wnd) \<and>
     (ring_list q = [] \<or> unat wnd \<le> ring_Len sb))"

lemma move_effect_Cons:
  assumes "move_effect wnd (k\<lparr>snd_queue := q, snd_buf := sb, snd_nxt := snd_nxt k + 1\<rparr>) moved k'"
    "ring_list sb = ring_list (snd_buf k) @ [to_push k (snd_nxt k) s]" "ring_list q = ss"
    "ring_list (snd_queue k) = s # ss" "ring_Len (snd_buf k) < unat wnd"
  shows "move_effect wnd k (s # moved) k'"
proof -
  let ?k = "k\<lparr>snd_queue := q, snd_buf := sb, snd_nxt := snd_nxt k + 1\<rparr>"
  obtain q' sb' where e: "k' = ?k\<lparr>snd_queue := q', snd_buf := sb', snd_nxt := snd_nxt ?k + of_nat (length moved)\<rparr>"
    "ring_wf q'" "ring_list (snd_queue ?k) = moved @ ring_list q'"
    "ring_list sb' = ring_list (snd_buf ?k) @ number ?k (snd_nxt ?k) moved"
    "ring_Len sb' \<le> max (ring_Len (snd_buf ?k)) (unat wnd)" "ring_list q' = [] \<or> unat wnd \<le> ring_Len sb'"
    using assms(1) unfolding move_effect_def by blast
  have "ring_Len sb = Suc (ring_Len (snd_buf k))" using assms(2) by (simp flip: length_ring_list)
  then show ?thesis
    unfolding move_effect_def using e assms(2-5) number_conv [of ?k k]
    by (intro exI [of _ q'] exI [of _ sb']) (simp add: add.assoc)
qed

lemma flush_move_spec:
  assumes "inflight_wf k" "ring_wf (snd_queue k)" "unat wnd \<le> 65535" "ring_Len (snd_queue k) < fuel"
  shows "\<exists>moved k'. flush_move fuel wnd n k = Some (n + length moved, k') \<and> inflight_wf k' \<and> move_effect wnd k moved k'"
  using assms
proof (induction fuel arbitrary: n k)
  case (Suc fuel)
  have stop: ?case if "flush_move (Suc fuel) wnd n k = Some (n, k)" "ring_list (snd_queue k) = [] \<or> unat wnd \<le> ring_Len (snd_buf k)"
  proof -
    have "move_effect wnd k [] k"
      unfolding move_effect_def using Suc.prems(2) that(2)
      by (intro exI [of _ "snd_queue k"] exI [of _ "snd_buf k"]) simp
    then show ?thesis using that(1) Suc.prems(1) by (intro exI [of _ "[]"] exI [of _ k]) simp
  qed
  show ?case
  proof (cases "unat wnd \<le> ring_Len (snd_buf k)")
    case True
    then show ?thesis using window_test [OF Suc.prems(1,3)] by (intro stop) simp_all
  next
    case False
    show ?thesis
    proof (cases "ring_list (snd_queue k)")
      case Nil
      then show ?thesis using False window_test [OF Suc.prems(1,3)] by (intro stop) (simp_all add: queue_pop_Nil)
    next
      case (Cons s ss)
      obtain q where q: "queue_pop (snd_queue k) = (Some s, q)" "ring_wf q" "ring_list q = ss"
        using queue_pop_Cons [OF Suc.prems(2) Cons] by blast
      let ?s = "to_push k (snd_nxt k) s"
      let ?k = "k\<lparr>snd_queue := q, snd_buf := queue_push (snd_buf k) ?s, snd_nxt := snd_nxt k + 1\<rparr>"
      have step: "flush_move (Suc fuel) wnd n k = flush_move fuel wnd (Suc n) ?k"
        using False window_test [OF Suc.prems(1,3)] by (simp add: q(1) to_push_def)
      have wf: "inflight_wf ?k" using Suc.prems(1,3) False by (intro inflight_wf_push) (simp_all add: to_push_def)
      have b: "ring_list (queue_push (snd_buf k) ?s) = ring_list (snd_buf k) @ [?s]"
        using Suc.prems(1) by (simp add: inflight_wf_def ring_Push_list)
      have "ring_Len q < fuel" using Suc.prems(4) q(3) Cons by (simp flip: length_ring_list)
      then obtain moved k' where m: "flush_move fuel wnd (Suc n) ?k = Some (Suc n + length moved, k')"
          "inflight_wf k'" "move_effect wnd ?k moved k'"
        using Suc.IH [of ?k "Suc n"] wf q(2) Suc.prems(3) by auto
      have "move_effect wnd k (s # moved) k'"
        by (rule move_effect_Cons [OF m(3) b q(3) Cons]) (use False in simp)
      then show ?thesis unfolding step using m by (intro exI [of _ "s # moved"] exI [of _ k']) simp
    qed
  qed
qed simp

section \<open>Transmission\<close>

definition xmit_rel :: "segment \<Rightarrow> segment \<Rightarrow> segment \<Rightarrow> bool" where
  "xmit_rel seg s s' \<longleftrightarrow> s' = s \<and> (seg_xmit s = 0 \<longrightarrow> seg_acked s = 1) \<or>
     seg_acked s \<noteq> 1 \<and> seg_xmit s' = seg_xmit s + 1 \<and> seg_conv s' = seg_conv s \<and> seg_cmd s' = seg_cmd s \<and>
     seg_frg s' = seg_frg s \<and> seg_sn s' = seg_sn s \<and> seg_acked s' = seg_acked s \<and>
     seg_data s' = seg_data s \<and> seg_wnd s' = seg_wnd seg \<and> seg_una s' = seg_una seg"

definition sent_of :: "segment \<Rightarrow> segment \<Rightarrow> segment list" where
  "sent_of s s' = (if seg_xmit s' = seg_xmit s then [] else [s'])"

text \<open>Whether a segment is sent: exactly when it is not acknowledged and, at some reading of the clock, there is a reason.\<close>

definition xmit_due :: "u32 \<Rightarrow> nat \<Rightarrow> segment \<Rightarrow> segment \<Rightarrow> bool" where
  "xmit_due resent newSegsCount s s' \<longleftrightarrow>
     (\<exists>now. seg_xmit s' \<noteq> seg_xmit s \<longleftrightarrow> seg_acked s \<noteq> 1 \<and> xmit_reason resent newSegsCount now s \<noteq> None)"

definition fs_ok :: "nat \<Rightarrow> byte list list \<Rightarrow> kcp \<Rightarrow> segment list \<Rightarrow> flush_state \<Rightarrow> bool" where
  "fs_ok L base k segs fs \<longleftrightarrow>
     (\<exists>t ps x. fs_k fs = k\<lparr>ticks := t, sent := base @ ps, state := x\<rparr> \<and> framed L ps (fs_written fs) segs) \<and>
     fs_next fs \<le> interval k"

lemma transmit_spec:
  assumes ok: "fs_ok L base k segs fs" and room: "room L k" and len: "IKCP_OVERHEAD + length (seg_bytes s) \<le> L"
  shows "\<exists>fs' s'. transmit clk seg fs s = Some (fs', s') \<and> fs_ok L base k (segs @ [s']) fs' \<and>
    s' = s\<lparr>seg_xmit := seg_xmit s + 1, seg_ts := fs_current fs', seg_wnd := seg_wnd seg, seg_una := seg_una seg\<rparr> \<and>
    fs_change fs' = fs_change fs \<and> fs_lost fs' = fs_lost fs"
proof -
  obtain t ps x where K: "fs_k fs = k\<lparr>ticks := t, sent := base @ ps, state := x\<rparr>" and f: "framed L ps (fs_written fs) segs"
    using ok by (auto simp: fs_ok_def)
  let ?k = "k\<lparr>ticks := Suc t, sent := base @ ps, state := x\<rparr>"
  let ?s = "s\<lparr>seg_xmit := seg_xmit s + 1, seg_ts := clk t, seg_wnd := seg_wnd seg, seg_una := seg_una seg\<rparr>"
  have b: "seg_bytes ?s = seg_bytes s" by (simp add: seg_bytes_def)
  have "sent ?k = base @ ps" "room L ?k" using room by (simp_all add: room_def)
  from makeSpace_framed [OF f this len] obtain w1 ps1 where
    m: "makeSpace (fs_written fs) (IKCP_OVERHEAD + length (seg_bytes s)) ?k = (w1, ?k\<lparr>sent := base @ ps1\<rparr>)"
    "framed L ps1 w1 segs" "length w1 + (IKCP_OVERHEAD + length (seg_bytes s)) \<le> L" by blast
  let ?k1 = "?k\<lparr>sent := base @ ps1\<rparr>"
  let ?y = "if seg_xmit s + 1 \<ge> dead_link k then 0xFFFFFFFF else x"
  let ?fs = "fs\<lparr>fs_k := k\<lparr>ticks := Suc t, sent := base @ ps1, state := ?y\<rparr>, fs_written := w1 @ frame ?s, fs_current := clk t\<rparr>"
  have p: "put_bytes w1 (segment_encode ?s) ?k1 = Some (w1 @ segment_encode ?s)"
    "put_bytes (w1 @ segment_encode ?s) (seg_bytes ?s) ?k1 = Some (w1 @ frame ?s)"
    using m(3) room by (simp_all add: put_bytes_def room_def b frame_def)
  have cur: "currentMs clk (fs_k fs) = (clk t, ?k)" by (simp add: currentMs_def K)
  have T: "transmit clk seg fs s = Some (?fs, ?s)"
    unfolding transmit_def cur using m(1) p by (simp add: b Let_def)
  have "framed L ps1 (w1 @ frame ?s) (segs @ [?s])" using framed_put [OF m(2), of ?s] m(3) by (simp add: b)
  then have "fs_ok L base k (segs @ [?s]) ?fs" using ok unfolding fs_ok_def by auto
  then show ?thesis using T by simp
qed

lemma nearest_rto_simps [simp]:
  "fs_k (nearest_rto fs s) = fs_k fs" "fs_written (nearest_rto fs s) = fs_written fs"
  "fs_change (nearest_rto fs s) = fs_change fs" "fs_lost (nearest_rto fs s) = fs_lost fs"
  by (simp_all add: nearest_rto_def Let_def)

lemma nearest_rto_ok: "fs_ok L base k segs fs \<Longrightarrow> fs_ok L base k segs (nearest_rto fs s)"
  unfolding fs_ok_def by (auto simp: nearest_rto_def Let_def)

lemma count_xmit_ok: "fs_ok L base k segs fs \<Longrightarrow> fs_ok L base k segs (count_xmit why fs)"
  unfolding fs_ok_def by (cases why) (auto simp: count_xmit_def)

lemma reschedule_same [simp]:
  "seg_conv (reschedule k c why s) = seg_conv s" "seg_cmd (reschedule k c why s) = seg_cmd s"
  "seg_frg (reschedule k c why s) = seg_frg s" "seg_sn (reschedule k c why s) = seg_sn s"
  "seg_xmit (reschedule k c why s) = seg_xmit s" "seg_acked (reschedule k c why s) = seg_acked s"
  "seg_data (reschedule k c why s) = seg_data s" "seg_bytes (reschedule k c why s) = seg_bytes s"
  by (cases why; simp add: reschedule_def Let_def seg_bytes_def)+

lemma flush_seg_spec:
  assumes ok: "fs_ok L base k segs fs" and "room L k" "IKCP_OVERHEAD + length (seg_bytes s) \<le> L"
  shows "\<exists>fs' s'. flush_seg clk resent n seg fs s = Some (fs', s', True) \<and> xmit_rel seg s s' \<and>
    xmit_due resent n s s' \<and> fs_ok L base k (segs @ sent_of s s') fs'"
proof (cases "seg_acked s = 1")
  case True
  then show ?thesis using ok by (simp add: flush_seg_def xmit_rel_def xmit_due_def sent_of_def)
next
  case False
  show ?thesis
  proof (cases "xmit_reason resent n (fs_current fs) s")
    case None
    then have "xmit_due resent n s s" unfolding xmit_due_def by (intro exI [of _ "fs_current fs"]) simp
    then show ?thesis using None ok False nearest_rto_ok [OF ok]
      by (auto simp: flush_seg_def xmit_rel_def sent_of_def xmit_reason_def split: if_splits)
  next
    case (Some why)
    let ?s = "reschedule (fs_k fs) (fs_current fs) why s"
    have "IKCP_OVERHEAD + length (seg_bytes ?s) \<le> L" using assms(3) by simp
    from transmit_spec [OF count_xmit_ok [OF ok] assms(2) this] obtain fs' s' where
      t: "transmit clk seg (count_xmit why fs) ?s = Some (fs', s')" "fs_ok L base k (segs @ [s']) fs'"
      "s' = ?s\<lparr>seg_xmit := seg_xmit ?s + 1, seg_ts := fs_current fs', seg_wnd := seg_wnd seg, seg_una := seg_una seg\<rparr>"
      by blast
    have "flush_seg clk resent n seg fs s = Some (nearest_rto fs' s', s', True)"
      using Some False t(1) by (simp add: flush_seg_def)
    moreover have "xmit_due resent n s s'"
      unfolding xmit_due_def using Some False by (intro exI [of _ "fs_current fs"]) (simp add: t(3))
    moreover have "xmit_rel seg s s'" "sent_of s s' = [s']"
      using False by (simp_all add: xmit_rel_def sent_of_def t(3))
    ultimately show ?thesis using nearest_rto_ok [OF t(2)] by simp
  qed
qed

lemma flush_seg_iter:
  assumes "fs_ok L base k segs fs" "room L k" "\<forall>s\<in>set ss. IKCP_OVERHEAD + length (seg_bytes s) \<le> L"
  shows "\<exists>fs' ss'. iter_list (flush_seg clk resent n seg) fs ss = Some (fs', ss') \<and>
    list_all2 (xmit_rel seg) ss ss' \<and> list_all2 (xmit_due resent n) ss ss' \<and> fs_ok L base k (segs @ concat (map2 sent_of ss ss')) fs'"
  using assms(1,3)
proof (induction ss arbitrary: fs segs)
  case (Cons s ss)
  obtain fs1 s' where f: "flush_seg clk resent n seg fs s = Some (fs1, s', True)" "xmit_rel seg s s'"
    "xmit_due resent n s s'" "fs_ok L base k (segs @ sent_of s s') fs1"
    using flush_seg_spec [OF Cons.prems(1) assms(2)] Cons.prems(2) by fastforce
  obtain fs' ss' where "iter_list (flush_seg clk resent n seg) fs1 ss = Some (fs', ss')"
    "list_all2 (xmit_rel seg) ss ss'" "list_all2 (xmit_due resent n) ss ss'" "fs_ok L base k ((segs @ sent_of s s') @ concat (map2 sent_of ss ss')) fs'"
    using Cons.IH [OF f(4)] Cons.prems(2) by auto
  then show ?case using f by simp
qed simp

lemma flush_segs_spec:
  assumes "fs_ok L base k segs fs" "room L k" "snd_buf (fs_k fs) = snd_buf k" "ring_wf (snd_buf k)"
    "\<forall>s\<in>set (ring_list (snd_buf k)). IKCP_OVERHEAD + length (seg_bytes s) \<le> L"
  shows "\<exists>fs' sb. flush_segs clk resent n seg ft fs = Some fs' \<and> ring_wf sb \<and>
    list_all2 (if ft = IKCP_FLUSH_FULL then xmit_rel seg else (=)) (ring_list (snd_buf k)) (ring_list sb) \<and>
    (ft = IKCP_FLUSH_FULL \<longrightarrow> list_all2 (xmit_due resent n) (ring_list (snd_buf k)) (ring_list sb)) \<and>
    fs_ok L base (k\<lparr>snd_buf := sb\<rparr>) (segs @ concat (map2 sent_of (ring_list (snd_buf k)) (ring_list sb))) fs'"
proof (cases "ft = IKCP_FLUSH_FULL")
  case True
  obtain fs' ss' where i: "iter_list (flush_seg clk resent n seg) fs (ring_list (snd_buf k)) = Some (fs', ss')"
    "list_all2 (xmit_rel seg) (ring_list (snd_buf k)) ss'" "list_all2 (xmit_due resent n) (ring_list (snd_buf k)) ss'"
    "fs_ok L base k (segs @ concat (map2 sent_of (ring_list (snd_buf k)) ss')) fs'"
    using flush_seg_iter [OF assms(1,2,5)] by blast
  obtain sb where sb: "ring_scan (flush_seg clk resent n seg) fs (snd_buf k) = Some (fs', sb)" "ring_wf sb" "ring_list sb = ss'"
    using ring_scan_obtain [OF assms(4) i(1)] by blast
  obtain t ps x where "fs_k fs' = k\<lparr>ticks := t, sent := base @ ps, state := x\<rparr>"
    "framed L ps (fs_written fs') (segs @ concat (map2 sent_of (ring_list (snd_buf k)) ss'))" "fs_next fs' \<le> interval k"
    using i(4) by (auto simp: fs_ok_def)
  then have "fs_ok L base (k\<lparr>snd_buf := sb\<rparr>) (segs @ concat (map2 sent_of (ring_list (snd_buf k)) ss'))
      (fs'\<lparr>fs_k := (fs_k fs')\<lparr>snd_buf := sb\<rparr>\<rparr>)"
    unfolding fs_ok_def by (intro conjI exI [of _ t] exI [of _ ps] exI [of _ x]) simp_all
  then show ?thesis using True sb i(2,3) assms(3) by (auto simp: flush_segs_def)
next
  case False
  have e: "concat (map2 sent_of ss ss) = []" for ss by (induction ss) (auto simp: sent_of_def)
  show ?thesis
    by (rule exI [of _ fs], rule exI [of _ "snd_buf k"], unfold e)
       (use False assms in \<open>simp add: flush_segs_def list.rel_eq\<close>)
qed

section \<open>Congestion window and the whole of flush\<close>

lemma flush_cwnd_eq:
  "flush_cwnd wnd resent fs k = k\<lparr>ssthresh := ssthresh (flush_cwnd wnd resent fs k),
     cwnd := cwnd (flush_cwnd wnd resent fs k), incr := incr (flush_cwnd wnd resent fs k)\<rparr>"
  by (simp add: flush_cwnd_def Let_def)

lemma u32_pos: "(x :: u32) \<noteq> 0 \<Longrightarrow> 1 \<le> x"
  by (simp add: word_le_nat_alt Suc_le_eq unat_gt_0)

lemma flush_cwnd_pos: "nocwnd k = 0 \<Longrightarrow> 1 \<le> cwnd (flush_cwnd wnd resent fs k)"
  by (auto simp: flush_cwnd_def Let_def u32_pos)

lemma flush_cwnd_off: "nocwnd k \<noteq> 0 \<Longrightarrow> flush_cwnd wnd resent fs k = k"
  by (simp add: flush_cwnd_def)

lemma flush_cwnd_thresh:
  "nocwnd k = 0 \<Longrightarrow> fs_change fs > 0 \<or> fs_lost fs > 0 \<Longrightarrow> IKCP_THRESH_MIN \<le> ssthresh (flush_cwnd wnd resent fs k)"
  by (auto simp: flush_cwnd_def Let_def)

definition ack_header :: "kcp \<Rightarrow> segment" where
  "ack_header k = zero_segment\<lparr>seg_conv := conv k, seg_cmd := IKCP_CMD_ACK, seg_wnd := wnd_unused k,
     seg_una := rcv_nxt k\<rparr>"

text \<open>
  The window probes: the peer is asked for its window, or told ours, as the flags of \<^verbatim>\<open>probe\<close> say; a timer may add
  the question when the peer's window is closed.
\<close>

definition probe_cmds :: "u32 \<Rightarrow> u8 list" where
  "probe_cmds p = (if p AND IKCP_ASK_SEND \<noteq> 0 then [IKCP_CMD_WASK] else []) @ (if p AND IKCP_ASK_TELL \<noteq> 0 then [IKCP_CMD_WINS] else [])"

definition asked :: "kcp \<Rightarrow> segment list \<Rightarrow> bool" where
  "asked k asks \<longleftrightarrow> map seg_cmd asks = probe_cmds (probe k) \<or>
     rmt_wnd k = 0 \<and> probe_wait k \<noteq> 0 \<and> map seg_cmd asks = probe_cmds (probe k OR IKCP_ASK_SEND)"

text \<open>
  Everything \<^verbatim>\<open>flush\<close> does: the packets it sends carry the acknowledgements, then the window
  probes, then the segments it transmits, those and only those there is a reason for; segments move from the
  queue to the buffer in order, up to the window, and none is dropped.
\<close>

definition flush_effect :: "nat \<Rightarrow> FlushType \<Rightarrow> kcp \<Rightarrow> kcp \<Rightarrow> bool" where
  "flush_effect L ft k k' \<longleftrightarrow> (\<exists>moved asks ps a b q sb t x th cw ic st.
     k' = k\<lparr>acklist := [], probe_wait := a, ts_probe := b, probe := 0, snd_queue := q, snd_buf := sb,
       snd_nxt := snd_nxt k + of_nat (length moved), ticks := t, sent := sent k @ ps, state := x,
       ssthresh := th, cwnd := cw, incr := ic, snmp := st\<rparr> \<and>
     ring_wf q \<and> ring_wf sb \<and> ring_list (snd_queue k) = moved @ ring_list q \<and>
     list_all2 (if ft = IKCP_FLUSH_FULL then xmit_rel (ack_header k) else (=))
       (ring_list (snd_buf k) @ number k (snd_nxt k) moved) (ring_list sb) \<and>
     ring_Len sb \<le> max (ring_Len (snd_buf k)) (unat (flush_window k)) \<and>
     (ring_list q = [] \<or> unat (flush_window k) \<le> ring_Len sb) \<and>
     framed L ps [] (map (ack_seg_of (ack_header k)) (acks_out (rcv_nxt k) (acklist k)) @ asks @
       concat (map2 sent_of (ring_list (snd_buf k) @ number k (snd_nxt k) moved) (ring_list sb))) \<and>
     (\<forall>s\<in>set asks. seg_cmd s \<in> {IKCP_CMD_WASK, IKCP_CMD_WINS} \<and> seg_data s = None \<and>
        seg_wnd s = wnd_unused k \<and> seg_una s = rcv_nxt k) \<and>
     (nocwnd k = 0 \<longrightarrow> 1 \<le> cw) \<and> asked k asks \<and>
     (ft = IKCP_FLUSH_FULL \<longrightarrow> list_all2 (xmit_due (fast_limit k) (length moved))
        (ring_list (snd_buf k) @ number k (snd_nxt k) moved) (ring_list sb)))"

lemma flush_window_bound: "unat (flush_window k) \<le> unat (rmt_wnd k)"
  by (auto simp: flush_window_def Let_def word_le_nat_alt [symmetric] min_def)

lemma flush_control_spec:
  assumes room: "room L k"
  shows "\<exists>seg w ps asks a b t. flush_control clk k = Some (seg, w,
      k\<lparr>acklist := [], probe_wait := a, ts_probe := b, probe := 0, ticks := t, sent := sent k @ ps\<rparr>) \<and>
    seg_wnd seg = wnd_unused k \<and> seg_una seg = rcv_nxt k \<and>
    framed L ps w (map (ack_seg_of (ack_header k)) (acks_out (rcv_nxt k) (acklist k)) @ asks) \<and>
    (\<forall>s\<in>set asks. seg_cmd s \<in> {IKCP_CMD_WASK, IKCP_CMD_WINS} \<and> seg_data s = None \<and>
        seg_wnd s = wnd_unused k \<and> seg_una s = rcv_nxt k) \<and> asked k asks"
proof -
  have h: "seg_data (ack_header k) = None" by (simp add: ack_header_def zero_segment_def)
  obtain n t w ps1 where acks: "flush_acks 0 (acklist k) (ack_header k) [] k =
      Some ((ack_header k)\<lparr>seg_sn := n, seg_ts := t\<rparr>, w, k\<lparr>sent := sent k @ ps1\<rparr>)"
    "framed L ps1 w (map (ack_seg_of (ack_header k)) (acks_out (rcv_nxt k) (acklist k)))"
    using flush_acks_spec [OF framed_Nil _ room h, of "sent k" 0 "acklist k"] by auto
  let ?seg = "(ack_header k)\<lparr>seg_sn := n, seg_ts := t\<rparr>"
  let ?k2 = "flush_probe clk (k\<lparr>sent := sent k @ ps1, acklist := []\<rparr>)"
  have e2: "?k2 = k\<lparr>acklist := [], ticks := ticks ?k2, probe_wait := probe_wait ?k2, ts_probe := ts_probe ?k2,
      probe := probe ?k2, sent := sent k @ ps1\<rparr>"
    by (subst flush_probe_eq) simp
  have "sent ?k2 = sent k @ ps1" by (subst e2) simp
  moreover have "room L ?k2" using room by (subst e2) (simp add: room_def)
  moreover have "seg_data ?seg = None" using h by simp
  ultimately obtain c w2 ps2 asks where asks: "flush_asks ?seg w ?k2 =
      Some (?seg\<lparr>seg_cmd := c\<rparr>, w2, ?k2\<lparr>sent := sent k @ ps2, probe := 0\<rparr>)"
    "framed L ps2 w2 (map (ack_seg_of (ack_header k)) (acks_out (rcv_nxt k) (acklist k)) @ asks)"
    "asks = (if probe ?k2 AND IKCP_ASK_SEND \<noteq> 0 then [?seg\<lparr>seg_cmd := IKCP_CMD_WASK\<rparr>] else []) @
           (if probe ?k2 AND IKCP_ASK_TELL \<noteq> 0 then [?seg\<lparr>seg_cmd := IKCP_CMD_WINS\<rparr>] else [])"
    using flush_asks_spec [OF acks(2)] by blast
  have e3: "?k2\<lparr>sent := sent k @ ps2, probe := 0\<rparr> = k\<lparr>acklist := [], probe_wait := probe_wait ?k2,
      ts_probe := ts_probe ?k2, probe := 0, ticks := ticks ?k2, sent := sent k @ ps2\<rparr>"
    by (subst e2) simp
  have hd: "seg_wnd (ack_header k) = wnd_unused k" "seg_una (ack_header k) = rcv_nxt k"
    by (simp_all add: ack_header_def)
  have C: "flush_control clk k = Some (?seg\<lparr>seg_cmd := c\<rparr>, w2, k\<lparr>acklist := [], probe_wait := probe_wait ?k2,
      ts_probe := ts_probe ?k2, probe := 0, ticks := ticks ?k2, sent := sent k @ ps2\<rparr>)"
    unfolding flush_control_def using acks(1) asks(1) unfolding e3 by (simp add: ack_header_def)
  have "probe ?k2 = probe k \<or> rmt_wnd k = 0 \<and> probe_wait k \<noteq> 0 \<and> probe ?k2 = probe k OR IKCP_ASK_SEND"
    by (auto simp: flush_probe_def currentMs_def Let_def)
  moreover have "map seg_cmd asks = probe_cmds (probe ?k2)" by (simp add: asks(3) probe_cmds_def)
  ultimately have "asked k asks" unfolding asked_def by metis
  then show ?thesis
    by - (intro exI conjI, rule C, use h hd asks(2,3) in auto)
qed

text \<open>The state before the transmission loop, and what the rest of \<^verbatim>\<open>flush\<close> makes of it.\<close>

lemma flush_rest_eq:
  "\<exists>st. flush_rest w k = k\<lparr>sent := sent k @ (if w = [] then [] else [w]), snmp := st\<rparr>"
  by (auto simp: flush_rest_def count_snmp_def kcp_output_def Let_def)

lemma framed_rest: "framed L ps w segs \<Longrightarrow> framed L (ps @ (if w = [] then [] else [w])) [] segs"
  using framed_output by auto

lemma flush_data_spec:
  assumes wf: "inflight_wf k" "ring_wf (snd_queue k)" "unat (rmt_wnd k) \<le> 65535" and room: "room L k"
    and sizes: "\<forall>s\<in>set (ring_list (snd_buf k) @ ring_list (snd_queue k)). IKCP_OVERHEAD + length (seg_bytes s) \<le> L"
    and fr: "framed L ps w segs" "sent k = base @ ps"
  shows "\<exists>nu moved ps' q sb t x th cw ic st. flush_data clk ft seg w k = Some (nu,
      k\<lparr>snd_queue := q, snd_buf := sb, snd_nxt := snd_nxt k + of_nat (length moved), ticks := t,
        sent := base @ ps', state := x, ssthresh := th, cwnd := cw, incr := ic, snmp := st\<rparr>) \<and> nu \<le> interval k \<and>
     ring_wf q \<and> ring_wf sb \<and> ring_list (snd_queue k) = moved @ ring_list q \<and>
     list_all2 (if ft = IKCP_FLUSH_FULL then xmit_rel seg else (=))
       (ring_list (snd_buf k) @ number k (snd_nxt k) moved) (ring_list sb) \<and>
     ring_Len sb \<le> max (ring_Len (snd_buf k)) (unat (flush_window k)) \<and>
     (ring_list q = [] \<or> unat (flush_window k) \<le> ring_Len sb) \<and>
     framed L ps' [] (segs @ concat (map2 sent_of (ring_list (snd_buf k) @ number k (snd_nxt k) moved) (ring_list sb))) \<and>
     (nocwnd k = 0 \<longrightarrow> 1 \<le> cw) \<and>
     (ft = IKCP_FLUSH_FULL \<longrightarrow> list_all2 (xmit_due (fast_limit k) (length moved))
        (ring_list (snd_buf k) @ number k (snd_nxt k) moved) (ring_list sb))"
proof -
  let ?wnd = "flush_window k"
  have "unat ?wnd \<le> 65535" using flush_window_bound [of k] wf(3) by linarith
  then obtain moved k1 where m: "flush_move (Suc (ring_Len (snd_queue k))) ?wnd 0 k = Some (length moved, k1)"
      "inflight_wf k1" "move_effect ?wnd k moved k1"
    using flush_move_spec [OF wf(1,2), of ?wnd "Suc (ring_Len (snd_queue k))" 0] by auto
  obtain q sb where k1: "k1 = k\<lparr>snd_queue := q, snd_buf := sb, snd_nxt := snd_nxt k + of_nat (length moved)\<rparr>"
     "ring_wf q" "ring_list (snd_queue k) = moved @ ring_list q"
     "ring_list sb = ring_list (snd_buf k) @ number k (snd_nxt k) moved"
     "ring_Len sb \<le> max (ring_Len (snd_buf k)) (unat ?wnd)" "ring_list q = [] \<or> unat ?wnd \<le> ring_Len sb"
    using m(3) unfolding move_effect_def by blast
  let ?k2 = "k1\<lparr>ticks := Suc (ticks k1)\<rparr>"
  let ?fs = "\<lparr>fs_k = ?k2, fs_written = w, fs_current = clk (ticks k1), fs_change = 0, fs_lost = 0, fs_fast = 0,
        fs_early = 0, fs_next = interval k\<rparr>"
  have ok: "fs_ok L base ?k2 segs ?fs"
    unfolding fs_ok_def using fr k1(1)
    by (intro conjI exI [of _ "Suc (ticks k1)"] exI [of _ ps] exI [of _ "state k1"]) simp_all
  have "room L ?k2" using room by (simp add: k1(1) room_def)
  moreover have "ring_wf (snd_buf ?k2)" using m(2) by (simp add: inflight_wf_def)
  moreover have "seg_bytes ` set (number k (snd_nxt k) moved) = seg_bytes ` set moved"
    by (metis list.set_map number_bytes)
  then have "\<forall>s\<in>set (ring_list (snd_buf ?k2)). IKCP_OVERHEAD + length (seg_bytes s) \<le> L"
    using sizes k1(1,3,4) by (auto simp: ball_Un) (metis (no_types, lifting) image_iff)
  ultimately obtain fs' sb' where f: "flush_segs clk (fast_limit k1) (length moved) seg ft ?fs = Some fs'" "ring_wf sb'"
    "list_all2 (if ft = IKCP_FLUSH_FULL then xmit_rel seg else (=)) (ring_list sb) (ring_list sb')"
    "ft = IKCP_FLUSH_FULL \<longrightarrow> list_all2 (xmit_due (fast_limit k1) (length moved)) (ring_list sb) (ring_list sb')"
    "fs_ok L base (?k2\<lparr>snd_buf := sb'\<rparr>) (segs @ concat (map2 sent_of (ring_list sb) (ring_list sb'))) fs'"
    using flush_segs_spec [OF ok, of clk "fast_limit k1" "length moved" seg ft] k1(1) by auto
  obtain t ps1 x where K: "fs_k fs' = ?k2\<lparr>snd_buf := sb', ticks := t, sent := base @ ps1, state := x\<rparr>"
    "framed L ps1 (fs_written fs') (segs @ concat (map2 sent_of (ring_list sb) (ring_list sb')))" "fs_next fs' \<le> interval k"
    using f(5) k1(1) by (auto simp: fs_ok_def)
  let ?k3 = "count_snmp (flush_stats fs') (fs_k fs')"
  let ?k4 = "flush_cwnd ?wnd (fast_limit k1) fs' ?k3"
  obtain st where st: "flush_rest (fs_written fs') ?k4 = ?k4\<lparr>sent := sent ?k4 @
      (if fs_written fs' = [] then [] else [fs_written fs']), snmp := st\<rparr>"
    using flush_rest_eq by blast
  have len: "ring_Len sb' = ring_Len sb" using f(3) by (simp add: list_all2_lengthD flip: length_ring_list)
  have e4: "?k4 = k\<lparr>snd_queue := q, snd_buf := sb', snd_nxt := snd_nxt k + of_nat (length moved), ticks := t,
      sent := base @ ps1, state := x, ssthresh := ssthresh ?k4, cwnd := cwnd ?k4, incr := incr ?k4, snmp := snmp ?k3\<rparr>"
    by (subst flush_cwnd_eq) (simp add: K(1) k1(1) count_snmp_def)
  have i: "interval k1 = interval k" by (simp add: k1(1))
  have "sent ?k4 = base @ ps1" by (subst e4) simp
  then have e5: "flush_rest (fs_written fs') ?k4 = k\<lparr>snd_queue := q, snd_buf := sb',
      snd_nxt := snd_nxt k + of_nat (length moved), ticks := t,
      sent := base @ (ps1 @ (if fs_written fs' = [] then [] else [fs_written fs'])), state := x,
      ssthresh := ssthresh ?k4, cwnd := cwnd ?k4, incr := incr ?k4, snmp := st\<rparr>"
    unfolding st by (subst e4) simp
  have D: "flush_data clk ft seg w k = Some (fs_next fs', k\<lparr>snd_queue := q, snd_buf := sb',
      snd_nxt := snd_nxt k + of_nat (length moved), ticks := t,
      sent := base @ (ps1 @ (if fs_written fs' = [] then [] else [fs_written fs'])), state := x,
      ssthresh := ssthresh ?k4, cwnd := cwnd ?k4, incr := incr ?k4, snmp := st\<rparr>)"
    unfolding e5 [symmetric] by (simp add: flush_data_def m(1) currentMs_def f(1) i Let_def del: flush_move.simps)
  have "nocwnd k = 0 \<longrightarrow> 1 \<le> cwnd ?k4" using flush_cwnd_pos [of ?k3] by (simp add: K(1) k1(1) count_snmp_def)
  moreover have "fast_limit k1 = fast_limit k" by (simp add: fast_limit_def k1(1))
  ultimately show ?thesis
    using k1(2-6) f(2,3,4) K(3) framed_rest [OF K(2)] len
    by - (intro exI conjI, rule D, simp_all)
qed

lemma flush_spec:
  assumes wf: "snd_wf k" and room: "room L k"
    and sizes: "\<forall>s\<in>set (ring_list (snd_buf k) @ ring_list (snd_queue k)). IKCP_OVERHEAD + length (seg_bytes s) \<le> L"
  shows "\<exists>nu k'. flush clk ft k = Some (nu, k') \<and> nu \<le> interval k \<and> flush_effect L ft k k'"
proof -
  obtain seg w ps asks a b t where c: "flush_control clk k = Some (seg, w,
      k\<lparr>acklist := [], probe_wait := a, ts_probe := b, probe := 0, ticks := t, sent := sent k @ ps\<rparr>)"
    "seg_wnd seg = wnd_unused k" "seg_una seg = rcv_nxt k"
    "framed L ps w (map (ack_seg_of (ack_header k)) (acks_out (rcv_nxt k) (acklist k)) @ asks)"
    "\<forall>s\<in>set asks. seg_cmd s \<in> {IKCP_CMD_WASK, IKCP_CMD_WINS} \<and> seg_data s = None \<and>
        seg_wnd s = wnd_unused k \<and> seg_una s = rcv_nxt k" "asked k asks"
    using flush_control_spec [OF room] by blast
  let ?k = "k\<lparr>acklist := [], probe_wait := a, ts_probe := b, probe := 0, ticks := t, sent := sent k @ ps\<rparr>"
  have w: "inflight_wf ?k" "ring_wf (snd_queue ?k)" "unat (rmt_wnd ?k) \<le> 65535" "room L ?k" "sent ?k = sent k @ ps"
    using wf room by (simp_all add: snd_wf_def inflight_wf_def room_def)
  have sz: "\<forall>s\<in>set (ring_list (snd_buf ?k) @ ring_list (snd_queue ?k)). IKCP_OVERHEAD + length (seg_bytes s) \<le> L"
    using sizes by simp
  have x: "xmit_rel seg = xmit_rel (ack_header k)"
    by (simp add: xmit_rel_def c(2,3) ack_header_def fun_eq_iff)
  have nu: "number ?k = number k" by (intro ext number_conv) simp
  have proj: "flush_window ?k = flush_window k" "snd_buf ?k = snd_buf k" "snd_queue ?k = snd_queue k"
    "snd_nxt ?k = snd_nxt k" "nocwnd ?k = nocwnd k" "interval ?k = interval k" "fast_limit ?k = fast_limit k"
    by (simp_all add: flush_window_def fast_limit_def Let_def)
  obtain nu moved ps' q sb t' x' th cw ic st where d: "flush_data clk ft seg w ?k = Some (nu,
      ?k\<lparr>snd_queue := q, snd_buf := sb, snd_nxt := snd_nxt ?k + of_nat (length moved), ticks := t',
        sent := sent k @ ps', state := x', ssthresh := th, cwnd := cw, incr := ic, snmp := st\<rparr>)" "nu \<le> interval ?k"
     "ring_wf q" "ring_wf sb" "ring_list (snd_queue ?k) = moved @ ring_list q"
     "list_all2 (if ft = IKCP_FLUSH_FULL then xmit_rel seg else (=))
       (ring_list (snd_buf ?k) @ number ?k (snd_nxt ?k) moved) (ring_list sb)"
     "ring_Len sb \<le> max (ring_Len (snd_buf ?k)) (unat (flush_window ?k))"
     "ring_list q = [] \<or> unat (flush_window ?k) \<le> ring_Len sb"
     "framed L ps' [] ((map (ack_seg_of (ack_header k)) (acks_out (rcv_nxt k) (acklist k)) @ asks) @
       concat (map2 sent_of (ring_list (snd_buf ?k) @ number ?k (snd_nxt ?k) moved) (ring_list sb)))"
     "nocwnd ?k = 0 \<longrightarrow> 1 \<le> cw"
     "ft = IKCP_FLUSH_FULL \<longrightarrow> list_all2 (xmit_due (fast_limit ?k) (length moved))
        (ring_list (snd_buf ?k) @ number ?k (snd_nxt ?k) moved) (ring_list sb)"
    using flush_data_spec [OF w(1-4) sz c(4) w(5), of clk ft seg] by blast
  let ?k' = "?k\<lparr>snd_queue := q, snd_buf := sb, snd_nxt := snd_nxt ?k + of_nat (length moved), ticks := t',
        sent := sent k @ ps', state := x', ssthresh := th, cwnd := cw, incr := ic, snmp := st\<rparr>"
  have "?k' = k\<lparr>acklist := [], probe_wait := a, ts_probe := b, probe := 0, snd_queue := q, snd_buf := sb,
       snd_nxt := snd_nxt k + of_nat (length moved), ticks := t', sent := sent k @ ps', state := x',
       ssthresh := th, cwnd := cw, incr := ic, snmp := st\<rparr>" by simp
  then have "flush_effect L ft k ?k'"
    unfolding flush_effect_def using d(3-) [unfolded x nu proj append_assoc] c(5,6) by blast
  then show ?thesis using d(1,2) [unfolded proj] c(1) by (simp add: flush_def)
qed

lemma flush_effectE:
  assumes "flush_effect L ft k k'"
  obtains moved asks ps a b q sb t x th cw ic st where
    "k' = k\<lparr>acklist := [], probe_wait := a, ts_probe := b, probe := 0, snd_queue := q, snd_buf := sb,
       snd_nxt := snd_nxt k + of_nat (length moved), ticks := t, sent := sent k @ ps, state := x,
       ssthresh := th, cwnd := cw, incr := ic, snmp := st\<rparr>"
    "ring_wf q" "ring_wf sb" "ring_list (snd_queue k) = moved @ ring_list q"
    "list_all2 (if ft = IKCP_FLUSH_FULL then xmit_rel (ack_header k) else (=))
       (ring_list (snd_buf k) @ number k (snd_nxt k) moved) (ring_list sb)"
    "ring_Len sb \<le> max (ring_Len (snd_buf k)) (unat (flush_window k))"
    "ring_list q = [] \<or> unat (flush_window k) \<le> ring_Len sb"
    "framed L ps [] (map (ack_seg_of (ack_header k)) (acks_out (rcv_nxt k) (acklist k)) @ asks @
       concat (map2 sent_of (ring_list (snd_buf k) @ number k (snd_nxt k) moved) (ring_list sb)))"
    "\<forall>s\<in>set asks. seg_cmd s \<in> {IKCP_CMD_WASK, IKCP_CMD_WINS} \<and> seg_data s = None \<and>
        seg_wnd s = wnd_unused k \<and> seg_una s = rcv_nxt k"
    "nocwnd k = 0 \<longrightarrow> 1 \<le> cw"
  using assms unfolding flush_effect_def by blast

section \<open>flush keeps the sender well-formed\<close>

lemma xmit_rel_kept:
  assumes "list_all2 (if full then xmit_rel seg else (=)) ss ss'"
  shows "map seg_sn ss' = map seg_sn ss" "map seg_data ss' = map seg_data ss" "map seg_acked ss' = map seg_acked ss"
  using assms by (auto simp: xmit_rel_def list.rel_eq split: if_splits intro!: list_all2_map_eq)

lemma flush_wf:
  assumes wf: "snd_wf k" and eff: "flush_effect L ft k k'"
  shows "snd_wf k'"
    and "live (ring_list (snd_buf k')) + live (ring_list (snd_queue k')) =
      live (ring_list (snd_buf k)) + live (ring_list (snd_queue k))"
    and "map seg_bytes (ring_list (snd_buf k') @ ring_list (snd_queue k')) =
      map seg_bytes (ring_list (snd_buf k) @ ring_list (snd_queue k))"
proof -
  from eff obtain moved asks ps a b q sb t x th cw ic st where e:
    "k' = k\<lparr>acklist := [], probe_wait := a, ts_probe := b, probe := 0, snd_queue := q, snd_buf := sb,
       snd_nxt := snd_nxt k + of_nat (length moved), ticks := t, sent := sent k @ ps, state := x,
       ssthresh := th, cwnd := cw, incr := ic, snmp := st\<rparr>"
    "ring_wf q" "ring_wf sb" "ring_list (snd_queue k) = moved @ ring_list q"
    "list_all2 (if ft = IKCP_FLUSH_FULL then xmit_rel (ack_header k) else (=))
       (ring_list (snd_buf k) @ number k (snd_nxt k) moved) (ring_list sb)"
    "ring_Len sb \<le> max (ring_Len (snd_buf k)) (unat (flush_window k))"
    by (elim flush_effectE)
  note kept = xmit_rel_kept [OF e(5)]
  from wf have w: "inflight_wf k" "data_kept (ring_list (snd_buf k))" "ring_wf (snd_queue k)"
    "fresh (moved @ ring_list q)" "unat (rmt_wnd k) \<le> 65535" "ring_Len (snd_buf k) \<le> 65535"
    by (simp_all add: snd_wf_def e(4) inflight_wf_def)
  have len: "ring_Len sb = ring_Len (snd_buf k) + length moved"
    using arg_cong [OF kept(1), of length] by (simp add: length_ring_list)
  have "ring_Len sb \<le> 65535" using e(6) w(5,6) flush_window_bound [of k] by linarith
  moreover have "map seg_sn (ring_list sb) = seqs (snd_una k) (ring_Len sb)"
    using w(1) by (simp add: kept(1) number_sn inflight_wf_def len seqs_append)
  moreover have "snd_nxt k + of_nat (length moved) = snd_una k + of_nat (ring_Len sb)"
    using w(1) by (simp add: inflight_wf_def len)
  moreover have "data_kept (ring_list sb)"
    using data_kept_map [OF kept(2,3)] w(2,4) number_fresh fresh_data_kept by auto
  ultimately show "snd_wf k'" using e(1-3) w(4,5) by (simp add: snd_wf_def inflight_wf_def)
  have "live (ring_list sb) = live (ring_list (snd_buf k)) + live moved"
    by (simp add: live_map kept(2) number_data)
  then show "live (ring_list (snd_buf k')) + live (ring_list (snd_queue k')) =
      live (ring_list (snd_buf k)) + live (ring_list (snd_queue k))"
    by (simp add: e(1,4))
  have "map seg_bytes (ring_list sb) = map (\<lambda>d. case d of None \<Rightarrow> [] | Some d \<Rightarrow> d) (map seg_data (ring_list sb))"
    by (simp add: seg_bytes_def comp_def)
  then have "map seg_bytes (ring_list sb) = map seg_bytes (ring_list (snd_buf k)) @ map seg_bytes moved"
    unfolding kept(2) by (simp add: number_data seg_bytes_def comp_def)
  then show "map seg_bytes (ring_list (snd_buf k') @ ring_list (snd_queue k')) =
      map seg_bytes (ring_list (snd_buf k) @ ring_list (snd_queue k))"
    by (simp add: e(1,4))
qed

section \<open>The timer\<close>

lemma update_timer_eq:
  "snd (update_timer current k) = k\<lparr>updated := updated (snd (update_timer current k)),
     ts_flush := ts_flush (snd (update_timer current k))\<rparr>"
  by (simp add: update_timer_def Let_def case_prod_unfold)

text \<open>After a flush by \<^verbatim>\<open>Update\<close> the next one is due within one interval.\<close>

lemma update_timer_next:
  assumes "interval k \<noteq> 0" "unat (interval k) \<le> 5000" "update_timer current k = (True, k')"
  shows "0 < sint (itimediff (ts_flush k') current)" "sint (itimediff (ts_flush k') current) \<le> int (unat (interval k))"
proof -
  let ?ts = "ts_flush k'"
  have late: "sint (itimediff (c + interval k) c) = int (unat (interval k))" for c
    using assms(2) by (simp add: itimediff_def sint_u32_cases)
  have soon: "0 < sint (itimediff (t + interval k) c) \<and> sint (itimediff (t + interval k) c) \<le> int (unat (interval k))"
    if "0 \<le> sint (itimediff c t)" "sint (itimediff c t) < 10000" "sint (itimediff c (t + interval k)) < 0" for c t
  proof -
    have d: "unat (c - t) < 10000" using that(1,2) unat_u32_less [of "c - t"] by (auto simp: itimediff_def sint_u32_cases simp del: of_nat_unat split: if_splits)
    have "unat (interval k) < 4294967296" using assms(2) by simp
    have e: "c - (t + interval k) = (c - t) - interval k" "(t + interval k) - c = interval k - (c - t)" by simp_all
    have n: "\<not> unat (interval k) \<le> unat (c - t)"
      using that(3) d unfolding itimediff_less_0 e(1) unat_diff_u32 [of "c - t"] by auto
    then have "unat ((t + interval k) - c) = unat (interval k) - unat (c - t)"
      unfolding e(2) unat_diff_u32 [of "interval k"] by simp
    then show ?thesis using n assms(2) by (auto simp: itimediff_def sint_u32_cases simp del: of_nat_unat)
  qed
  have pos: "0 < unat (interval k)" using assms(1) by (simp add: unat_gt_0)
  show "0 < sint (itimediff ?ts current)" "sint (itimediff ?ts current) \<le> int (unat (interval k))"
    using assms(3) late [of current] soon [of current "ts_flush k"] soon [of current current] pos
    by (auto simp: update_timer_def Let_def not_le simp del: of_nat_unat split: if_splits)
qed

end
