(* ===== verification/Kcp_Input.thy ===== *)
theory Kcp_Input
  imports Kcp_Receive Kcp_Flush
begin

text \<open>
  \<^verbatim>\<open>Input\<close> of \<^verbatim>\<open>kcp.go\<close>: the loop over the segments of a datagram, the round-trip and congestion
  updates that follow it, and the choice of what to flush.

  Here the two halves of a connection meet. Their invariants are combined into \<open>kcp_wf\<close>, and
  \<^verbatim>\<open>Input\<close> is shown to keep it, to return, and never to panic, for every datagram, however malformed, in which no
  data segment carries more bytes than a pool buffer holds; a longer one that is new and in the window does
  panic, because \<^verbatim>\<open>parse_data\<close> copies it into such a buffer. The loop ends because every turn consumes at
  least one header.
\<close>

section \<open>Operations\<close>

datatype PacketType = IKCP_PACKET_REGULAR | IKCP_PACKET_FEC

text \<open>The connection and the local variables of the loop.\<close>

record input_state =
  in_k :: kcp
  in_latest :: u32
  in_updateRTT :: bool
  in_segs :: u64
  in_flush :: bool

definition input_push :: "PacketType \<Rightarrow> header \<Rightarrow> byte list \<Rightarrow> kcp \<Rightarrow> kcp option" where
  "input_push pktType h payload k = do {
     (repeat, k) \<leftarrow>
       (if sint (itimediff (h_sn h) (rcv_nxt k + rcv_wnd k)) < 0
        then let k = ack_push (h_sn h) (h_ts h) k
          in if 0 \<le> sint (itimediff (h_sn h) (rcv_nxt k))
             then parse_data (zero_segment\<lparr>seg_conv := h_conv h, seg_cmd := h_cmd h, seg_frg := h_frg h,
                    seg_wnd := h_wnd h, seg_ts := h_ts h, seg_sn := h_sn h, seg_una := h_una h,
                    seg_data := Some payload\<rparr>) k
             else Some (True, k)
        else Some (True, k));
     Some (if pktType = IKCP_PACKET_REGULAR \<and> repeat then count_snmp increaseRepeatSegs k else k)}"

definition input_seg :: "PacketType \<Rightarrow> header \<Rightarrow> byte list \<Rightarrow> input_state \<Rightarrow> input_state option" where
  "input_seg pktType h payload st = do {
     let k = in_k st;
     let k = (if pktType = IKCP_PACKET_REGULAR then k\<lparr>rmt_wnd := ucast (h_wnd h)\<rparr> else k);
     (n, k) \<leftarrow> parse_una (h_una h) k;
     let st = st\<lparr>in_flush := in_flush st \<or> n > 0\<rparr>;
     let k = shrink_buf k;
     st \<leftarrow>
       (if h_cmd h = IKCP_CMD_ACK
        then do {
          k \<leftarrow> parse_ack (h_sn h) k;
          (should, k) \<leftarrow> parse_fastack (h_sn h) (h_ts h) k;
          Some (st\<lparr>in_k := k, in_flush := in_flush st \<or> should, in_updateRTT := True, in_latest := h_ts h\<rparr>)}
        else if h_cmd h = IKCP_CMD_PUSH
        then map_option (\<lambda>k. st\<lparr>in_k := k\<rparr>) (input_push pktType h payload k)
        else if h_cmd h = IKCP_CMD_WASK
        then Some (st\<lparr>in_k := k\<lparr>probe := probe k OR IKCP_ASK_TELL\<rparr>\<rparr>)
        else Some (st\<lparr>in_k := k\<rparr>));
     Some (st\<lparr>in_segs := in_segs st + 1\<rparr>)}"

text \<open>\<open>Inl\<close> is a return from inside the loop, \<open>Inr\<close> leaving it by \<^verbatim>\<open>break\<close>.\<close>

function input_loop :: "PacketType \<Rightarrow> byte list \<Rightarrow> input_state \<Rightarrow> ((int \<times> kcp) + input_state) option" where
  "input_loop pktType data st =
     (if length data < IKCP_OVERHEAD then Some (Inr st)
      else case parse_header data of
        None \<Rightarrow> None
      | Some h \<Rightarrow>
          let data' = drop IKCP_OVERHEAD data
          in if h_conv h \<noteq> conv (in_k st) then Some (Inl (- 1, in_k st))
             else if length data' < unat (h_len h) then Some (Inl (- 2, in_k st))
             else if h_cmd h \<notin> {IKCP_CMD_PUSH, IKCP_CMD_ACK, IKCP_CMD_WASK, IKCP_CMD_WINS}
             then Some (Inl (- 3, in_k st))
             else case input_seg pktType h (take (unat (h_len h)) data') st of
               None \<Rightarrow> None
             | Some st' \<Rightarrow> input_loop pktType (drop (unat (h_len h)) data') st')"
  by pat_completeness auto
termination
  by (relation "measure (\<lambda>(pktType, data, st). length data)") (auto simp: IKCP_OVERHEAD_def)

declare input_loop.simps [simp del]

text \<open>The congestion window on acknowledgement; dividing by a zero \<^verbatim>\<open>incr\<close> would panic.\<close>

definition cwnd_grow :: "kcp \<Rightarrow> (u32 \<times> u32) option" where
  "cwnd_grow k =
     (if cwnd k < ssthresh k then Some (cwnd k + 1, incr k + mss k)
      else let i = (if incr k < mss k then mss k else incr k)
        in if i = 0 then None
           else let i = i + ((mss k * mss k) div i + mss k div 16)
             in if (cwnd k + 1) * mss k \<le> i
                then if mss k > 0 then Some ((i + mss k - 1) div mss k, i) else Some (i + mss k - 1, i)
                else Some (cwnd k, i))"

definition input_cwnd :: "u32 \<Rightarrow> kcp \<Rightarrow> kcp option" where
  "input_cwnd una0 k =
     (if nocwnd k = 0 \<and> 0 < sint (itimediff (snd_una k) una0) \<and> cwnd k < rmt_wnd k
      then do {
        (c, i) \<leftarrow> cwnd_grow k;
        Some (if c > rmt_wnd k then k\<lparr>cwnd := rmt_wnd k, incr := rmt_wnd k * mss k\<rparr>
              else k\<lparr>cwnd := c, incr := i\<rparr>)}
      else Some k)"

definition input_rtt :: "clock \<Rightarrow> PacketType \<Rightarrow> input_state \<Rightarrow> kcp" where
  "input_rtt clk pktType st =
     (if in_updateRTT st \<and> pktType = IKCP_PACKET_REGULAR
      then let (current, k) = currentMs clk (in_k st); rtt = itimediff current (in_latest st)
        in if 0 \<le> sint rtt then update_ack rtt k else k
      else in_k st)"

definition input_flush :: "clock \<Rightarrow> bool \<Rightarrow> bool \<Rightarrow> kcp \<Rightarrow> kcp option" where
  "input_flush clk flushSegments ackNoDelay k =
     (if flushSegments then map_option snd (flush clk IKCP_FLUSH_FULL k)
      else if length (acklist k) \<ge> unat (mtu k) div IKCP_OVERHEAD
      then map_option snd (flush clk IKCP_FLUSH_ACKONLY k)
      else if ackNoDelay \<and> acklist k \<noteq> []
      then map_option snd (flush clk IKCP_FLUSH_ACKONLY k)
      else Some k)"

definition Input :: "clock \<Rightarrow> byte list \<Rightarrow> PacketType \<Rightarrow> bool \<Rightarrow> kcp \<Rightarrow> (int \<times> kcp) option" where
  "Input clk data pktType ackNoDelay k =
     (if length data < IKCP_OVERHEAD then Some (- 1, k)
      else case input_loop pktType data
          \<lparr>in_k = k, in_latest = 0, in_updateRTT = False, in_segs = 0, in_flush = False\<rparr> of
        None \<Rightarrow> None
      | Some (Inl r) \<Rightarrow> Some r
      | Some (Inr st) \<Rightarrow> do {
          let st = st\<lparr>in_k := count_snmp (addInSegs (in_segs st)) (in_k st)\<rparr>;
          let k' = input_rtt clk pktType st;
          k' \<leftarrow> input_cwnd (snd_una k) k';
          k' \<leftarrow> input_flush clk (in_flush st) ackNoDelay k';
          Some (0, k')})"

text \<open>
  The packets whose data segments fit pool buffers. Those of at most \<^verbatim>\<open>maxPacketSize\<close> bytes and a header do, whatever
  they hold.
\<close>

function payloads_fit :: "byte list \<Rightarrow> bool" where
  "payloads_fit data =
     (if length data < IKCP_OVERHEAD then True
      else case parse_header data of
        None \<Rightarrow> True
      | Some h \<Rightarrow>
          let data' = drop IKCP_OVERHEAD data
          in if length data' < unat (h_len h) then True
             else if h_cmd h = IKCP_CMD_PUSH \<and> unat (h_len h) > maxPacketSize then False
             else payloads_fit (drop (unat (h_len h)) data'))"
  by pat_completeness auto
termination
  by (relation "measure length") (auto simp: IKCP_OVERHEAD_def)

declare payloads_fit.simps [simp del]

lemma payloads_fit_short: "length data \<le> maxPacketSize + IKCP_OVERHEAD \<Longrightarrow> payloads_fit data"
proof (induction data rule: payloads_fit.induct)
  case (1 data)
  have "payloads_fit (drop (unat (h_len h)) (drop IKCP_OVERHEAD data))"
    if "\<not> length data < IKCP_OVERHEAD" "parse_header data = Some h" "\<not> length (drop IKCP_OVERHEAD data) < unat (h_len h)" for h
    by (rule "1.IH" [OF that(1,2) refl that(3)]) (use "1.prems" that in auto)
  then show ?case using "1.prems" by (subst payloads_fit.simps) (auto simp: Let_def split: option.splits)
qed

section \<open>The invariant of a connection\<close>

text \<open>
  The pool's balance: buffers taken minus buffers held by segments. It stays 0, so no buffer
  is leaked and none is returned twice.
\<close>

definition pool_balance :: "kcp \<Rightarrow> int" where
  "pool_balance k = pool_out k - live (ring_list (snd_queue k)) - live (ring_list (snd_buf k)) -
     live (ring_list (rcv_queue k)) - live (sh_segments (rcv_buf k))"

text \<open>\<open>L\<close> bounds the packets: the MTU, or the size of the output buffer after the MTU was lowered.\<close>

definition size_wf :: "nat \<Rightarrow> kcp \<Rightarrow> bool" where
  "size_wf L k \<longleftrightarrow> room L k \<and> mss k = mtu k - of_nat IKCP_OVERHEAD \<and>
     (\<forall>s\<in>set (ring_list (snd_buf k) @ ring_list (snd_queue k)). IKCP_OVERHEAD + length (seg_bytes s) \<le> L)"

definition kcp_wf :: "nat \<Rightarrow> kcp \<Rightarrow> bool" where
  "kcp_wf L k \<longleftrightarrow> rcv_wf k \<and> snd_wf k \<and> size_wf L k \<and> rtt_wf k \<and> pool_balance k = 0"

lemma rcv_wf_cong:
  "rcv_wf k \<Longrightarrow> rcv_queue k' = rcv_queue k \<Longrightarrow> rcv_buf k' = rcv_buf k \<Longrightarrow> rcv_nxt k' = rcv_nxt k \<Longrightarrow> rcv_wf k'"
  using rcv_wf_frame [of k' k] by simp

lemma snd_wf_cong:
  "snd_wf k \<Longrightarrow> snd_buf k' = snd_buf k \<Longrightarrow> snd_queue k' = snd_queue k \<Longrightarrow> snd_una k' = snd_una k \<Longrightarrow>
     snd_nxt k' = snd_nxt k \<Longrightarrow> unat (rmt_wnd k') \<le> 65535 \<Longrightarrow> snd_wf k'"
  by (simp add: snd_wf_def inflight_wf_def)

lemma size_wf_cong:
  "size_wf L k \<Longrightarrow> snd_buf k' = snd_buf k \<Longrightarrow> snd_queue k' = snd_queue k \<Longrightarrow> mtu k' = mtu k \<Longrightarrow>
     mss k' = mss k \<Longrightarrow> buffer_len k' = buffer_len k \<Longrightarrow> size_wf L k'"
  by (simp add: size_wf_def room_def)

lemma unat_mss: "room L k \<Longrightarrow> mss k = mtu k - of_nat IKCP_OVERHEAD \<Longrightarrow> unat (mss k) + IKCP_OVERHEAD = unat (mtu k)"
  by (simp add: room_def IKCP_OVERHEAD_def unat_sub_if_size)

lemma kcp_wf_mss:
  assumes "kcp_wf L k"
  shows "unat (mss k) + IKCP_OVERHEAD = unat (mtu k)" "0 < unat (mss k)" "IKCP_OVERHEAD + unat (mss k) \<le> L" "mss k \<noteq> 0"
proof -
  show m: "unat (mss k) + IKCP_OVERHEAD = unat (mtu k)" using assms unat_mss unfolding kcp_wf_def size_wf_def by blast
  have "IKCP_OVERHEAD < unat (mtu k)" "unat (mtu k) \<le> L" using assms by (simp_all add: kcp_wf_def size_wf_def room_def)
  with m show "0 < unat (mss k)" "IKCP_OVERHEAD + unat (mss k) \<le> L" by linarith+
  then show "mss k \<noteq> 0" by auto
qed

lemma kcp_wf_frame:
  assumes "rcv_queue k' = rcv_queue k" "rcv_buf k' = rcv_buf k" "rcv_nxt k' = rcv_nxt k"
    "snd_buf k' = snd_buf k" "snd_queue k' = snd_queue k" "snd_una k' = snd_una k" "snd_nxt k' = snd_nxt k"
    "rmt_wnd k' = rmt_wnd k" "mtu k' = mtu k" "mss k' = mss k" "buffer_len k' = buffer_len k"
    "rx_srtt k' = rx_srtt k" "rx_rttvar k' = rx_rttvar k" "pool_out k' = pool_out k"
  shows "kcp_wf L k' \<longleftrightarrow> kcp_wf L k"
  using assms by (simp add: kcp_wf_def rcv_wf_frame [of k' k] snd_wf_def inflight_wf_def size_wf_def room_def
      rtt_wf_def pool_balance_def)

lemma kcp_wf_simps [simp]:
  "kcp_wf L (count_snmp f k) \<longleftrightarrow> kcp_wf L k" "kcp_wf L (k\<lparr>probe := p\<rparr>) \<longleftrightarrow> kcp_wf L k"
  "kcp_wf L (k\<lparr>ticks := t\<rparr>) \<longleftrightarrow> kcp_wf L k" "kcp_wf L (k\<lparr>acklist := a\<rparr>) \<longleftrightarrow> kcp_wf L k"
  "kcp_wf L (k\<lparr>cwnd := c, incr := i\<rparr>) \<longleftrightarrow> kcp_wf L k" "kcp_wf L (k\<lparr>ts_flush := x\<rparr>) \<longleftrightarrow> kcp_wf L k"
  "kcp_wf L (k\<lparr>updated := u\<rparr>) \<longleftrightarrow> kcp_wf L k"
  by (rule kcp_wf_frame; simp add: count_snmp_def)+

section \<open>Each step keeps it\<close>

text \<open>Steps that neither send nor reconfigure.\<close>

definition quiet :: "kcp \<Rightarrow> kcp \<Rightarrow> bool" where
  "quiet k k' \<longleftrightarrow> sent k' = sent k \<and> conv k' = conv k \<and> mtu k' = mtu k \<and> mss k' = mss k \<and>
     buffer_len k' = buffer_len k \<and> rcv_wnd k' = rcv_wnd k \<and> stream k' = stream k"

lemma quiet_refl [simp]: "quiet k k"
  by (simp add: quiet_def)

lemma quiet_trans [trans]: "quiet k k' \<Longrightarrow> quiet k' k'' \<Longrightarrow> quiet k k''"
  by (simp add: quiet_def)

lemma quiet_simps [simp]:
  "quiet k (count_snmp f k') \<longleftrightarrow> quiet k k'" "quiet k (k'\<lparr>probe := p\<rparr>) \<longleftrightarrow> quiet k k'"
  "quiet k (k'\<lparr>ticks := t\<rparr>) \<longleftrightarrow> quiet k k'" "quiet k (k'\<lparr>acklist := a\<rparr>) \<longleftrightarrow> quiet k k'"
  "quiet k (k'\<lparr>cwnd := c, incr := i\<rparr>) \<longleftrightarrow> quiet k k'" "quiet k (k'\<lparr>rmt_wnd := w\<rparr>) \<longleftrightarrow> quiet k k'"
  "quiet (k\<lparr>acklist := a\<rparr>) k' \<longleftrightarrow> quiet k k'" "quiet (k\<lparr>rmt_wnd := w\<rparr>) k' \<longleftrightarrow> quiet k k'"
  "quiet (k\<lparr>pool_out := o1, rcv_buf := h\<rparr>) k' \<longleftrightarrow> quiet k k'" "quiet (count_snmp f k) k' \<longleftrightarrow> quiet k k'"
  by (simp_all add: quiet_def count_snmp_def)

lemma live_mset: "mset xs = mset ys \<Longrightarrow> live xs = live ys"
  unfolding live_def by (metis mset_filter size_mset)

lemma rcv_move_wf:
  assumes "rcv_wf k"
  shows "rcv_wf (rcv_move k)" and "pool_balance (rcv_move k) = pool_balance k"
    and "\<exists>h q n. rcv_move k = k\<lparr>rcv_buf := h, rcv_queue := q, rcv_nxt := n\<rparr>"
proof -
  obtain moved where mv: "moves k moved (rcv_move k)" "rcv_wf (rcv_move k)"
    using rcv_move_moves [OF assms] by blast
  then show "rcv_wf (rcv_move k)" by simp
  from mv(1) obtain q h where e: "rcv_move k = k\<lparr>rcv_buf := h, rcv_queue := q, rcv_nxt := rcv_nxt k + of_nat (length moved)\<rparr>"
    "ring_list q = ring_list (rcv_queue k) @ moved" "mset (sh_segments (rcv_buf k)) = mset (moved @ sh_segments h)"
    by (auto elim!: movesE)
  show "pool_balance (rcv_move k) = pool_balance k"
    using live_mset [OF e(3)] unfolding e(1) by (simp add: pool_balance_def e(2))
  show "\<exists>h q n. rcv_move k = k\<lparr>rcv_buf := h, rcv_queue := q, rcv_nxt := n\<rparr>" unfolding e(1) by blast
qed

lemma kcp_wf_rcv:
  assumes "kcp_wf L k" "k' = k\<lparr>rcv_buf := h, rcv_queue := q, rcv_nxt := n, pool_out := p\<rparr>" "rcv_wf k'"
    "pool_balance k' = pool_balance k"
  shows "kcp_wf L k'"
  using assms unfolding kcp_wf_def
  by (simp add: snd_wf_def inflight_wf_def size_wf_def room_def rtt_wf_def)

lemma kcp_wf_rcv_move:
  assumes wf: "kcp_wf L k"
  shows "kcp_wf L (rcv_move k)" "quiet k (rcv_move k)"
proof -
  have r: "rcv_wf k" using wf by (simp add: kcp_wf_def)
  obtain h q n where "rcv_move k = k\<lparr>rcv_buf := h, rcv_queue := q, rcv_nxt := n\<rparr>" using rcv_move_wf(3) [OF r] by blast
  then have e: "rcv_move k = k\<lparr>rcv_buf := h, rcv_queue := q, rcv_nxt := n, pool_out := pool_out k\<rparr>" by simp
  show "kcp_wf L (rcv_move k)" using kcp_wf_rcv [OF wf e] rcv_move_wf(1,2) [OF r] by blast
  show "quiet k (rcv_move k)" by (subst e) (simp add: quiet_def)
qed

lemma parse_data_kcp_wf:
  assumes wf: "kcp_wf L k" and len: "length (seg_bytes s) \<le> maxPacketSize"
  shows "\<exists>r k'. parse_data s k = Some (r, k') \<and> kcp_wf L k' \<and> quiet k k'"
proof -
  have r: "rcv_wf k" using wf by (simp add: kcp_wf_def)
  consider "\<not> in_rcv_window k (seg_sn s)"
    | "in_rcv_window k (seg_sn s)" "segmentHeap_Has (rcv_buf k) (seg_sn s)"
    | "in_rcv_window k (seg_sn s)" "\<not> segmentHeap_Has (rcv_buf k) (seg_sn s)" by blast
  then show ?thesis
  proof cases
    case 1
    then show ?thesis using wf by (intro exI [of _ True] exI [of _ k]) (simp add: parse_data_outside)
  next
    case 2
    then show ?thesis
      using kcp_wf_rcv_move [OF wf] by (intro exI [of _ True] exI [of _ "rcv_move k"]) (simp add: parse_data_repeat)
  next
    case 3
    let ?s = "s\<lparr>seg_data := Some (seg_bytes s)\<rparr>"
    let ?k = "k\<lparr>pool_out := pool_out k + 1, rcv_buf := segmentHeap_Push (rcv_buf k) ?s\<rparr>"
    have "rcv_wf ?k" using r 3 by (intro rcv_wf_insert) simp_all
    moreover have "mset (sh_segments (segmentHeap_Push (rcv_buf k) ?s)) = mset (?s # sh_segments (rcv_buf k))"
      by (simp add: segmentHeap_Push_def mset_heap_Push)
    from live_mset [OF this] have "pool_balance ?k = pool_balance k" by (simp add: pool_balance_def)
    ultimately have "kcp_wf L ?k"
      by (intro kcp_wf_rcv [OF wf, where h = "segmentHeap_Push (rcv_buf k) ?s" and q = "rcv_queue k" and
            n = "rcv_nxt k" and p = "pool_out k + 1"]) simp_all
    from kcp_wf_rcv_move [OF this] show ?thesis
      using 3 len by (intro exI [of _ False] exI [of _ "rcv_move ?k"]) (simp add: parse_data_new)
  qed
qed

lemma input_push_wf:
  assumes "kcp_wf L k" "length payload \<le> maxPacketSize"
  shows "\<exists>k'. input_push pt h payload k = Some k' \<and> kcp_wf L k' \<and> quiet k k'"
proof -
  let ?s = "zero_segment\<lparr>seg_conv := h_conv h, seg_cmd := h_cmd h, seg_frg := h_frg h,
     seg_wnd := h_wnd h, seg_ts := h_ts h, seg_sn := h_sn h, seg_una := h_una h, seg_data := Some payload\<rparr>"
  let ?k = "ack_push (h_sn h) (h_ts h) k"
  have wf: "kcp_wf L ?k" using assms(1) by (simp add: ack_push_def)
  have "length (seg_bytes ?s) \<le> maxPacketSize" using assms(2) by (simp add: seg_bytes_def)
  from parse_data_kcp_wf [OF wf this] obtain r k' where "parse_data ?s ?k = Some (r, k')" "kcp_wf L k'" "quiet ?k k'" by blast
  then show ?thesis using assms(1) wf by (simp add: input_push_def Let_def ack_push_def)
qed

lemma ack_effect_wf:
  assumes wf: "kcp_wf L k" and s: "snd_wf k'" and eff: "ack_effect k k'"
  shows "kcp_wf L k'" "quiet k k'"
proof -
  obtain sb u where e: "k' = k\<lparr>pool_out := pool_out k + live (ring_list sb) - live (ring_list (snd_buf k)),
      snd_buf := sb, snd_una := u\<rparr>"
    and r: "list_all2 (\<lambda>s s'. seg_bytes s' = seg_bytes s \<or> seg_data s' = None)
       (drop (ring_Len (snd_buf k) - ring_Len sb) (ring_list (snd_buf k))) (ring_list sb)"
    using eff by (auto simp: ack_effect_def)
  have sizes: "\<forall>s\<in>set (ring_list (snd_buf k) @ ring_list (snd_queue k)). IKCP_OVERHEAD + length (seg_bytes s) \<le> L"
    and room: "room L k" "mss k = mtu k - of_nat IKCP_OVERHEAD"
    using wf by (simp_all add: kcp_wf_def size_wf_def)
  have "IKCP_OVERHEAD + length (seg_bytes s') \<le> L" if s': "s' \<in> set (ring_list sb)" for s'
  proof -
    let ?D = "drop (ring_Len (snd_buf k) - ring_Len sb) (ring_list (snd_buf k))"
    obtain i where i: "i < length (ring_list sb)" "s' = ring_list sb ! i" using s' by (auto simp: in_set_conv_nth)
    then have "seg_bytes s' = seg_bytes (?D ! i) \<or> seg_data s' = None"
      using list_all2_nthD2 [OF r i(1)] by simp
    moreover have "?D ! i \<in> set ?D" using i(1) list_all2_lengthD [OF r] by (intro nth_mem) simp
    ultimately obtain s where "s \<in> set (ring_list (snd_buf k))" "seg_bytes s' = seg_bytes s \<or> seg_data s' = None"
      by (meson in_set_dropD)
    moreover have "length (seg_bytes s') = 0" if "seg_data s' = None" using that by (simp add: seg_bytes_def)
    moreover have "IKCP_OVERHEAD \<le> L" using room(1) by (simp add: room_def)
    ultimately show ?thesis using sizes by fastforce
  qed
  then have "size_wf L k'" using sizes room by (simp add: size_wf_def e room_def ball_Un)
  moreover have "rcv_wf k'" by (rule rcv_wf_cong [of k]) (use wf in \<open>simp_all add: kcp_wf_def e\<close>)
  moreover have "rtt_wf k'" "pool_balance k' = 0"
    using wf by (simp_all add: kcp_wf_def rtt_wf_def pool_balance_def e)
  ultimately show "kcp_wf L k'" using s by (simp add: kcp_wf_def)
  show "quiet k k'" by (simp add: e quiet_def)
qed

lemma unat_ucast_u16: "unat (ucast (w :: u16) :: u32) \<le> 65535"
proof -
  have "unat (ucast w :: u32) = take_bit 32 (unat w)" by (simp add: unsigned_ucast_eq)
  also have "\<dots> \<le> unat w" by (rule take_bit_nat_less_eq_self)
  also have "\<dots> \<le> 65535" using unsigned_less [of w, where 'a = nat] by simp
  finally show ?thesis .
qed

lemma kcp_wf_rmt_wnd: "kcp_wf L k \<Longrightarrow> kcp_wf L (k\<lparr>rmt_wnd := ucast (w :: u16)\<rparr>)"
  unfolding kcp_wf_def
  by (elim conjE, intro conjI) (auto intro: rcv_wf_cong snd_wf_cong size_wf_cong simp: unat_ucast_u16 rtt_wf_def pool_balance_def)

lemma una_step_wf:
  assumes "kcp_wf L k"
  shows "\<exists>k1. parse_una una k = Some (una_count una k, k1) \<and> kcp_wf L (shrink_buf k1) \<and> quiet k (shrink_buf k1) \<and>
    snd_una (shrink_buf k1) = snd_una k + of_nat (una_count una k)"
proof -
  have "snd_wf k" using assms by (simp add: kcp_wf_def)
  then show ?thesis using una_shrink_wf [of k una] ack_effect_wf [OF assms] by blast
qed

lemma ack_step_wf:
  assumes "kcp_wf L k"
  shows "\<exists>k1 r k2. parse_ack n k = Some k1 \<and> parse_fastack n t k1 = Some (r, k2) \<and> kcp_wf L k2 \<and> quiet k k2"
proof -
  have "snd_wf k" using assms by (simp add: kcp_wf_def)
  then obtain k1 where k1: "parse_ack n k = Some k1" "kcp_wf L k1" "quiet k k1"
    using parse_ack_wf ack_effect_wf [OF assms] by blast
  then have "snd_wf k1" by (simp add: kcp_wf_def)
  then show ?thesis using k1 parse_fastack_wf ack_effect_wf [OF k1(2)] quiet_trans by blast
qed

lemma input_seg_wf:
  assumes "kcp_wf L (in_k st)" "h_cmd h = IKCP_CMD_PUSH \<Longrightarrow> length payload \<le> maxPacketSize"
  shows "\<exists>st'. input_seg pt h payload st = Some st' \<and> kcp_wf L (in_k st') \<and> quiet (in_k st) (in_k st')"
proof -
  define k where "k = (if pt = IKCP_PACKET_REGULAR then (in_k st)\<lparr>rmt_wnd := ucast (h_wnd h)\<rparr> else in_k st)"
  have "kcp_wf L k" and q: "quiet (in_k st) k"
    using assms(1) kcp_wf_rmt_wnd [OF assms(1), of "h_wnd h"] by (simp_all add: k_def)
  then obtain k1 where k1: "parse_una (h_una h) k = Some (una_count (h_una h) k, k1)"
    "kcp_wf L (shrink_buf k1)" "quiet k (shrink_buf k1)"
    using una_step_wf by blast
  obtain k2 r k3 where a: "parse_ack (h_sn h) (shrink_buf k1) = Some k2"
    "parse_fastack (h_sn h) (h_ts h) k2 = Some (r, k3)" "kcp_wf L k3" "quiet (shrink_buf k1) k3"
    using ack_step_wf [OF k1(2)] by blast
  have p: "\<exists>k4. input_push pt h payload (shrink_buf k1) = Some k4 \<and> kcp_wf L k4 \<and> quiet (in_k st) k4"
    if "h_cmd h = IKCP_CMD_PUSH"
    using input_push_wf [OF k1(2) assms(2) [OF that], of pt h] q k1(3) quiet_trans by blast
  have "quiet (in_k st) (shrink_buf k1)" "quiet (in_k st) k3"
    using q k1(3) a(4) quiet_trans by blast+
  then show ?thesis
    unfolding input_seg_def Let_def k_def [symmetric] using k1 a p by fastforce
qed

lemma input_loop_wf:
  assumes "kcp_wf L (in_k st)" "payloads_fit data"
  shows "\<exists>r. input_loop pt data st = Some r \<and>
    (case r of Inl (c, k) \<Rightarrow> c \<in> {- 1, - 2, - 3} \<and> kcp_wf L k \<and> quiet (in_k st) k
     | Inr st' \<Rightarrow> kcp_wf L (in_k st') \<and> quiet (in_k st) (in_k st'))"
  using assms
proof (induction pt data st rule: input_loop.induct)
  case (1 pt data st)
  show ?case
  proof (cases "length data < IKCP_OVERHEAD")
    case True
    then show ?thesis using "1.prems" by (subst input_loop.simps) simp
  next
    case False
    then obtain h where h: "parse_header data = Some h" using parse_header_defined [of data] by auto
    let ?d = "drop IKCP_OVERHEAD data"
    let ?bad = "h_conv h \<noteq> conv (in_k st) \<or> length ?d < unat (h_len h) \<or>
      h_cmd h \<notin> {IKCP_CMD_PUSH, IKCP_CMD_ACK, IKCP_CMD_WASK, IKCP_CMD_WINS}"
    show ?thesis
    proof (cases ?bad)
      case True
      then show ?thesis
        using "1.prems"(1) False h by (subst input_loop.simps) (auto simp: Let_def)
    next
      case ok: False
      have fit: "h_cmd h = IKCP_CMD_PUSH \<longrightarrow> unat (h_len h) \<le> maxPacketSize" "payloads_fit (drop (unat (h_len h)) ?d)"
        using "1.prems"(2) False h ok unfolding payloads_fit.simps [of data] by (auto simp: Let_def split: if_splits)
      then have "h_cmd h = IKCP_CMD_PUSH \<Longrightarrow> length (take (unat (h_len h)) ?d) \<le> maxPacketSize" by simp
      then obtain st' where st': "input_seg pt h (take (unat (h_len h)) ?d) st = Some st'" "kcp_wf L (in_k st')"
          "quiet (in_k st) (in_k st')"
        using input_seg_wf [OF "1.prems"(1)] by blast
      have l: "input_loop pt data st = input_loop pt (drop (unat (h_len h)) ?d) st'"
        using False h ok st'(1) by (subst input_loop.simps) (simp add: Let_def)
      have "\<exists>r. input_loop pt (drop (unat (h_len h)) ?d) st' = Some r \<and>
          (case r of Inl (c, k) \<Rightarrow> c \<in> {- 1, - 2, - 3} \<and> kcp_wf L k \<and> quiet (in_k st') k
           | Inr st'' \<Rightarrow> kcp_wf L (in_k st'') \<and> quiet (in_k st') (in_k st''))"
        by (rule "1.IH" [OF False h refl]) (use ok st' fit(2) in auto)
      then show ?thesis unfolding l using st'(3) quiet_trans by (fastforce split: sum.splits)
    qed
  qed
qed

lemma update_ack_touches: "\<exists>a b c. update_ack r k = k\<lparr>rx_srtt := a, rx_rttvar := b, rx_rto := c\<rparr>"
  unfolding update_ack_def Let_def case_prod_unfold by blast

lemma update_ack_frame:
  "rcv_queue (update_ack r k) = rcv_queue k" "rcv_buf (update_ack r k) = rcv_buf k" "rcv_nxt (update_ack r k) = rcv_nxt k"
  "snd_buf (update_ack r k) = snd_buf k" "snd_queue (update_ack r k) = snd_queue k" "snd_una (update_ack r k) = snd_una k"
  "snd_nxt (update_ack r k) = snd_nxt k" "rmt_wnd (update_ack r k) = rmt_wnd k" "mtu (update_ack r k) = mtu k"
  "mss (update_ack r k) = mss k" "buffer_len (update_ack r k) = buffer_len k" "pool_out (update_ack r k) = pool_out k"
  "sent (update_ack r k) = sent k"
proof -
  obtain a b c where e: "update_ack r k = k\<lparr>rx_srtt := a, rx_rttvar := b, rx_rto := c\<rparr>" using update_ack_touches by blast
  show "rcv_queue (update_ack r k) = rcv_queue k" "rcv_buf (update_ack r k) = rcv_buf k" "rcv_nxt (update_ack r k) = rcv_nxt k"
    "snd_buf (update_ack r k) = snd_buf k" "snd_queue (update_ack r k) = snd_queue k" "snd_una (update_ack r k) = snd_una k"
    "snd_nxt (update_ack r k) = snd_nxt k" "rmt_wnd (update_ack r k) = rmt_wnd k" "mtu (update_ack r k) = mtu k"
    "mss (update_ack r k) = mss k" "buffer_len (update_ack r k) = buffer_len k" "pool_out (update_ack r k) = pool_out k"
    "sent (update_ack r k) = sent k"
    unfolding e by simp_all
qed

lemma update_ack_kcp_wf:
  assumes "kcp_wf L k" "0 \<le> sint r"
  shows "kcp_wf L (update_ack r k)"
proof -
  have r: "rtt_wf (update_ack r k)" using assms by (simp add: kcp_wf_def update_ack_rtt_wf)
  from assms(1) have w: "rcv_wf k" "snd_wf k" "size_wf L k" "unat (rmt_wnd k) \<le> 65535" "pool_balance k = 0"
    by (simp_all add: kcp_wf_def snd_wf_def)
  have "rcv_wf (update_ack r k)" by (rule rcv_wf_cong [OF w(1)]) (simp_all add: update_ack_frame)
  moreover have "snd_wf (update_ack r k)" by (rule snd_wf_cong [OF w(2)]) (simp_all add: update_ack_frame w(4))
  moreover have "size_wf L (update_ack r k)" by (rule size_wf_cong [OF w(3)]) (simp_all add: update_ack_frame)
  ultimately show ?thesis using r w(5) by (simp add: kcp_wf_def pool_balance_def update_ack_frame)
qed

lemma update_ack_quiet: "quiet k (update_ack r k)"
proof -
  obtain a b c where "update_ack r k = k\<lparr>rx_srtt := a, rx_rttvar := b, rx_rto := c\<rparr>" using update_ack_touches by blast
  then show ?thesis by (simp add: quiet_def)
qed

lemma input_rtt_wf: "kcp_wf L (in_k st) \<Longrightarrow> kcp_wf L (input_rtt clk pt st) \<and> quiet (in_k st) (input_rtt clk pt st)"
  using update_ack_quiet [of "(in_k st)\<lparr>ticks := Suc (ticks (in_k st))\<rparr>"]
  by (auto simp: input_rtt_def currentMs_def Let_def update_ack_kcp_wf quiet_def)

text \<open>The congestion window grows, if at all, to at most the peer's window.\<close>

lemma cwnd_grow_defined: "mss k \<noteq> 0 \<Longrightarrow> \<exists>c i. cwnd_grow k = Some (c, i)"
  by (auto simp: cwnd_grow_def Let_def word_neq_0_conv)

lemma input_cwnd_eq:
  assumes "mss k \<noteq> 0"
  shows "\<exists>c i. input_cwnd una k = Some (k\<lparr>cwnd := c, incr := i\<rparr>) \<and> (c = cwnd k \<or> c \<le> rmt_wnd k)"
proof -
  obtain c i where g: "cwnd_grow k = Some (c, i)" using cwnd_grow_defined [OF assms] by blast
  let ?grow = "nocwnd k = 0 \<and> 0 < sint (itimediff (snd_una k) una) \<and> cwnd k < rmt_wnd k"
  have grow: "input_cwnd una k = Some (if c > rmt_wnd k then k\<lparr>cwnd := rmt_wnd k, incr := rmt_wnd k * mss k\<rparr>
      else k\<lparr>cwnd := c, incr := i\<rparr>)" if ?grow
    using that by (simp add: input_cwnd_def g)
  have keep: "input_cwnd una k = Some (k\<lparr>cwnd := cwnd k, incr := incr k\<rparr>)" if "\<not> ?grow"
    using that unfolding input_cwnd_def by (simp only: if_False) simp
  consider "\<not> ?grow" | "?grow" "c > rmt_wnd k" | "?grow" "c \<le> rmt_wnd k" by fastforce
  then show ?thesis
  proof cases
    case 1
    then show ?thesis using keep by blast
  next
    case 2
    then have "input_cwnd una k = Some (k\<lparr>cwnd := rmt_wnd k, incr := rmt_wnd k * mss k\<rparr>)" using grow by simp
    then show ?thesis by blast
  next
    case 3
    then have "input_cwnd una k = Some (k\<lparr>cwnd := c, incr := i\<rparr>)" using grow by simp
    then show ?thesis using 3 by blast
  qed
qed

lemma flush_kcp_wf:
  assumes wf: "kcp_wf L k"
  shows "\<exists>nu k'. flush clk ft k = Some (nu, k') \<and> kcp_wf L k' \<and> nu \<le> interval k \<and> flush_effect L ft k k'"
proof -
  have s: "snd_wf k" "room L k" and sz: "\<forall>s\<in>set (ring_list (snd_buf k) @ ring_list (snd_queue k)). IKCP_OVERHEAD + length (seg_bytes s) \<le> L"
    using wf by (simp_all add: kcp_wf_def size_wf_def)
  obtain nu k' where f: "flush clk ft k = Some (nu, k')" "nu \<le> interval k" "flush_effect L ft k k'"
    using flush_spec [OF s sz] by blast
  note w = flush_wf [OF s(1) f(3)]
  have "\<forall>b\<in>set (map seg_bytes (ring_list (snd_buf k') @ ring_list (snd_queue k'))). IKCP_OVERHEAD + length b \<le> L"
    unfolding w(3) using sz by auto
  then have sz': "\<forall>s\<in>set (ring_list (snd_buf k') @ ring_list (snd_queue k')). IKCP_OVERHEAD + length (seg_bytes s) \<le> L"
    by auto
  have fr: "mtu k' = mtu k" "mss k' = mss k" "buffer_len k' = buffer_len k" "rx_srtt k' = rx_srtt k"
    "rx_rttvar k' = rx_rttvar k" "pool_out k' = pool_out k" "rcv_queue k' = rcv_queue k" "rcv_buf k' = rcv_buf k"
    "rcv_nxt k' = rcv_nxt k"
    by (rule flush_effectE [OF f(3)]; simp)+
  have "kcp_wf L k'"
    using wf w(1,2) sz' fr by (simp add: kcp_wf_def size_wf_def room_def rtt_wf_def pool_balance_def rcv_wf_frame [of k' k])
  then show ?thesis using f by blast
qed

text \<open>Every operation that sends appends packets of at most \<open>L\<close> bytes.\<close>

definition sends :: "nat \<Rightarrow> kcp \<Rightarrow> kcp \<Rightarrow> bool" where
  "sends L k k' \<longleftrightarrow> (\<exists>ps. sent k' = sent k @ ps \<and> (\<forall>p\<in>set ps. length p \<le> L)) \<and>
     mtu k' = mtu k \<and> mss k' = mss k \<and> buffer_len k' = buffer_len k"

lemma sends_quiet: "quiet k k' \<Longrightarrow> sends L k' k'' \<Longrightarrow> sends L k k''"
  by (simp add: quiet_def sends_def)

lemma quiet_sends: "quiet k k' \<Longrightarrow> sends L k k'"
  by (simp add: quiet_def sends_def)

lemma flush_sends: "flush_effect L ft k k' \<Longrightarrow> sends L k k'"
  by (erule flush_effectE) (auto simp: sends_def framed_def)

lemma input_flush_wf:
  assumes "kcp_wf L k"
  shows "\<exists>k'. input_flush clk fl nd k = Some k' \<and> kcp_wf L k' \<and> sends L k k'"
proof -
  have "\<exists>k'. map_option snd (flush clk ft k) = Some k' \<and> kcp_wf L k' \<and> sends L k k'" for ft
    using flush_kcp_wf [OF assms, of clk ft] flush_sends by fastforce
  moreover have "\<exists>k'. Some k = Some k' \<and> kcp_wf L k' \<and> sends L k k'" using assms quiet_sends [OF quiet_refl] by blast
  ultimately show ?thesis unfolding input_flush_def by simp
qed

lemma Input_fit_wf:
  assumes wf: "kcp_wf L k" and len: "payloads_fit data"
  shows "\<exists>r k'. Input clk data pt nd k = Some (r, k') \<and> r \<in> {0, - 1, - 2, - 3} \<and> kcp_wf L k' \<and> sends L k k'"
proof (cases "length data < IKCP_OVERHEAD")
  case True
  then show ?thesis using wf quiet_sends [OF quiet_refl, of L k] by (simp add: Input_def)
next
  case False
  let ?st = "\<lparr>in_k = k, in_latest = 0, in_updateRTT = False, in_segs = 0, in_flush = False\<rparr>"
  have e: "in_k ?st = k" and "kcp_wf L (in_k ?st)" using wf by simp_all
  from input_loop_wf [OF this(2) len, of pt, unfolded e] obtain r where r: "input_loop pt data ?st = Some r"
    "case r of Inl (c, k') \<Rightarrow> c \<in> {- 1, - 2, - 3} \<and> kcp_wf L k' \<and> quiet k k' | Inr st' \<Rightarrow> kcp_wf L (in_k st') \<and> quiet k (in_k st')"
    by blast
  show ?thesis
  proof (cases r)
    case (Inl a)
    then show ?thesis using r False quiet_sends by (cases a) (auto simp: Input_def)
  next
    case (Inr st)
    let ?st = "st\<lparr>in_k := count_snmp (addInSegs (in_segs st)) (in_k st)\<rparr>"
    let ?k1 = "input_rtt clk pt ?st"
    have "kcp_wf L (in_k ?st)" "quiet k (in_k ?st)" using r(2) Inr by simp_all
    then have k1: "kcp_wf L ?k1" "quiet k ?k1" using input_rtt_wf quiet_trans by blast+
    obtain c i where k2: "input_cwnd (snd_una k) ?k1 = Some (?k1\<lparr>cwnd := c, incr := i\<rparr>)"
      using input_cwnd_eq [OF kcp_wf_mss(4) [OF k1(1)]] by blast
    have "kcp_wf L (?k1\<lparr>cwnd := c, incr := i\<rparr>)" "quiet k (?k1\<lparr>cwnd := c, incr := i\<rparr>)" using k1 by simp_all
    then obtain k3 where "input_flush clk (in_flush st) nd (?k1\<lparr>cwnd := c, incr := i\<rparr>) = Some k3" "kcp_wf L k3" "sends L k k3"
      using input_flush_wf sends_quiet by blast
    then show ?thesis using r(1) Inr False k2 by (simp add: Input_def Let_def)
  qed
qed

lemma Input_wf:
  assumes "kcp_wf L k" "length data \<le> maxPacketSize + IKCP_OVERHEAD"
  shows "\<exists>r k'. Input clk data pt nd k = Some (r, k') \<and> r \<in> {0, - 1, - 2, - 3} \<and> kcp_wf L k' \<and> sends L k k'"
  by (rule Input_fit_wf [OF assms(1) payloads_fit_short [OF assms(2)]])

text \<open>The bound is needed: a new data segment in the window that no pool buffer can hold.\<close>

lemma una_recv:
  assumes "kcp_wf L k" "parse_una una k = Some (n, k1)"
  shows "rcv_buf (shrink_buf k1) = rcv_buf k" "rcv_nxt (shrink_buf k1) = rcv_nxt k" "rcv_wnd (shrink_buf k1) = rcv_wnd k"
proof -
  have "ack_effect k (shrink_buf k1)" using una_shrink_wf [of k una] assms by (auto simp: kcp_wf_def)
  then show "rcv_buf (shrink_buf k1) = rcv_buf k" "rcv_nxt (shrink_buf k1) = rcv_nxt k" "rcv_wnd (shrink_buf k1) = rcv_wnd k"
    by (auto simp: ack_effect_def)
qed

lemma Input_oversized_push:
  assumes wf: "kcp_wf L k" and s: "seg_cmd s = IKCP_CMD_PUSH" "seg_conv s = conv k"
    and len: "maxPacketSize < length (seg_bytes s)" "length (seg_bytes s) < 2 ^ 32"
    and new: "in_rcv_window k (seg_sn s)" "\<not> segmentHeap_Has (rcv_buf k) (seg_sn s)"
  shows "Input clk (frame s @ rest) pt nd k = None"
proof -
  let ?h = "header_of s" and ?d = "frame s @ rest"
  let ?st = "\<lparr>in_k = k, in_latest = 0, in_updateRTT = False, in_segs = 0, in_flush = False\<rparr>"
  define k0 where "k0 = (if pt = IKCP_PACKET_REGULAR then k\<lparr>rmt_wnd := ucast (h_wnd ?h)\<rparr> else k)"
  have "kcp_wf L k0" using wf kcp_wf_rmt_wnd [OF wf] by (simp add: k0_def)
  then obtain k1 where k1: "parse_una (h_una ?h) k0 = Some (una_count (h_una ?h) k0, k1)" using una_step_wf by blast
  note e = una_recv [OF \<open>kcp_wf L k0\<close> k1]
  have "pool_Get (length (seg_bytes s)) x = None" for x using len(1) by (simp add: pool_Get_def)
  then have "input_push pt ?h (seg_bytes s) (shrink_buf k1) = None"
    using new e by (simp add: input_push_def ack_push_def parse_data_def in_rcv_window_def header_of_def k0_def Let_def seg_bytes_def)
  moreover have "h_cmd ?h = IKCP_CMD_PUSH" "IKCP_CMD_PUSH \<noteq> IKCP_CMD_ACK" using s(1) by (simp_all add: header_of_def kcp_consts)
  ultimately have I: "input_seg pt ?h (seg_bytes s) ?st = None"
    using k1 unfolding input_seg_def Let_def input_state.simps k0_def [symmetric] by simp
  have h: "parse_header ?d = Some ?h" using parse_encode [of s "seg_bytes s @ rest"] by (simp add: frame_def)
  have n: "unat (h_len ?h) = length (seg_bytes s)" using len(2) by (simp add: header_of_def)
  have "drop IKCP_OVERHEAD ?d = seg_bytes s @ rest" "\<not> length ?d < IKCP_OVERHEAD" by (simp_all add: frame_def)
  then have "input_loop pt ?d ?st = None"
    using h n s I by (subst input_loop.simps) (auto simp: Let_def header_of_def)
  then show ?thesis using \<open>\<not> length ?d < IKCP_OVERHEAD\<close> by (simp add: Input_def)
qed

end
