(* ===== verification/Kcp_Machine.thy ===== *)
theory Kcp_Machine
  imports Kcp_Input
begin

text \<open>
  A connection as a state machine: from \<^verbatim>\<open>NewKCP\<close>, any sequence of the operations of \<^verbatim>\<open>kcp.go\<close>
  with any arguments, except data segments and MTUs larger than a pool buffer. Every operation is shown to keep
  the invariant of the connection, so that in each reachable state each operation returns: no slice is overrun,
  no index is out of range, no division by zero, no loop runs on.
\<close>

section \<open>The machine\<close>

datatype kcp_op =
    Op_Send "byte list"
  | Op_Recv nat
  | Op_Input "byte list" PacketType bool
  | Op_flush FlushType
  | Op_Update
  | Op_SetMtu int
  | Op_NoDelay int int int int
  | Op_WndSize int int
  | Op_ResetRTO
  | Op_stream bool

fun kcp_exec :: "clock \<Rightarrow> kcp_op \<Rightarrow> kcp \<Rightarrow> kcp option" where
  "kcp_exec clk (Op_Send b) k = map_option snd (Send b k)"
| "kcp_exec clk (Op_Recv n) k = map_option (\<lambda>(r, bs, k). k) (Recv n k)"
| "kcp_exec clk (Op_Input d pt nd) k = map_option snd (Input clk d pt nd k)"
| "kcp_exec clk (Op_flush ft) k = map_option snd (flush clk ft k)"
| "kcp_exec clk Op_Update k = Update clk k"
| "kcp_exec clk (Op_SetMtu m) k = map_option snd (SetMtu m k)"
| "kcp_exec clk (Op_NoDelay a b c d) k = Some (NoDelay a b c d k)"
| "kcp_exec clk (Op_WndSize a b) k = Some (WndSize a b k)"
| "kcp_exec clk Op_ResetRTO k = ResetRTO clk k"
| "kcp_exec clk (Op_stream e) k = Some (k\<lparr>stream := (if e then 1 else 0)\<rparr>)"

text \<open>
  The arguments \<^verbatim>\<open>kcp.go\<close> can take: a packet of any length whose data segments carry at most \<^verbatim>\<open>maxPacketSize\<close> bytes
  each, and an MTU up to that size. \<^verbatim>\<open>UDPSession.SetMtu\<close> clips the MTU. The read loops pass packets of at most
  \<^verbatim>\<open>maxPacketSize\<close> bytes, which are such packets; \<^verbatim>\<open>pushedPacket\<close> passes on what it is given, of any length, and it is
  the pusher that has to keep to the bound.
\<close>

fun admissible :: "kcp_op \<Rightarrow> bool" where
  "admissible (Op_Input d pt nd) \<longleftrightarrow> payloads_fit d"
| "admissible (Op_SetMtu m) \<longleftrightarrow> m \<le> int maxPacketSize"
| "admissible _ \<longleftrightarrow> True"

fun within_buffers :: "kcp_op \<Rightarrow> bool" where
  "within_buffers (Op_Input d pt nd) \<longleftrightarrow> length d \<le> maxPacketSize"
| "within_buffers x \<longleftrightarrow> admissible x"

lemma within_buffers_admissible: "within_buffers x \<Longrightarrow> admissible x"
  by (cases x) (auto intro: payloads_fit_short)

inductive kcp_reach :: "clock \<Rightarrow> u32 \<Rightarrow> kcp \<Rightarrow> bool" for clk c where
  reach_new: "kcp_reach clk c (NewKCP c)"
| reach_step: "kcp_reach clk c k \<Longrightarrow> admissible x \<Longrightarrow> kcp_exec clk x k = Some k' \<Longrightarrow> kcp_reach clk c k'"

definition conn_wf :: "kcp \<Rightarrow> bool" where
  "conn_wf k \<longleftrightarrow> kcp_wf (buffer_len k) k \<and> unat (mss k) \<le> maxPacketSize"

section \<open>Every operation keeps the invariant\<close>

lemma NewKCP_wf: "kcp_wf 1400 (NewKCP c)" "conn_wf (NewKCP c)"
proof -
  have len: "ring_Len (NewRingBuffer zero_segment n) = 0" for n by (simp flip: length_ring_list)
  have "rcv_wf (NewKCP c)" by (rule NewKCP_rcv_wf)
  moreover have "snd_wf (NewKCP c)" by (simp add: NewKCP_def snd_wf_def inflight_wf_def len kcp_consts)
  moreover have "size_wf L (NewKCP c)" if "L \<in> {1400, 4272}" for L
    using that by (auto simp: NewKCP_def size_wf_def room_def kcp_consts)
  moreover have "rtt_wf (NewKCP c)" "pool_balance (NewKCP c) = 0"
    by (simp_all add: NewKCP_def rtt_wf_def pool_balance_def newSegmentHeap_def)
  ultimately show "kcp_wf 1400 (NewKCP c)" "conn_wf (NewKCP c)"
    by (simp_all add: conn_wf_def kcp_wf_def) (simp_all add: NewKCP_def kcp_consts maxPacketSize_def)
qed

lemma kcp_wf_mono: "kcp_wf L k \<Longrightarrow> L \<le> L' \<Longrightarrow> L' \<le> buffer_len k \<Longrightarrow> kcp_wf L' k"
  unfolding kcp_wf_def size_wf_def room_def by (meson le_trans)

lemma live_fresh: "fresh ss \<Longrightarrow> live ss = int (length ss)"
  by (induction ss) auto

lemma Send_wf:
  assumes wf: "kcp_wf L k" and mss: "unat (mss k) \<le> maxPacketSize"
  shows "\<exists>r k'. Send b k = Some (r, k') \<and> kcp_wf L k' \<and> quiet k k' \<and>
    (b = [] \<and> r = - 1 \<and> k' = k \<or> b \<noteq> [] \<and> send_effect b k r k')"
proof (cases "b = []")
  case True
  then show ?thesis using wf by (simp add: Send_def)
next
  case False
  have w: "ring_wf (snd_queue k)" "fresh (ring_list (snd_queue k))" using wf by (simp_all add: kcp_wf_def snd_wf_def)
  obtain r k' where S: "Send b k = Some (r, k')" "send_effect b k r k'"
    using Send_spec [OF w(1) kcp_wf_mss(2) [OF wf] mss w(2) False] by blast
  then obtain q n where e: "k' = k\<lparr>snd_queue := q, pool_out := pool_out k + int n\<rparr>" "ring_wf q" "fresh (ring_list q)"
    "ring_Len q = ring_Len (snd_queue k) + n"
    "\<forall>mx. unat (mss k) \<le> mx \<longrightarrow> seg_sizes mx (ring_list (snd_queue k)) \<longrightarrow> seg_sizes mx (ring_list q)"
    unfolding send_effect_def by blast
  have L: "IKCP_OVERHEAD \<le> L" and "\<forall>s\<in>set (ring_list (snd_queue k)). IKCP_OVERHEAD + length (seg_bytes s) \<le> L"
    using wf by (auto simp: kcp_wf_def size_wf_def room_def)
  then have sz: "seg_sizes (L - IKCP_OVERHEAD) (ring_list (snd_queue k))" by fastforce
  have "seg_sizes (L - IKCP_OVERHEAD) (ring_list q)" using e(5) sz kcp_wf_mss(3) [OF wf] by simp
  then have sz': "\<forall>s\<in>set (ring_list q). IKCP_OVERHEAD + length (seg_bytes s) \<le> L" using L by auto
  have "size_wf L k" using wf by (simp add: kcp_wf_def)
  then have "size_wf L k'" using sz' by (simp add: e(1) size_wf_def room_def ball_Un)
  moreover have "rcv_wf k'" by (rule rcv_wf_cong [of k]) (use wf in \<open>simp_all add: kcp_wf_def e(1)\<close>)
  moreover have "snd_wf k'" using wf e(2,3) by (simp add: kcp_wf_def snd_wf_def inflight_wf_def e(1))
  moreover have "live (ring_list q) = live (ring_list (snd_queue k)) + int n"
    using e(3,4) w(2) by (simp add: live_fresh length_ring_list)
  then have "rtt_wf k'" "pool_balance k' = 0" using wf by (simp_all add: kcp_wf_def rtt_wf_def pool_balance_def e(1))
  moreover have "quiet k k'" by (simp add: e(1) quiet_def)
  ultimately show ?thesis using S False by (simp add: kcp_wf_def)
qed

lemma Recv_wf:
  assumes wf: "kcp_wf L k"
  shows "\<exists>r bs k'. Recv n k = Some (r, bs, k') \<and> kcp_wf L k' \<and> quiet k k'"
proof -
  let ?L = "ring_list (rcv_queue k)"
  have r: "rcv_wf k" "ring_wf (rcv_queue k)" using wf by (simp_all add: kcp_wf_def rcv_wf_def)
  obtain m rest where split: "split_msg ?L = (m, rest)" by (cases "split_msg ?L")
  consider "peek_list ?L < 0" | "int n < peek_list ?L" | "0 \<le> peek_list ?L" "peek_list ?L \<le> int n" by linarith
  then show ?thesis
  proof cases
    case 3
    then have "length (msg_bytes m) \<le> n" using split by (auto simp: peek_list_def split: list.splits if_splits)
    then obtain q where q: "ring_wf q" "ring_list q = rest" and R: "Recv n k = Some (int (length (msg_bytes m)), msg_bytes m,
        let k' = rcv_move (k\<lparr>rcv_queue := q, pool_out := pool_out k - live m\<rparr>)
        in if ring_Len (rcv_queue k') < unat (rcv_wnd k') \<and> ring_Len (rcv_queue k) \<ge> unat (rcv_wnd k)
           then k'\<lparr>probe := probe k' OR IKCP_ASK_TELL\<rparr> else k')"
      using Recv_spec [OF r(2) split 3(1)] by blast
    let ?k = "k\<lparr>rcv_queue := q, pool_out := pool_out k - live m\<rparr>"
    have L: "?L = m @ rest" using split split_msg_append [of ?L] by simp
    have "rcv_wf (k\<lparr>rcv_queue := q\<rparr>)"
      using r q queue_in_order_drop [of k q "length m"] by (simp add: rcv_wf_def L)
    then have "rcv_wf ?k" by (rule rcv_wf_cong) simp_all
    then have w: "kcp_wf L ?k"
      by (intro kcp_wf_rcv [OF wf, where h = "rcv_buf k" and q = q and n = "rcv_nxt k" and p = "pool_out k - live m"])
         (simp_all add: pool_balance_def q(2) L)
    have "quiet ?k (rcv_move ?k)" "kcp_wf L (rcv_move ?k)" using kcp_wf_rcv_move [OF w] by simp_all
    then have "quiet k (rcv_move ?k)" by (simp add: quiet_def)
    with \<open>kcp_wf L (rcv_move ?k)\<close> show ?thesis by (simp add: R Let_def)
  qed (use wf Recv_error [OF r(2)] in auto)
qed

lemma Update_wf:
  assumes "kcp_wf L k"
  shows "\<exists>k'. Update clk k = Some k' \<and> kcp_wf L k' \<and> sends L k k'"
proof -
  have f: "\<exists>k'. map_option snd (flush clk IKCP_FLUSH_FULL k1) = Some k' \<and> kcp_wf L k' \<and> sends L k k'"
    if "kcp_wf L k1" "quiet k k1" for k1
    using flush_kcp_wf [OF that(1), of clk IKCP_FLUSH_FULL] flush_sends sends_quiet [OF that(2)] by fastforce
  obtain due k2 where t: "update_timer (clk (ticks k)) (k\<lparr>ticks := Suc (ticks k)\<rparr>) = (due, k2)" by fastforce
  have e: "k2 = k\<lparr>ticks := Suc (ticks k), updated := updated k2, ts_flush := ts_flush k2\<rparr>"
    using update_timer_eq [of "clk (ticks k)" "k\<lparr>ticks := Suc (ticks k)\<rparr>"] unfolding t by (simp only: snd_conv)
  have "kcp_wf L k2 \<longleftrightarrow> kcp_wf L k" by (rule kcp_wf_frame; subst e; simp)
  moreover have "quiet k k2" by (subst e) (simp add: quiet_def)
  ultimately show ?thesis
    using f [of k2] quiet_sends assms t by (cases due) (simp_all add: Update_def currentMs_def)
qed

lemma iter_max_seg:
  "iter_list max_seg_size n ss = Some (fold max (map (\<lambda>s. IKCP_OVERHEAD + length (seg_bytes s)) ss) n, ss)"
  by (induction ss arbitrary: n) (auto simp: max_seg_size_def Let_def max_def)

lemma fold_max: "(n :: nat) \<le> fold max xs n \<and> (\<forall>x\<in>set xs. x \<le> fold max xs n)"
proof (induction xs arbitrary: n)
  case (Cons x xs)
  have "max x n \<le> fold max xs (max x n)" "\<forall>y\<in>set xs. y \<le> fold max xs (max x n)" using Cons.IH by blast+
  then show ?case by simp
qed simp

lemma SetMtu_eq:
  assumes "ring_wf (snd_buf k)" "ring_wf (snd_queue k)" "int IKCP_OVERHEAD < m"
  shows "SetMtu m k = Some (0, k\<lparr>mtu := of_int m, mss := of_int m - of_nat IKCP_OVERHEAD,
    buffer_len := fold max (map (\<lambda>s. IKCP_OVERHEAD + length (seg_bytes s)) (ring_list (snd_queue k)))
      (fold max (map (\<lambda>s. IKCP_OVERHEAD + length (seg_bytes s)) (ring_list (snd_buf k)))
        (nat ((m + int IKCP_OVERHEAD) * 3)))\<rparr>)"
proof -
  have sc: "\<exists>r'. ring_ForEach max_seg_size n r = Some (fold max (map (\<lambda>s. IKCP_OVERHEAD + length (seg_bytes s)) (ring_list r)) n, r')"
    if "ring_wf r" for n r
    using ring_scan_obtain [OF that iter_max_seg] by (auto simp: ring_ForEach_scan [OF that])
  obtain r1 where 1: "ring_ForEach max_seg_size (nat ((m + int IKCP_OVERHEAD) * 3)) (snd_buf k) =
      Some (fold max (map (\<lambda>s. IKCP_OVERHEAD + length (seg_bytes s)) (ring_list (snd_buf k))) (nat ((m + int IKCP_OVERHEAD) * 3)), r1)"
    using sc [OF assms(1)] by blast
  obtain r2 where "ring_ForEach max_seg_size (fold max (map (\<lambda>s. IKCP_OVERHEAD + length (seg_bytes s)) (ring_list (snd_buf k)))
        (nat ((m + int IKCP_OVERHEAD) * 3))) (snd_queue k) =
      Some (fold max (map (\<lambda>s. IKCP_OVERHEAD + length (seg_bytes s)) (ring_list (snd_queue k)))
        (fold max (map (\<lambda>s. IKCP_OVERHEAD + length (seg_bytes s)) (ring_list (snd_buf k)))
          (nat ((m + int IKCP_OVERHEAD) * 3))), r2)"
    using sc [OF assms(2)] by blast
  with 1 show ?thesis using assms(3) by (simp add: SetMtu_def)
qed

lemma SetMtu_wf:
  assumes wf: "kcp_wf L k" and m: "m < 2 ^ 32"
  shows "\<exists>r k'. SetMtu m k = Some (r, k') \<and>
    (m \<le> 24 \<and> r = - 1 \<and> k' = k \<or>
     24 < m \<and> r = 0 \<and> unat (mtu k') = nat m \<and> unat (mss k') = nat m - 24 \<and> kcp_wf (buffer_len k') k')"
proof (cases "m \<le> int IKCP_OVERHEAD")
  case True
  then show ?thesis by (simp add: SetMtu_def IKCP_OVERHEAD_def)
next
  case False
  have w: "ring_wf (snd_buf k)" "ring_wf (snd_queue k)" using wf by (simp_all add: kcp_wf_def snd_wf_def inflight_wf_def)
  let ?f = "\<lambda>s. IKCP_OVERHEAD + length (seg_bytes s)"
  define n0 where "n0 = nat ((m + int IKCP_OVERHEAD) * 3)"
  define n1 where "n1 = fold max (map ?f (ring_list (snd_buf k))) n0"
  define n2 where "n2 = fold max (map ?f (ring_list (snd_queue k))) n1"
  let ?k = "k\<lparr>mtu := of_int m, mss := of_int m - of_nat IKCP_OVERHEAD, buffer_len := n2\<rparr>"
  have S: "SetMtu m k = Some (0, ?k)" using SetMtu_eq [OF w, of m] False by (simp add: n0_def n1_def n2_def)
  have u: "unat (of_int m :: u32) = nat m"
    using m False by (simp add: unsigned_of_int take_bit_int_eq_self IKCP_OVERHEAD_def)
  have b: "n0 \<le> n1" "n1 \<le> n2" "\<forall>s\<in>set (ring_list (snd_buf k)). ?f s \<le> n1" "\<forall>s\<in>set (ring_list (snd_queue k)). ?f s \<le> n2"
    using fold_max [of n0 "map ?f (ring_list (snd_buf k))"] fold_max [of n1 "map ?f (ring_list (snd_queue k))"]
    by (simp_all add: n1_def n2_def)
  have room: "room n2 ?k" using b(1,2) False u by (auto simp: room_def n0_def IKCP_OVERHEAD_def)
  have "size_wf n2 ?k" unfolding size_wf_def using b room by (auto intro: order_trans)
  moreover have "rcv_wf ?k" by (rule rcv_wf_cong [of k]) (use wf in \<open>simp_all add: kcp_wf_def\<close>)
  moreover have "snd_wf ?k" by (rule snd_wf_cong [of k]) (use wf in \<open>simp_all add: kcp_wf_def snd_wf_def\<close>)
  moreover have "rtt_wf ?k" "pool_balance ?k = 0" using wf by (simp_all add: kcp_wf_def rtt_wf_def pool_balance_def)
  ultimately have "kcp_wf (buffer_len ?k) ?k" by (simp add: kcp_wf_def)
  moreover have "unat (mss ?k) = nat m - 24" using unat_mss [OF room] u by (simp add: IKCP_OVERHEAD_def)
  ultimately show ?thesis using S u False by (simp add: IKCP_OVERHEAD_def)
qed

text \<open>What a call of \<^verbatim>\<open>Recv\<close> did: nothing, or one message left the queue and ready segments moved up.\<close>

lemma Recv_cases:
  assumes wf: "rcv_wf k" and R: "Recv n k = Some (r, bs, k')"
  obtains (none) "k' = k" "bs = []"
    | (msg) m q where "bs = msg_bytes m" "ring_list (rcv_queue k) = m @ ring_list q"
        "rcv_wf (k\<lparr>rcv_queue := q, pool_out := pool_out k - live m\<rparr>)"
        "\<exists>k1. k1 = rcv_move (k\<lparr>rcv_queue := q, pool_out := pool_out k - live m\<rparr>) \<and> (k' = k1 \<or> k' = k1\<lparr>probe := probe k1 OR IKCP_ASK_TELL\<rparr>)"
proof -
  let ?L = "ring_list (rcv_queue k)"
  have rw: "ring_wf (rcv_queue k)" using wf by (simp add: rcv_wf_def)
  obtain m rest where split: "split_msg ?L = (m, rest)" by (cases "split_msg ?L")
  consider "peek_list ?L < 0" | "int n < peek_list ?L" | "0 \<le> peek_list ?L" "peek_list ?L \<le> int n" by linarith
  then show thesis
  proof cases
    case 3
    then have "length (msg_bytes m) \<le> n" using split by (auto simp: peek_list_def split: list.splits if_splits)
    then obtain q where q: "ring_wf q" "ring_list q = rest" and R': "Recv n k = Some (int (length (msg_bytes m)), msg_bytes m,
        let k' = rcv_move (k\<lparr>rcv_queue := q, pool_out := pool_out k - live m\<rparr>)
        in if ring_Len (rcv_queue k') < unat (rcv_wnd k') \<and> ring_Len (rcv_queue k) \<ge> unat (rcv_wnd k)
           then k'\<lparr>probe := probe k' OR IKCP_ASK_TELL\<rparr> else k')"
      using Recv_spec [OF rw split 3(1)] by blast
    define k1 where "k1 = rcv_move (k\<lparr>rcv_queue := q, pool_out := pool_out k - live m\<rparr>)"
    have L: "?L = m @ ring_list q" using split split_msg_append [of ?L] q(2) by simp
    have "rcv_wf (k\<lparr>rcv_queue := q\<rparr>)" using wf q queue_in_order_drop [of k q "length m"] by (simp add: rcv_wf_def L)
    then have w: "rcv_wf (k\<lparr>rcv_queue := q, pool_out := pool_out k - live m\<rparr>)" by (rule rcv_wf_cong) simp_all
    have "bs = msg_bytes m" "k' = k1 \<or> k' = k1\<lparr>probe := probe k1 OR IKCP_ASK_TELL\<rparr>"
      using R R' unfolding Let_def k1_def [symmetric] by (simp_all split: if_splits)
    then show thesis using msg [OF _ L w] k1_def by blast
  qed (use R Recv_error [OF rw] none in auto)
qed

lemma ResetRTO_spec:
  assumes w: "ring_wf (snd_buf k)"
  obtains sb where "ResetRTO clk k = Some (k\<lparr>ticks := Suc (ticks k), snd_buf := sb\<rparr>)" "ring_wf sb"
    "list_all2 (\<lambda>s s'. \<exists>a b. s' = s\<lparr>seg_rto := a, seg_resendts := b\<rparr>) (ring_list (snd_buf k)) (ring_list sb)"
proof -
  let ?R = "\<lambda>s s'. \<exists>a b. s' = s\<lparr>seg_rto := a, seg_resendts := b\<rparr>"
  let ?f = "reset_seg (rx_rto k) (clk (ticks k))"
  have refl: "?R s s" for s :: segment by (rule exI [of _ "seg_rto s"], rule exI [of _ "seg_resendts s"]) simp
  have "\<exists>u' s' g. ?f u s = Some (u', s', g) \<and> True \<and> ?R s s'" for u s by (auto simp: reset_seg_def)
  then obtain u sb where sb: "ring_scan ?f () (snd_buf k) = Some (u, sb)" "ring_wf sb" "list_all2 ?R (ring_list (snd_buf k)) (ring_list sb)"
    using ring_scan_inv [OF w, of "\<lambda>_. True" "\<lambda>_. True" ?f ?R "()"] refl by blast
  then show thesis using that by (simp add: ResetRTO_def currentMs_def ring_ForEach_scan [OF w])
qed

lemma ResetRTO_wf:
  assumes wf: "kcp_wf L k"
  shows "\<exists>k'. ResetRTO clk k = Some k' \<and> kcp_wf L k' \<and> quiet k k'"
proof -
  have w: "ring_wf (snd_buf k)" "snd_wf k" "data_kept (ring_list (snd_buf k))" using wf by (simp_all add: kcp_wf_def snd_wf_def inflight_wf_def)
  obtain sb where E: "ResetRTO clk k = Some (k\<lparr>ticks := Suc (ticks k), snd_buf := sb\<rparr>)" and sb: "ring_wf sb"
      "list_all2 (\<lambda>s s'. \<exists>a b. s' = s\<lparr>seg_rto := a, seg_resendts := b\<rparr>) (ring_list (snd_buf k)) (ring_list sb)"
    by (rule ResetRTO_spec [OF w(1)])
  let ?k = "k\<lparr>ticks := Suc (ticks k), snd_buf := sb\<rparr>"
  have same: "map seg_sn (ring_list sb) = map seg_sn (ring_list (snd_buf k))"
    "map seg_data (ring_list sb) = map seg_data (ring_list (snd_buf k))"
    "map seg_acked (ring_list sb) = map seg_acked (ring_list (snd_buf k))"
    by (rule list_all2_map_eq [OF sb(2)]; elim exE; simp)+
  have "snd_wf (k\<lparr>snd_buf := sb\<rparr>)" using snd_wf_buf(2) [OF w(2) sb(1) same(1)] data_kept_map [OF same(2,3) w(3)] by simp
  then have "snd_wf ?k" by (rule snd_wf_cong) (use wf in \<open>simp_all add: kcp_wf_def snd_wf_def\<close>)
  have "rcv_wf ?k" by (rule rcv_wf_cong [of k]) (use wf in \<open>simp_all add: kcp_wf_def\<close>)
  have "map seg_bytes (ring_list sb) = map seg_bytes (ring_list (snd_buf k))"
    by (rule list_all2_map_eq [OF sb(2)]) (auto simp: seg_bytes_def)
  then have "seg_bytes ` set (ring_list sb) = seg_bytes ` set (ring_list (snd_buf k))" by (metis list.set_map)
  moreover have sz: "size_wf L k" using wf by (simp add: kcp_wf_def)
  ultimately have "\<forall>b\<in>seg_bytes ` set (ring_list sb). IKCP_OVERHEAD + length b \<le> L" by (auto simp: size_wf_def)
  then have "size_wf L ?k" using sz by (simp add: size_wf_def room_def ball_Un)
  have "live (ring_list sb) = live (ring_list (snd_buf k))" unfolding live_map same(2) ..
  then have "rtt_wf ?k" "pool_balance ?k = 0" using wf by (simp_all add: kcp_wf_def rtt_wf_def pool_balance_def)
  then show ?thesis using E \<open>snd_wf ?k\<close> \<open>rcv_wf ?k\<close> \<open>size_wf L ?k\<close> by (simp add: kcp_wf_def quiet_def)
qed

lemma config_wf:
  "kcp_wf L k \<Longrightarrow> kcp_wf L (NoDelay a b c d k)" "kcp_wf L k \<Longrightarrow> kcp_wf L (WndSize e f k)" "kcp_wf L k \<Longrightarrow> kcp_wf L (k\<lparr>stream := s\<rparr>)"
  by (subst kcp_wf_frame [of _ k]; simp add: NoDelay_def WndSize_def Let_def)+

section \<open>Reachable states\<close>

lemma config_buffer: "buffer_len (NoDelay a b c d k) = buffer_len k" "buffer_len (WndSize e f k) = buffer_len k"
  "mss (NoDelay a b c d k) = mss k" "mss (WndSize e f k) = mss k"
  by (simp_all add: NoDelay_def WndSize_def Let_def)

lemma kcp_exec_wf:
  assumes wf: "conn_wf k" and adm: "admissible x"
  shows "\<exists>k'. kcp_exec clk x k = Some k' \<and> conn_wf k'"
proof -
  have w: "kcp_wf (buffer_len k) k" "unat (mss k) \<le> maxPacketSize" using wf by (simp_all add: conn_wf_def)
  have keep: "conn_wf k'" if "kcp_wf (buffer_len k) k'" "buffer_len k' = buffer_len k" "mss k' = mss k" for k'
    using that w(2) by (simp add: conn_wf_def)
  have quiet: "conn_wf k'" if "kcp_wf (buffer_len k) k'" "quiet k k'" for k'
    using that by (intro keep) (simp_all add: quiet_def)
  have sends: "conn_wf k'" if "kcp_wf (buffer_len k) k'" "sends (buffer_len k) k k'" for k'
    using that by (intro keep) (simp_all add: sends_def)
  show ?thesis
  proof (cases x)
    case (Op_Send b)
    then show ?thesis using Send_wf [OF w, of b] quiet by auto
  next
    case (Op_Recv n)
    then show ?thesis using Recv_wf [OF w(1), of n] quiet by auto
  next
    case (Op_Input d pt nd)
    then have "payloads_fit d" using adm by simp
    then show ?thesis using Op_Input Input_fit_wf [OF w(1), of d clk pt nd] sends by auto
  next
    case (Op_flush ft)
    then show ?thesis using flush_kcp_wf [OF w(1), of clk ft] flush_sends sends by fastforce
  next
    case Op_Update
    then show ?thesis using Update_wf [OF w(1), of clk] sends by auto
  next
    case (Op_SetMtu m)
    then have "m < 2 ^ 32" "nat m - 24 \<le> maxPacketSize" using adm by (auto simp: maxPacketSize_def)
    then show ?thesis using Op_SetMtu SetMtu_wf [OF w(1), of m] wf by (auto simp: conn_wf_def)
  next
    case Op_ResetRTO
    then show ?thesis using ResetRTO_wf [OF w(1), of clk] quiet by auto
  qed (use config_wf [OF w(1)] config_buffer keep in auto)
qed

lemma kcp_reach_wf: "kcp_reach clk c k \<Longrightarrow> conn_wf k"
proof (induction rule: kcp_reach.induct)
  case (reach_step k x k')
  then show ?case using kcp_exec_wf [of k x clk] by auto
qed (rule NewKCP_wf)

section \<open>Messages survive fragmentation\<close>

text \<open>What of a segment matters to the reader.\<close>

definition content :: "segment \<Rightarrow> u8 \<times> byte list option" where
  "content s = (seg_frg s, seg_data s)"

lemma split_msg_length:
  "map content xs = map content ys \<Longrightarrow> length (fst (split_msg xs)) = length (fst (split_msg ys))"
proof (induction xs arbitrary: ys)
  case (Cons x xs)
  then obtain y ys' where y: "ys = y # ys'" "content x = content y" "map content xs = map content ys'" by auto
  have "seg_frg x = seg_frg y" using y(2) by (simp add: content_def)
  then show ?case using Cons.IH [OF y(3)] y(1) by simp
qed simp

lemma content_bytes: "map content xs = map content ys \<Longrightarrow> map seg_bytes xs = map seg_bytes ys"
proof -
  assume "map content xs = map content ys"
  then have "map (\<lambda>c. case snd c of None \<Rightarrow> [] | Some d \<Rightarrow> d) (map content xs) =
      map (\<lambda>c. case snd c of None \<Rightarrow> [] | Some d \<Rightarrow> d) (map content ys)" by simp
  then show ?thesis by (simp add: content_def comp_def flip: seg_bytes_def)
qed

lemma peek_list_content:
  assumes "map content xs = map content ys"
  shows "peek_list xs = peek_list ys" "msg_bytes (fst (split_msg xs)) = msg_bytes (fst (split_msg ys))"
proof -
  have take: "fst (split_msg zs) = take (length (fst (split_msg zs))) zs" for zs
    by (metis append_eq_conv_conj split_msg_append)
  have "map seg_bytes (fst (split_msg xs)) = map seg_bytes (fst (split_msg ys))"
    using content_bytes [OF assms] split_msg_length [OF assms] take [of xs] take [of ys] by (metis take_map)
  then show b: "msg_bytes (fst (split_msg xs)) = msg_bytes (fst (split_msg ys))" by simp
  have "length xs = length ys" using assms by (metis length_map)
  then show "peek_list xs = peek_list ys"
    using assms b by (cases xs; cases ys) (simp_all add: peek_list_def content_def seg_bytes_def)
qed

lemma split_msg_frags:
  assumes "0 < n" "n \<le> 256"
  shows "split_msg (frags True mx n b @ rest) = (frags True mx n b, rest)"
  using assms
proof (induction n arbitrary: b)
  case (Suc n)
  show ?case
  proof (cases "n = 0")
    case False
    then have "(of_nat n :: u8) \<noteq> 0" using Suc.prems(2) by (simp add: word_of_nat_eq_0_iff nat_dvd_not_less)
    then show ?thesis using Suc.IH [of "drop mx b"] Suc.prems False by simp
  qed simp
qed simp

lemma peek_frags:
  assumes "0 < n" "n \<le> 256"
  shows "peek_list (frags True mx n b @ rest) = int (length (msg_bytes (frags True mx n b)))"
proof -
  obtain m where m: "n = Suc m" using assms(1) gr0_conv_Suc by auto
  have "(of_nat m :: u8) + 1 = of_nat (Suc m)" by simp
  also have "unat (of_nat (Suc m) :: u8) = take_bit 8 (Suc m)" by (simp only: unsigned_of_nat) simp
  also have "\<dots> \<le> Suc m" by (rule take_bit_nat_less_eq_self)
  finally have "unat ((of_nat m :: u8) + 1) \<le> Suc m" .
  then show ?thesis
    using split_msg_frags [OF assms, of mx b rest] by (auto simp: m peek_list_def)
qed

lemma Send_frags:
  assumes "ring_wf (snd_queue a)" "stream a = 0" "0 < unat (mss a)" "unat (mss a) \<le> maxPacketSize" "b \<noteq> []"
    "Send b a = Some (0, a')"
  shows "ring_list (snd_queue a') = ring_list (snd_queue a) @ frags True (unat (mss a)) (frag_count (unat (mss a)) (length b)) b"
    and "frag_count (unat (mss a)) (length b) \<le> 255"
  using assms send_frags_spec [OF assms(1,4), of "frag_count (unat (mss a)) (length b)" b]
  by (auto simp: Send_def send_split_eq split: if_splits)

section \<open>Decoding what was written\<close>

text \<open>\<^verbatim>\<open>Input\<close>'s loop over segments instead of bytes.\<close>

fun input_segs :: "PacketType \<Rightarrow> segment list \<Rightarrow> input_state \<Rightarrow> input_state option" where
  "input_segs pt [] st = Some st"
| "input_segs pt (s # ss) st =
     (case input_seg pt (header_of s) (seg_bytes s) st of None \<Rightarrow> None | Some st' \<Rightarrow> input_segs pt ss st')"

definition wire_ok :: "kcp \<Rightarrow> segment \<Rightarrow> bool" where
  "wire_ok k s \<longleftrightarrow> seg_conv s = conv k \<and> length (seg_bytes s) \<le> maxPacketSize \<and>
     seg_cmd s \<in> {IKCP_CMD_PUSH, IKCP_CMD_ACK, IKCP_CMD_WASK, IKCP_CMD_WINS}"

lemma input_loop_frames:
  assumes "kcp_wf L (in_k st)" "\<forall>s\<in>set ss. wire_ok (in_k st) s"
  shows "input_loop pt (concat (map frame ss)) st = map_option Inr (input_segs pt ss st)"
  using assms
proof (induction ss arbitrary: st)
  case Nil
  then show ?case by (subst input_loop.simps) (simp add: IKCP_OVERHEAD_def)
next
  case (Cons s ss)
  have ok: "seg_conv s = conv (in_k st)" "length (seg_bytes s) \<le> maxPacketSize"
    "seg_cmd s \<in> {IKCP_CMD_PUSH, IKCP_CMD_ACK, IKCP_CMD_WASK, IKCP_CMD_WINS}"
    using Cons.prems(2) by (simp_all add: wire_ok_def)
  obtain st' where st': "input_seg pt (header_of s) (seg_bytes s) st = Some st'" "kcp_wf L (in_k st')" "quiet (in_k st) (in_k st')"
    using input_seg_wf [OF Cons.prems(1) ok(2)] by blast
  let ?d = "segment_encode s @ seg_bytes s @ concat (map frame ss)"
  have "length (seg_bytes s) < 4294967296" using ok(2) by (simp add: maxPacketSize_def)
  then have len: "unat (h_len (header_of s)) = length (seg_bytes s)" by (simp add: header_of_def)
  have h: "parse_header ?d = Some (header_of s)" by (rule parse_encode)
  have "input_loop pt ?d st = input_loop pt (concat (map frame ss)) st'"
    using ok st'(1) by (subst input_loop.simps) (simp add: h Let_def len, auto simp: header_of_def)
  moreover have "\<forall>s\<in>set ss. wire_ok (in_k st') s" using Cons.prems(2) st'(3) by (simp add: wire_ok_def quiet_def)
  then have "input_loop pt (concat (map frame ss)) st' = map_option Inr (input_segs pt ss st')"
    by (rule Cons.IH [OF st'(2)])
  ultimately show ?case using st'(1) by (simp add: frame_def [of s])
qed

end
