(* ===== verification/Kcp_Properties.thy ===== *)
theory Kcp_Properties
  imports Kcp_Machine
begin

text \<open>
  What \<^verbatim>\<open>kcp.go\<close> guarantees, stated over the operations themselves. The proofs apply the
  lemmas of the component theories; every theorem with hypotheses is followed by a witness, its
  use on a concrete connection.
\<close>

section \<open>States the witnesses use\<close>

text \<open>A receive queue that holds what \<open>a'\<close> would send.\<close>

definition arrived :: "kcp \<Rightarrow> kcp" where
  "arrived a = (NewKCP 5)\<lparr>rcv_queue := snd_queue a\<rparr>"

text \<open>A connection with a segment in flight and one more queued.\<close>

definition busy :: kcp where
  "busy = (let k = snd (the (Send [1, 2, 3] ((NewKCP 9)\<lparr>cwnd := 4\<rparr>))); k = snd (the (flush (\<lambda>n. of_nat n) IKCP_FLUSH_FULL k))
     in snd (the (Send [4, 5] k)))"

lemma cwnd_wf: "kcp_wf 1400 ((NewKCP 9)\<lparr>cwnd := 4\<rparr>)"
  using NewKCP_wf(1) [of 9] kcp_wf_frame [of "(NewKCP 9)\<lparr>cwnd := 4\<rparr>" "NewKCP 9"] by simp

lemma mss_1376: "kcp_wf 1400 k \<Longrightarrow> mtu k = 1400 \<Longrightarrow> unat (mss k) \<le> maxPacketSize"
  using kcp_wf_mss(1) [of 1400 k] by (simp add: IKCP_OVERHEAD_def maxPacketSize_def)

lemma busy_wf: "kcp_wf 1400 busy" "mtu busy = 1400"
proof -
  let ?k0 = "(NewKCP 9)\<lparr>cwnd := 4\<rparr>"
  have m0: "mtu ?k0 = 1400" by (simp add: NewKCP_def kcp_consts)
  obtain r1 k1 where 1: "Send [1, 2, 3] ?k0 = Some (r1, k1)" "kcp_wf 1400 k1" "quiet ?k0 k1"
    using Send_wf [OF cwnd_wf mss_1376 [OF cwnd_wf m0]] by blast
  obtain r2 k2 where 2: "flush (\<lambda>n. of_nat n) IKCP_FLUSH_FULL k1 = Some (r2, k2)" "kcp_wf 1400 k2" "sends 1400 k1 k2"
    using flush_kcp_wf [OF 1(2)] flush_sends by blast
  have m2: "mtu k2 = 1400" using 1(3) 2(3) m0 by (simp add: quiet_def sends_def)
  obtain r3 k3 where 3: "Send [4, 5] k2 = Some (r3, k3)" "kcp_wf 1400 k3" "quiet k2 k3"
    using Send_wf [OF 2(2) mss_1376 [OF 2(2) m2]] by blast
  have "busy = k3" using 1(1) 2(1) 3(1) by (simp add: busy_def Let_def)
  then show "kcp_wf 1400 busy" "mtu busy = 1400" using 3(2,3) m2 by (simp_all add: quiet_def)
qed

section \<open>Every reachable state\<close>

text \<open>C3. When \<^verbatim>\<open>kcp.go\<close> panics and when not. Whatever a program does with a connection made by \<^verbatim>\<open>NewKCP\<close>, with MTUs up to
  \<^verbatim>\<open>maxPacketSize\<close> and any packets whose data segments carry at most \<^verbatim>\<open>maxPacketSize\<close> bytes each, however malformed, every
  operation returns; all packets of at most \<^verbatim>\<open>maxPacketSize + IKCP_OVERHEAD\<close> bytes are such, whatever they hold. The bound is
  exact: in every reachable state a packet that begins with a longer data segment, new and in the receive
  window, makes \<^verbatim>\<open>Input\<close> panic.\<close>

theorem reachable_no_panic:
  assumes "kcp_reach clk c k"
  shows "(\<forall>x. admissible x \<longrightarrow> (\<exists>k'. kcp_exec clk x k = Some k')) \<and>
    (\<forall>d pt nd. length d \<le> maxPacketSize + IKCP_OVERHEAD \<longrightarrow> admissible (Op_Input d pt nd)) \<and>
    (\<forall>s rest pt nd. seg_cmd s = IKCP_CMD_PUSH \<and> seg_conv s = conv k \<and> in_rcv_window k (seg_sn s) \<and>
       \<not> segmentHeap_Has (rcv_buf k) (seg_sn s) \<and> maxPacketSize < length (seg_bytes s) \<and> length (seg_bytes s) < 2 ^ 32 \<longrightarrow>
       kcp_exec clk (Op_Input (frame s @ rest) pt nd) k = None)"
proof -
  have wf: "conn_wf k" "kcp_wf (buffer_len k) k" using kcp_reach_wf [OF assms] by (simp_all add: conn_wf_def)
  then show ?thesis using kcp_exec_wf [OF wf(1)] payloads_fit_short Input_oversized_push [OF wf(2)] by fastforce
qed

definition oversized_push :: segment where
  "oversized_push = zero_segment\<lparr>seg_conv := 7, seg_cmd := IKCP_CMD_PUSH, seg_data := Some (replicate 1473 0)\<rparr>"

lemma oversized_push_new:
  "seg_cmd oversized_push = IKCP_CMD_PUSH" "seg_conv oversized_push = 7" "seg_sn oversized_push = 0" "length (seg_bytes oversized_push) = 1473"
  "in_rcv_window (NewKCP c) 0" "\<not> segmentHeap_Has (rcv_buf (NewKCP c)) 0"
  by (simp_all add: oversized_push_def zero_segment_def seg_bytes_def in_rcv_window_def itimediff_def NewKCP_def kcp_consts
      newSegmentHeap_def segmentHeap_Has_def)

theorem reachable_no_panic_witness:
  "(\<exists>k'. kcp_exec (\<lambda>n. of_nat n) (Op_Input [1, 2, 3] IKCP_PACKET_REGULAR False) (NewKCP 7) = Some k') \<and>
   kcp_exec (\<lambda>n. of_nat n) (Op_Input (frame oversized_push @ []) IKCP_PACKET_REGULAR False) (NewKCP 7) = None"
proof -
  note r = reachable_no_panic [OF reach_new, of "\<lambda>n. of_nat n" 7]
  have "admissible (Op_Input [1, 2, 3] IKCP_PACKET_REGULAR False)" using r by (auto simp: maxPacketSize_def)
  then have "\<exists>k'. kcp_exec (\<lambda>n. of_nat n) (Op_Input [1, 2, 3] IKCP_PACKET_REGULAR False) (NewKCP 7) = Some k'" using r by blast
  moreover have "conv (NewKCP 7) = 7" "maxPacketSize < 1473" "(1473 :: nat) < 2 ^ 32" by (simp_all add: NewKCP_def maxPacketSize_def)
  then have "kcp_exec (\<lambda>n. of_nat n) (Op_Input (frame oversized_push @ []) IKCP_PACKET_REGULAR False) (NewKCP 7) = None"
    using r oversized_push_new by metis
  ultimately show ?thesis by blast
qed

text \<open>C4. In every reachable state the segments in flight carry consecutive sequence numbers from
  \<^verbatim>\<open>snd_una\<close> up to \<^verbatim>\<open>snd_nxt\<close>, at most 65535 of them; those waiting for the reader are consecutive
  and end just below \<^verbatim>\<open>rcv_nxt\<close>; and the heap holds each number once, none below \<^verbatim>\<open>rcv_nxt\<close>.\<close>

theorem reachable_in_order:
  assumes "kcp_reach clk c k"
  shows "map seg_sn (ring_list (snd_buf k)) = seqs (snd_una k) (ring_Len (snd_buf k)) \<and>
    snd_nxt k = snd_una k + of_nat (ring_Len (snd_buf k)) \<and> ring_Len (snd_buf k) \<le> 65535 \<and>
    map seg_sn (ring_list (rcv_queue k)) = seqs (rcv_nxt k - of_nat (ring_Len (rcv_queue k))) (ring_Len (rcv_queue k)) \<and>
    distinct (map seg_sn (sh_segments (rcv_buf k))) \<and>
    (\<forall>s\<in>set (sh_segments (rcv_buf k)). 0 \<le> sint (itimediff (seg_sn s) (rcv_nxt k)))"
proof -
  have wf: "kcp_wf (buffer_len k) k" using kcp_reach_wf [OF assms] by (simp add: conn_wf_def)
  then have "\<forall>s\<in>set (sh_segments (rcv_buf k)). 0 \<le> sint (itimediff (seg_sn s) (rcv_nxt k))"
    by (auto simp: kcp_wf_def rcv_wf_def segmentHeap_wf_def sn.all_ok_def sn_near_def sn_dist_def itimediff_ge_0)
  then show ?thesis
    using wf by (simp add: kcp_wf_def snd_wf_def inflight_wf_def rcv_wf_def queue_in_order_def segmentHeap_wf_def Let_def)
qed

theorem reachable_in_order_witness: "distinct (map seg_sn (sh_segments (rcv_buf (NewKCP 3))))"
  using reachable_in_order [OF reach_new, of 3] by blast

text \<open>C5. In every reachable state the number of pool buffers taken and not returned is the number
  of segments that hold one: nothing leaks and nothing is returned twice.\<close>

theorem reachable_no_leak:
  assumes "kcp_reach clk c k"
  shows "pool_out k = live (ring_list (snd_queue k)) + live (ring_list (snd_buf k)) +
    live (ring_list (rcv_queue k)) + live (sh_segments (rcv_buf k))"
  using kcp_reach_wf [OF assms] by (simp add: conn_wf_def kcp_wf_def pool_balance_def)

theorem reachable_no_leak_witness: "pool_out (WndSize 128 0 (NewKCP 3)) = 0"
proof -
  have "kcp_reach (\<lambda>n. 0) 3 (WndSize 128 0 (NewKCP 3))"
    by (rule reach_step [OF reach_new, of "Op_WndSize 128 0"]) simp_all
  from reachable_no_leak [OF this] show ?thesis by (simp add: WndSize_def NewKCP_def newSegmentHeap_def)
qed

section \<open>Sending\<close>

text \<open>C8. \<^verbatim>\<open>Send\<close> on a well-formed connection returns 0 with the whole buffer appended to the queue, in
  segments of at most \<^verbatim>\<open>mss\<close> bytes, or -1 for an empty buffer, or -2 when the buffer needs more
  than 255 fragments; the invariant is kept.\<close>

theorem Send_appends:
  assumes "kcp_wf L k" "unat (mss k) \<le> maxPacketSize"
  shows "\<exists>r k'. Send b k = Some (r, k') \<and> kcp_wf L k' \<and> (r = - 1 \<longleftrightarrow> b = []) \<and>
    (r = 0 \<longrightarrow> msg_bytes (ring_list (snd_queue k')) = msg_bytes (ring_list (snd_queue k)) @ b \<and>
      (seg_sizes (unat (mss k)) (ring_list (snd_queue k)) \<longrightarrow> seg_sizes (unat (mss k)) (ring_list (snd_queue k')))) \<and>
    (r \<notin> {0, - 1} \<longrightarrow> r = - 2 \<and> 255 * unat (mss k) < length b \<and> ring_Len (snd_queue k') = ring_Len (snd_queue k))"
proof -
  obtain r k' where S: "Send b k = Some (r, k')" "kcp_wf L k'"
    and c: "b = [] \<and> r = - 1 \<and> k' = k \<or> b \<noteq> [] \<and> send_effect b k r k'"
    using Send_wf [OF assms] by blast
  from c show ?thesis
  proof
    assume "b = [] \<and> r = - 1 \<and> k' = k"
    then show ?thesis using S by simp
  next
    assume e: "b \<noteq> [] \<and> send_effect b k r k'"
    then obtain q n where "k' = k\<lparr>snd_queue := q, pool_out := pool_out k + int n\<rparr>"
      "ring_Len q = ring_Len (snd_queue k) + n"
      "r = 0 \<longrightarrow> msg_bytes (ring_list q) = msg_bytes (ring_list (snd_queue k)) @ b"
      "r = 0 \<or> r = - 2 \<and> n = 0 \<and> 255 * unat (mss k) < length b"
      "\<forall>mx. unat (mss k) \<le> mx \<longrightarrow> seg_sizes mx (ring_list (snd_queue k)) \<longrightarrow> seg_sizes mx (ring_list q)"
      unfolding send_effect_def by blast
    then show ?thesis using S e by (intro exI [of _ r] exI [of _ k']) auto
  qed
qed

theorem Send_appends_witness: "\<exists>r k'. Send [4, 5] busy = Some (r, k') \<and> kcp_wf 1400 k'"
  using Send_appends [OF busy_wf(1) mss_1376 [OF busy_wf], of "[4, 5]"] by blast

text \<open>C6. If the segments \<^verbatim>\<open>Send\<close> queued for a message reach the peer's receive queue in order, \<^verbatim>\<open>Recv\<close>
  there returns exactly that message, whatever follows it in the queue.\<close>

theorem message_round_trip:
  assumes "ring_wf (snd_queue a)" "ring_list (snd_queue a) = []" "stream a = 0" "0 < unat (mss a)"
    "unat (mss a) \<le> maxPacketSize" "b \<noteq> []" "Send b a = Some (0, a')"
    and "ring_wf (rcv_queue k)" "length b \<le> buflen"
    and "map content (ring_list (rcv_queue k)) = map content (ring_list (snd_queue a') @ rest)"
  shows "\<exists>k'. Recv buflen k = Some (int (length b), b, k')"
proof -
  let ?n = "frag_count (unat (mss a)) (length b)" and ?Q = "ring_list (rcv_queue k)"
  let ?F = "frags True (unat (mss a)) ?n b"
  have q: "ring_list (snd_queue a') = ?F" "?n \<le> 256" "0 < ?n"
    using Send_frags [OF assms(1,3-7)] assms(2,4) frag_count_pos by auto
  have b: "msg_bytes ?F = b" using frag_count_enough [OF assms(4), of "length b"] by (simp add: frags_bytes)
  have same: "map content ?Q = map content (?F @ rest)" using assms(10) q(1) by simp
  obtain m r where m: "split_msg ?Q = (m, r)" by fastforce
  have "peek_list ?Q = int (length b)" "msg_bytes m = b"
    using peek_list_content [OF same] peek_frags [OF q(3,2), of "unat (mss a)" b rest]
      split_msg_frags [OF q(3,2), of "unat (mss a)" b rest] b m by simp_all
  then show ?thesis using Recv_spec [OF assms(8) m] assms(9) by fastforce
qed

theorem message_round_trip_witness:
  "\<exists>k'. Recv 3 (arrived (snd (the (Send [7, 8, 9] (NewKCP 5))))) = Some (3, [7, 8, 9], k')"
proof -
  let ?a = "NewKCP 5"
  have a: "kcp_wf 1400 ?a" "unat (mss ?a) = 1376" by (rule NewKCP_wf) (simp add: NewKCP_def kcp_consts)
  then have w: "ring_wf (snd_queue ?a)" "ring_list (snd_queue ?a) = []" "stream ?a = 0"
    by (simp_all add: NewKCP_def)
  have m: "unat (mss ?a) \<le> maxPacketSize" "0 < unat (mss ?a)" by (simp_all add: a(2) maxPacketSize_def)
  obtain r a' where S: "Send [7, 8, 9] ?a = Some (r, a')" "send_effect [7, 8, 9] ?a r a'"
    using Send_spec [OF w(1) m(2,1), of "[7, 8, 9]"] w(2) by auto
  then have "r = 0" "ring_wf (snd_queue a')" using a(2) by (auto simp: send_effect_def)
  then show ?thesis
    using message_round_trip [OF w m(2,1) _ S(1) [unfolded \<open>r = 0\<close>], of "arrived a'" 3 "[]"] S(1) by (simp add: arrived_def)
qed

section \<open>Acknowledgements\<close>

text \<open>\<^verbatim>\<open>parse_una\<close> with \<^verbatim>\<open>shrink_buf\<close> removes from the front of \<^verbatim>\<open>snd_buf\<close> exactly the segments whose
  numbers lie before \<^verbatim>\<open>una\<close>, returns their count and advances \<^verbatim>\<open>snd_una\<close> by it; an old \<^verbatim>\<open>una\<close>, or
  one half the number space away, removes nothing.\<close>

theorem parse_una_cumulative:
  assumes "kcp_wf L k"
  shows "\<exists>n k1. parse_una una k = Some (n, k1) \<and>
    n = (if unat (una - snd_una k) < 2 ^ 31 then min (unat (una - snd_una k)) (ring_Len (snd_buf k)) else 0) \<and>
    ring_list (snd_buf (shrink_buf k1)) = drop n (ring_list (snd_buf k)) \<and>
    snd_una (shrink_buf k1) = snd_una k + of_nat n \<and> kcp_wf L (shrink_buf k1)"
proof -
  have "inflight_wf k" using assms by (simp add: kcp_wf_def snd_wf_def)
  from una_shrink_spec [OF this, of una] obtain k1 sb where u: "parse_una una k = Some (una_count una k, k1)"
    "shrink_buf k1 = k\<lparr>pool_out := pool_out k - live (take (una_count una k) (ring_list (snd_buf k))),
      snd_buf := sb, snd_una := snd_una k + of_nat (una_count una k)\<rparr>"
    "ring_list sb = drop (una_count una k) (ring_list (snd_buf k))" by blast
  moreover have "kcp_wf L (shrink_buf k1)" using una_step_wf [OF assms, of una] u(1) by auto
  ultimately show ?thesis by (simp add: una_count_def Let_def)
qed

theorem parse_una_cumulative_witness: "\<exists>n k1. parse_una 1 busy = Some (n, k1) \<and> kcp_wf 1400 (shrink_buf k1)"
  using parse_una_cumulative [OF busy_wf(1), of 1] by blast

text \<open>\<^verbatim>\<open>parse_ack\<close> marks the one segment in flight with the acknowledged number and frees its buffer,
  leaving every other segment and all positions as they were; a number that is not in flight
  changes nothing.\<close>

theorem parse_ack_selective:
  assumes "kcp_wf L k"
  shows "\<exists>k'. parse_ack n k = Some k' \<and> kcp_wf L k' \<and>
    (let i = unat (n - snd_una k) in
     if i < ring_Len (snd_buf k)
     then seg_sn (ring_list (snd_buf k) ! i) = n \<and>
       ring_list (snd_buf k') = (ring_list (snd_buf k))[i := mark_acked (ring_list (snd_buf k) ! i)]
     else k' = k)"
proof -
  define i where "i = unat (n - snd_una k)"
  have wf: "snd_wf k" "inflight_wf k" using assms by (simp_all add: kcp_wf_def snd_wf_def)
  obtain k' where k': "parse_ack n k = Some k'" "kcp_wf L k'"
    using parse_ack_wf [OF wf(1)] ack_effect_wf [OF assms(1)] by blast
  show ?thesis
  proof (cases "i < ring_Len (snd_buf k)")
    case True
    then have "seg_sn (ring_list (snd_buf k) ! i) = seqs (snd_una k) (ring_Len (snd_buf k)) ! i"
      using wf(2) by (metis inflight_wf_def length_ring_list nth_map)
    also have "\<dots> = n" using True by (simp add: i_def nth_seqs)
    finally have "seg_sn (ring_list (snd_buf k) ! i) = n" .
    moreover obtain sb p where "parse_ack n k = Some (k\<lparr>pool_out := p, snd_buf := sb\<rparr>)"
      "ring_list sb = (ring_list (snd_buf k))[i := mark_acked (ring_list (snd_buf k) ! i)]"
      using parse_ack_spec(1) [OF wf(2), of n] True unfolding i_def by blast
    ultimately show ?thesis using k' True by (intro exI [of _ k']) (auto simp: Let_def i_def)
  next
    case False
    then show ?thesis using k' parse_ack_spec(2) [OF wf(2), of n] by (simp add: i_def Let_def)
  qed
qed

theorem parse_ack_selective_witness: "\<exists>k'. parse_ack 0 busy = Some k' \<and> kcp_wf 1400 k'"
  using parse_ack_selective [OF busy_wf(1), of 0] by blast

text \<open>C11. The round-trip estimator computes over 32-bit registers exactly what the integer formula says,
  for every non-negative sample: no step of it overflows; and the smoothed values stay
  non-negative and below the largest sample seen.\<close>

theorem update_ack_is_exact:
  assumes "rtt_wf k" "0 \<le> sint rtt"
  shows "(sint (rx_srtt (update_ack rtt k)), sint (rx_rttvar (update_ack rtt k))) =
      rtt_step (sint rtt) (sint (rx_srtt k)) (sint (rx_rttvar k)) \<and>
    0 \<le> sint (rx_srtt (update_ack rtt k)) \<and> sint (rx_srtt (update_ack rtt k)) \<le> max (sint rtt) (sint (rx_srtt k))"
proof -
  note e = update_ack_exact [OF assms]
  have "0 \<le> sint (rx_srtt k)" "0 \<le> sint (rx_rttvar k)" using assms(1) by (simp_all add: rtt_wf_def)
  from rtt_step_range(1) [OF assms(2) this e [symmetric]] e show ?thesis by blast
qed

theorem update_ack_is_exact_witness:
  "sint (rx_srtt (update_ack 40 ((NewKCP 1)\<lparr>rx_srtt := 80, rx_rttvar := 20\<rparr>))) = 75"
proof -
  let ?k = "(NewKCP 1)\<lparr>rx_srtt := 80, rx_rttvar := 20\<rparr>"
  have "rtt_wf ?k" "0 \<le> sint (40 :: i32)" by (simp_all add: rtt_wf_def)
  from update_ack_is_exact [OF this] show ?thesis by (simp add: rtt_step_def Let_def)
qed

text \<open>After every sample the retransmission timeout lies between the configured minimum and
  60 seconds.\<close>

theorem rto_bounds:
  "min (rx_minrto k) IKCP_RTO_MAX \<le> rx_rto (update_ack rtt k) \<and> rx_rto (update_ack rtt k) \<le> IKCP_RTO_MAX"
proof -
  obtain x where "rx_rto (update_ack rtt k) = min (max (rx_minrto k) x) IKCP_RTO_MAX"
    by (simp add: update_ack_def Let_def case_prod_unfold)
  then show ?thesis by (simp add: min_le_iff_disj)
qed

section \<open>Flushing\<close>



text \<open>C9. No packet is longer than the MTU as long as every queued segment was cut to the current
  \<^verbatim>\<open>mss\<close>; otherwise none is longer than the largest queued segment with its header.\<close>

theorem flush_respects_mtu:
  assumes "kcp_wf (buffer_len k) k" "flush clk ft k = Some (u, k')"
  shows "\<forall>p\<in>set (drop (length (sent k)) (sent k')). length p \<le>
    Max (insert (unat (mtu k)) ((\<lambda>s. IKCP_OVERHEAD + length (seg_bytes s)) ` set (ring_list (snd_buf k) @ ring_list (snd_queue k))))"
proof -
  define M where "M = Max (insert (unat (mtu k)) ((\<lambda>s. IKCP_OVERHEAD + length (seg_bytes s)) ` set (ring_list (snd_buf k) @ ring_list (snd_queue k))))"
  have room: "room (buffer_len k) k" and sz: "\<forall>s\<in>set (ring_list (snd_buf k) @ ring_list (snd_queue k)).
      IKCP_OVERHEAD + length (seg_bytes s) \<le> buffer_len k" and mss: "mss k = mtu k - of_nat IKCP_OVERHEAD"
    and rest: "rcv_wf k" "snd_wf k" "rtt_wf k" "pool_balance k = 0"
    using assms(1) by (simp_all add: kcp_wf_def size_wf_def)
  have fin: "finite (insert (unat (mtu k)) ((\<lambda>s. IKCP_OVERHEAD + length (seg_bytes s)) ` set (ring_list (snd_buf k) @ ring_list (snd_queue k))))"
    by simp
  have ge: "x \<le> M" if "x \<in> insert (unat (mtu k)) ((\<lambda>s. IKCP_OVERHEAD + length (seg_bytes s)) ` set (ring_list (snd_buf k) @ ring_list (snd_queue k)))" for x
    unfolding M_def using Max_ge [OF fin that] .
  have "M \<le> buffer_len k" unfolding M_def using room sz by (subst Max_le_iff [OF fin]) (auto simp: room_def)
  then have "room M k" using room ge by (simp add: room_def)
  moreover have "\<forall>s\<in>set (ring_list (snd_buf k) @ ring_list (snd_queue k)). IKCP_OVERHEAD + length (seg_bytes s) \<le> M"
    using ge by blast
  ultimately have "kcp_wf M k" using mss rest by (simp add: kcp_wf_def size_wf_def)
  then have "sends M k k'" using flush_kcp_wf [of M k clk ft] flush_sends assms(2) by fastforce
  then show ?thesis by (auto simp: sends_def M_def)
qed

theorem flush_respects_mtu_witness:
  "\<exists>u k'. flush (\<lambda>n. 0) IKCP_FLUSH_FULL (NewKCP 2) = Some (u, k') \<and>
     (\<forall>p\<in>set (drop (length (sent (NewKCP 2))) (sent k')). length p \<le> 1400)"
proof -
  have wf: "kcp_wf (buffer_len (NewKCP 2)) (NewKCP 2)" using NewKCP_wf(2) by (simp add: conn_wf_def)
  obtain u k' where f: "flush (\<lambda>n. 0) IKCP_FLUSH_FULL (NewKCP 2) = Some (u, k')" using flush_kcp_wf [OF wf] by blast
  from flush_respects_mtu [OF wf f] f show ?thesis by (simp add: NewKCP_def kcp_consts)
qed

text \<open>C10. \<^verbatim>\<open>flush\<close> never puts more segments in flight than the smallest of the send window, the peer's
  window and (unless disabled) the congestion window, beyond those already in flight; it fills
  that window as far as the queue allows; and it leaves a congestion window of at least one.\<close>

theorem flush_window_discipline:
  assumes "kcp_wf L k" "flush clk ft k = Some (u, k')"
  shows "ring_Len (snd_buf k') \<le> max (ring_Len (snd_buf k)) (unat (flush_window k)) \<and>
    (ring_list (snd_queue k') = [] \<or> unat (flush_window k) \<le> ring_Len (snd_buf k')) \<and>
    (nocwnd k = 0 \<longrightarrow> 1 \<le> cwnd k')"
proof -
  have "flush_effect L ft k k'" using flush_kcp_wf [OF assms(1), of clk ft] assms(2) by auto
  then show ?thesis by (rule flush_effectE) simp
qed

theorem flush_window_discipline_witness:
  "\<exists>u k'. flush (\<lambda>n. 0) IKCP_FLUSH_FULL busy = Some (u, k') \<and> ring_Len (snd_buf k') \<le> max (ring_Len (snd_buf busy)) (unat (flush_window busy))"
proof -
  obtain u k' where f: "flush (\<lambda>n. 0) IKCP_FLUSH_FULL busy = Some (u, k')" using flush_kcp_wf [OF busy_wf(1)] by blast
  then show ?thesis using flush_window_discipline [OF busy_wf(1) f] by blast
qed

text \<open>No data is lost or reordered by \<^verbatim>\<open>flush\<close>: the bytes of \<^verbatim>\<open>snd_buf\<close> followed by those of \<^verbatim>\<open>snd_queue\<close>
  are the same before and after, segment by segment.\<close>

theorem flush_keeps_data:
  assumes "kcp_wf L k" "flush clk ft k = Some (u, k')"
  shows "map seg_bytes (ring_list (snd_buf k') @ ring_list (snd_queue k')) =
    map seg_bytes (ring_list (snd_buf k) @ ring_list (snd_queue k))"
proof -
  have "snd_wf k" "flush_effect L ft k k'" using assms flush_kcp_wf [OF assms(1), of clk ft] by (auto simp: kcp_wf_def)
  then show ?thesis by (rule flush_wf(3))
qed

theorem flush_keeps_data_witness:
  "\<exists>u k'. flush (\<lambda>n. 0) IKCP_FLUSH_FULL busy = Some (u, k') \<and>
     map seg_bytes (ring_list (snd_buf k') @ ring_list (snd_queue k')) = map seg_bytes (ring_list (snd_buf busy) @ ring_list (snd_queue busy))"
proof -
  obtain u k' where f: "flush (\<lambda>n. 0) IKCP_FLUSH_FULL busy = Some (u, k')" using flush_kcp_wf [OF busy_wf(1)] by blast
  then show ?thesis using flush_keeps_data [OF busy_wf(1) f] by blast
qed

section \<open>Receiving\<close>

text \<open>A new segment inside the window is accepted exactly once: \<^verbatim>\<open>parse_data\<close> reports no repeat, every
  segment that became deliverable moves to the reader's queue in order, \<^verbatim>\<open>rcv_nxt\<close> advances by as
  many, nothing is lost from the heap, and nothing deliverable is left waiting.\<close>

theorem parse_data_delivers:
  assumes "rcv_wf k" "in_rcv_window k (seg_sn s)" "seg_sn s \<notin> seg_sn ` set (sh_segments (rcv_buf k))"
    "length (seg_bytes s) \<le> maxPacketSize"
  shows "\<exists>k' moved. parse_data s k = Some (False, k') \<and> rcv_wf k' \<and>
    ring_list (rcv_queue k') = ring_list (rcv_queue k) @ moved \<and> rcv_nxt k' = rcv_nxt k + of_nat (length moved) \<and>
    mset moved + mset (sh_segments (rcv_buf k')) =
      add_mset (s\<lparr>seg_data := Some (seg_bytes s)\<rparr>) (mset (sh_segments (rcv_buf k))) \<and>
    (unat (rcv_wnd k') \<le> ring_Len (rcv_queue k') \<or> rcv_nxt k' \<notin> seg_sn ` set (sh_segments (rcv_buf k')))"
proof -
  have "\<not> segmentHeap_Has (rcv_buf k) (seg_sn s)"
    using assms(1,3) segmentHeap_Has_iff [of "rcv_nxt k" "rcv_buf k"] by (simp add: rcv_wf_def)
  from parse_data_accepts [OF assms(1,2) this assms(4)] show ?thesis unfolding rcv_drained_def by blast
qed

theorem parse_data_delivers_witness:
  "\<exists>k'. parse_data (zero_segment\<lparr>seg_data := Some [1]\<rparr>) (NewKCP 1) = Some (False, k') \<and> rcv_wf k'"
proof -
  let ?s = "zero_segment\<lparr>seg_data := Some [1]\<rparr>"
  have "in_rcv_window (NewKCP 1) (seg_sn ?s)"
    by (simp add: in_rcv_window_def NewKCP_def zero_segment_def kcp_consts itimediff_def)
  moreover have "seg_sn ?s \<notin> seg_sn ` set (sh_segments (rcv_buf (NewKCP 1)))" "length (seg_bytes ?s) \<le> maxPacketSize"
    by (simp_all add: NewKCP_def newSegmentHeap_def seg_bytes_def maxPacketSize_def)
  ultimately show ?thesis using parse_data_delivers [OF NewKCP_rcv_wf, of 1 ?s] by blast
qed

text \<open>A segment outside the window, or one the heap already holds, is reported as a repeat; no message
  byte is added or lost, whatever it carries.\<close>

theorem parse_data_repeats:
  assumes "rcv_wf k" "\<not> in_rcv_window k (seg_sn s) \<or> seg_sn s \<in> seg_sn ` set (sh_segments (rcv_buf k))"
  shows "\<exists>k' moved. parse_data s k = Some (True, k') \<and> rcv_wf k' \<and>
    ring_list (rcv_queue k') = ring_list (rcv_queue k) @ moved \<and>
    mset moved + mset (sh_segments (rcv_buf k')) = mset (sh_segments (rcv_buf k)) \<and> pool_out k' = pool_out k"
proof (cases "in_rcv_window k (seg_sn s)")
  case False
  then show ?thesis using assms(1) by (intro exI [of _ k] exI [of _ "[]"]) (simp add: parse_data_outside)
next
  case True
  then have "segmentHeap_Has (rcv_buf k) (seg_sn s)"
    using assms segmentHeap_Has_iff [of "rcv_nxt k" "rcv_buf k"] by (simp add: rcv_wf_def)
  then have p: "parse_data s k = Some (True, rcv_move k)" using True by (simp add: parse_data_repeat)
  obtain moved where m: "moves k moved (rcv_move k)" "rcv_wf (rcv_move k)" using rcv_move_moves [OF assms(1)] by blast
  then have "ring_list (rcv_queue (rcv_move k)) = ring_list (rcv_queue k) @ moved"
    "mset moved + mset (sh_segments (rcv_buf (rcv_move k))) = mset (sh_segments (rcv_buf k))"
    "pool_out (rcv_move k) = pool_out k"
    by (auto elim!: movesE)
  then show ?thesis using p m(2) by blast
qed

theorem parse_data_repeats_witness:
  "\<exists>k'. parse_data (zero_segment\<lparr>seg_sn := 32, seg_data := Some [1]\<rparr>) (NewKCP 1) = Some (True, k') \<and> rcv_wf k'"
proof -
  have "\<not> in_rcv_window (NewKCP 1) (seg_sn (zero_segment\<lparr>seg_sn := 32, seg_data := Some [1]\<rparr>))"
    by (simp add: in_rcv_window_def NewKCP_def zero_segment_def kcp_consts itimediff_def)
  with parse_data_repeats [OF NewKCP_rcv_wf] show ?thesis by blast
qed

text \<open>\<^verbatim>\<open>Recv\<close> returns -1 and changes nothing while the first message is incomplete, -2 and changes
  nothing when the buffer is too short, and otherwise the bytes of the first message, whose
  segments leave the queue while in-order segments refill it.\<close>

theorem Recv_first_message:
  assumes "rcv_wf k" "split_msg (ring_list (rcv_queue k)) = (m, rest)"
  shows "(if peek_list (ring_list (rcv_queue k)) < 0 then Recv buflen k = Some (- 1, [], k)
    else if int buflen < peek_list (ring_list (rcv_queue k)) then Recv buflen k = Some (- 2, [], k)
    else \<exists>k' moved. Recv buflen k = Some (int (length (msg_bytes m)), msg_bytes m, k') \<and> rcv_wf k' \<and>
      ring_list (rcv_queue k') = rest @ moved \<and> rcv_nxt k' = rcv_nxt k + of_nat (length moved) \<and>
      mset (sh_segments (rcv_buf k)) = mset moved + mset (sh_segments (rcv_buf k')) \<and>
      pool_out k' = pool_out k - live m)"
proof -
  have w: "ring_wf (rcv_queue k)" using assms(1) by (simp add: rcv_wf_def)
  have "length (msg_bytes m) \<le> buflen"
    if "\<not> peek_list (ring_list (rcv_queue k)) < 0" "\<not> int buflen < peek_list (ring_list (rcv_queue k))"
    using that assms(2) by (auto simp: peek_list_def split: list.splits if_splits)
  then show ?thesis
    using Recv_error [OF w, of buflen] Recv_ok [OF assms, of buflen] by (auto simp: not_less)
qed

theorem Recv_first_message_witness: "Recv 10 (NewKCP 1) = Some (- 1, [], NewKCP 1)"
  using Recv_first_message [OF NewKCP_rcv_wf, of 1 "[]" "[]" 10] by (simp add: NewKCP_def peek_list_def)

section \<open>Input\<close>

text \<open>\<^verbatim>\<open>Input\<close> accepts any byte string up to one packet, malformed or hostile: it returns one of its
  four codes, keeps the invariant, and every packet it sends in reply fits.\<close>

theorem Input_total:
  assumes "kcp_wf L k" "length data \<le> maxPacketSize + IKCP_OVERHEAD"
  shows "\<exists>r k'. Input clk data pt nd k = Some (r, k') \<and> r \<in> {0, - 1, - 2, - 3} \<and> kcp_wf L k' \<and>
    (\<exists>ps. sent k' = sent k @ ps \<and> (\<forall>p\<in>set ps. length p \<le> L))"
  using Input_wf [OF assms, of clk pt nd] unfolding sends_def by blast

theorem Input_total_witness:
  "\<exists>r k'. Input (\<lambda>n. 0) (replicate 30 255) IKCP_PACKET_REGULAR True busy = Some (r, k') \<and> r \<in> {0, - 1, - 2, - 3}"
proof -
  have "length (replicate 30 255) \<le> maxPacketSize + IKCP_OVERHEAD" by (simp add: maxPacketSize_def)
  from Input_total [OF busy_wf(1) this, of "\<lambda>n. 0" IKCP_PACKET_REGULAR True] show ?thesis by blast
qed

text \<open>\<^verbatim>\<open>Input\<close> decodes exactly what \<^verbatim>\<open>flush\<close> encodes: on the bytes of a packet made of whole segments
  the loop processes those segments, with the same headers and payloads, in order.\<close>

theorem Input_decodes_frames:
  assumes "kcp_wf L (in_k st)" "\<forall>s\<in>set ss. wire_ok (in_k st) s"
  shows "input_loop pt (concat (map frame ss)) st = map_option Inr (input_segs pt ss st)"
  by (rule input_loop_frames [OF assms])

theorem Input_decodes_frames_witness:
  "input_loop IKCP_PACKET_FEC (frame (zero_segment\<lparr>seg_conv := 2, seg_cmd := IKCP_CMD_WINS\<rparr>))
      \<lparr>in_k = NewKCP 2, in_latest = 0, in_updateRTT = False, in_segs = 0, in_flush = False\<rparr> \<noteq> None"
proof -
  let ?s = "zero_segment\<lparr>seg_conv := 2, seg_cmd := IKCP_CMD_WINS\<rparr>"
  let ?st = "\<lparr>in_k = NewKCP 2, in_latest = 0, in_updateRTT = False, in_segs = 0, in_flush = False\<rparr>"
  have "conv (NewKCP 2) = 2" by (simp add: NewKCP_def)
  then have ok: "\<forall>s\<in>set [?s]. wire_ok (in_k ?st) s" by (simp add: wire_ok_def seg_bytes_def zero_segment_def)
  have wf: "kcp_wf 1400 (in_k ?st)" using NewKCP_wf(1) [of 2] by simp
  have "length (seg_bytes ?s) \<le> maxPacketSize" by (simp add: seg_bytes_def zero_segment_def)
  from input_seg_wf [OF wf this, of IKCP_PACKET_FEC "header_of ?s"] have "input_segs IKCP_PACKET_FEC [?s] ?st \<noteq> None" by auto
  then show ?thesis using Input_decodes_frames [OF wf ok, of IKCP_PACKET_FEC] by auto
qed

text \<open>The congestion update after an acknowledgement never divides by zero and never pushes the
  congestion window past the window the peer advertised.\<close>

theorem cwnd_growth_bounded:
  assumes "mss k \<noteq> 0"
  shows "\<exists>c i. input_cwnd una k = Some (k\<lparr>cwnd := c, incr := i\<rparr>) \<and> (c = cwnd k \<or> c \<le> rmt_wnd k)"
  by (rule input_cwnd_eq [OF assms])

theorem cwnd_growth_bounded_witness:
  "\<exists>c i. input_cwnd 0 ((NewKCP 1)\<lparr>snd_una := 5\<rparr>) = Some ((NewKCP 1)\<lparr>snd_una := 5, cwnd := c, incr := i\<rparr>)"
proof -
  have "mss ((NewKCP 1)\<lparr>snd_una := 5\<rparr>) \<noteq> 0" by (simp add: NewKCP_def kcp_consts)
  from cwnd_growth_bounded [OF this, of 0] show ?thesis by blast
qed

section \<open>Configuration and timer\<close>

text \<open>\<^verbatim>\<open>SetMtu\<close> with an MTU above the header size succeeds, sets \<^verbatim>\<open>mtu\<close> and \<^verbatim>\<open>mss\<close> without truncation, keeps
  everything queued, and leaves an output buffer large enough for every segment queued under a
  larger MTU, so that the invariant and with it the absence of panics survive.\<close>

theorem SetMtu_resizes:
  assumes "conn_wf k" "24 < m" "m < 2 ^ 32"
  shows "\<exists>k'. SetMtu m k = Some (0, k') \<and> unat (mtu k') = nat m \<and> unat (mss k') = nat m - 24 \<and>
    kcp_wf (buffer_len k') k' \<and> ring_list (snd_buf k') = ring_list (snd_buf k) \<and> ring_list (snd_queue k') = ring_list (snd_queue k)"
proof -
  have wf: "kcp_wf (buffer_len k) k" using assms(1) by (simp add: conn_wf_def)
  then obtain k' where S: "SetMtu m k = Some (0, k')" "unat (mtu k') = nat m" "unat (mss k') = nat m - 24" "kcp_wf (buffer_len k') k'"
    using SetMtu_wf [OF wf assms(3)] assms(2) by auto
  have "ring_wf (snd_buf k)" "ring_wf (snd_queue k)" using wf by (simp_all add: kcp_wf_def snd_wf_def inflight_wf_def)
  from SetMtu_eq [OF this, of m] S(1) assms(2) have "snd_buf k' = snd_buf k" "snd_queue k' = snd_queue k"
    by (auto simp: IKCP_OVERHEAD_def)
  then show ?thesis using S by simp
qed

theorem SetMtu_resizes_witness: "\<exists>k'. SetMtu 100 (NewKCP 1) = Some (0, k') \<and> unat (mtu k') = 100"
  using SetMtu_resizes [OF NewKCP_wf(2), of 100 1] by auto

text \<open>When \<^verbatim>\<open>Update\<close>'s timer fires, the next flush is scheduled in the future and at most one
  interval away, however late the call was and however the clock wrapped around.\<close>

theorem Update_timer_next:
  assumes "interval k \<noteq> 0" "unat (interval k) \<le> 5000" "update_timer current k = (True, k')"
  shows "0 < sint (itimediff (ts_flush k') current) \<and> sint (itimediff (ts_flush k') current) \<le> int (unat (interval k))"
  using update_timer_next [OF assms] by blast

theorem Update_timer_next_witness:
  "0 < sint (itimediff (ts_flush (snd (update_timer 0xFFFFFFF0 (NewKCP 1)))) 0xFFFFFFF0)"
proof -
  have "update_timer 0xFFFFFFF0 (NewKCP 1) = (True, snd (update_timer 0xFFFFFFF0 (NewKCP 1)))"
    by (simp add: update_timer_def NewKCP_def kcp_consts itimediff_def)
  moreover have "interval (NewKCP 1) \<noteq> 0" "unat (interval (NewKCP 1)) \<le> 5000" by (simp_all add: NewKCP_def kcp_consts)
  ultimately show ?thesis using Update_timer_next by blast
qed

section \<open>What the code does that its comments do not say\<close>

text \<open>The advertised window is truncated to 16 bits: with a receive window of 65536 and nothing
  queued, the peer is told that the window is closed.\<close>

theorem wnd_unused_wraps: "wnd_unused (WndSize 0 65536 (NewKCP c)) = 0"
  by (simp add: wnd_unused_def WndSize_def NewKCP_def flip: length_ring_list)

text \<open>An early retransmission happens although fast retransmit is disabled, and then the congestion
  window becomes the new threshold minus one: the sum with the disabled threshold wraps around.\<close>

theorem early_retransmit_wraps:
  assumes "fastresend k = 0" "nocwnd k = 0" "fs_change fs > 0" "fs_lost fs = 0"
  shows "cwnd (flush_cwnd wnd (fast_limit k) fs k) = ssthresh (flush_cwnd wnd (fast_limit k) fs k) - 1"
proof -
  let ?t = "max ((snd_nxt k - snd_una k) div 2) IKCP_THRESH_MIN"
  have "2 \<le> ?t" by (simp add: IKCP_THRESH_MIN_def)
  then have "unat ?t \<ge> 2" by (simp add: word_le_nat_alt)
  then have n: "?t \<noteq> 1" by auto
  have e: "?t + 0xFFFFFFFF = ?t - 1" by simp
  show ?thesis using assms n by (simp add: flush_cwnd_def fast_limit_def Let_def e)
qed

theorem early_retransmit_wraps_witness:
  "cwnd (flush_cwnd 4 (fast_limit (NewKCP 1)) \<lparr>fs_k = NewKCP 1, fs_written = [], fs_current = 0, fs_change = 1, fs_lost = 0,
      fs_fast = 0, fs_early = 1, fs_next = 100\<rparr> (NewKCP 1)) = 1"
proof -
  let ?fs = "\<lparr>fs_k = NewKCP 1, fs_written = [], fs_current = 0, fs_change = 1, fs_lost = 0, fs_fast = 0, fs_early = 1, fs_next = 100\<rparr>"
  have "fastresend (NewKCP 1) = 0" "nocwnd (NewKCP 1) = 0" "fs_change ?fs > 0" "fs_lost ?fs = 0"
    by (simp_all add: NewKCP_def)
  from early_retransmit_wraps [OF this, of 4] show ?thesis
    by (simp add: flush_cwnd_def fast_limit_def NewKCP_def kcp_consts Let_def)
qed

end
