(* ===== verification/End_To_End.thy ===== *)
theory End_To_End
  imports Kcp_Machine "HOL-Library.Sublist"
begin

text \<open>
  Two protocol machines of \<^verbatim>\<open>kcp.go\<close> joined by a network. Each end runs any operations with any arguments and
  any configuration; the network delivers to an end any packet the other has put out, as often and in
  whatever order it likes, or never. The lemmas follow the numbered segments from one end to the
  other and show that the bytes an application receives are a prefix of the bytes the other sent.
\<close>

section \<open>The two ends\<close>

type_synonym piece = "u8 \<times> byte list"

definition piece :: "segment \<Rightarrow> piece" where
  "piece s = (seg_frg s, seg_bytes s)"

text \<open>An end with what its application has sent and received, and a record of the segments it has numbered.\<close>

record endpoint =
  ep_kcp :: kcp
  ep_in :: "byte list"
  ep_out :: "byte list"
  ep_hist :: "piece list"

definition new_endpoint :: "u32 \<Rightarrow> endpoint" where
  "new_endpoint c = \<lparr>ep_kcp = NewKCP c, ep_in = [], ep_out = [], ep_hist = []\<rparr>"

definition numbered :: "kcp \<Rightarrow> kcp \<Rightarrow> piece list" where
  "numbered k k' = map piece (take (unat (snd_nxt k' - snd_nxt k)) (ring_list (snd_queue k)))"

text \<open>One operation at an end. A \<^verbatim>\<open>Send\<close> that fails because the message needs too many fragments ends the use of the
  connection: the code may have queued a part of the message.\<close>

fun ep_exec :: "clock \<Rightarrow> kcp_op \<Rightarrow> endpoint \<Rightarrow> endpoint option" where
  "ep_exec clk (Op_Send b) e =
     (case Send b (ep_kcp e) of
        None \<Rightarrow> None
      | Some (r, k) \<Rightarrow> if r = - 2 then None else Some (e\<lparr>ep_kcp := k, ep_in := ep_in e @ b\<rparr>))"
| "ep_exec clk (Op_Recv n) e =
     map_option (\<lambda>(r, bs, k). e\<lparr>ep_kcp := k, ep_out := ep_out e @ bs\<rparr>) (Recv n (ep_kcp e))"
| "ep_exec clk x e =
     map_option (\<lambda>k. e\<lparr>ep_kcp := k, ep_hist := ep_hist e @ numbered (ep_kcp e) k\<rparr>) (kcp_exec clk x (ep_kcp e))"

text \<open>What the network may deliver.\<close>

fun delivers :: "endpoint \<Rightarrow> kcp_op \<Rightarrow> bool" where
  "delivers peer (Op_Input d pt nd) \<longleftrightarrow> d \<in> set (sent (ep_kcp peer))"
| "delivers peer _ \<longleftrightarrow> True"

inductive net_reach :: "clock \<Rightarrow> clock \<Rightarrow> u32 \<Rightarrow> endpoint \<Rightarrow> endpoint \<Rightarrow> bool" for clka clkb c where
  net_start: "net_reach clka clkb c (new_endpoint c) (new_endpoint c)"
| net_left: "net_reach clka clkb c a b \<Longrightarrow> within_buffers x \<Longrightarrow> delivers b x \<Longrightarrow> ep_exec clka x a = Some a' \<Longrightarrow>
    net_reach clka clkb c a' b"
| net_right: "net_reach clka clkb c a b \<Longrightarrow> within_buffers x \<Longrightarrow> delivers a x \<Longrightarrow> ep_exec clkb x b = Some b' \<Longrightarrow>
    net_reach clka clkb c a b'"

section \<open>What the numbers stand for\<close>

text \<open>A data segment carries the piece its number stands for.\<close>

definition carried :: "piece list \<Rightarrow> segment \<Rightarrow> bool" where
  "carried H s \<longleftrightarrow> seg_cmd s = IKCP_CMD_PUSH \<and> unat (seg_sn s) < length H \<and> H ! unat (seg_sn s) = piece s"

definition snd_inv :: "piece list \<Rightarrow> kcp \<Rightarrow> bool" where
  "snd_inv H k \<longleftrightarrow> snd_nxt k = of_nat (length H) \<and>
     (\<forall>s\<in>set (ring_list (snd_buf k)). seg_acked s = 1 \<or> carried H s)"

definition kcp_cmds :: "u8 set" where
  "kcp_cmds = {IKCP_CMD_PUSH, IKCP_CMD_ACK, IKCP_CMD_WASK, IKCP_CMD_WINS}"

definition packets_inv :: "piece list \<Rightarrow> byte list list \<Rightarrow> bool" where
  "packets_inv H ps \<longleftrightarrow> (\<forall>p\<in>set ps. \<exists>ss. p = concat (map frame ss) \<and>
     (\<forall>s\<in>set ss. seg_cmd s \<in> kcp_cmds \<and> (seg_cmd s = IKCP_CMD_PUSH \<longrightarrow> carried H s)))"

definition rcv_inv :: "piece list \<Rightarrow> byte list \<Rightarrow> kcp \<Rightarrow> bool" where
  "rcv_inv G out k \<longleftrightarrow> (\<exists>n\<le>length G. rcv_nxt k = of_nat n \<and>
     out @ msg_bytes (ring_list (rcv_queue k)) = concat (map snd (take n G))) \<and>
     (\<forall>s\<in>set (sh_segments (rcv_buf k)). carried G s)"

lemma carried_append: "carried H s \<Longrightarrow> carried (H @ X) s"
  by (simp add: carried_def nth_append)

lemma packets_inv_append: "packets_inv H ps \<Longrightarrow> packets_inv (H @ X) ps"
  unfolding packets_inv_def using carried_append by blast

lemma rcv_inv_append:
  assumes "rcv_inv G out k"
  shows "rcv_inv (G @ X) out k"
proof -
  from assms obtain n where "n \<le> length G" "rcv_nxt k = of_nat n"
      "out @ msg_bytes (ring_list (rcv_queue k)) = concat (map snd (take n G))" "\<forall>s\<in>set (sh_segments (rcv_buf k)). carried G s"
    unfolding rcv_inv_def by blast
  then show ?thesis unfolding rcv_inv_def by (intro conjI exI [of _ n]) (simp_all add: carried_append)
qed

lemma seqs_Cons: "seqs a (Suc n) = a # seqs (a + 1) n"
  by (rule seqs_Suc)

text \<open>Segments with consecutive numbers carry consecutive pieces.\<close>

lemma carried_run:
  "map seg_sn ss = seqs (of_nat n) (length ss) \<Longrightarrow> \<forall>s\<in>set ss. carried G s \<Longrightarrow> n \<le> length G \<Longrightarrow> length G < 2 ^ 32 \<Longrightarrow>
     n + length ss \<le> length G \<and> map piece ss = take (length ss) (drop n G)"
proof (induction ss arbitrary: n)
  case (Cons s ss)
  have sn: "seg_sn s = of_nat n" "map seg_sn ss = seqs (of_nat (Suc n)) (length ss)"
    using Cons.prems(1) by (simp_all add: seqs_Cons add.commute)
  have u: "unat (of_nat n :: u32) = n" using Cons.prems(3,4) by simp
  then have s: "n < length G" "G ! n = piece s" using Cons.prems(2) sn(1) by (simp_all add: carried_def)
  then have "Suc n + length ss \<le> length G \<and> map piece ss = take (length ss) (drop (Suc n) G)"
    using Cons.IH [OF sn(2)] Cons.prems by simp
  moreover have "drop n G = G ! n # drop (Suc n) G" using s(1) by (simp add: Cons_nth_drop_Suc)
  ultimately show ?case using s(2) by simp
qed simp

lemma pieces_bytes: "concat (map snd (map piece ss)) = msg_bytes ss"
  by (induction ss) (simp_all add: piece_def)

lemma rcv_inv_moves:
  assumes inv: "rcv_inv G out k" and mv: "moves k moved k'" and len: "length G < 2 ^ 32"
  shows "rcv_inv G out k'"
proof -
  from inv obtain n where n: "n \<le> length G" "rcv_nxt k = of_nat n"
      "out @ msg_bytes (ring_list (rcv_queue k)) = concat (map snd (take n G))" "\<forall>s\<in>set (sh_segments (rcv_buf k)). carried G s"
    unfolding rcv_inv_def by blast
  from mv obtain q h where e: "k' = k\<lparr>rcv_buf := h, rcv_queue := q, rcv_nxt := rcv_nxt k + of_nat (length moved)\<rparr>"
      "ring_list q = ring_list (rcv_queue k) @ moved" "map seg_sn moved = seqs (rcv_nxt k) (length moved)"
      "mset (sh_segments (rcv_buf k)) = mset moved + mset (sh_segments h)"
    by (auto simp: moves_def)
  have "set (sh_segments (rcv_buf k)) = set moved \<union> set (sh_segments h)"
    using arg_cong [OF e(4), of set_mset] by simp
  with n(4) have c: "\<forall>s\<in>set moved. carried G s" "\<forall>s\<in>set (sh_segments h). carried G s" by auto
  have run: "n + length moved \<le> length G" "map piece moved = take (length moved) (drop n G)"
    using carried_run [OF e(3) [unfolded n(2)] c(1) n(1) len] by auto
  have "take (n + length moved) G = take n G @ take (length moved) (drop n G)" by (simp add: take_add)
  then have "out @ msg_bytes (ring_list q) = concat (map snd (take (n + length moved) G))"
    using n(3) e(2) run(2) pieces_bytes [of moved] by (simp flip: append_assoc)
  then show ?thesis
    unfolding rcv_inv_def e(1) using run(1) c(2) n(2) by (auto intro!: exI [of _ "n + length moved"])
qed

section \<open>Receiving\<close>

text \<open>Fields the sending half works on, and the output.\<close>

definition same_send :: "kcp \<Rightarrow> kcp \<Rightarrow> bool" where
  "same_send k k' \<longleftrightarrow> snd_nxt k' = snd_nxt k \<and> snd_buf k' = snd_buf k \<and> snd_queue k' = snd_queue k \<and> sent k' = sent k"

definition same_recv :: "kcp \<Rightarrow> kcp \<Rightarrow> bool" where
  "same_recv k k' \<longleftrightarrow> rcv_nxt k' = rcv_nxt k \<and> rcv_queue k' = rcv_queue k \<and> rcv_buf k' = rcv_buf k"

lemma same_refl [simp]: "same_send k k" "same_recv k k"
  by (simp_all add: same_send_def same_recv_def)

lemma rcv_inv_same: "same_recv k k' \<Longrightarrow> rcv_inv G out k' = rcv_inv G out k"
  by (simp add: same_recv_def rcv_inv_def)

lemma snd_inv_same: "same_send k k' \<Longrightarrow> snd_inv H k' = snd_inv H k"
  by (simp add: same_send_def snd_inv_def)

lemma moves_same: "moves k moved k' \<Longrightarrow> same_send k k'"
  by (auto simp: moves_def same_send_def)

lemma rcv_move_inv:
  assumes "rcv_wf k" "rcv_inv G out k" "length G < 2 ^ 32"
  shows "rcv_inv G out (rcv_move k)" "same_send k (rcv_move k)"
  using rcv_move_moves [OF assms(1)] rcv_inv_moves [OF assms(2) _ assms(3)] moves_same by blast+

lemma Recv_inv:
  assumes wf: "rcv_wf k" and inv: "rcv_inv G out k" and len: "length G < 2 ^ 32" and R: "Recv n k = Some (r, bs, k')"
  shows "rcv_inv G (out @ bs) k'" "same_send k k'"
proof -
  from wf R have "rcv_inv G (out @ bs) k' \<and> same_send k k'"
  proof (cases rule: Recv_cases)
    case (msg m q)
    let ?k = "k\<lparr>rcv_queue := q, pool_out := pool_out k - live m\<rparr>"
    have i: "rcv_inv G (out @ bs) ?k" using inv msg(1,2) by (auto simp: rcv_inv_def)
    obtain k1 where "rcv_inv G (out @ bs) k1" "same_send ?k k1" "k' = k1 \<or> k' = k1\<lparr>probe := probe k1 OR IKCP_ASK_TELL\<rparr>"
      using msg(4) rcv_move_inv [OF msg(3) i len] by blast
    then show ?thesis by (auto simp: same_send_def rcv_inv_def)
  qed (use inv in simp)
  then show "rcv_inv G (out @ bs) k'" "same_send k k'" by auto
qed

lemma parse_data_inv:
  assumes wf: "rcv_wf k" and inv: "rcv_inv G out k" and len: "length G < 2 ^ 32"
    and s: "carried G s" "length (seg_bytes s) \<le> maxPacketSize" and P: "parse_data s k = Some (r, k')"
  shows "rcv_inv G out k'" "same_send k k'"
proof -
  consider "\<not> in_rcv_window k (seg_sn s)"
    | "in_rcv_window k (seg_sn s)" "segmentHeap_Has (rcv_buf k) (seg_sn s)"
    | "in_rcv_window k (seg_sn s)" "\<not> segmentHeap_Has (rcv_buf k) (seg_sn s)" by blast
  then have "rcv_inv G out k' \<and> same_send k k'"
  proof cases
    case 2
    then show ?thesis using P rcv_move_inv [OF wf inv len] by (simp add: parse_data_repeat)
  next
    case 3
    let ?s = "s\<lparr>seg_data := Some (seg_bytes s)\<rparr>"
    let ?k = "k\<lparr>pool_out := pool_out k + 1, rcv_buf := segmentHeap_Push (rcv_buf k) ?s\<rparr>"
    have w: "rcv_wf ?k" using wf 3 by (intro rcv_wf_insert) simp_all
    have "carried G ?s" using s(1) by (simp add: carried_def piece_def seg_bytes_def)
    moreover have "mset (sh_segments (segmentHeap_Push (rcv_buf k) ?s)) = add_mset ?s (mset (sh_segments (rcv_buf k)))"
      by (simp add: segmentHeap_Push_def mset_heap_Push)
    then have "set (sh_segments (segmentHeap_Push (rcv_buf k) ?s)) = insert ?s (set (sh_segments (rcv_buf k)))"
      by (metis set_mset_add_mset_insert set_mset_mset)
    ultimately have i: "rcv_inv G out ?k" using inv by (simp add: rcv_inv_def)
    have "k' = rcv_move ?k" using P 3 s(2) by (simp add: parse_data_new)
    then show ?thesis using rcv_move_inv [OF w i len] by (simp add: same_send_def)
  qed (use P inv in \<open>simp add: parse_data_outside\<close>)
  then show "rcv_inv G out k'" "same_send k k'" by auto
qed

lemma input_push_cases:
  assumes "input_push pt h payload k = Some k'"
  obtains (old) "k' = k \<or> k' = count_snmp increaseRepeatSegs k"
    | (acked) "k' = ack_push (h_sn h) (h_ts h) k \<or> k' = count_snmp increaseRepeatSegs (ack_push (h_sn h) (h_ts h) k)"
        "sint (itimediff (h_sn h) (rcv_nxt k)) < 0"
    | (data) r k2 where "parse_data (zero_segment\<lparr>seg_conv := h_conv h, seg_cmd := h_cmd h, seg_frg := h_frg h,
        seg_wnd := h_wnd h, seg_ts := h_ts h, seg_sn := h_sn h, seg_una := h_una h, seg_data := Some payload\<rparr>)
        (ack_push (h_sn h) (h_ts h) k) = Some (r, k2)" "k' = k2 \<or> k' = count_snmp increaseRepeatSegs k2"
        "in_rcv_window (ack_push (h_sn h) (h_ts h) k) (h_sn h)"
proof (cases "sint (itimediff (h_sn h) (rcv_nxt k + rcv_wnd k)) < 0")
  case False
  then show thesis using assms old by (auto simp: input_push_def split: if_splits)
next
  case True
  show thesis
  proof (cases "0 \<le> sint (itimediff (h_sn h) (rcv_nxt (ack_push (h_sn h) (h_ts h) k)))")
    case False
    then show thesis using True assms acked by (auto simp: input_push_def ack_push_def Let_def split: if_splits)
  next
    case B: True
    then obtain rk where rk: "parse_data (zero_segment\<lparr>seg_conv := h_conv h, seg_cmd := h_cmd h, seg_frg := h_frg h,
        seg_wnd := h_wnd h, seg_ts := h_ts h, seg_sn := h_sn h, seg_una := h_una h, seg_data := Some payload\<rparr>)
        (ack_push (h_sn h) (h_ts h) k) = Some rk"
      using True assms by (auto simp: input_push_def Let_def bind_eq_Some_conv)
    show thesis
    proof (rule data [of "fst rk" "snd rk"])
      show "k' = snd rk \<or> k' = count_snmp increaseRepeatSegs (snd rk)"
        using assms True B by (auto simp: rk input_push_def Let_def case_prod_beta split: if_splits)
      show "in_rcv_window (ack_push (h_sn h) (h_ts h) k) (h_sn h)"
        using True B by (simp add: in_rcv_window_def ack_push_def)
    qed (simp add: rk)
  qed
qed

lemma input_push_inv:
  assumes wf: "rcv_wf k" and inv: "rcv_inv G out k" and len: "length G < 2 ^ 32"
    and s: "carried G s" "length (seg_bytes s) \<le> maxPacketSize"
    and P: "input_push pt (header_of s) (seg_bytes s) k = Some k'"
  shows "rcv_inv G out k' \<and> same_send k k'"
proof -
  define k1 where "k1 = ack_push (seg_sn s) (seg_ts s) k"
  define s1 where "s1 = zero_segment\<lparr>seg_conv := seg_conv s, seg_cmd := seg_cmd s, seg_frg := seg_frg s, seg_wnd := seg_wnd s,
     seg_ts := seg_ts s, seg_sn := seg_sn s, seg_una := seg_una s, seg_data := Some (seg_bytes s)\<rparr>"
  have r: "same_recv k k1" "same_send k k1" by (simp_all add: k1_def ack_push_def same_recv_def same_send_def)
  then have "rcv_wf k1" using rcv_wf_cong [OF wf] by (simp add: same_recv_def)
  then have k: "rcv_wf k1" "rcv_inv G out k1" "same_send k k1" using r inv rcv_inv_same [OF r(1), of G out] by simp_all
  have c: "carried G s1" "length (seg_bytes s1) \<le> maxPacketSize"
    using s by (simp_all add: s1_def carried_def piece_def seg_bytes_def)
  have count: "rcv_inv G out x' \<and> same_send k x'"
    if "rcv_inv G out x \<and> same_send k x" "x' = x \<or> x' = count_snmp increaseRepeatSegs x" for x x'
    using that by (auto simp: count_snmp_def rcv_inv_def same_send_def)
  have h: "h_sn (header_of s) = seg_sn s" "h_ts (header_of s) = seg_ts s" by (simp_all add: header_of_def)
  from P show ?thesis
  proof (cases rule: input_push_cases)
    case old
    then show ?thesis using count inv same_refl(1) by blast
  next
    case acked
    then show ?thesis using count k unfolding h k1_def by blast
  next
    case (data r k2)
    then have d: "parse_data s1 k1 = Some (r, k2)" by (simp add: s1_def k1_def header_of_def)
    have "rcv_inv G out k2 \<and> same_send k k2"
      using parse_data_inv [OF k(1,2) len c d] k(3) by (simp add: same_send_def)
    then show ?thesis using count data(2) by blast
  qed
qed

section \<open>Acknowledgements\<close>

text \<open>Acknowledgements only take segments out of flight or mark them.\<close>

definition released :: "piece list \<Rightarrow> kcp \<Rightarrow> kcp \<Rightarrow> bool" where
  "released H k k' \<longleftrightarrow> snd_inv H k' \<and> same_recv k k' \<and> snd_queue k' = snd_queue k \<and> sent k' = sent k"

lemma released_trans: "released H k k1 \<Longrightarrow> released H k1 k2 \<Longrightarrow> released H k k2"
  by (simp add: released_def same_recv_def)

lemma released_refl: "snd_inv H k \<Longrightarrow> released H k k"
  by (simp add: released_def)

lemma una_released:
  assumes "inflight_wf k" "snd_inv H k" "parse_una una k = Some (n, k1)"
  shows "released H k (shrink_buf k1)"
proof -
  obtain sb where "shrink_buf k1 = k\<lparr>pool_out := pool_out k - live (take (una_count una k) (ring_list (snd_buf k))),
      snd_buf := sb, snd_una := snd_una k + of_nat (una_count una k)\<rparr>" "ring_list sb = drop (una_count una k) (ring_list (snd_buf k))"
    using una_shrink_spec [OF assms(1), of una] assms(3) by auto
  then show ?thesis
    using assms(2) set_drop_subset [of "una_count una k" "ring_list (snd_buf k)"]
    by (auto simp: released_def snd_inv_def same_recv_def)
qed

lemma ack_released:
  assumes wf: "inflight_wf k" and inv: "snd_inv H k" and P: "parse_ack n k = Some k1"
  shows "released H k k1"
proof (cases "unat (n - snd_una k) < ring_Len (snd_buf k)")
  case True
  then obtain p sb where k1: "k1 = k\<lparr>pool_out := p, snd_buf := sb\<rparr>"
      "ring_list sb = (ring_list (snd_buf k))[unat (n - snd_una k) := mark_acked (ring_list (snd_buf k) ! unat (n - snd_una k))]"
    using parse_ack_spec(1) [OF wf True] P by auto
  have "seg_acked s = 1 \<or> carried H s" if "s \<in> set (ring_list sb)" for s
    using that inv unfolding k1(2) snd_inv_def by (auto dest!: set_update_subset_insert [THEN subsetD])
  then show ?thesis using inv k1(1) by (auto simp: released_def snd_inv_def same_recv_def)
next
  case False
  then show ?thesis using parse_ack_spec(2) [OF wf, of n] P inv by (simp add: released_refl)
qed

lemma fastack_released:
  assumes "ring_wf (snd_buf k)" and inv: "snd_inv H k" and P: "parse_fastack n t k = Some (r, k1)"
  shows "released H k k1"
proof -
  obtain sb where k1: "k1 = k\<lparr>snd_buf := sb\<rparr>"
      and R: "list_all2 (\<lambda>s s'. \<exists>x. s' = s\<lparr>seg_fastack := x\<rparr>) (ring_list (snd_buf k)) (ring_list sb)"
    using parse_fastack_spec [OF assms(1), of n t] P by auto
  have "seg_acked s = 1 \<or> carried H s" if s: "s \<in> set (ring_list sb)" for s
  proof -
    obtain i where i: "i < length (ring_list sb)" "s = ring_list sb ! i" using s by (metis in_set_conv_nth)
    then obtain x where "s = (ring_list (snd_buf k) ! i)\<lparr>seg_fastack := x\<rparr>" using list_all2_nthD2 [OF R] by blast
    moreover have "ring_list (snd_buf k) ! i \<in> set (ring_list (snd_buf k))" using i(1) list_all2_lengthD [OF R] by simp
    ultimately show ?thesis using inv by (auto simp: snd_inv_def carried_def piece_def seg_bytes_def)
  qed
  then show ?thesis using inv k1 by (simp add: released_def snd_inv_def same_recv_def)
qed

section \<open>A packet arrives\<close>

definition ends :: "piece list \<Rightarrow> piece list \<Rightarrow> byte list \<Rightarrow> kcp \<Rightarrow> bool" where
  "ends H G out k \<longleftrightarrow> snd_inv H k \<and> rcv_inv G out k"

definition same_out :: "kcp \<Rightarrow> kcp \<Rightarrow> bool" where
  "same_out k k' \<longleftrightarrow> snd_queue k' = snd_queue k \<and> sent k' = sent k \<and> snd_nxt k' = snd_nxt k"

lemma released_ends: "released H k k' \<Longrightarrow> ends H G out k \<Longrightarrow> ends H G out k' \<and> same_out k k'"
  using rcv_inv_same [of k k' G out] by (auto simp: released_def ends_def snd_inv_def same_out_def)

text \<open>The stages of one segment: the peer's window, the cumulative acknowledgement, then the command.\<close>

definition una_stage :: "nat \<Rightarrow> segment \<Rightarrow> kcp \<Rightarrow> kcp \<Rightarrow> bool" where
  "una_stage L s k0 k1 \<longleftrightarrow> kcp_wf L k1 \<and> (\<exists>w n k'. kcp_wf L (k0\<lparr>rmt_wnd := w\<rparr>) \<and>
     parse_una (seg_una s) (k0\<lparr>rmt_wnd := w\<rparr>) = Some (n, k') \<and> k1 = shrink_buf k')"

lemma input_seg_cases:
  assumes wf: "kcp_wf L (in_k st)" and S: "input_seg pt (header_of s) (seg_bytes s) st = Some st'"
  obtains (ack) k1 k2 r where "una_stage L s (in_k st) k1" "seg_cmd s = IKCP_CMD_ACK" "parse_ack (seg_sn s) k1 = Some k2"
      "ring_wf (snd_buf k2)" "parse_fastack (seg_sn s) (seg_ts s) k2 = Some (r, in_k st')"
    | (push) k1 where "una_stage L s (in_k st) k1" "seg_cmd s = IKCP_CMD_PUSH"
      "input_push pt (header_of s) (seg_bytes s) k1 = Some (in_k st')"
    | (other) k1 where "una_stage L s (in_k st) k1"
      "in_k st' = k1 \<or> in_k st' = k1\<lparr>probe := probe k1 OR IKCP_ASK_TELL\<rparr>"
proof -
  define w where "w = (if pt = IKCP_PACKET_REGULAR then ucast (seg_wnd s) else rmt_wnd (in_k st))"
  define k where "k = (in_k st)\<lparr>rmt_wnd := w\<rparr>"
  have h: "h_wnd (header_of s) = seg_wnd s" "h_una (header_of s) = seg_una s" "h_cmd (header_of s) = seg_cmd s"
      "h_sn (header_of s) = seg_sn s" "h_ts (header_of s) = seg_ts s" by (simp_all add: header_of_def)
  have k: "kcp_wf L k" using wf kcp_wf_rmt_wnd [OF wf, of "seg_wnd s"] by (simp add: k_def w_def)
  have fold: "(if pt = IKCP_PACKET_REGULAR then (in_k st)\<lparr>rmt_wnd := ucast (seg_wnd s)\<rparr> else in_k st) = k"
    by (simp add: k_def w_def)
  obtain k1 where k1: "parse_una (seg_una s) k = Some (una_count (seg_una s) k, k1)" "kcp_wf L (shrink_buf k1)"
    using una_step_wf [OF k] by blast
  have stage: "una_stage L s (in_k st) (shrink_buf k1)" unfolding una_stage_def using k k1 unfolding k_def by blast
  note S' = S [unfolded input_seg_def Let_def h fold k1(1)]
  consider "seg_cmd s = IKCP_CMD_ACK" | "seg_cmd s \<noteq> IKCP_CMD_ACK" "seg_cmd s = IKCP_CMD_PUSH"
    | "seg_cmd s \<noteq> IKCP_CMD_ACK" "seg_cmd s \<noteq> IKCP_CMD_PUSH" by blast
  then show thesis
  proof cases
    case 1
    obtain k2 r k3 where a: "parse_ack (seg_sn s) (shrink_buf k1) = Some k2" "parse_fastack (seg_sn s) (seg_ts s) k2 = Some (r, k3)"
      using ack_step_wf [OF k1(2)] by blast
    have "snd_wf k2" using parse_ack_wf [of "shrink_buf k1" "seg_sn s"] k1(2) a(1) by (auto simp: kcp_wf_def)
    then have "ring_wf (snd_buf k2)" by (simp add: snd_wf_def inflight_wf_def)
    moreover have "in_k st' = k3" using S' by (auto simp: 1 a)
    ultimately show thesis using ack [OF stage 1 a(1)] a(2) by blast
  next
    case 2
    have "input_push pt (header_of s) (seg_bytes s) (shrink_buf k1) = Some (in_k st')"
      using S' by (auto simp: 2(2) bind_eq_Some_conv IKCP_CMD_PUSH_def IKCP_CMD_ACK_def)
    then show thesis using push [OF stage 2(2)] by blast
  next
    case 3
    then have "in_k st' = shrink_buf k1 \<or> in_k st' = (shrink_buf k1)\<lparr>probe := probe (shrink_buf k1) OR IKCP_ASK_TELL\<rparr>"
      using S' by (auto split: if_splits)
    then show thesis using other [OF stage] by blast
  qed
qed

lemma una_stage_ends:
  assumes "una_stage L s k0 k1" "ends H G out k0"
  shows "ends H G out k1 \<and> same_out k0 k1"
proof -
  obtain w n k' where k': "kcp_wf L (k0\<lparr>rmt_wnd := w\<rparr>)" "parse_una (seg_una s) (k0\<lparr>rmt_wnd := w\<rparr>) = Some (n, k')" "k1 = shrink_buf k'"
    using assms(1) by (auto simp: una_stage_def)
  have e: "ends H G out (k0\<lparr>rmt_wnd := w\<rparr>)" using assms(2) by (simp add: ends_def snd_inv_def rcv_inv_def)
  have "inflight_wf (k0\<lparr>rmt_wnd := w\<rparr>)" "snd_inv H (k0\<lparr>rmt_wnd := w\<rparr>)"
    using k'(1) e by (simp_all add: kcp_wf_def snd_wf_def ends_def)
  then have "released H (k0\<lparr>rmt_wnd := w\<rparr>) k1" using una_released k'(2,3) by blast
  from released_ends [OF this e] show ?thesis by (simp add: same_out_def)
qed

lemma input_seg_inv:
  assumes wf: "kcp_wf L (in_k st)" and inv: "ends H G out (in_k st)" and len: "length G < 2 ^ 32"
    and s: "seg_cmd s = IKCP_CMD_PUSH \<longrightarrow> carried G s" "length (seg_bytes s) \<le> maxPacketSize"
    and S: "input_seg pt (header_of s) (seg_bytes s) st = Some st'"
  shows "ends H G out (in_k st') \<and> same_out (in_k st) (in_k st')"
proof -
  have out: ?thesis if "una_stage L s (in_k st) k1" "ends H G out (in_k st') \<and> same_out k1 (in_k st')" for k1
    using that una_stage_ends [OF that(1) inv] by (simp add: same_out_def)
  from wf S show ?thesis
  proof (cases rule: input_seg_cases)
    case (ack k1 k2 r)
    have e1: "ends H G out k1" using una_stage_ends [OF ack(1) inv] by blast
    have "inflight_wf k1" using ack(1) by (simp add: una_stage_def kcp_wf_def snd_wf_def)
    then have r2: "released H k1 k2" using ack_released ack(3) e1 by (auto simp: ends_def)
    then have "released H k2 (in_k st')" using fastack_released ack(4,5) by (auto simp: released_def)
    then show ?thesis using out [OF ack(1)] released_ends [OF released_trans [OF r2]] e1 by blast
  next
    case (push k1)
    have e1: "ends H G out k1" using una_stage_ends [OF push(1) inv] by blast
    have "rcv_wf k1" "rcv_inv G out k1" using push(1) e1 by (simp_all add: una_stage_def kcp_wf_def ends_def)
    then have "rcv_inv G out (in_k st') \<and> same_send k1 (in_k st')"
      using input_push_inv [OF _ _ len _ s(2) push(3)] push(2) s(1) by blast
    then have "ends H G out (in_k st') \<and> same_out k1 (in_k st')"
      using e1 snd_inv_same [of k1 "in_k st'" H] by (simp add: ends_def) (simp add: same_out_def same_send_def)
    then show ?thesis using out [OF push(1)] by blast
  next
    case (other k1)
    have "ends H G out k1" using una_stage_ends [OF other(1) inv] by blast
    then have "ends H G out (in_k st') \<and> same_out k1 (in_k st')"
      using other(2) by (auto simp: ends_def snd_inv_def rcv_inv_def same_out_def)
    then show ?thesis using out [OF other(1)] by blast
  qed
qed

text \<open>The loop of \<^verbatim>\<open>Input\<close> on the bytes of whole segments processes a prefix of them: what every segment keeps, it keeps.\<close>

lemma input_loop_rule:
  assumes step: "\<And>st st' s. s \<in> S \<Longrightarrow> kcp_wf L (in_k st) \<Longrightarrow> Q (in_k st) \<Longrightarrow> length (seg_bytes s) \<le> maxPacketSize \<Longrightarrow>
      input_seg pt (header_of s) (seg_bytes s) st = Some st' \<Longrightarrow> Q (in_k st')"
  shows "kcp_wf L (in_k st) \<Longrightarrow> Q (in_k st) \<Longrightarrow> set ss \<subseteq> S \<Longrightarrow> length (concat (map frame ss)) \<le> maxPacketSize \<Longrightarrow>
     input_loop pt (concat (map frame ss)) st = Some r \<Longrightarrow>
     (\<forall>c k'. r = Inl (c, k') \<longrightarrow> Q k') \<and> (\<forall>st'. r = Inr st' \<longrightarrow> Q (in_k st'))"
proof (induction ss arbitrary: st)
  case Nil
  then show ?case by (subst (asm) input_loop.simps) (auto simp: IKCP_OVERHEAD_def)
next
  case (Cons s ss)
  let ?rest = "concat (map frame ss)"
  have b: "length (seg_bytes s) \<le> maxPacketSize" "length ?rest \<le> maxPacketSize" using Cons.prems(4) by simp_all
  then have "length (seg_bytes s) < 4294967296" by (simp add: maxPacketSize_def)
  then have len: "unat (h_len (header_of s)) = length (seg_bytes s)" by (simp add: header_of_def)
  obtain st' where st': "input_seg pt (header_of s) (seg_bytes s) st = Some st'" "kcp_wf L (in_k st')"
    using input_seg_wf [OF Cons.prems(1) b(1)] by blast
  have i: "Q (in_k st')" using step [OF _ Cons.prems(1,2) b(1) st'(1)] Cons.prems(3) by simp
  let ?d = "segment_encode s @ seg_bytes s @ ?rest"
  have h: "parse_header ?d = Some (header_of s)" by (rule parse_encode)
  have d: "input_loop pt ?d st = Some r" using Cons.prems(5) by (simp add: frame_def [of s])
  consider (stop) c where "r = Inl (c, in_k st)" | (go) "input_loop pt ?rest st' = Some r"
    using d by (subst (asm) input_loop.simps) (auto simp: h Let_def len st'(1) split: if_splits)
  then show ?case
  proof cases
    case stop
    then show ?thesis using Cons.prems(2) by simp
  next
    case go
    then show ?thesis using Cons.IH [OF st'(2) i _ b(2)] Cons.prems(3) by simp
  qed
qed

lemma input_loop_inv:
  assumes "kcp_wf L (in_k st)" "ends H G out (in_k st)" "length G < 2 ^ 32"
    and "\<forall>s\<in>set ss. seg_cmd s = IKCP_CMD_PUSH \<longrightarrow> carried G s" "length (concat (map frame ss)) \<le> maxPacketSize"
    and "input_loop pt (concat (map frame ss)) st = Some r"
  shows "(\<forall>c k'. r = Inl (c, k') \<longrightarrow> ends H G out k' \<and> same_out (in_k st) k') \<and>
     (\<forall>st'. r = Inr st' \<longrightarrow> ends H G out (in_k st') \<and> same_out (in_k st) (in_k st'))"
proof (rule input_loop_rule [where S = "set ss" and Q = "\<lambda>x. ends H G out x \<and> same_out (in_k st) x", OF _ assms(1) _ _ assms(5,6)])
  fix st1 st' s
  assume "s \<in> set ss" "kcp_wf L (in_k st1)" "ends H G out (in_k st1) \<and> same_out (in_k st) (in_k st1)"
    "length (seg_bytes s) \<le> maxPacketSize" "input_seg pt (header_of s) (seg_bytes s) st1 = Some st'"
  then show "ends H G out (in_k st') \<and> same_out (in_k st) (in_k st')"
    using input_seg_inv [of L st1 H G out s pt st'] assms(3,4) by (simp add: same_out_def)
qed (use assms(2) in \<open>simp_all add: same_out_def\<close>)

section \<open>Flushing\<close>

lemma number_carried:
  "length H + length ss < 2 ^ 32 \<Longrightarrow> s \<in> set (number k (of_nat (length H)) ss) \<Longrightarrow> carried (H @ map piece ss) s"
proof (induction ss arbitrary: H)
  case (Cons x xs)
  have x: "carried (H @ piece x # map piece xs) (to_push k (of_nat (length H)) x)"
    using Cons.prems(1) by (simp add: carried_def to_push_def piece_def seg_bytes_def)
  have n: "number k (of_nat (length H)) (x # xs) = to_push k (of_nat (length H)) x # number k (of_nat (length (H @ [piece x]))) xs"
    by (simp add: add.commute)
  show ?case using Cons.prems x Cons.IH [of "H @ [piece x]"] unfolding n by auto
qed simp

lemma sent_carried:
  assumes "list_all2 R xs ys" "\<forall>x\<in>set xs. seg_acked x = 1 \<or> carried H x"
    and "R = xmit_rel seg \<or> R = (=)"
  shows "\<forall>y\<in>set ys. seg_acked y = 1 \<or> carried H y" "\<forall>y\<in>set (concat (map2 sent_of xs ys)). carried H y"
  using assms(1,2)
proof (induction rule: list_all2_induct)
  case (Cons x xs y ys)
  { case 1
    have "y = x \<or> seg_acked y = seg_acked x \<and> carried H y = carried H x"
      using Cons.hyps(1) assms(3) by (auto simp: xmit_rel_def carried_def piece_def seg_bytes_def)
    then show ?case using 1 Cons.IH(1) by auto }
  { case 2
    have "seg_xmit y = seg_xmit x \<or> seg_acked x \<noteq> 1 \<and> carried H y = carried H x"
      using Cons.hyps(1) assms(3) by (auto simp: xmit_rel_def carried_def piece_def seg_bytes_def)
    then show ?case using 2 Cons.IH(2) by (auto simp: sent_of_def) }
qed simp_all

lemma framed_packet:
  assumes "framed L ps [] segs" "p \<in> set ps"
  obtains ss where "p = concat (map frame ss)" "set ss \<subseteq> set segs"
proof -
  obtain pss ws where pss: "ps = map (\<lambda>ss. concat (map frame ss)) pss" "concat pss @ ws = segs"
    using assms(1) by (auto simp: framed_def)
  then obtain ss where ss: "p = concat (map frame ss)" "ss \<in> set pss" using assms(2) by auto
  then have "set ss \<subseteq> set segs" using pss(2) by auto
  then show thesis using that ss(1) by blast
qed

text \<open>The parts of a flush: the segments it numbers, the buffer it leaves and what its packets are made of.\<close>

definition pending_segs :: "kcp \<Rightarrow> segment list \<Rightarrow> segment list \<Rightarrow> segment list \<Rightarrow> segment list" where
  "pending_segs k asks xs ys = map (ack_seg_of (ack_header k)) (acks_out (rcv_nxt k) (acklist k)) @ asks @ concat (map2 sent_of xs ys)"

lemma flush_parts:
  assumes wf: "kcp_wf L k" and F: "flush clk ft k = Some (u, k')"
  obtains moved asks ps where "numbered k k' = map piece moved" "same_recv k k'" "acklist k' = []"
    "ring_list (snd_queue k) = moved @ ring_list (snd_queue k')" "snd_nxt k' = snd_nxt k + of_nat (length moved)" "sent k' = sent k @ ps"
    "list_all2 (if ft = IKCP_FLUSH_FULL then xmit_rel (ack_header k) else (=))
       (ring_list (snd_buf k) @ number k (snd_nxt k) moved) (ring_list (snd_buf k'))"
    "framed L ps [] (pending_segs k asks (ring_list (snd_buf k) @ number k (snd_nxt k) moved) (ring_list (snd_buf k')))"
    "\<forall>s\<in>set asks. seg_cmd s \<in> {IKCP_CMD_WASK, IKCP_CMD_WINS} \<and> seg_una s = rcv_nxt k"
proof -
  have "flush_effect L ft k k'" using flush_kcp_wf [OF wf, of clk ft] F by auto
  then obtain moved asks ps a b q sb t x th cw ic st where
      k': "k' = k\<lparr>acklist := [], probe_wait := a, ts_probe := b, probe := 0, snd_queue := q, snd_buf := sb,
       snd_nxt := snd_nxt k + of_nat (length moved), ticks := t, sent := sent k @ ps, state := x,
       ssthresh := th, cwnd := cw, incr := ic, snmp := st\<rparr>"
    and q: "ring_list (snd_queue k) = moved @ ring_list q"
    and R: "list_all2 (if ft = IKCP_FLUSH_FULL then xmit_rel (ack_header k) else (=))
       (ring_list (snd_buf k) @ number k (snd_nxt k) moved) (ring_list sb)"
    and small: "ring_Len sb \<le> max (ring_Len (snd_buf k)) (unat (flush_window k))"
    and P: "framed L ps [] (map (ack_seg_of (ack_header k)) (acks_out (rcv_nxt k) (acklist k)) @ asks @
       concat (map2 sent_of (ring_list (snd_buf k) @ number k (snd_nxt k) moved) (ring_list sb)))"
    and asks: "\<forall>s\<in>set asks. seg_cmd s \<in> {IKCP_CMD_WASK, IKCP_CMD_WINS} \<and> seg_data s = None \<and>
        seg_wnd s = wnd_unused k \<and> seg_una s = rcv_nxt k"
    by (rule flush_effectE)
  have "ring_Len (snd_buf k) \<le> 65535" "unat (rmt_wnd k) \<le> 65535"
    using wf by (simp_all add: kcp_wf_def snd_wf_def inflight_wf_def)
  then have "ring_Len sb \<le> 65535" using small flush_window_bound [of k] by simp
  moreover have "length moved \<le> ring_Len sb"
    using list_all2_lengthD [OF R] by (simp flip: length_ring_list)
  ultimately have "unat (snd_nxt k' - snd_nxt k) = length moved" by (simp add: k')
  then have "numbered k k' = map piece moved" by (simp add: numbered_def q)
  moreover have "same_recv k k'" "acklist k' = []" "snd_queue k' = q" "snd_buf k' = sb" "sent k' = sent k @ ps"
      "snd_nxt k' = snd_nxt k + of_nat (length moved)" by (simp_all add: k' same_recv_def)
  ultimately show thesis using that [of moved ps asks] q R P asks unfolding pending_segs_def by simp
qed

lemma pending_segs_cases:
  assumes "s \<in> set (pending_segs k asks xs ys)" "\<forall>s\<in>set asks. seg_cmd s \<in> {IKCP_CMD_WASK, IKCP_CMD_WINS} \<and> seg_una s = rcv_nxt k"
  obtains (ack) a where "a \<in> set (acks_out (rcv_nxt k) (acklist k))" "s = ack_seg_of (ack_header k) a" "seg_cmd s = IKCP_CMD_ACK"
    | (ask) "seg_cmd s \<in> {IKCP_CMD_WASK, IKCP_CMD_WINS}" "seg_una s = rcv_nxt k"
    | (push) "s \<in> set (concat (map2 sent_of xs ys))"
proof -
  have s: "s \<in> set (map (ack_seg_of (ack_header k)) (acks_out (rcv_nxt k) (acklist k))) \<or> s \<in> set asks \<or> s \<in> set (concat (map2 sent_of xs ys))"
    using assms(1) unfolding pending_segs_def set_append by blast
  have "seg_cmd (ack_seg_of (ack_header k) a) = IKCP_CMD_ACK" for a by (simp add: ack_seg_of_def ack_header_def)
  then show thesis using s assms(2) ack ask push unfolding list.set_map by blast
qed

lemma flush_inv:
  assumes wf: "kcp_wf L k" and inv: "ends H G out k" "packets_inv H (sent k)"
    and F: "flush clk ft k = Some (u, k')" and len: "length (H @ numbered k k') < 2 ^ 32"
  shows "ends (H @ numbered k k') G out k' \<and> packets_inv (H @ numbered k k') (sent k') \<and>
    concat (map snd (numbered k k')) @ msg_bytes (ring_list (snd_queue k')) = msg_bytes (ring_list (snd_queue k))"
  using wf F
proof (rule flush_parts)
  fix moved asks ps
  let ?H = "H @ map piece moved" and ?B = "ring_list (snd_buf k) @ number k (snd_nxt k) moved"
  assume num: "numbered k k' = map piece moved" and same: "same_recv k k'" and q: "ring_list (snd_queue k) = moved @ ring_list (snd_queue k')"
    and nxt': "snd_nxt k' = snd_nxt k + of_nat (length moved)" and sent: "sent k' = sent k @ ps"
    and R: "list_all2 (if ft = IKCP_FLUSH_FULL then xmit_rel (ack_header k) else (=)) ?B (ring_list (snd_buf k'))"
    and P: "framed L ps [] (pending_segs k asks ?B (ring_list (snd_buf k')))"
    and asks: "\<forall>s\<in>set asks. seg_cmd s \<in> {IKCP_CMD_WASK, IKCP_CMD_WINS} \<and> seg_una s = rcv_nxt k"
  have nxt: "snd_nxt k = of_nat (length H)" and old: "\<forall>s\<in>set (ring_list (snd_buf k)). seg_acked s = 1 \<or> carried H s"
    using inv(1) by (simp_all add: ends_def snd_inv_def)
  have B: "\<forall>s\<in>set ?B. seg_acked s = 1 \<or> carried ?H s"
    using old carried_append number_carried [of H moved] len num by (auto simp: nxt)
  note c = sent_carried [OF R B, of "ack_header k"]
  have pushes: "\<forall>s\<in>set (concat (map2 sent_of ?B (ring_list (snd_buf k')))). carried ?H s"
    by (rule c(2)) simp
  have "snd_inv ?H k'" using c(1) by (simp add: snd_inv_def nxt nxt')
  moreover have "rcv_inv G out k'" using inv(1) rcv_inv_same [OF same, of G out] by (simp add: ends_def)
  moreover have "packets_inv ?H ps"
    unfolding packets_inv_def
  proof
    fix p assume "p \<in> set ps"
    from framed_packet [OF P this] obtain ss where ss: "p = concat (map frame ss)" "set ss \<subseteq> set (pending_segs k asks ?B (ring_list (snd_buf k')))"
      by blast
    have "seg_cmd s \<in> kcp_cmds \<and> (seg_cmd s = IKCP_CMD_PUSH \<longrightarrow> carried ?H s)" if s: "s \<in> set ss" for s
    proof -
      have "s \<in> set (pending_segs k asks ?B (ring_list (snd_buf k')))" using s ss(2) by blast
      then show ?thesis using asks
      proof (cases rule: pending_segs_cases)
        case push
        then have "carried ?H s" using pushes by blast
        then show ?thesis by (simp add: kcp_cmds_def carried_def)
      qed (auto simp: kcp_cmds_def kcp_consts)
    qed
    then show "\<exists>ss. p = concat (map frame ss) \<and>
        (\<forall>s\<in>set ss. seg_cmd s \<in> kcp_cmds \<and> (seg_cmd s = IKCP_CMD_PUSH \<longrightarrow> carried ?H s))" using ss(1) by blast
  qed
  then have "packets_inv ?H (sent k')" using packets_inv_append [OF inv(2), of "map piece moved"] by (auto simp: packets_inv_def sent)
  ultimately show ?thesis using pieces_bytes [of moved] by (simp add: num ends_def q)
qed

section \<open>Every operation\<close>

text \<open>What an operation that may number segments does to an end whose numbers have not run out.\<close>

definition progress :: "piece list \<Rightarrow> piece list \<Rightarrow> byte list \<Rightarrow> kcp \<Rightarrow> kcp \<Rightarrow> bool" where
  "progress H G out k k' \<longleftrightarrow> (length (H @ numbered k k') < 2 ^ 32 \<longrightarrow>
     ends (H @ numbered k k') G out k' \<and> packets_inv (H @ numbered k k') (sent k') \<and>
     concat (map snd (numbered k k')) @ msg_bytes (ring_list (snd_queue k')) = msg_bytes (ring_list (snd_queue k)))"

lemma progress_quiet: "same_out k k' \<Longrightarrow> ends H G out k' \<Longrightarrow> packets_inv H (sent k) \<Longrightarrow> progress H G out k k'"
  by (simp add: progress_def same_out_def numbered_def)

lemma progress_after:
  assumes "same_out k k1" "progress H G out k1 k2"
  shows "progress H G out k k2"
proof -
  have "numbered k k2 = numbered k1 k2" using assms(1) by (simp add: numbered_def same_out_def)
  then show ?thesis using assms by (simp add: progress_def same_out_def)
qed

lemma flush_progress:
  "kcp_wf L k \<Longrightarrow> ends H G out k \<Longrightarrow> packets_inv H (sent k) \<Longrightarrow> map_option snd (flush clk ft k) = Some k' \<Longrightarrow> progress H G out k k'"
  unfolding progress_def using flush_inv by fastforce

lemma same_ends: "same_send k k' \<Longrightarrow> same_recv k k' \<Longrightarrow> ends H G out k \<Longrightarrow> ends H G out k' \<and> same_out k k'"
  using snd_inv_same [of k k' H] rcv_inv_same [of k k' G out] by (simp add: ends_def) (simp add: same_out_def same_send_def)

lemma input_rtt_same:
  "same_send (in_k st) (input_rtt clk pt st) \<and> same_recv (in_k st) (input_rtt clk pt st) \<and>
    acklist (input_rtt clk pt st) = acklist (in_k st)"
proof -
  have "same_send k (update_ack r k) \<and> same_recv k (update_ack r k) \<and> acklist (update_ack r k) = acklist k" for r k
    by (simp add: same_send_def same_recv_def update_ack_frame) (simp add: update_ack_def Let_def case_prod_unfold)
  then show ?thesis
    by (simp add: input_rtt_def currentMs_def Let_def same_send_def same_recv_def)
qed

lemma input_flush_progress:
  assumes "kcp_wf L k" "ends H G out k" "packets_inv H (sent k)" "input_flush clk fl nd k = Some k'"
  shows "progress H G out k k'"
proof -
  have "k' = k \<or> (\<exists>ft. map_option snd (flush clk ft k) = Some k')"
    using assms(4) by (auto simp: input_flush_def split: if_splits)
  then show ?thesis
    using flush_progress [OF assms(1-3)] progress_quiet [of k k] assms(2,3) by (auto simp: same_out_def)
qed

text \<open>The stages of a packet: the loop over its segments, then round-trip time, congestion window and flush.\<close>

definition loop_start :: "kcp \<Rightarrow> input_state" where
  "loop_start k = \<lparr>in_k = k, in_latest = 0, in_updateRTT = False, in_segs = 0, in_flush = False\<rparr>"

lemma Input_cases:
  assumes wf: "kcp_wf L k" and d: "length d \<le> maxPacketSize" and I: "Input clk d pt nd k = Some (r, k')"
  obtains (short) "k' = k" | (broken) c where "input_loop pt d (loop_start k) = Some (Inl (c, k'))"
    | (whole) st k2 where "input_loop pt d (loop_start k) = Some (Inr st)" "kcp_wf L k2" "same_send (in_k st) k2" "same_recv (in_k st) k2"
        "acklist k2 = acklist (in_k st)" "input_flush clk (in_flush st) nd k2 = Some k'"
proof (cases "length d < IKCP_OVERHEAD")
  case True
  then show thesis using I short by (auto simp: Input_def)
next
  case False
  have e: "in_k (loop_start k) = k" by (simp add: loop_start_def)
  have w: "kcp_wf L (in_k (loop_start k))" "payloads_fit d" using wf payloads_fit_short [of d] d by (simp_all add: e)
  obtain x where x: "input_loop pt d (loop_start k) = Some x"
      "case x of Inl (c, k') \<Rightarrow> c \<in> {- 1, - 2, - 3} \<and> kcp_wf L k' \<and> quiet k k' | Inr st' \<Rightarrow> kcp_wf L (in_k st') \<and> quiet k (in_k st')"
    using input_loop_wf [OF w, of pt] unfolding e by blast
  show thesis
  proof (cases x)
    case (Inl a)
    then have "a = (fst a, k')" using I False x(1) by (cases a) (auto simp: Input_def loop_start_def)
    then show thesis using broken x(1) Inl by metis
  next
    case (Inr st)
    let ?st2 = "st\<lparr>in_k := count_snmp (addInSegs (in_segs st)) (in_k st)\<rparr>"
    define k1 where "k1 = input_rtt clk pt ?st2"
    have "kcp_wf L (in_k ?st2)" using x(2) Inr by simp
    then have w1: "kcp_wf L k1" using input_rtt_wf k1_def by blast
    obtain c ic where c: "input_cwnd (snd_una k) k1 = Some (k1\<lparr>cwnd := c, incr := ic\<rparr>)"
      using input_cwnd_eq [OF kcp_wf_mss(4) [OF w1]] by blast
    define k2 where "k2 = k1\<lparr>cwnd := c, incr := ic\<rparr>"
    have w2: "kcp_wf L k2" using w1 by (simp add: k2_def)
    have same: "same_send (in_k st) k2" "same_recv (in_k st) k2" "acklist k2 = acklist (in_k st)"
      using input_rtt_same [of ?st2 clk pt]
      by (simp_all add: k1_def [symmetric]) (simp_all add: k2_def same_send_def same_recv_def count_snmp_def)
    have "input_flush clk (in_flush st) nd k2 = Some k'"
      using I False x(1) Inr c by (auto simp: Input_def Let_def loop_start_def k1_def [symmetric] k2_def [symmetric] bind_eq_Some_conv)
    then show thesis using whole x(1) Inr w2 same by blast
  qed
qed

lemma Input_progress:
  assumes wf: "kcp_wf L k" and inv: "ends H G out k" "packets_inv H (sent k)" and len: "length G < 2 ^ 32"
    and d: "packets_inv G [d]" "length d \<le> maxPacketSize" and I: "Input clk d pt nd k = Some (r, k')"
  shows "progress H G out k k'"
proof -
  obtain ss where ss: "d = concat (map frame ss)" "\<forall>s\<in>set ss. seg_cmd s = IKCP_CMD_PUSH \<longrightarrow> carried G s"
    using d(1) by (auto simp: packets_inv_def)
  have w: "kcp_wf L (in_k (loop_start k))" "ends H G out (in_k (loop_start k))" and e: "in_k (loop_start k) = k"
    using wf inv by (simp_all add: loop_start_def)
  note i = input_loop_inv [OF w len ss(2), folded ss(1), OF d(2), unfolded e]
  from wf d(2) I show ?thesis
  proof (cases rule: Input_cases)
    case short
    then show ?thesis using inv progress_quiet [of k k] by (simp add: same_out_def)
  next
    case (broken c)
    then show ?thesis using i progress_quiet inv(2) by blast
  next
    case (whole st k2)
    have e2: "ends H G out k2" "same_out k k2"
      using same_ends [OF whole(3,4), of H G out] i [OF whole(1)] by (auto simp: same_out_def)
    have "progress H G out k2 k'"
      using input_flush_progress [OF whole(2) e2(1) _ whole(6)] inv(2) e2(2) by (simp add: same_out_def)
    then show ?thesis using progress_after e2(2) by blast
  qed
qed

lemma Update_progress:
  assumes wf: "kcp_wf L k" and inv: "ends H G out k" "packets_inv H (sent k)" and U: "Update clk k = Some k'"
  shows "progress H G out k k'"
proof -
  obtain due k2 where t: "update_timer (clk (ticks k)) (k\<lparr>ticks := Suc (ticks k)\<rparr>) = (due, k2)" by fastforce
  have e: "k2 = k\<lparr>ticks := Suc (ticks k), updated := updated k2, ts_flush := ts_flush k2\<rparr>"
    using update_timer_eq [of "clk (ticks k)" "k\<lparr>ticks := Suc (ticks k)\<rparr>"] unfolding t by (simp only: snd_conv)
  have w: "kcp_wf L k2" by (subst e, subst kcp_wf_frame [of _ k]) (simp_all add: wf)
  have "same_send k k2" "same_recv k k2" by (subst e, simp add: same_send_def same_recv_def)+
  then have i: "ends H G out k2" "same_out k k2" using same_ends inv(1) by blast+
  have "k' = k2 \<or> map_option snd (flush clk IKCP_FLUSH_FULL k2) = Some k'"
    using U t by (auto simp: Update_def currentMs_def split: if_splits)
  moreover have "packets_inv H (sent k2)" using inv(2) i(2) by (simp add: same_out_def)
  ultimately show ?thesis
    using flush_progress [OF w i(1)] progress_after [OF i(2)] progress_quiet [OF i(2,1) inv(2)] by blast
qed

lemma ResetRTO_ends:
  assumes w: "ring_wf (snd_buf k)" and inv: "ends H G out k" and R: "ResetRTO clk k = Some k'"
  shows "ends H G out k' \<and> same_out k k'"
proof -
  obtain sb where "ResetRTO clk k = Some (k\<lparr>ticks := Suc (ticks k), snd_buf := sb\<rparr>)"
      and sb: "list_all2 (\<lambda>s s'. \<exists>a b. s' = s\<lparr>seg_rto := a, seg_resendts := b\<rparr>) (ring_list (snd_buf k)) (ring_list sb)"
    using ResetRTO_spec [OF w, of clk] by blast
  then have k': "k' = k\<lparr>ticks := Suc (ticks k), snd_buf := sb\<rparr>" using R by simp
  have "seg_acked s = 1 \<or> carried H s" if s: "s \<in> set (ring_list sb)" for s
  proof -
    obtain i where i: "i < length (ring_list sb)" "s = ring_list sb ! i" using s by (metis in_set_conv_nth)
    then obtain a b where "s = (ring_list (snd_buf k) ! i)\<lparr>seg_rto := a, seg_resendts := b\<rparr>" using list_all2_nthD2 [OF sb] by blast
    moreover have "ring_list (snd_buf k) ! i \<in> set (ring_list (snd_buf k))" using i(1) list_all2_lengthD [OF sb] by simp
    ultimately show ?thesis using inv by (auto simp: ends_def snd_inv_def carried_def piece_def seg_bytes_def)
  qed
  then show ?thesis using inv by (simp add: k' ends_def snd_inv_def rcv_inv_def same_out_def)
qed

lemma config_same:
  "same_send k (NoDelay a b c d k)" "same_recv k (NoDelay a b c d k)" "same_send k (WndSize e f k)" "same_recv k (WndSize e f k)"
  "same_send k (k\<lparr>stream := st\<rparr>)" "same_recv k (k\<lparr>stream := st\<rparr>)"
  by (simp_all add: same_send_def same_recv_def NoDelay_def WndSize_def Let_def)

lemma SetMtu_same: "ring_wf (snd_buf k) \<Longrightarrow> ring_wf (snd_queue k) \<Longrightarrow> SetMtu m k = Some (r, k') \<Longrightarrow> same_send k k' \<and> same_recv k k'"
  using SetMtu_eq [of k m] by (auto simp: SetMtu_def same_send_def same_recv_def split: if_splits)

text \<open>An end, with the pieces \<open>G\<close> its peer has numbered.\<close>

definition ep_inv :: "piece list \<Rightarrow> endpoint \<Rightarrow> bool" where
  "ep_inv G e \<longleftrightarrow> conn_wf (ep_kcp e) \<and> ends (ep_hist e) G (ep_out e) (ep_kcp e) \<and> packets_inv (ep_hist e) (sent (ep_kcp e)) \<and>
     ep_in e = concat (map snd (ep_hist e)) @ msg_bytes (ring_list (snd_queue (ep_kcp e)))"

lemma kcp_exec_progress:
  assumes wf: "conn_wf k" and inv: "ends H G out k" "packets_inv H (sent k)" and len: "length G < 2 ^ 32"
    and adm: "within_buffers x" and d: "\<forall>b pt nd. x = Op_Input b pt nd \<longrightarrow> packets_inv G [b]"
    and x: "\<forall>b. x \<noteq> Op_Send b" "\<forall>n. x \<noteq> Op_Recv n" and E: "kcp_exec clk x k = Some k'"
  shows "progress H G out k k'"
proof -
  have w: "kcp_wf (buffer_len k) k" "ring_wf (snd_buf k)" "ring_wf (snd_queue k)"
    using wf by (simp_all add: conn_wf_def kcp_wf_def snd_wf_def inflight_wf_def)
  have quiet: "progress H G out k y" if "same_send k y \<and> same_recv k y" for y
    using that same_ends [of k y H G out] inv progress_quiet by blast
  show ?thesis
  proof (cases x)
    case (Op_Input b pt nd)
    then show ?thesis using E adm d Input_progress [OF w(1) inv len, of b clk pt nd] by auto
  next
    case (Op_flush ft)
    then show ?thesis using E flush_progress [OF w(1) inv] by simp
  next
    case Op_Update
    then show ?thesis using E Update_progress [OF w(1) inv] by simp
  next
    case (Op_SetMtu m)
    then show ?thesis using E SetMtu_same [OF w(2,3), of m] quiet by auto
  next
    case Op_ResetRTO
    then show ?thesis using E ResetRTO_ends [OF w(2) inv(1)] progress_quiet inv(2) by auto
  qed (use E x quiet config_same in auto)
qed

lemma ep_exec_inv:
  assumes inv: "ep_inv G e" and len: "length G < 2 ^ 32" and adm: "within_buffers x"
    and d: "\<forall>b pt nd. x = Op_Input b pt nd \<longrightarrow> packets_inv G [b]"
    and E: "ep_exec clk x e = Some e'" and len': "length (ep_hist e') < 2 ^ 32"
  shows "ep_inv G e'"
proof -
  let ?k = "ep_kcp e" and ?H = "ep_hist e"
  have i: "conn_wf ?k" "ends ?H G (ep_out e) ?k" "packets_inv ?H (sent ?k)"
      "ep_in e = concat (map snd ?H) @ msg_bytes (ring_list (snd_queue ?k))"
    using inv by (simp_all add: ep_inv_def)
  consider (send) b where "x = Op_Send b" | (recv) n where "x = Op_Recv n"
    | (other) "\<forall>b. x \<noteq> Op_Send b" "\<forall>n. x \<noteq> Op_Recv n" by blast
  then show ?thesis
  proof cases
    case send
    then obtain r k' where S: "Send b ?k = Some (r, k')" "r \<noteq> - 2" "e' = e\<lparr>ep_kcp := k', ep_in := ep_in e @ b\<rparr>"
      using E by (auto split: option.splits if_splits)
    have c: "conn_wf k'" using kcp_exec_wf [OF i(1) within_buffers_admissible [OF adm], of clk] send S(1) by auto
    have w: "kcp_wf (buffer_len ?k) ?k" "unat (mss ?k) \<le> maxPacketSize" using i(1) by (simp_all add: conn_wf_def)
    have "b = [] \<and> k' = ?k \<or> send_effect b ?k r k' \<and> r = 0"
      using Send_wf [OF w, of b] S(1,2) by (auto simp: send_effect_def)
    then have "same_recv ?k k' \<and> snd_nxt k' = snd_nxt ?k \<and> snd_buf k' = snd_buf ?k \<and> sent k' = sent ?k \<and>
        msg_bytes (ring_list (snd_queue k')) = msg_bytes (ring_list (snd_queue ?k)) @ b"
      by (auto simp: send_effect_def same_recv_def)
    then show ?thesis
      using i c S(3) rcv_inv_same [of ?k k' G "ep_out e"] by (simp add: ep_inv_def ends_def snd_inv_def)
  next
    case recv
    then obtain r bs k' where R: "Recv n ?k = Some (r, bs, k')" "e' = e\<lparr>ep_kcp := k', ep_out := ep_out e @ bs\<rparr>"
      using E by auto
    have c: "conn_wf k'" using kcp_exec_wf [OF i(1) within_buffers_admissible [OF adm], of clk] recv R(1) by auto
    have "rcv_wf ?k" "rcv_inv G (ep_out e) ?k" using i(1,2) by (simp_all add: conn_wf_def kcp_wf_def ends_def)
    note r = Recv_inv [OF this len R(1)]
    show ?thesis
      using i c R(2) r snd_inv_same [OF r(2), of ?H] by (simp add: ep_inv_def ends_def) (simp add: same_send_def)
  next
    case other
    then obtain k' where k': "kcp_exec clk x ?k = Some k'" "e' = e\<lparr>ep_kcp := k', ep_hist := ?H @ numbered ?k k'\<rparr>"
      using E by (cases x) auto
    have c: "conn_wf k'" using kcp_exec_wf [OF i(1) within_buffers_admissible [OF adm], of clk] k'(1) by auto
    have "progress ?H G (ep_out e) ?k k'" using kcp_exec_progress [OF i(1-3) len adm d other k'(1)] .
    then show ?thesis using i(4) c len' by (simp add: progress_def ep_inv_def k'(2))
  qed
qed

lemma hist_grows:
  "ep_exec clk x e = Some e' \<Longrightarrow> \<exists>X. ep_hist e' = ep_hist e @ X"
  by (cases x) (auto split: option.splits if_splits)

lemma ep_inv_append: "ep_inv G e \<Longrightarrow> ep_inv (G @ X) e"
  by (simp add: ep_inv_def ends_def rcv_inv_append)

lemma new_endpoint_inv: "ep_inv [] (new_endpoint c)"
  using NewKCP_wf(2) [of c]
  by (simp add: ep_inv_def new_endpoint_def ends_def snd_inv_def rcv_inv_def packets_inv_def NewKCP_def newSegmentHeap_def)

lemma net_inv:
  "net_reach clka clkb c a b \<Longrightarrow> length (ep_hist a) < 2 ^ 32 \<Longrightarrow> length (ep_hist b) < 2 ^ 32 \<Longrightarrow>
     ep_inv (ep_hist b) a \<and> ep_inv (ep_hist a) b"
proof (induction rule: net_reach.induct)
  case net_start
  have "ep_hist (new_endpoint c) = []" by (simp add: new_endpoint_def)
  then show ?case by (simp add: new_endpoint_inv)
next
  case (net_left a b x a')
  obtain X where X: "ep_hist a' = ep_hist a @ X" using hist_grows net_left.hyps by blast
  then have i: "ep_inv (ep_hist b) a" "ep_inv (ep_hist a) b" using net_left by simp_all
  have "packets_inv (ep_hist b) (sent (ep_kcp b))" using i(2) by (simp add: ep_inv_def)
  then have "\<forall>d pt nd. x = Op_Input d pt nd \<longrightarrow> packets_inv (ep_hist b) [d]"
    using net_left.hyps by (auto simp: packets_inv_def)
  then have "ep_inv (ep_hist b) a'" using ep_exec_inv [OF i(1)] net_left by blast
  then show ?case using i(2) X ep_inv_append by simp
next
  case (net_right a b x b')
  obtain X where X: "ep_hist b' = ep_hist b @ X" using hist_grows net_right.hyps by blast
  then have i: "ep_inv (ep_hist b) a" "ep_inv (ep_hist a) b" using net_right by simp_all
  have "packets_inv (ep_hist a) (sent (ep_kcp a))" using i(1) by (simp add: ep_inv_def)
  then have "\<forall>d pt nd. x = Op_Input d pt nd \<longrightarrow> packets_inv (ep_hist a) [d]"
    using net_right.hyps by (auto simp: packets_inv_def)
  then have "ep_inv (ep_hist a) b'" using ep_exec_inv [OF i(2)] net_right by blast
  then show ?case using i(1) X ep_inv_append by simp
qed

text \<open>C1. Reliable, ordered delivery. Whatever the applications and the network do, whatever is configured and
  whenever packets are lost, repeated, delayed or reordered, the bytes received at each end are a prefix of the
  bytes sent at the other, as long as neither has used up its 32-bit segment numbers.\<close>

theorem stream_delivery:
  assumes "net_reach clka clkb c a b" "length (ep_hist a) < 2 ^ 32" "length (ep_hist b) < 2 ^ 32"
  shows "prefix (ep_out b) (ep_in a) \<and> prefix (ep_out a) (ep_in b)"
proof -
  have pre: "prefix (ep_out y) (ep_in x)" if x: "ep_inv (ep_hist y) x" and y: "ep_inv (ep_hist x) y" for x y
  proof -
    obtain n where n: "ep_out y @ msg_bytes (ring_list (rcv_queue (ep_kcp y))) = concat (map snd (take n (ep_hist x)))"
      using y by (auto simp: ep_inv_def ends_def rcv_inv_def)
    have "concat (map snd (ep_hist x)) = concat (map snd (take n (ep_hist x))) @ concat (map snd (drop n (ep_hist x)))"
      by (simp flip: concat_append map_append)
    then show ?thesis using x by (simp add: ep_inv_def n [symmetric] prefix_def)
  qed
  show ?thesis using net_inv [OF assms] pre by blast
qed

definition demo_clock :: clock where
  "demo_clock n = of_nat (10 * n)"

text \<open>The left end turns congestion control off, sends three bytes and flushes; the packet arrives; the right end reads.\<close>

definition demo_run :: "(endpoint \<times> endpoint) option" where
  "demo_run = do {
     a \<leftarrow> ep_exec demo_clock (Op_NoDelay (- 1) (- 1) (- 1) 1) (new_endpoint 5);
     a \<leftarrow> ep_exec demo_clock (Op_Send [7, 8, 9]) a;
     a \<leftarrow> ep_exec demo_clock (Op_flush IKCP_FLUSH_FULL) a;
     if sent (ep_kcp a) = [] \<or> maxPacketSize < length (hd (sent (ep_kcp a))) then None
     else do {
       b \<leftarrow> ep_exec demo_clock (Op_Input (hd (sent (ep_kcp a))) IKCP_PACKET_REGULAR False) (new_endpoint 5);
       b \<leftarrow> ep_exec demo_clock (Op_Recv 10) b;
       Some (a, b) } }"

lemma demo_run_eval:
  "map_option (\<lambda>(a, b). (ep_in a, ep_out b, length (ep_hist a), length (ep_hist b))) demo_run = Some ([7, 8, 9], [7, 8, 9], 1, 0)"
  by code_simp

lemma demo_reach:
  assumes "demo_run = Some (a, b)"
  shows "net_reach demo_clock demo_clock 5 a b"
proof -
  obtain a1 a2 b1 where s: "ep_exec demo_clock (Op_NoDelay (- 1) (- 1) (- 1) 1) (new_endpoint 5) = Some a1"
      "ep_exec demo_clock (Op_Send [7, 8, 9]) a1 = Some a2" "ep_exec demo_clock (Op_flush IKCP_FLUSH_FULL) a2 = Some a"
      "sent (ep_kcp a) \<noteq> []" "length (hd (sent (ep_kcp a))) \<le> maxPacketSize"
      "ep_exec demo_clock (Op_Input (hd (sent (ep_kcp a))) IKCP_PACKET_REGULAR False) (new_endpoint 5) = Some b1"
      "ep_exec demo_clock (Op_Recv 10) b1 = Some b"
    using assms unfolding demo_run_def
    by (auto simp: bind_eq_Some_conv not_less simp del: ep_exec.simps split: if_splits)
  have "net_reach demo_clock demo_clock 5 a1 (new_endpoint 5)" by (rule net_left [OF net_start _ _ s(1)]) simp_all
  then have "net_reach demo_clock demo_clock 5 a2 (new_endpoint 5)" by (rule net_left [OF _ _ _ s(2)]) simp_all
  then have "net_reach demo_clock demo_clock 5 a (new_endpoint 5)" by (rule net_left [OF _ _ _ s(3)]) simp_all
  then have "net_reach demo_clock demo_clock 5 a b1" by (rule net_right [OF _ _ _ s(6)]) (simp_all add: s(4,5))
  then show ?thesis by (rule net_right [OF _ _ _ s(7)]) simp_all
qed

theorem stream_delivery_witness:
  "\<exists>a b. demo_run = Some (a, b) \<and> ep_in a = [7, 8, 9] \<and> ep_out b = [7, 8, 9] \<and> prefix (ep_out b) (ep_in a)"
proof -
  obtain a b where r: "demo_run = Some (a, b)" "ep_in a = [7, 8, 9]" "ep_out b = [7, 8, 9]" "length (ep_hist a) = 1" "length (ep_hist b) = 0"
    using demo_run_eval by (auto simp del: length_0_conv)
  have "prefix (ep_out b) (ep_in a)" using stream_delivery [OF demo_reach [OF r(1)]] r(4,5) by simp
  then show ?thesis using r(1-3) by blast
qed

end
