(* ===== verification/Reliability.thy ===== *)
theory Reliability
  imports End_To_End
begin

text \<open>
  What an end lets go of, the other has. \<open>End_To_End\<close> shows that nothing wrong is delivered; here the
  acknowledgements are followed back to the sender, to show that nothing is lost: a segment leaves the sender's
  buffer, or is marked as acknowledged, only when the receiver holds it or has passed it on. The receiver compares
  numbers by their signed distance, so this needs fewer than \<open>2 ^ 31\<close> segments in each direction.
\<close>

section \<open>What the receiver has\<close>

definition has_sn :: "kcp \<Rightarrow> u32 \<Rightarrow> bool" where
  "has_sn k w \<longleftrightarrow> w < rcv_nxt k \<or> w \<in> seg_sn ` set (sh_segments (rcv_buf k))"

text \<open>The receiver only ever has more.\<close>

definition gains :: "kcp \<Rightarrow> kcp \<Rightarrow> bool" where
  "gains k k' \<longleftrightarrow> (\<forall>w. has_sn k w \<longrightarrow> has_sn k' w) \<and> rcv_nxt k \<le> rcv_nxt k'"

lemma gains_refl [simp]: "gains k k"
  by (simp add: gains_def)

lemma gains_trans: "gains k k1 \<Longrightarrow> gains k1 k2 \<Longrightarrow> gains k k2"
  by (auto simp: gains_def)

lemma gains_same: "same_recv k k' \<Longrightarrow> gains k k'"
  by (simp add: gains_def has_sn_def same_recv_def)

lemma gains_moves:
  assumes inv: "rcv_inv G out k" and mv: "moves k moved k'" and len: "length G < 2 ^ 32"
  shows "gains k k'"
proof -
  from inv obtain n where n: "n \<le> length G" "rcv_nxt k = of_nat n" "\<forall>s\<in>set (sh_segments (rcv_buf k)). carried G s"
    unfolding rcv_inv_def by blast
  from mv obtain q h where e: "k' = k\<lparr>rcv_buf := h, rcv_queue := q, rcv_nxt := rcv_nxt k + of_nat (length moved)\<rparr>"
      "map seg_sn moved = seqs (rcv_nxt k) (length moved)" "mset (sh_segments (rcv_buf k)) = mset moved + mset (sh_segments h)"
    by (auto simp: moves_def)
  have set: "set (sh_segments (rcv_buf k)) = set moved \<union> set (sh_segments h)"
    using arg_cong [OF e(3), of set_mset] by simp
  have run: "n + length moved \<le> length G"
    using carried_run [OF e(2) [unfolded n(2)] _ n(1) len] n(3) set by simp
  have nxt: "rcv_nxt k' = of_nat (n + length moved)" by (simp add: e(1) n(2))
  have u: "unat (of_nat m :: u32) = m" if "m \<le> length G" for m using that len by simp
  have below: "seg_sn s < rcv_nxt k'" if "s \<in> set moved" for s
  proof -
    have "seg_sn s \<in> set (seqs (of_nat n) (length moved))" using that by (metis e(2) image_eqI list.set_map n(2))
    then obtain i where "i < length moved" "seg_sn s = of_nat (n + i)" by (auto simp: seqs_def)
    then show ?thesis using u [of "n + i"] u [of "n + length moved"] run by (simp add: nxt word_less_nat_alt del: of_nat_add)
  qed
  have le: "rcv_nxt k \<le> rcv_nxt k'"
    using u [of n] u [of "n + length moved"] run n(1) by (simp add: nxt n(2) word_le_nat_alt del: of_nat_add)
  have "has_sn k' w" if "has_sn k w" for w
    using that le below set by (auto simp: has_sn_def e(1))
  then show ?thesis using le by (simp add: gains_def)
qed

lemma rcv_move_gains:
  assumes "rcv_wf k" "rcv_inv G out k" "length G < 2 ^ 32"
  shows "gains k (rcv_move k)"
  using rcv_move_moves [OF assms(1)] gains_moves [OF assms(2) _ assms(3)] by blast

lemma rcv_move_acklist: "rcv_wf k \<Longrightarrow> acklist (rcv_move k) = acklist k"
  using rcv_move_wf(3) [of k] by auto

lemma Recv_gains:
  assumes wf: "rcv_wf k" and inv: "rcv_inv G out k" and len: "length G < 2 ^ 32" and R: "Recv n k = Some (r, bs, k')"
  shows "gains k k' \<and> acklist k' = acklist k"
  using wf R
proof (cases rule: Recv_cases)
  case (msg m q)
  let ?k = "k\<lparr>rcv_queue := q, pool_out := pool_out k - live m\<rparr>"
  have i: "rcv_inv G (out @ bs) ?k" using inv msg(1,2) by (auto simp: rcv_inv_def)
  obtain k1 where "gains ?k k1" "acklist k1 = acklist ?k" "k' = k1 \<or> k' = k1\<lparr>probe := probe k1 OR IKCP_ASK_TELL\<rparr>"
    using msg(4) rcv_move_gains [OF msg(3) i len] rcv_move_acklist [OF msg(3)] by blast
  then show ?thesis by (auto simp: gains_def has_sn_def)
qed simp

lemma parse_data_gains:
  assumes wf: "rcv_wf k" and inv: "rcv_inv G out k" and len: "length G < 2 ^ 32"
    and s: "carried G s" "length (seg_bytes s) \<le> maxPacketSize" and P: "parse_data s k = Some (r, k')"
  shows "gains k k' \<and> acklist k' = acklist k \<and> (in_rcv_window k (seg_sn s) \<longrightarrow> has_sn k' (seg_sn s))"
proof -
  have heap: "segmentHeap_Has (rcv_buf k) (seg_sn s) \<longleftrightarrow> seg_sn s \<in> seg_sn ` set (sh_segments (rcv_buf k))"
    using wf segmentHeap_Has_iff [of "rcv_nxt k" "rcv_buf k"] by (simp add: rcv_wf_def)
  consider "\<not> in_rcv_window k (seg_sn s)"
    | "in_rcv_window k (seg_sn s)" "segmentHeap_Has (rcv_buf k) (seg_sn s)"
    | "in_rcv_window k (seg_sn s)" "\<not> segmentHeap_Has (rcv_buf k) (seg_sn s)" by blast
  then show ?thesis
  proof cases
    case 2
    then have "has_sn k (seg_sn s)" using heap by (simp add: has_sn_def)
    then show ?thesis
      using 2 P rcv_move_gains [OF wf inv len] rcv_move_acklist [OF wf] by (auto simp: parse_data_repeat gains_def)
  next
    case 3
    let ?s = "s\<lparr>seg_data := Some (seg_bytes s)\<rparr>"
    let ?k = "k\<lparr>pool_out := pool_out k + 1, rcv_buf := segmentHeap_Push (rcv_buf k) ?s\<rparr>"
    have w: "rcv_wf ?k" using wf 3 by (intro rcv_wf_insert) simp_all
    have "carried G ?s" using s(1) by (simp add: carried_def piece_def seg_bytes_def)
    then have i: "rcv_inv G out ?k" using inv by (simp add: rcv_inv_def)
    have g: "gains ?k (rcv_move ?k)" "acklist (rcv_move ?k) = acklist k" using rcv_move_gains [OF w i len] rcv_move_acklist [OF w] by simp_all
    have "gains k ?k" "has_sn ?k (seg_sn s)" by (auto simp: gains_def has_sn_def)
    moreover have "k' = rcv_move ?k" using P 3 s(2) by (simp add: parse_data_new)
    ultimately show ?thesis using g gains_trans by (auto simp: gains_def)
  qed (use P in \<open>simp add: parse_data_outside\<close>)
qed

text \<open>Everything the receiver is about to acknowledge it has.\<close>

definition acks_ok :: "kcp \<Rightarrow> bool" where
  "acks_ok k \<longleftrightarrow> (\<forall>x\<in>set (acklist k). has_sn k (ack_sn x))"

lemma acks_ok_gains: "acks_ok k \<Longrightarrow> gains k k' \<Longrightarrow> acklist k' = acklist k \<Longrightarrow> acks_ok k'"
  by (simp add: acks_ok_def gains_def)

text \<open>A number before \<^verbatim>\<open>rcv_nxt\<close> by its signed distance is smaller, among fewer than \<open>2 ^ 31\<close> numbers.\<close>

lemma serial_before:
  assumes "sint (itimediff w v) < 0" "unat w < 2 ^ 31" "unat (v :: u32) < 2 ^ 31"
  shows "w < v"
proof (rule ccontr)
  assume "\<not> w < v"
  then have "unat (w - v) = unat w - unat v" by (simp add: unat_sub not_less)
  then show False using assms by (simp add: itimediff_less_0)
qed

lemma serial_after:
  assumes "0 < sint (itimediff v w)" "unat w < 2 ^ 31" "unat (v :: u32) < 2 ^ 31"
  shows "w < v"
  using assms diff_via_base [of v w 0] by (auto simp: itimediff_gr_0 word_less_nat_alt word_unat_eq_iff split: if_splits)

lemma rcv_nxt_small: "rcv_inv G out k \<Longrightarrow> length G < 2 ^ 31 \<Longrightarrow> unat (rcv_nxt k) \<le> length G"
  by (auto simp: rcv_inv_def)

lemma input_push_gains:
  assumes wf: "rcv_wf k" and inv: "rcv_inv G out k" and len: "length G < 2 ^ 31"
    and s: "carried G s" "length (seg_bytes s) \<le> maxPacketSize" and acks: "acks_ok k"
    and P: "input_push pt (header_of s) (seg_bytes s) k = Some k'"
  shows "gains k k' \<and> acks_ok k'"
proof -
  define k1 where "k1 = ack_push (seg_sn s) (seg_ts s) k"
  define s1 where "s1 = zero_segment\<lparr>seg_conv := seg_conv s, seg_cmd := seg_cmd s, seg_frg := seg_frg s, seg_wnd := seg_wnd s,
     seg_ts := seg_ts s, seg_sn := seg_sn s, seg_una := seg_una s, seg_data := Some (seg_bytes s)\<rparr>"
  have same: "same_recv k k1" "acklist k1 = acklist k @ [\<lparr>ack_sn = seg_sn s, ack_ts = seg_ts s\<rparr>]" "rcv_wnd k1 = rcv_wnd k"
    by (simp_all add: k1_def ack_push_def same_recv_def)
  then have k: "rcv_wf k1" "rcv_inv G out k1" "gains k k1"
    using rcv_wf_cong [OF wf] inv rcv_inv_same [OF same(1), of G out] gains_same by (simp_all add: same_recv_def)
  have c: "carried G s1" "length (seg_bytes s1) \<le> maxPacketSize" "seg_sn s1 = seg_sn s"
    using s by (simp_all add: s1_def carried_def piece_def seg_bytes_def)
  have len32: "length G < 2 ^ 32" using len by simp
  have count: "gains k x' \<and> acks_ok x'" if "gains k x \<and> acks_ok x" "x' = x \<or> x' = count_snmp increaseRepeatSegs x" for x x'
    using that by (auto simp: count_snmp_def gains_def has_sn_def acks_ok_def)
  have h: "h_sn (header_of s) = seg_sn s" "h_ts (header_of s) = seg_ts s" by (simp_all add: header_of_def)
  have small: "unat (rcv_nxt k) < 2 ^ 31" "unat (seg_sn s) < 2 ^ 31"
    using rcv_nxt_small [OF inv len] len s(1) by (simp_all add: carried_def)
  from P show ?thesis
  proof (cases rule: input_push_cases)
    case old
    then show ?thesis using count acks gains_refl by blast
  next
    case acked
    then have "seg_sn s < rcv_nxt k" using small unfolding h by (intro serial_before) simp_all
    then have "has_sn k (seg_sn s)" by (simp add: has_sn_def)
    then have "acks_ok k1" using acks k(3) same(2) by (auto simp: acks_ok_def gains_def)
    then show ?thesis using count k(3) acked(1) unfolding h k1_def by blast
  next
    case (data r k2)
    have d: "parse_data s1 k1 = Some (r, k2)" "in_rcv_window k1 (seg_sn s1)"
      using data(1,3) by (simp_all add: s1_def k1_def header_of_def)
    have g: "gains k1 k2" "acklist k2 = acklist k1" "has_sn k2 (seg_sn s)"
      using parse_data_gains [OF k(1,2) len32 c(1,2) d(1)] c(3) d(2) by simp_all
    then have "gains k k2" using k(3) gains_trans by blast
    then have "gains k k2 \<and> acks_ok k2" using g acks same(2) by (auto simp: acks_ok_def gains_def)
    then show ?thesis using count data(2) by blast
  qed
qed

section \<open>What the sender still keeps\<close>

text \<open>The numbers in flight that are not marked as acknowledged.\<close>

definition open_sns :: "segment list \<Rightarrow> u32 set" where
  "open_sns ss = seg_sn ` {s \<in> set ss. seg_acked s \<noteq> 1}"

lemma open_sns_append [simp]: "open_sns (xs @ ys) = open_sns xs \<union> open_sns ys"
  by (auto simp: open_sns_def)

lemma open_sns_cong:
  assumes "list_all2 R xs ys" "\<And>x y. R x y \<Longrightarrow> seg_sn y = seg_sn x \<and> seg_acked y = seg_acked x"
  shows "open_sns ys = open_sns xs"
  using assms(1)
proof (induction rule: list_all2_induct)
  case (Cons x xs y ys)
  have "open_sns (x # xs) = open_sns [x] \<union> open_sns xs" "open_sns (y # ys) = open_sns [y] \<union> open_sns ys"
    by (auto simp: open_sns_def)
  moreover have "open_sns [y] = open_sns [x]" using assms(2) [OF Cons.hyps(1)] by (auto simp: open_sns_def)
  ultimately show ?case using Cons.IH by simp
qed simp

lemma number_unacked: "fresh ss \<Longrightarrow> s \<in> set (number k n ss) \<Longrightarrow> seg_acked s = 0"
  by (induction ss arbitrary: n) (auto simp: to_push_def)

lemma number_open:
  assumes "fresh ss"
  shows "open_sns (number k n ss) = set (seqs n (length ss))"
proof -
  have "open_sns (number k n ss) = seg_sn ` set (number k n ss)" using number_unacked [OF assms] by (auto simp: open_sns_def)
  then show ?thesis by (metis list.set_map number_sn)
qed

text \<open>Every number used is at the peer, or in flight and open.\<close>

definition kept :: "piece list \<Rightarrow> kcp \<Rightarrow> kcp \<Rightarrow> bool" where
  "kept H p k \<longleftrightarrow> (\<forall>i<length H. has_sn p (of_nat i) \<or> of_nat i \<in> open_sns (ring_list (snd_buf k)))"

lemma kept_gains: "kept H p k \<Longrightarrow> gains p p' \<Longrightarrow> kept H p' k"
  by (auto simp: kept_def gains_def)

lemma kept_open:
  assumes "kept H p k" "\<And>w. w \<in> open_sns (ring_list (snd_buf k)) \<Longrightarrow> has_sn p w \<or> w \<in> open_sns (ring_list (snd_buf k'))"
  shows "kept H p k'"
  using assms unfolding kept_def by blast

lemma open_small:
  assumes "snd_inv H k" "s \<in> set (ring_list (snd_buf k))" "seg_acked s \<noteq> 1"
  shows "unat (seg_sn s) < length H"
  using assms by (auto simp: snd_inv_def carried_def)

lemma una_kept:
  assumes wf: "inflight_wf k" and inv: "snd_inv H k" and len: "length H < 2 ^ 31" and K: "kept H p k"
    and una: "una \<le> rcv_nxt p" "unat (rcv_nxt p) \<le> length H" and P: "parse_una una k = Some (n, k1)"
  shows "kept H p (shrink_buf k1)"
proof (rule kept_open [OF K])
  let ?c = "una_count una k" and ?L = "ring_list (snd_buf k)"
  obtain sb where "shrink_buf k1 = k\<lparr>pool_out := pool_out k - live (take ?c ?L),
      snd_buf := sb, snd_una := snd_una k + of_nat ?c\<rparr>" "ring_list sb = drop ?c ?L"
    using una_shrink_spec [OF wf, of una] P by auto
  then have L: "ring_list (snd_buf (shrink_buf k1)) = drop ?c ?L" by simp
  fix w assume "w \<in> open_sns ?L"
  then consider (left) "w \<in> open_sns (drop ?c ?L)" | (gone) s where "s \<in> set (take ?c ?L)" "seg_acked s \<noteq> 1" "w = seg_sn s"
    using open_sns_append [of "take ?c ?L" "drop ?c ?L"] by (auto simp: open_sns_def)
  then show "has_sn p w \<or> w \<in> open_sns (ring_list (snd_buf (shrink_buf k1)))"
  proof cases
    case gone
    then obtain i where i: "i < ?c" "i < length ?L" "s = ?L ! i" by (auto simp: in_set_conv_nth)
    then have "0 < sint (itimediff una w)" using una_count_inflight(1) [OF wf, of una] gone(3) by blast
    moreover have "unat w < 2 ^ 31" using open_small [OF inv _ gone(2)] i len gone(3) by fastforce
    moreover have "unat una < 2 ^ 31" using una len by (simp add: word_le_nat_alt)
    ultimately have "w < una" by (rule serial_after)
    then show ?thesis using una(1) by (auto simp: has_sn_def)
  qed (simp add: L)
qed

lemma ack_kept:
  assumes wf: "inflight_wf k" and K: "kept H p k" and n: "has_sn p n" and P: "parse_ack n k = Some k1"
  shows "kept H p k1"
proof (rule kept_open [OF K])
  let ?j = "unat (n - snd_una k)" and ?L = "ring_list (snd_buf k)"
  fix w assume w: "w \<in> open_sns ?L"
  show "has_sn p w \<or> w \<in> open_sns (ring_list (snd_buf k1))"
  proof (cases "?j < ring_Len (snd_buf k)")
    case True
    then have L: "ring_list (snd_buf k1) = ?L[?j := mark_acked (?L ! ?j)]" using parse_ack_spec(1) [OF wf True] P by auto
    obtain i where i: "i < length ?L" "seg_acked (?L ! i) \<noteq> 1" "w = seg_sn (?L ! i)"
      using w by (auto simp: open_sns_def in_set_conv_nth)
    show ?thesis
    proof (cases "i = ?j")
      case True
      have "seg_sn (?L ! i) = snd_una k + of_nat i"
        using wf i(1) by (metis inflight_wf_def length_ring_list nth_map nth_seqs)
      then have "w = n" using i(3) True by simp
      then show ?thesis using n by simp
    next
      case False
      then have "?L ! i \<in> set (ring_list (snd_buf k1))" unfolding L using i(1) by (metis length_list_update nth_list_update_neq nth_mem)
      then show ?thesis using i(2,3) by (auto simp: open_sns_def)
    qed
  next
    case False
    then show ?thesis using parse_ack_spec(2) [OF wf, of n] P w by simp
  qed
qed

lemma fastack_kept:
  assumes "ring_wf (snd_buf k)" and K: "kept H p k" and P: "parse_fastack n t k = Some (r, k1)"
  shows "kept H p k1"
proof -
  obtain sb where "k1 = k\<lparr>snd_buf := sb\<rparr>"
      and R: "list_all2 (\<lambda>s s'. \<exists>x. s' = s\<lparr>seg_fastack := x\<rparr>) (ring_list (snd_buf k)) (ring_list sb)"
    using parse_fastack_spec [OF assms(1), of n t] P by auto
  moreover have "open_sns (ring_list sb) = open_sns (ring_list (snd_buf k))" by (rule open_sns_cong [OF R]) auto
  ultimately show ?thesis using K by (simp add: kept_def)
qed

text \<open>None of the three touches what the receiving half holds.\<close>

definition same_acks :: "kcp \<Rightarrow> kcp \<Rightarrow> bool" where
  "same_acks k k' \<longleftrightarrow> same_recv k k' \<and> acklist k' = acklist k"

lemma same_acks_gains: "same_acks k k' \<Longrightarrow> acks_ok k \<Longrightarrow> gains k k' \<and> acks_ok k'"
  using gains_same [of k k'] acks_ok_gains [of k k'] by (simp add: same_acks_def)

lemma same_acks_trans: "same_acks k k1 \<Longrightarrow> same_acks k1 k2 \<Longrightarrow> same_acks k k2"
  by (simp add: same_acks_def same_recv_def)

lemma una_same: "inflight_wf k \<Longrightarrow> parse_una una k = Some (n, k1) \<Longrightarrow> same_acks k (shrink_buf k1)"
  using una_shrink_spec [of k una] by (auto simp: same_acks_def same_recv_def)

lemma ack_same:
  assumes wf: "inflight_wf k" and P: "parse_ack n k = Some k1"
  shows "same_acks k k1"
proof (cases "unat (n - snd_una k) < ring_Len (snd_buf k)")
  case True
  then obtain x sb where "k1 = k\<lparr>pool_out := x, snd_buf := sb\<rparr>" using parse_ack_spec(1) [OF wf True] P by auto
  then show ?thesis by (simp add: same_acks_def same_recv_def)
next
  case False
  then show ?thesis using parse_ack_spec(2) [OF wf, of n] P by (simp add: same_acks_def)
qed

lemma fastack_same:
  assumes "ring_wf (snd_buf k)" "parse_fastack n t k = Some (r, k1)"
  shows "same_acks k k1"
proof -
  obtain sb where "k1 = k\<lparr>snd_buf := sb\<rparr>" using parse_fastack_spec [OF assms(1), of n t] assms(2) by auto
  then show ?thesis by (simp add: same_acks_def same_recv_def)
qed

section \<open>What the packets say\<close>

text \<open>A segment of an end in state \<open>k\<close> with history \<open>H\<close> tells the truth: its data is the piece numbered so, and
  it acknowledges only what \<open>k\<close> has.\<close>

definition truthful :: "piece list \<Rightarrow> kcp \<Rightarrow> segment \<Rightarrow> bool" where
  "truthful H k s \<longleftrightarrow> seg_cmd s \<in> kcp_cmds \<and> (seg_cmd s = IKCP_CMD_PUSH \<longrightarrow> carried H s) \<and> seg_una s \<le> rcv_nxt k \<and>
     (seg_cmd s = IKCP_CMD_ACK \<longrightarrow> has_sn k (seg_sn s))"

definition packets_true :: "piece list \<Rightarrow> kcp \<Rightarrow> byte list list \<Rightarrow> bool" where
  "packets_true H k ps \<longleftrightarrow> (\<forall>p\<in>set ps. \<exists>ss. p = concat (map frame ss) \<and> (\<forall>s\<in>set ss. truthful H k s))"

lemma truthful_mono: "truthful H k s \<Longrightarrow> gains k k' \<Longrightarrow> truthful (H @ X) k' s"
  using carried_append by (auto simp: truthful_def gains_def)

lemma packets_true_mono: "packets_true H k ps \<Longrightarrow> gains k k' \<Longrightarrow> packets_true (H @ X) k' ps"
  unfolding packets_true_def using truthful_mono by blast

lemma packets_true_inv: "packets_true H k ps \<Longrightarrow> packets_inv H ps"
  unfolding packets_true_def packets_inv_def truthful_def by meson

text \<open>The sender's promise and the receiver's, together, and a step that keeps both.\<close>

definition keeps :: "piece list \<Rightarrow> kcp \<Rightarrow> kcp \<Rightarrow> kcp \<Rightarrow> bool" where
  "keeps H p k k' \<longleftrightarrow> kept H p k' \<and> acks_ok k' \<and> gains k k'"

lemma keeps_trans: "keeps H p k k1 \<Longrightarrow> keeps H p k1 k2 \<Longrightarrow> keeps H p k k2"
  using gains_trans by (auto simp: keeps_def)

lemma keeps_same: "kept H p k' \<Longrightarrow> acks_ok k \<Longrightarrow> same_acks k k' \<Longrightarrow> keeps H p k k'"
  using same_acks_gains by (simp add: keeps_def)

lemma una_stage_keeps:
  assumes "una_stage L s k0 k1" "snd_inv H k0" "length H < 2 ^ 31" "kept H p k0" "acks_ok k0"
    and "seg_una s \<le> rcv_nxt p" "unat (rcv_nxt p) \<le> length H"
  shows "keeps H p k0 k1"
proof -
  obtain w n k' where k': "kcp_wf L (k0\<lparr>rmt_wnd := w\<rparr>)" "parse_una (seg_una s) (k0\<lparr>rmt_wnd := w\<rparr>) = Some (n, k')" "k1 = shrink_buf k'"
    using assms(1) by (auto simp: una_stage_def)
  have i: "inflight_wf (k0\<lparr>rmt_wnd := w\<rparr>)" using k'(1) by (simp add: kcp_wf_def snd_wf_def)
  have "kept H p (shrink_buf k')"
    using una_kept [OF i _ assms(3) _ assms(6,7) k'(2)] assms(2,4) by (simp add: snd_inv_def kept_def)
  moreover have "same_acks k0 (shrink_buf k')" using una_same [OF i k'(2)] by (simp add: same_acks_def same_recv_def)
  ultimately show ?thesis using keeps_same assms(5) k'(3) by blast
qed

lemma input_seg_keeps:
  assumes wf: "kcp_wf L (in_k st)" and inv: "ends H G out (in_k st)" and len: "length H < 2 ^ 31" "length G < 2 ^ 31"
    and K: "kept H p (in_k st)" "acks_ok (in_k st)" and s: "truthful G p s" "length (seg_bytes s) \<le> maxPacketSize"
    and p: "unat (rcv_nxt p) \<le> length H" and S: "input_seg pt (header_of s) (seg_bytes s) st = Some st'"
  shows "keeps H p (in_k st) (in_k st')"
proof -
  have una: "keeps H p (in_k st) k1" if "una_stage L s (in_k st) k1" for k1
    using una_stage_keeps [OF that _ len(1) K _ p] inv s(1) by (auto simp: ends_def truthful_def)
  from wf S show ?thesis
  proof (cases rule: input_seg_cases)
    case (ack k1 k2 r)
    have i: "inflight_wf k1" using ack(1) by (simp add: una_stage_def kcp_wf_def snd_wf_def)
    have k1: "kept H p k1" "acks_ok k1" using una [OF ack(1)] by (simp_all add: keeps_def)
    have "has_sn p (seg_sn s)" using s(1) ack(2) by (simp add: truthful_def)
    then have "kept H p k2" using ack_kept [OF i k1(1) _ ack(3)] by blast
    then have "kept H p (in_k st')" using fastack_kept ack(4,5) by blast
    moreover have "same_acks k1 (in_k st')" using same_acks_trans ack_same [OF i ack(3)] fastack_same [OF ack(4,5)] by blast
    ultimately show ?thesis using keeps_trans [OF una [OF ack(1)]] keeps_same k1(2) by blast
  next
    case (push k1)
    have k1: "kept H p k1" "acks_ok k1" using una [OF push(1)] by (simp_all add: keeps_def)
    have e1: "rcv_wf k1" "rcv_inv G out k1" using push(1) una_stage_ends [OF push(1) inv] by (simp_all add: una_stage_def kcp_wf_def ends_def)
    have c: "carried G s" using s(1) push(2) by (simp add: truthful_def)
    have "gains k1 (in_k st') \<and> acks_ok (in_k st')" using input_push_gains [OF e1 len(2) c s(2) k1(2) push(3)] .
    moreover have "same_send k1 (in_k st')" using input_push_inv [OF e1 _ c s(2) push(3)] len(2) by simp
    then have "kept H p (in_k st')" using k1(1) by (simp add: kept_def same_send_def)
    ultimately show ?thesis using keeps_trans [OF una [OF push(1)]] by (simp add: keeps_def)
  next
    case (other k1)
    have k1: "kept H p k1" "acks_ok k1" using una [OF other(1)] by (simp_all add: keeps_def)
    have "same_acks k1 (in_k st')" "kept H p (in_k st')" using other(2) k1(1) by (auto simp: same_acks_def same_recv_def kept_def)
    then show ?thesis using keeps_trans [OF una [OF other(1)]] keeps_same k1(2) by blast
  qed
qed

lemma input_loop_keeps:
  assumes "kcp_wf L k" "ends H G out k" "length H < 2 ^ 31" "length G < 2 ^ 31" "kept H p k" "acks_ok k"
    and "\<forall>s\<in>set ss. truthful G p s" "unat (rcv_nxt p) \<le> length H" "length (concat (map frame ss)) \<le> maxPacketSize"
    and "in_k st = k" "input_loop pt (concat (map frame ss)) st = Some r"
  shows "(\<forall>c k'. r = Inl (c, k') \<longrightarrow> keeps H p k k' \<and> ends H G out k' \<and> same_out k k') \<and>
     (\<forall>st'. r = Inr st' \<longrightarrow> keeps H p k (in_k st') \<and> ends H G out (in_k st') \<and> same_out k (in_k st'))"
proof (rule input_loop_rule [where S = "set ss" and Q = "\<lambda>x. keeps H p k x \<and> ends H G out x \<and> same_out k x", OF _ _ _ _ assms(9,11)])
  fix st1 st' s
  assume a: "s \<in> set ss" "kcp_wf L (in_k st1)" "keeps H p k (in_k st1) \<and> ends H G out (in_k st1) \<and> same_out k (in_k st1)"
    "length (seg_bytes s) \<le> maxPacketSize" "input_seg pt (header_of s) (seg_bytes s) st1 = Some st'"
  have t: "truthful G p s" "length G < 2 ^ 32" using a(1) assms(4,7) by auto
  then have "ends H G out (in_k st') \<and> same_out (in_k st1) (in_k st')"
    using input_seg_inv [of L st1 H G out s pt st'] a by (simp add: truthful_def)
  moreover have "keeps H p (in_k st1) (in_k st')"
    using input_seg_keeps [OF a(2) _ assms(3,4) _ _ t(1) a(4) assms(8) a(5)] a(3) by (auto simp: keeps_def)
  ultimately show "keeps H p k (in_k st') \<and> ends H G out (in_k st') \<and> same_out k (in_k st')"
    using a(3) keeps_trans by (auto simp: same_out_def)
qed (use assms in \<open>simp_all add: keeps_def same_out_def\<close>)

section \<open>Every operation\<close>

definition sound :: "piece list \<Rightarrow> kcp \<Rightarrow> kcp \<Rightarrow> bool" where
  "sound H p k \<longleftrightarrow> kept H p k \<and> acks_ok k \<and> packets_true H k (sent k)"

definition advances :: "piece list \<Rightarrow> kcp \<Rightarrow> kcp \<Rightarrow> kcp \<Rightarrow> bool" where
  "advances H p k k' \<longleftrightarrow> (length (H @ numbered k k') < 2 ^ 31 \<longrightarrow> gains k k' \<and> sound (H @ numbered k k') p k')"

lemma keeps_sound:
  assumes "keeps H p k k1" "same_out k k1" "sound H p k"
  shows "sound H p k1"
  using assms packets_true_mono [of H k "sent k" k1 "[]"] by (simp add: sound_def keeps_def same_out_def)

lemma advance_quiet: "keeps H p k k' \<Longrightarrow> same_out k k' \<Longrightarrow> sound H p k \<Longrightarrow> advances H p k k'"
  using keeps_sound [of H p k k'] by (simp add: advances_def numbered_def same_out_def) (simp add: keeps_def)

lemma advance_after:
  assumes "keeps H p k k1" "same_out k k1" "advances H p k1 k2"
  shows "advances H p k k2"
proof -
  have "numbered k k2 = numbered k1 k2" using assms(2) by (simp add: numbered_def same_out_def)
  then show ?thesis using assms gains_trans by (auto simp: advances_def keeps_def)
qed

lemma acks_out_subset: "set (acks_out n as) \<subseteq> set as"
  by (induction n as rule: acks_out.induct) auto

lemma sent_una:
  assumes "list_all2 R xs ys" "R = xmit_rel seg \<or> R = (=)" "y \<in> set (concat (map2 sent_of xs ys))"
  shows "seg_una y = seg_una seg"
  using assms(1,3)
proof (induction rule: list_all2_induct)
  case (Cons x xs y' ys)
  have "seg_xmit y' = seg_xmit x \<or> seg_una y' = seg_una seg" using Cons.hyps(1) assms(2) by (auto simp: xmit_rel_def)
  moreover have "y \<in> set (sent_of x y') \<or> y \<in> set (concat (map2 sent_of xs ys))" using Cons.prems by simp
  ultimately show ?case using Cons.IH by (auto simp: sent_of_def [of x y'] split: if_splits)
qed simp

lemma kept_numbered:
  assumes "kept H p k" "snd_nxt k = of_nat (length H)"
    and "open_sns (ring_list (snd_buf k')) = open_sns (ring_list (snd_buf k)) \<union> set (seqs (snd_nxt k) (length X))"
  shows "kept (H @ X) p k'"
  unfolding kept_def
proof (intro allI impI)
  fix i assume i: "i < length (H @ X)"
  show "has_sn p (of_nat i) \<or> of_nat i \<in> open_sns (ring_list (snd_buf k'))"
  proof (cases "i < length H")
    case True
    then show ?thesis using assms(1,3) by (auto simp: kept_def)
  next
    case False
    then obtain j where "i = length H + j" "j < length X" using i le_Suc_ex by (metis add_less_cancel_left length_append not_less)
    then have "of_nat i \<in> set (seqs (snd_nxt k) (length X))" using assms(2) by (auto simp: seqs_def)
    then show ?thesis using assms(3) by blast
  qed
qed

lemma pending_segs_true:
  assumes s: "s \<in> set (pending_segs k asks xs ys)" and acks: "acks_ok k"
    and asks: "\<forall>s\<in>set asks. seg_cmd s \<in> {IKCP_CMD_WASK, IKCP_CMD_WINS} \<and> seg_una s = rcv_nxt k"
    and R: "list_all2 R xs ys" "R = xmit_rel (ack_header k) \<or> R = (=)" and c: "\<forall>x\<in>set xs. seg_acked x = 1 \<or> carried H x"
  shows "truthful H k s"
  using s asks
proof (cases rule: pending_segs_cases)
  case (ack a)
  then have "has_sn k (ack_sn a)" using acks acks_out_subset [of "rcv_nxt k" "acklist k"] by (auto simp: acks_ok_def)
  then show ?thesis using ack(2) by (simp add: truthful_def kcp_cmds_def ack_seg_of_def ack_header_def kcp_consts)
next
  case ask
  then show ?thesis by (auto simp: truthful_def kcp_cmds_def kcp_consts)
next
  case push
  then have "carried H s" "seg_una s = rcv_nxt k"
    using sent_carried(2) [OF R(1) c R(2)] sent_una [OF R] by (auto simp: ack_header_def)
  then show ?thesis by (simp add: truthful_def kcp_cmds_def carried_def kcp_consts)
qed

lemma flush_advance:
  assumes wf: "kcp_wf L k" and inv: "ends H G out k" and snd: "sound H p k" and F: "flush clk ft k = Some (u, k')"
  shows "advances H p k k'"
  using wf F
proof (rule flush_parts)
  fix moved asks ps
  let ?H = "H @ map piece moved" and ?B = "ring_list (snd_buf k) @ number k (snd_nxt k) moved"
  let ?R = "if ft = IKCP_FLUSH_FULL then xmit_rel (ack_header k) else (=)"
  assume num: "numbered k k' = map piece moved" and same: "same_recv k k'" and acks: "acklist k' = []"
    and q: "ring_list (snd_queue k) = moved @ ring_list (snd_queue k')" and sent: "sent k' = sent k @ ps"
    and R: "list_all2 ?R ?B (ring_list (snd_buf k'))" and P: "framed L ps [] (pending_segs k asks ?B (ring_list (snd_buf k')))"
    and asks: "\<forall>s\<in>set asks. seg_cmd s \<in> {IKCP_CMD_WASK, IKCP_CMD_WINS} \<and> seg_una s = rcv_nxt k"
  have "gains k k' \<and> sound ?H p k'" if len: "length ?H < 2 ^ 31"
  proof -
    have g: "gains k k'" using gains_same [OF same] .
    have nxt: "snd_nxt k = of_nat (length H)" and old: "\<forall>s\<in>set (ring_list (snd_buf k)). seg_acked s = 1 \<or> carried H s"
      using inv by (simp_all add: ends_def snd_inv_def)
    have B: "\<forall>s\<in>set ?B. seg_acked s = 1 \<or> carried ?H s"
      using old carried_append number_carried [of H moved] len by (auto simp: nxt)
    have "fresh moved" using wf q by (simp add: kcp_wf_def snd_wf_def)
    then have "open_sns ?B = open_sns (ring_list (snd_buf k)) \<union> set (seqs (snd_nxt k) (length (map piece moved)))"
      using number_open by simp
    moreover have "open_sns (ring_list (snd_buf k')) = open_sns ?B"
      by (rule open_sns_cong [OF R]) (auto simp: xmit_rel_def split: if_splits)
    ultimately have "kept ?H p k'" using kept_numbered [OF _ nxt] snd by (simp add: sound_def)
    moreover have true: "truthful ?H k s" if "s \<in> set (pending_segs k asks ?B (ring_list (snd_buf k')))" for s
      using pending_segs_true [OF that _ asks R _ B] snd by (simp add: sound_def)
    have "packets_true ?H k ps" unfolding packets_true_def using framed_packet [OF P] true by (metis subsetD)
    then have "packets_true ?H k (sent k')"
      using packets_true_mono [of H k "sent k" k "map piece moved"] snd by (auto simp: packets_true_def sound_def sent)
    then have "packets_true ?H k' (sent k')" using packets_true_mono [OF _ g, of ?H "sent k'" "[]"] by simp
    ultimately show ?thesis using g acks by (simp add: sound_def acks_ok_def)
  qed
  then show ?thesis by (simp add: advances_def num)
qed

lemma advance_long: "\<not> length H < 2 ^ 31 \<Longrightarrow> advances H p k k'"
  by (simp add: advances_def)

lemma sound_keeps: "sound H p k \<Longrightarrow> kept H p k' \<Longrightarrow> same_acks k k' \<Longrightarrow> keeps H p k k'"
  using keeps_same by (simp add: sound_def)

lemma sound_same: "sound H p k \<Longrightarrow> same_send k k' \<Longrightarrow> same_acks k k' \<Longrightarrow> keeps H p k k' \<and> same_out k k'"
  using sound_keeps [of H p k k'] by (auto simp: sound_def kept_def same_send_def same_out_def)

lemma input_flush_advance:
  assumes "kcp_wf L k" "ends H G out k" "sound H p k" "input_flush clk fl nd k = Some k'"
  shows "advances H p k k'"
proof -
  have "k' = k \<or> (\<exists>ft u. flush clk ft k = Some (u, k'))"
    using assms(4) by (auto simp: input_flush_def split: if_splits)
  then show ?thesis
    using flush_advance [OF assms(1-3)] advance_quiet [of H p k k] assms(3) by (auto simp: same_out_def keeps_def sound_def)
qed

lemma Input_advance:
  assumes wf: "kcp_wf L k" and inv: "ends H G out k" "sound H p k" and len: "length G < 2 ^ 31"
    and d: "packets_true G p [d]" "length d \<le> maxPacketSize" and nxt: "unat (rcv_nxt p) \<le> length H"
    and I: "Input clk d pt nd k = Some (r, k')"
  shows "advances H p k k'"
proof (cases "length H < 2 ^ 31")
  case True
  obtain ss where ss: "d = concat (map frame ss)" "\<forall>s\<in>set ss. truthful G p s" using d(1) by (auto simp: packets_true_def)
  have k: "kept H p k" "acks_ok k" "in_k (loop_start k) = k" using inv(2) by (simp_all add: sound_def loop_start_def)
  note i = input_loop_keeps [OF wf inv(1) True len k(1,2) ss(2) nxt _ k(3), folded ss(1), OF d(2)]
  from wf d(2) I show ?thesis
  proof (cases rule: Input_cases)
    case short
    then show ?thesis using inv(2) advance_quiet [of H p k k] k by (simp add: same_out_def keeps_def)
  next
    case (broken c)
    then show ?thesis using i advance_quiet inv(2) by blast
  next
    case (whole st k2)
    have j: "keeps H p k (in_k st)" "ends H G out (in_k st)" "same_out k (in_k st)" using i [OF whole(1)] by auto
    then have "sound H p (in_k st)" using keeps_sound inv(2) by blast
    then have s: "keeps H p (in_k st) k2 \<and> same_out (in_k st) k2"
      using sound_same whole(3-5) by (simp add: same_acks_def)
    have e2: "keeps H p k k2" "same_out k k2" using j s keeps_trans by (auto simp: same_out_def)
    have "ends H G out k2" using same_ends [OF whole(3,4)] j(2) by blast
    then have "advances H p k2 k'"
      using input_flush_advance [OF whole(2) _ _ whole(6)] keeps_sound [OF e2 inv(2)] by blast
    then show ?thesis using advance_after e2 by blast
  qed
qed (rule advance_long)

lemma Update_advance:
  assumes wf: "kcp_wf L k" and inv: "ends H G out k" "sound H p k" and U: "Update clk k = Some k'"
  shows "advances H p k k'"
proof -
  obtain due k2 where t: "update_timer (clk (ticks k)) (k\<lparr>ticks := Suc (ticks k)\<rparr>) = (due, k2)" by fastforce
  have e: "k2 = k\<lparr>ticks := Suc (ticks k), updated := updated k2, ts_flush := ts_flush k2\<rparr>"
    using update_timer_eq [of "clk (ticks k)" "k\<lparr>ticks := Suc (ticks k)\<rparr>"] unfolding t by (simp only: snd_conv)
  have w: "kcp_wf L k2" by (subst e, subst kcp_wf_frame [of _ k]) (simp_all add: wf)
  have same: "same_send k k2" "same_recv k k2" "same_acks k k2" by (subst e, simp add: same_send_def same_recv_def same_acks_def)+
  have i: "ends H G out k2" using same_ends [OF same(1,2)] inv(1) by blast
  have ks: "keeps H p k k2" "same_out k k2" using sound_same [OF inv(2) same(1,3)] by auto
  have "k' = k2 \<or> (\<exists>u. flush clk IKCP_FLUSH_FULL k2 = Some (u, k'))"
    using U t by (auto simp: Update_def currentMs_def split: if_splits)
  then show ?thesis
    using flush_advance [OF w i keeps_sound [OF ks inv(2)]] advance_after [OF ks] advance_quiet [OF ks inv(2)] by blast
qed

lemma ResetRTO_keeps:
  assumes w: "ring_wf (snd_buf k)" and inv: "sound H p k" and R: "ResetRTO clk k = Some k'"
  shows "keeps H p k k' \<and> same_out k k'"
proof -
  obtain sb where "ResetRTO clk k = Some (k\<lparr>ticks := Suc (ticks k), snd_buf := sb\<rparr>)"
      and sb: "list_all2 (\<lambda>s s'. \<exists>a b. s' = s\<lparr>seg_rto := a, seg_resendts := b\<rparr>) (ring_list (snd_buf k)) (ring_list sb)"
    using ResetRTO_spec [OF w, of clk] by blast
  then have k': "k' = k\<lparr>ticks := Suc (ticks k), snd_buf := sb\<rparr>" using R by simp
  have "open_sns (ring_list sb) = open_sns (ring_list (snd_buf k))" by (rule open_sns_cong [OF sb]) auto
  then have "kept H p k'" using inv by (simp add: k' kept_def sound_def)
  moreover have "same_acks k k'" "same_out k k'" by (simp_all add: k' same_acks_def same_recv_def same_out_def)
  ultimately show ?thesis using sound_keeps inv by blast
qed

lemma config_acks:
  "acklist (NoDelay a b c d k) = acklist k" "acklist (WndSize e f k) = acklist k" "acklist (k\<lparr>stream := st\<rparr>) = acklist k"
  by (simp_all add: NoDelay_def WndSize_def Let_def)

lemma SetMtu_acks: "ring_wf (snd_buf k) \<Longrightarrow> ring_wf (snd_queue k) \<Longrightarrow> SetMtu m k = Some (r, k') \<Longrightarrow> acklist k' = acklist k"
  using SetMtu_eq [of k m] by (auto simp: SetMtu_def split: if_splits)

lemma kcp_exec_advance:
  assumes wf: "conn_wf k" and inv: "ends H G out k" "sound H p k" and len: "length G < 2 ^ 31" "unat (rcv_nxt p) \<le> length H"
    and adm: "within_buffers x" and d: "\<forall>b pt nd. x = Op_Input b pt nd \<longrightarrow> packets_true G p [b]"
    and x: "\<forall>b. x \<noteq> Op_Send b" "\<forall>n. x \<noteq> Op_Recv n" and E: "kcp_exec clk x k = Some k'"
  shows "advances H p k k'"
proof -
  have w: "kcp_wf (buffer_len k) k" "ring_wf (snd_buf k)" "ring_wf (snd_queue k)"
    using wf by (simp_all add: conn_wf_def kcp_wf_def snd_wf_def inflight_wf_def)
  have quiet: "advances H p k y" if "same_send k y \<and> same_recv k y \<and> acklist y = acklist k" for y
    using that sound_same [OF inv(2), of y] advance_quiet inv(2) by (simp add: same_acks_def)
  show ?thesis
  proof (cases x)
    case (Op_Input b pt nd)
    then show ?thesis using E adm d Input_advance [OF w(1) inv len(1) _ _ len(2), of b clk pt nd] by auto
  next
    case (Op_flush ft)
    then show ?thesis using E flush_advance [OF w(1) inv] by auto
  next
    case Op_Update
    then show ?thesis using E Update_advance [OF w(1) inv] by simp
  next
    case (Op_SetMtu m)
    then obtain r where "SetMtu m k = Some (r, k')" using E by auto
    then show ?thesis using quiet SetMtu_same [OF w(2,3)] SetMtu_acks [OF w(2,3)] by blast
  next
    case Op_ResetRTO
    then show ?thesis using E ResetRTO_keeps [OF w(2) inv(2)] advance_quiet inv(2) by auto
  qed (use E x quiet config_same config_acks in auto)
qed

lemma ep_exec_sound:
  assumes inv: "ep_inv G e" and snd: "sound (ep_hist e) p (ep_kcp e)" and len: "length G < 2 ^ 31"
    and nxt: "unat (rcv_nxt p) \<le> length (ep_hist e)" and adm: "within_buffers x"
    and d: "\<forall>b pt nd. x = Op_Input b pt nd \<longrightarrow> packets_true G p [b]"
    and E: "ep_exec clk x e = Some e'" and len': "length (ep_hist e') < 2 ^ 31"
  shows "gains (ep_kcp e) (ep_kcp e') \<and> sound (ep_hist e') p (ep_kcp e')"
proof -
  let ?k = "ep_kcp e" and ?H = "ep_hist e"
  have i: "conn_wf ?k" "ends ?H G (ep_out e) ?k" using inv by (simp_all add: ep_inv_def)
  consider (send) b where "x = Op_Send b" | (recv) n where "x = Op_Recv n"
    | (other) "\<forall>b. x \<noteq> Op_Send b" "\<forall>n. x \<noteq> Op_Recv n" by blast
  then show ?thesis
  proof cases
    case send
    then obtain r k' where S: "Send b ?k = Some (r, k')" "r \<noteq> - 2" "e' = e\<lparr>ep_kcp := k', ep_in := ep_in e @ b\<rparr>"
      using E by (auto split: option.splits if_splits)
    have w: "kcp_wf (buffer_len ?k) ?k" "unat (mss ?k) \<le> maxPacketSize" using i(1) by (simp_all add: conn_wf_def)
    have "k' = ?k \<or> send_effect b ?k r k'" using Send_wf [OF w, of b] S(1,2) by (auto simp: send_effect_def)
    then have "same_acks ?k k' \<and> snd_nxt k' = snd_nxt ?k \<and> snd_buf k' = snd_buf ?k \<and> sent k' = sent ?k"
      by (auto simp: send_effect_def same_recv_def same_acks_def)
    then show ?thesis using snd same_acks_gains [of ?k k'] packets_true_mono [of ?H ?k "sent ?k" k' "[]"] S(3)
      by (simp add: sound_def kept_def)
  next
    case recv
    then obtain r bs k' where R: "Recv n ?k = Some (r, bs, k')" "e' = e\<lparr>ep_kcp := k', ep_out := ep_out e @ bs\<rparr>"
      using E by auto
    have l: "length G < 2 ^ 32" using len by simp
    have "rcv_wf ?k" "rcv_inv G (ep_out e) ?k" using i by (simp_all add: conn_wf_def kcp_wf_def ends_def)
    note g = Recv_gains [OF this l R(1)] and s = Recv_inv(2) [OF this l R(1)]
    have "acks_ok k'" using g acks_ok_gains snd by (auto simp: sound_def)
    then show ?thesis using g s snd packets_true_mono [of ?H ?k "sent ?k" k' "[]"] R(2)
      by (simp add: sound_def kept_def same_send_def)
  next
    case other
    then obtain k' where k': "kcp_exec clk x ?k = Some k'" "e' = e\<lparr>ep_kcp := k', ep_hist := ?H @ numbered ?k k'\<rparr>"
      using E by (cases x) auto
    have "advances ?H p ?k k'" using kcp_exec_advance [OF i snd len nxt adm d other k'(1)] .
    then show ?thesis using len' by (simp add: advances_def k'(2))
  qed
qed

section \<open>Both ends\<close>

lemma sound_mono: "sound H p k \<Longrightarrow> gains p p' \<Longrightarrow> sound H p' k"
  unfolding sound_def using kept_gains by blast

lemma peer_nxt: "ep_inv G e \<Longrightarrow> length G < 2 ^ 31 \<Longrightarrow> unat (rcv_nxt (ep_kcp e)) \<le> length G"
  using rcv_nxt_small by (auto simp: ep_inv_def ends_def)

lemma new_endpoint_sound: "sound [] p (ep_kcp (new_endpoint c))"
  by (simp add: sound_def kept_def acks_ok_def packets_true_def new_endpoint_def NewKCP_def)

text \<open>A step at one end, with the other at rest.\<close>

lemma end_step:
  assumes e: "ep_inv (ep_hist q) e" "sound (ep_hist e) (ep_kcp q) (ep_kcp e)" and q: "ep_inv (ep_hist e) q" "sound (ep_hist q) (ep_kcp e) (ep_kcp q)"
    and len: "length (ep_hist q) < 2 ^ 31" "length (ep_hist e') < 2 ^ 31"
    and x: "within_buffers x" "delivers q x" "ep_exec clk x e = Some e'"
  shows "sound (ep_hist e') (ep_kcp q) (ep_kcp e') \<and> sound (ep_hist q) (ep_kcp e') (ep_kcp q)"
proof -
  obtain X where X: "ep_hist e' = ep_hist e @ X" using hist_grows x(3) by blast
  then have n: "unat (rcv_nxt (ep_kcp q)) \<le> length (ep_hist e)" using peer_nxt [OF q(1)] len(2) by simp
  have "packets_true (ep_hist q) (ep_kcp q) (sent (ep_kcp q))" using q(2) by (simp add: sound_def)
  then have "\<forall>d pt nd. x = Op_Input d pt nd \<longrightarrow> packets_true (ep_hist q) (ep_kcp q) [d]" using x(2) by (auto simp: packets_true_def)
  from ep_exec_sound [OF e len(1) n x(1) this x(3) len(2)] show ?thesis using sound_mono q(2) by blast
qed

lemma net_sound:
  "net_reach clka clkb c a b \<Longrightarrow> length (ep_hist a) < 2 ^ 31 \<Longrightarrow> length (ep_hist b) < 2 ^ 31 \<Longrightarrow>
     sound (ep_hist a) (ep_kcp b) (ep_kcp a) \<and> sound (ep_hist b) (ep_kcp a) (ep_kcp b)"
proof (induction rule: net_reach.induct)
  case net_start
  have "ep_hist (new_endpoint c) = []" by (simp add: new_endpoint_def)
  then show ?case using new_endpoint_sound by simp
next
  case (net_left a b x a')
  then obtain X where X: "ep_hist a' = ep_hist a @ X" using hist_grows by blast
  then have "sound (ep_hist a) (ep_kcp b) (ep_kcp a)" "sound (ep_hist b) (ep_kcp a) (ep_kcp b)" using net_left by simp_all
  moreover have "ep_inv (ep_hist b) a" "ep_inv (ep_hist a) b" using net_inv [OF net_left.hyps(1)] X net_left.prems by simp_all
  ultimately show ?case using end_step net_left by blast
next
  case (net_right a b x b')
  then obtain X where X: "ep_hist b' = ep_hist b @ X" using hist_grows by blast
  then have "sound (ep_hist a) (ep_kcp b) (ep_kcp a)" "sound (ep_hist b) (ep_kcp a) (ep_kcp b)" using net_right by simp_all
  moreover have "ep_inv (ep_hist b) a" "ep_inv (ep_hist a) b" using net_inv [OF net_right.hyps(1)] X net_right.prems by simp_all
  ultimately show ?case using end_step net_right by blast
qed

text \<open>Where the piece with number \<open>i\<close> of end \<open>e\<close> is: kept for retransmission, delivered to the receive queue of the
  peer \<open>q\<close>, or waiting there for earlier ones.\<close>

definition accounted :: "endpoint \<Rightarrow> endpoint \<Rightarrow> nat \<Rightarrow> bool" where
  "accounted e q i \<longleftrightarrow>
     (\<exists>s\<in>set (ring_list (snd_buf (ep_kcp e))). seg_acked s \<noteq> 1 \<and> seg_sn s = of_nat i \<and> piece s = ep_hist e ! i) \<or>
     of_nat i < rcv_nxt (ep_kcp q) \<or>
     (\<exists>s\<in>set (sh_segments (rcv_buf (ep_kcp q))). seg_sn s = of_nat i \<and> piece s = ep_hist e ! i)"

lemma sound_accounted:
  assumes "sound (ep_hist e) (ep_kcp q) (ep_kcp e)" "ep_inv G e" "ep_inv (ep_hist e) q" "i < length (ep_hist e)" "length (ep_hist e) < 2 ^ 31"
  shows "accounted e q i"
proof -
  have piece: "piece s = ep_hist e ! i" if "carried (ep_hist e) s" "seg_sn s = of_nat i" for s
    using that assms(4,5) by (simp add: carried_def)
  have "has_sn (ep_kcp q) (of_nat i) \<or> of_nat i \<in> open_sns (ring_list (snd_buf (ep_kcp e)))"
    using assms(1,4) by (simp add: sound_def kept_def)
  then consider (flight) s where "s \<in> set (ring_list (snd_buf (ep_kcp e)))" "seg_acked s \<noteq> 1" "seg_sn s = of_nat i"
    | (nxt) "of_nat i < rcv_nxt (ep_kcp q)" | (heap) s where "s \<in> set (sh_segments (rcv_buf (ep_kcp q)))" "seg_sn s = of_nat i"
    by (force simp: has_sn_def open_sns_def)
  then show ?thesis
  proof cases
    case flight
    then have "carried (ep_hist e) s" using assms(2) by (auto simp: ep_inv_def ends_def snd_inv_def)
    then show ?thesis using flight piece by (auto simp: accounted_def)
  next
    case heap
    then have "carried (ep_hist e) s" using assms(3) by (auto simp: ep_inv_def ends_def rcv_inv_def)
    then show ?thesis using heap piece by (auto simp: accounted_def)
  qed (simp add: accounted_def)
qed

text \<open>With nothing waiting at the sender and no gap at the receiver, all has arrived.\<close>

lemma drained:
  assumes acc: "\<forall>i<length (ep_hist e). accounted e q i" and e: "ep_inv G e" and q: "ep_inv (ep_hist e) q"
    and len: "length (ep_hist e) < 2 ^ 31" and none: "WaitSnd (ep_kcp e) = 0" "sh_segments (rcv_buf (ep_kcp q)) = []"
  shows "ep_out q @ msg_bytes (ring_list (rcv_queue (ep_kcp q))) = ep_in e"
proof -
  let ?H = "ep_hist e"
  have empty: "ring_list (snd_buf (ep_kcp e)) = []" "ring_list (snd_queue (ep_kcp e)) = []"
    using none(1) by (simp_all add: WaitSnd_def flip: length_0_conv length_ring_list)
  obtain n where n: "n \<le> length ?H" "rcv_nxt (ep_kcp q) = of_nat n"
      "ep_out q @ msg_bytes (ring_list (rcv_queue (ep_kcp q))) = concat (map snd (take n ?H))"
    using q by (auto simp: ep_inv_def ends_def rcv_inv_def)
  have "\<not> n < length ?H"
  proof
    assume "n < length ?H"
    then have "of_nat n < rcv_nxt (ep_kcp q)" using acc none(2) empty(1) by (auto simp: accounted_def)
    then show False by (simp add: n(2))
  qed
  then show ?thesis using n e empty(2) by (simp add: ep_inv_def)
qed

text \<open>C2. Nothing is lost. Whatever the applications and the network do, every segment one end has numbered is still
  kept for retransmission there, or has been delivered to the other end's queue, or waits there for earlier ones; and
  once \<^verbatim>\<open>WaitSnd\<close> is 0 and the receiver has no gap, what was received and what is ready to be read is exactly what was sent.\<close>

theorem nothing_lost:
  assumes "net_reach clka clkb c a b" "length (ep_hist a) < 2 ^ 31" "length (ep_hist b) < 2 ^ 31"
  shows "(\<forall>i<length (ep_hist a). accounted a b i) \<and> (\<forall>i<length (ep_hist b). accounted b a i) \<and>
    (WaitSnd (ep_kcp a) = 0 \<and> sh_segments (rcv_buf (ep_kcp b)) = [] \<longrightarrow>
      ep_out b @ msg_bytes (ring_list (rcv_queue (ep_kcp b))) = ep_in a)"
proof -
  have i: "ep_inv (ep_hist b) a" "ep_inv (ep_hist a) b" using net_inv [OF assms(1)] assms(2,3) by simp_all
  have s: "sound (ep_hist a) (ep_kcp b) (ep_kcp a)" "sound (ep_hist b) (ep_kcp a) (ep_kcp b)" using net_sound [OF assms] by auto
  have "(\<forall>i<length (ep_hist a). accounted a b i) \<and> (\<forall>i<length (ep_hist b). accounted b a i)"
    using sound_accounted [OF s(1) i] sound_accounted [OF s(2) i(2,1)] assms(2,3) by blast
  then show ?thesis using drained [OF _ i assms(2)] by blast
qed

text \<open>The right end of the earlier run flushes its acknowledgement, which reaches the left end.\<close>

definition acked_run :: "(endpoint \<times> endpoint) option" where
  "acked_run = do {
     (a, b) \<leftarrow> demo_run;
     b \<leftarrow> ep_exec demo_clock (Op_flush IKCP_FLUSH_FULL) b;
     if sent (ep_kcp b) = [] \<or> maxPacketSize < length (hd (sent (ep_kcp b))) then None
     else do {
       a \<leftarrow> ep_exec demo_clock (Op_Input (hd (sent (ep_kcp b))) IKCP_PACKET_REGULAR False) a;
       Some (a, b) } }"

lemma acked_run_eval:
  "map_option (\<lambda>(a, b). (length (ep_hist a), length (ep_hist b), WaitSnd (ep_kcp a), sh_segments (rcv_buf (ep_kcp b)))) acked_run =
     Some (1, 0, 0, [])"
  by code_simp

lemma acked_reach:
  assumes "acked_run = Some (a, b)"
  shows "net_reach demo_clock demo_clock 5 a b"
proof -
  obtain a1 b1 where s: "demo_run = Some (a1, b1)" "ep_exec demo_clock (Op_flush IKCP_FLUSH_FULL) b1 = Some b"
      "sent (ep_kcp b) \<noteq> []" "length (hd (sent (ep_kcp b))) \<le> maxPacketSize"
      "ep_exec demo_clock (Op_Input (hd (sent (ep_kcp b))) IKCP_PACKET_REGULAR False) a1 = Some a"
    using assms unfolding acked_run_def
    by (auto simp: bind_eq_Some_conv not_less simp del: ep_exec.simps split: if_splits)
  have "net_reach demo_clock demo_clock 5 a1 b" by (rule net_right [OF demo_reach [OF s(1)] _ _ s(2)]) simp_all
  then show ?thesis by (rule net_left [OF _ _ _ s(5)]) (simp_all add: s(3,4))
qed

theorem nothing_lost_witness:
  "\<exists>a b. acked_run = Some (a, b) \<and> WaitSnd (ep_kcp a) = 0 \<and> accounted a b 0 \<and>
     ep_out b @ msg_bytes (ring_list (rcv_queue (ep_kcp b))) = ep_in a"
proof -
  obtain a b where r: "acked_run = Some (a, b)" "length (ep_hist a) = 1" "length (ep_hist b) = 0"
      "WaitSnd (ep_kcp a) = 0" "sh_segments (rcv_buf (ep_kcp b)) = []"
    using acked_run_eval by (auto simp del: length_0_conv)
  then show ?thesis using nothing_lost [OF acked_reach [OF r(1)]] by auto
qed

end
