(* ===== verification/Auto_Tune.thy ===== *)
theory Auto_Tune
  imports Prelude "HOL-Library.Multiset"
begin

text \<open>
  The FEC parameter detection of \<^verbatim>\<open>autotune.go\<close>: a ring of the last 258 packet kinds with their
  sequence numbers, and \<^verbatim>\<open>FindPeriod\<close>, which looks for one complete pulse in it.

  The lemmas show that the ring holds the most recent samples in order, that a period found
  is the width of a gap-free pulse really received, and that on the packets of a peer with
  fixed parameters, lost, duplicated and reordered in any way, the period can only be the
  peer's parameter. The sort of \<^verbatim>\<open>sort.Slice\<close> is modelled by insertion; any other order of equal
  elements gives the same result, because equal numbers with unequal kinds are discarded.
\<close>

section \<open>Samples\<close>

definition maxAutoTuneSamples :: nat where "maxAutoTuneSamples = 258"

record pulse =
  pulse_bit :: bool
  pulse_seq :: u32

record autoTune =
  at_pulses :: "pulse list"
  at_head :: nat
  at_tail :: nat
  at_count :: nat

definition zero_autoTune :: autoTune where
  "zero_autoTune = \<lparr>at_pulses = replicate maxAutoTuneSamples \<lparr>pulse_bit = False, pulse_seq = 0\<rparr>,
     at_head = 0, at_tail = 0, at_count = 0\<rparr>"

definition autoTune_Sample :: "bool \<Rightarrow> u32 \<Rightarrow> autoTune \<Rightarrow> autoTune" where
  "autoTune_Sample b n t =
     (let t = t\<lparr>at_pulses := (at_pulses t)[at_tail t := \<lparr>pulse_bit = b, pulse_seq = n\<rparr>],
                at_tail := (at_tail t + 1) mod maxAutoTuneSamples\<rparr>
      in if at_count t < maxAutoTuneSamples then t\<lparr>at_count := at_count t + 1\<rparr>
         else t\<lparr>at_head := (at_head t + 1) mod maxAutoTuneSamples\<rparr>)"

definition tune_samples :: "autoTune \<Rightarrow> pulse list" where
  "tune_samples t = map (\<lambda>i. at_pulses t ! ((at_head t + i) mod maxAutoTuneSamples)) [0..<at_count t]"

lemma maxAutoTuneSamples_pos [simp]: "0 < maxAutoTuneSamples"
  by (simp add: maxAutoTuneSamples_def)

section \<open>FindPeriod\<close>

text \<open>\<^verbatim>\<open>sort.Slice\<close>: each element moves left past the ones it is less than.\<close>

fun insert_less :: "('a \<Rightarrow> 'a \<Rightarrow> bool) \<Rightarrow> 'a \<Rightarrow> 'a list \<Rightarrow> 'a list" where
  "insert_less lt x [] = [x]"
| "insert_less lt x (y # ys) = (if lt x y then x # y # ys else y # insert_less lt x ys)"

definition sort_Slice :: "('a \<Rightarrow> 'a \<Rightarrow> bool) \<Rightarrow> 'a list \<Rightarrow> 'a list" where
  "sort_Slice lt xs = fold (insert_less lt) xs []"

definition pulse_less :: "pulse \<Rightarrow> pulse \<Rightarrow> bool" where
  "pulse_less p q \<longleftrightarrow> sint (itimediff (pulse_seq p) (pulse_seq q)) < 0"

text \<open>Runs of one sequence number become one sample, or none when their kinds conflict.\<close>

function collapse :: "pulse list \<Rightarrow> pulse list" where
  "collapse [] = []"
| "collapse (p # ps) =
     (let same = takeWhile (\<lambda>q. pulse_seq q = pulse_seq p) ps;
          rest = dropWhile (\<lambda>q. pulse_seq q = pulse_seq p) ps
      in if list_ex (\<lambda>q. pulse_bit q \<noteq> pulse_bit p) same then collapse rest else p # collapse rest)"
  by pat_completeness auto
termination
  by (relation "measure length") (auto simp: le_imp_less_Suc length_dropWhile_le)

fun find_right :: "bool \<Rightarrow> u32 \<Rightarrow> pulse \<Rightarrow> pulse list \<Rightarrow> int option" where
  "find_right b left prev [] = None"
| "find_right b left prev (q # qs) =
     (if pulse_seq prev + 1 \<noteq> pulse_seq q then None
      else if pulse_bit q \<noteq> b then Some (sint (itimediff (pulse_seq q) left))
      else find_right b left q qs)"

fun find_left :: "bool \<Rightarrow> pulse list \<Rightarrow> int" where
  "find_left b (p # q # qs) =
     (if pulse_bit p = b \<or> pulse_bit q \<noteq> b \<or> pulse_seq p + 1 \<noteq> pulse_seq q then find_left b (q # qs)
      else case find_right b (pulse_seq q) q qs of Some d \<Rightarrow> d | None \<Rightarrow> find_left b (q # qs))"
| "find_left b _ = - 1"

definition FindPeriod :: "bool \<Rightarrow> autoTune \<Rightarrow> int" where
  "FindPeriod b t =
     (if at_count t < 3 then - 1
      else find_left b (collapse (sort_Slice pulse_less (tune_samples t))))"

section \<open>The ring of samples\<close>

definition tune_wf :: "autoTune \<Rightarrow> bool" where
  "tune_wf t \<longleftrightarrow> length (at_pulses t) = maxAutoTuneSamples \<and> at_head t < maxAutoTuneSamples \<and>
     at_count t \<le> maxAutoTuneSamples \<and> at_tail t = (at_head t + at_count t) mod maxAutoTuneSamples"

lemma zero_autoTune_wf: "tune_wf zero_autoTune" "tune_samples zero_autoTune = []"
  by (simp_all add: tune_wf_def zero_autoTune_def tune_samples_def maxAutoTuneSamples_def)

lemma mod_inj_range:
  assumes "i < n" "j < n" "(h + i) mod n = (h + j) mod (n :: nat)"
  shows "i = j"
proof -
  have eq: "a = b" if "a \<le> b" "b < n" "(h + a) mod n = (h + b) mod n" for a b
    using that mod_eq_dvd_iff_nat [of "h + a" "h + b" n] by (metis add_diff_cancel_left diff_is_0_eq dvd_imp_le le_antisym add_le_mono le_refl not_le less_imp_diff_less gr0I)
  show ?thesis using eq [of i j] eq [of j i] assms by (cases "i \<le> j") auto
qed

lemma tail_fresh:
  assumes "tune_wf t" "i < at_count t" "at_count t < maxAutoTuneSamples"
  shows "(at_head t + i) mod maxAutoTuneSamples \<noteq> at_tail t"
  using assms mod_inj_range [of i maxAutoTuneSamples "at_count t" "at_head t"]
  by (auto simp: tune_wf_def)

lemma Sample_wf: "tune_wf t \<Longrightarrow> tune_wf (autoTune_Sample b n t)"
  by (auto simp: tune_wf_def autoTune_Sample_def Let_def mod_simps maxAutoTuneSamples_def)

lemma Sample_room:
  assumes t: "tune_wf t" and room: "at_count t < maxAutoTuneSamples"
  shows "tune_samples (autoTune_Sample b n t) = tune_samples t @ [\<lparr>pulse_bit = b, pulse_seq = n\<rparr>]"
proof -
  have "at_tail t < length (at_pulses t)" "at_tail t = (at_head t + at_count t) mod maxAutoTuneSamples"
    using t by (simp_all add: tune_wf_def maxAutoTuneSamples_def)
  then show ?thesis
    using room tail_fresh [OF t _ room, THEN not_sym]
    by (simp add: tune_samples_def autoTune_Sample_def Let_def)
qed

lemma Sample_full:
  assumes t: "tune_wf t" and full: "\<not> at_count t < maxAutoTuneSamples"
  shows "tune_samples (autoTune_Sample b n t) = tl (tune_samples t) @ [\<lparr>pulse_bit = b, pulse_seq = n\<rparr>]"
proof (rule nth_equalityI)
  have c: "at_count t = maxAutoTuneSamples" and h: "at_head t < maxAutoTuneSamples"
    and l: "length (at_pulses t) = maxAutoTuneSamples" and tl: "at_tail t = at_head t"
    using t full by (simp_all add: tune_wf_def)
  show len: "length (tune_samples (autoTune_Sample b n t)) =
      length (tl (tune_samples t) @ [\<lparr>pulse_bit = b, pulse_seq = n\<rparr>])"
    using c by (simp add: tune_samples_def autoTune_Sample_def Let_def maxAutoTuneSamples_def)
  fix i assume "i < length (tune_samples (autoTune_Sample b n t))"
  then have i: "i < maxAutoTuneSamples"
    using c by (simp add: tune_samples_def autoTune_Sample_def Let_def)
  have "(Suc (at_head t) mod maxAutoTuneSamples + i) mod maxAutoTuneSamples
      = (at_head t + Suc i) mod maxAutoTuneSamples"
    by (simp add: mod_simps)
  moreover have "(at_head t + Suc i) mod maxAutoTuneSamples = at_head t \<longleftrightarrow> Suc i = maxAutoTuneSamples"
    using mod_inj_range [of "Suc i" maxAutoTuneSamples 0 "at_head t"] h i
    by (cases "Suc i = maxAutoTuneSamples") auto
  ultimately show "tune_samples (autoTune_Sample b n t) ! i =
      (tl (tune_samples t) @ [\<lparr>pulse_bit = b, pulse_seq = n\<rparr>]) ! i"
    using c h l tl i
    by (auto simp: tune_samples_def autoTune_Sample_def Let_def nth_append nth_tl nth_list_update)
qed

lemma length_tune_samples: "tune_wf t \<Longrightarrow> length (tune_samples t) \<le> maxAutoTuneSamples"
  by (simp add: tune_samples_def tune_wf_def)

section \<open>A period found is a pulse received\<close>

abbreviation sample :: "bool \<Rightarrow> u32 \<Rightarrow> pulse" where
  "sample b n \<equiv> \<lparr>pulse_bit = b, pulse_seq = n\<rparr>"

lemma pulse_eta: "sample (pulse_bit p) (pulse_seq p) = p"
  by simp

lemma set_insert_less [simp]: "set (insert_less lt x xs) = insert x (set xs)"
  by (induction xs) auto

lemma length_insert_less [simp]: "length (insert_less lt x xs) = Suc (length xs)"
  by (induction xs) auto

lemma set_fold_insert_less: "set (fold (insert_less lt) xs acc) = set xs \<union> set acc"
  by (induction xs arbitrary: acc) auto

lemma length_fold_insert_less: "length (fold (insert_less lt) xs acc) = length xs + length acc"
  by (induction xs arbitrary: acc) auto

lemma set_sort_Slice [simp]: "set (sort_Slice lt xs) = set xs"
  by (simp add: sort_Slice_def set_fold_insert_less)

lemma length_sort_Slice [simp]: "length (sort_Slice lt xs) = length xs"
  by (simp add: sort_Slice_def length_fold_insert_less)

abbreviation skip_same :: "pulse \<Rightarrow> pulse list \<Rightarrow> pulse list" where
  "skip_same p ps \<equiv> dropWhile (\<lambda>q. pulse_seq q = pulse_seq p) ps"

lemma collapse_Cons:
  "collapse (p # ps) =
     (if \<exists>q\<in>set (takeWhile (\<lambda>q. pulse_seq q = pulse_seq p) ps). pulse_bit q \<noteq> pulse_bit p
      then collapse (skip_same p ps) else p # collapse (skip_same p ps))"
  by (simp add: Let_def list_ex_iff)

lemma collapse_induct [case_names Nil Cons]:
  assumes "P []" and "\<And>p ps. P (skip_same p ps) \<Longrightarrow> P (p # ps)"
  shows "P ps"
proof (induction ps rule: length_induct)
  case (1 ps)
  have "length (skip_same p qs) < Suc (length qs)" for p qs
    by (simp add: le_imp_less_Suc length_dropWhile_le)
  with 1 assms show ?case by (cases ps) auto
qed

declare collapse.simps(2) [simp del]

lemma set_collapse: "set (collapse ps) \<subseteq> set ps"
  by (induction ps rule: collapse_induct) (auto simp: collapse_Cons dest: set_dropWhileD)

lemma length_collapse: "length (collapse ps) \<le> length ps"
proof (induction ps rule: collapse_induct)
  case (Cons p ps)
  with length_dropWhile_le [of "\<lambda>q. pulse_seq q = pulse_seq p" ps] show ?case
    by (simp add: collapse_Cons)
qed simp

text \<open>\<open>ps\<close> holds the \<open>n\<close> samples of kind \<open>b\<close> from \<open>a\<close> on, and samples of the other kind next to both ends.\<close>

definition has_pulse :: "bool \<Rightarrow> u32 \<Rightarrow> nat \<Rightarrow> pulse set \<Rightarrow> bool" where
  "has_pulse b a n P \<longleftrightarrow> sample (\<not> b) (a - 1) \<in> P \<and> (\<forall>i<n. sample b (a + of_nat i) \<in> P) \<and>
     sample (\<not> b) (a + of_nat n) \<in> P"

lemma has_pulse_mono: "has_pulse b a n P \<Longrightarrow> P \<subseteq> Q \<Longrightarrow> has_pulse b a n Q"
  by (auto simp: has_pulse_def)

lemma has_pulse_grow:
  "sample (\<not> b) (a - 1) \<in> P \<Longrightarrow> sample b a \<in> P \<Longrightarrow> \<forall>i<m. sample b (a + 1 + of_nat i) \<in> P \<Longrightarrow>
     sample (\<not> b) (a + 1 + of_nat m) \<in> P \<Longrightarrow> has_pulse b a (Suc m) P"
  unfolding has_pulse_def by (auto simp: less_Suc_eq_0_disj algebra_simps)

lemma find_right_run:
  "find_right b left p qs = Some d \<Longrightarrow>
     \<exists>m<length qs. (\<forall>i<m. sample b (pulse_seq p + 1 + of_nat i) \<in> set qs) \<and>
       sample (\<not> b) (pulse_seq p + 1 + of_nat m) \<in> set qs \<and>
       d = sint (itimediff (pulse_seq p + 1 + of_nat m) left)"
proof (induction qs arbitrary: p)
  case (Cons q qs)
  show ?case
  proof (cases "pulse_bit q = b")
    case False
    with Cons.prems have "pulse_seq q = pulse_seq p + 1" "d = sint (itimediff (pulse_seq q) left)"
      by (auto split: if_splits)
    with False pulse_eta [of q] show ?thesis by (intro exI [of _ 0]) auto
  next
    case True
    with Cons.prems have q: "pulse_seq q = pulse_seq p + 1" and r: "find_right b left q qs = Some d"
      by (auto split: if_splits)
    obtain m where m: "m < length qs" "\<forall>i<m. sample b (pulse_seq q + 1 + of_nat i) \<in> set qs"
        "sample (\<not> b) (pulse_seq q + 1 + of_nat m) \<in> set qs"
        "d = sint (itimediff (pulse_seq q + 1 + of_nat m) left)"
      using Cons.IH [OF r] by blast
    have "sample b (pulse_seq p + 1 + of_nat i) \<in> set (q # qs)" if "i < Suc m" for i
      using that m(2) True q pulse_eta [of q]
      by (cases i) (auto simp: algebra_simps)
    with m q show ?thesis by (intro exI [of _ "Suc m"]) (auto simp: algebra_simps)
  qed
qed simp

definition pulse_or_none :: "bool \<Rightarrow> pulse list \<Rightarrow> int \<Rightarrow> bool" where
  "pulse_or_none b ps r \<longleftrightarrow> r = - 1 \<or>
     (\<exists>a n. 0 < n \<and> n + 2 \<le> length ps \<and> r = int n \<and> has_pulse b a n (set ps))"

lemma pulse_or_none_mono:
  assumes "pulse_or_none b ps r" "set ps \<subseteq> set qs" "length ps \<le> length qs"
  shows "pulse_or_none b qs r"
proof (cases "r = - 1")
  case False
  with assms(1) obtain a n where "0 < n" "n + 2 \<le> length ps" "r = int n" "has_pulse b a n (set ps)"
    by (auto simp: pulse_or_none_def)
  with assms(2,3) show ?thesis
    unfolding pulse_or_none_def by (intro disjI2 exI [of _ a] exI [of _ n]) (auto elim: has_pulse_mono)
qed (simp add: pulse_or_none_def)

lemma find_left_pulse: "length ps < 2 ^ 31 \<Longrightarrow> pulse_or_none b ps (find_left b ps)"
proof (induction b ps rule: find_left.induct)
  case (1 b p q qs)
  have rest: "pulse_or_none b (q # qs) r \<Longrightarrow> pulse_or_none b (p # q # qs) r" for r
    by (erule pulse_or_none_mono) auto
  show ?case
  proof (cases "pulse_bit p = b \<or> pulse_bit q \<noteq> b \<or> pulse_seq p + 1 \<noteq> pulse_seq q")
    case True
    then show ?thesis using 1 by (auto intro!: rest)
  next
    case edge: False
    show ?thesis
    proof (cases "find_right b (pulse_seq q) q qs")
      case None
      then show ?thesis using edge 1 by (auto intro!: rest)
    next
      case (Some d)
      then obtain m where m: "m < length qs" "\<forall>i<m. sample b (pulse_seq q + 1 + of_nat i) \<in> set qs"
          "sample (\<not> b) (pulse_seq q + 1 + of_nat m) \<in> set qs"
          "d = sint (itimediff (pulse_seq q + 1 + of_nat m) (pulse_seq q))"
        using find_right_run by blast
      have "pulse_seq q - 1 = pulse_seq p" using edge by (simp add: eq_diff_eq [symmetric])
      with edge have "sample (\<not> b) (pulse_seq q - 1) = p" "sample b (pulse_seq q) = q"
        using pulse_eta [of p] pulse_eta [of q] by auto
      with m have "has_pulse b (pulse_seq q) (Suc m) (set (p # q # qs))"
        by (intro has_pulse_grow) auto
      moreover have "itimediff (pulse_seq q + 1 + of_nat m) (pulse_seq q) = of_nat (Suc m)"
        by (simp add: itimediff_def)
      with m 1 have "d = int (Suc m)"
        by (simp add: sint_u32_cases del: of_nat_Suc of_nat_unat)
      ultimately show ?thesis
        using m(1) edge Some unfolding pulse_or_none_def
        by (intro disjI2 exI [of _ "pulse_seq q"] exI [of _ "Suc m"]) auto
    qed
  qed
qed (auto simp: pulse_or_none_def)

text \<open>A period reported is the width of a pulse present in the ring: that many consecutive samples
  of the kind, enclosed by a sample of the other kind on either side.\<close>

lemma FindPeriod_pulse:
  assumes t: "tune_wf t" and r: "FindPeriod b t = r" "r \<noteq> - 1"
  shows "\<exists>a n. 0 < n \<and> n \<le> 256 \<and> r = int n \<and> has_pulse b a n (set (tune_samples t))"
proof -
  let ?s = "sort_Slice pulse_less (tune_samples t)"
  have len: "length (collapse ?s) \<le> 258"
    using length_collapse [of ?s] length_tune_samples [OF t] by (simp add: maxAutoTuneSamples_def)
  then have "pulse_or_none b (collapse ?s) r"
    using r find_left_pulse [of "collapse ?s" b] by (auto simp: FindPeriod_def split: if_splits)
  then obtain a n where "0 < n" "n + 2 \<le> length (collapse ?s)" "r = int n" "has_pulse b a n (set (collapse ?s))"
    using r(2) by (auto simp: pulse_or_none_def)
  moreover from this(4) have "has_pulse b a n (set (tune_samples t))"
    by (rule has_pulse_mono) (use set_collapse [of ?s] in simp)
  ultimately show ?thesis using len by (intro exI [of _ a] exI [of _ n]) simp
qed

section \<open>A peer with fixed parameters\<close>

text \<open>The kind of the packet with FEC sequence number \<open>n\<close> when the peer sends \<open>d\<close> data and \<open>p\<close> parity shards per group.\<close>

definition peer_bit :: "nat \<Rightarrow> nat \<Rightarrow> u32 \<Rightarrow> bool" where
  "peer_bit d p n \<longleftrightarrow> unat n mod (d + p) < d"

lemma mod_run_width:
  fixes d p m n :: nat
  assumes dp: "0 < d" "0 < p"
    and left: "(\<not> b) = (m mod (d + p) < d)"
    and first: "b = (Suc m mod (d + p) < d)"
    and run: "\<And>i. i < n \<Longrightarrow> b = ((Suc m + i) mod (d + p) < d)"
    and right: "(\<not> b) = ((Suc m + n) mod (d + p) < d)"
  shows "n = (if b then d else p)"
proof -
  let ?N = "d + p"
  define w o' where "w = (if b then d else p)" and "o' = (if b then 0 else d)"
  have start: "Suc m mod ?N = o'"
  proof (cases b)
    case True
    then show ?thesis using left first dp by (simp add: o'_def mod_Suc split: if_splits)
  next
    case False
    then show ?thesis using left first dp by (simp add: o'_def mod_Suc split: if_splits)
  qed
  have pos: "(Suc m + i) mod ?N = (o' + i) mod ?N" for i
    using start by (metis mod_add_left_eq)
  have inside: "b = ((Suc m + i) mod ?N < d)" if "i < w" for i
    using that dp unfolding pos by (cases b) (simp_all add: w_def o'_def)
  have outside: "(\<not> b) = ((Suc m + w) mod ?N < d)"
    using dp unfolding pos by (cases b) (simp_all add: w_def o'_def)
  have "n = w"
  proof (cases n w rule: linorder_cases)
    case less
    with inside right show ?thesis by blast
  next
    case greater
    with run outside show ?thesis by blast
  qed
  then show ?thesis by (simp add: w_def)
qed

text \<open>Below \<open>0xffffffff\<close>, the next sequence number is the successor.\<close>

lemma pulse_width_of_peer:
  assumes dp: "0 < d" "0 < p" and n: "0 < n" and pulse: "has_pulse b a n P"
    and peer: "\<And>x. x \<in> P \<Longrightarrow> pulse_bit x = peer_bit d p (pulse_seq x) \<and> pulse_seq x < 0xffffffff"
  shows "n = (if b then d else p)"
proof -
  have nxt: "unat (x + 1) = Suc (unat x)" if "x < 0xffffffff" for x :: u32
    using that by (simp add: unat_add_u32 word_less_nat_alt)
  have l: "(\<not> b) = peer_bit d p (a - 1)" "a - 1 < 0xffffffff"
    and r: "(\<not> b) = peer_bit d p (a + of_nat n)"
    and run: "i < n \<Longrightarrow> b = peer_bit d p (a + of_nat i) \<and> a + of_nat i < 0xffffffff" for i
    using pulse peer by (fastforce simp: has_pulse_def)+
  have pos: "i \<le> n \<Longrightarrow> unat (a + of_nat i) = Suc (unat (a - 1)) + i" for i
  proof (induction i)
    case 0
    show ?case using nxt [OF l(2)] by simp
  next
    case (Suc i)
    then show ?case using nxt [of "a + of_nat i"] run [of i] by (simp add: algebra_simps)
  qed
  show ?thesis
  proof (rule mod_run_width [OF dp])
    show "(\<not> b) = (unat (a - 1) mod (d + p) < d)" using l by (simp add: peer_bit_def)
    show "b = (Suc (unat (a - 1)) mod (d + p) < d)"
      using run [OF n] pos [of 0] by (simp add: peer_bit_def)
    show "b = ((Suc (unat (a - 1)) + i) mod (d + p) < d)" if "i < n" for i
      using run [OF that] pos [of i] that by (simp add: peer_bit_def)
    show "(\<not> b) = ((Suc (unat (a - 1)) + n) mod (d + p) < d)"
      using r pos [of n] by (simp add: peer_bit_def)
  qed
qed

section \<open>A complete pulse is found\<close>

lemma sorted_insert_less:
  assumes "\<And>y. y \<in> set ys \<Longrightarrow> lt x y \<longleftrightarrow> key x < (key y :: nat)" "sorted (map key ys)"
  shows "sorted (map key (insert_less lt x ys))"
  using assms by (induction ys) auto

lemma sorted_fold_insert_less:
  assumes "\<And>x y. x \<in> set xs \<union> set ys \<Longrightarrow> y \<in> set xs \<union> set ys \<Longrightarrow> lt x y \<longleftrightarrow> key x < (key y :: nat)"
    and "sorted (map key ys)"
  shows "sorted (map key (fold (insert_less lt) xs ys))"
  using assms
proof (induction xs arbitrary: ys)
  case (Cons x xs)
  have "sorted (map key (insert_less lt x ys))"
    using Cons.prems by (intro sorted_insert_less) auto
  with Cons.prems show ?case by (auto intro!: Cons.IH)
qed simp

abbreviation seq_offset :: "u32 \<Rightarrow> pulse \<Rightarrow> nat" where
  "seq_offset s p \<equiv> unat (pulse_seq p - s)"

lemma pulse_less_offset:
  "seq_offset s p < 2 ^ 31 \<Longrightarrow> seq_offset s q < 2 ^ 31 \<Longrightarrow> pulse_less p q \<longleftrightarrow> seq_offset s p < seq_offset s q"
  unfolding pulse_less_def itimediff_less_0 diff_via_base [of "pulse_seq p" "pulse_seq q" s] by auto

lemma sorted_samples:
  assumes "\<And>x. x \<in> set xs \<Longrightarrow> seq_offset s x < 2 ^ 31"
  shows "sorted (map (seq_offset s) (sort_Slice pulse_less xs))"
  unfolding sort_Slice_def using assms
  by (intro sorted_fold_insert_less) (auto simp: pulse_less_offset [where s = s])

lemma collapse_strict:
  "sorted (map (seq_offset s) ps) \<Longrightarrow> sorted_wrt (\<lambda>p q. seq_offset s p < seq_offset s q) (collapse ps)"
proof (induction ps rule: collapse_induct)
  case (Cons p ps)
  have aft: "sorted (map (seq_offset s) (skip_same p ps))"
    using Cons.prems sorted_dropWhile [of "map (seq_offset s) ps" "\<lambda>n. n = seq_offset s p"]
    by (simp add: dropWhile_map comp_def unat_diff_inj)
  then have rest: "sorted_wrt (\<lambda>p q. seq_offset s p < seq_offset s q) (collapse (skip_same p ps))"
    by (rule Cons.IH)
  have "seq_offset s p < seq_offset s q" if q: "q \<in> set (collapse (skip_same p ps))" for q
  proof -
    have "q \<in> set (skip_same p ps)" using q set_collapse by blast
    then obtain r rs where r: "skip_same p ps = r # rs" "q \<in> set (r # rs)" by (cases "skip_same p ps") auto
    then have "pulse_seq r \<noteq> pulse_seq p" using hd_dropWhile [of "\<lambda>q. pulse_seq q = pulse_seq p" ps] by simp
    moreover have "r \<in> set ps" using r by (metis list.set_intros(1) set_dropWhileD)
    with Cons.prems have "seq_offset s p \<le> seq_offset s r" by simp
    ultimately have "seq_offset s p < seq_offset s r" by (metis le_neq_implies_less unat_diff_inj)
    also have "seq_offset s r \<le> seq_offset s q" using aft r by auto
    finally show ?thesis .
  qed
  with rest show ?case by (auto simp: collapse_Cons)
qed simp

lemma collapse_agreeing:
  "(\<And>x y. x \<in> set ps \<Longrightarrow> y \<in> set ps \<Longrightarrow> pulse_seq x = pulse_seq y \<Longrightarrow> x = y) \<Longrightarrow>
     set (collapse ps) = set ps"
proof (induction ps rule: collapse_induct)
  case (Cons p ps)
  have "q = p" if "q \<in> set (takeWhile (\<lambda>q. pulse_seq q = pulse_seq p) ps)" for q
    using that Cons.prems by (auto dest: set_takeWhileD)
  moreover have "set ps = set (takeWhile (\<lambda>q. pulse_seq q = pulse_seq p) ps) \<union> set (skip_same p ps)"
    by (metis set_append takeWhile_dropWhile_id)
  moreover have "set (collapse (skip_same p ps)) = set (skip_same p ps)"
    using Cons.prems by (intro Cons.IH) (auto dest: set_dropWhileD)
  ultimately show ?case by (auto simp: collapse_Cons)
qed simp

lemma strict_next:
  assumes "sorted_wrt (\<lambda>p q. seq_offset s p < seq_offset s q) (q # qs)"
    and "x \<in> set qs" "seq_offset s x = Suc (seq_offset s q)"
  shows "\<exists>rs. qs = x # rs"
  using assms by (cases qs) fastforce+

lemma offset_next: "unat (x - s :: u32) < 2 ^ 31 \<Longrightarrow> unat (x + 1 - s) = Suc (unat (x - s))"
  using unat_add_u32 [of "x - s" 1] by (simp add: algebra_simps)

lemma find_right_complete:
  assumes "sorted_wrt (\<lambda>p q. seq_offset s p < seq_offset s q) (q # qs)"
    and "\<forall>i<m. sample b (pulse_seq q + 1 + of_nat i) \<in> set qs"
    and "sample (\<not> b) (pulse_seq q + 1 + of_nat m) \<in> set qs"
    and "\<And>x. x \<in> set (q # qs) \<Longrightarrow> seq_offset s x < 2 ^ 31" and "m < 2 ^ 31"
  shows "find_right b left q qs \<noteq> None"
  using assms
proof (induction m arbitrary: q qs)
  case 0
  then show ?case
    using strict_next [OF 0(1), of "sample (\<not> b) (pulse_seq q + 1)"] offset_next [of "pulse_seq q" s]
    by auto
next
  case (Suc m)
  let ?x = "sample b (pulse_seq q + 1)"
  have "?x \<in> set qs" using Suc.prems(2) by (auto dest: spec [of _ 0])
  then obtain rs where qs: "qs = ?x # rs"
    using strict_next [OF Suc.prems(1), of ?x] offset_next [of "pulse_seq q" s] Suc.prems(4) by auto
  have late: "sample c (pulse_seq q + 1 + 1 + of_nat i) \<in> set rs"
    if "sample c (pulse_seq q + 1 + of_nat (Suc i)) \<in> set qs" "i \<le> m" for c i
  proof -
    have "unat (of_nat (Suc i) :: u32) \<noteq> 0" using that(2) Suc.prems(5) by (subst unat_of_nat_u32) auto
    then have "of_nat (Suc i) \<noteq> (0 :: u32)" by (metis unat_0)
    with that(1) show ?thesis by (simp add: qs algebra_simps)
  qed
  have "find_right b left ?x rs \<noteq> None"
    using Suc.prems late unfolding qs by (intro Suc.IH) auto
  then show ?case by (simp add: qs)
qed

lemma find_right_result:
  assumes "find_right b (pulse_seq q) q qs = Some d" "length qs < 2 ^ 31"
  shows "0 \<le> d"
proof -
  obtain m where "m < length qs" "d = sint (itimediff (pulse_seq q + 1 + of_nat m) (pulse_seq q))"
    using find_right_run [OF assms(1)] by blast
  moreover have "itimediff (pulse_seq q + 1 + of_nat m) (pulse_seq q) = of_nat (Suc m)"
    by (simp add: itimediff_def)
  ultimately show ?thesis
    using assms(2) by (simp add: sint_u32_cases del: of_nat_Suc of_nat_unat)
qed

lemma pulse_offsets:
  assumes "has_pulse b a n P" "\<And>x. x \<in> P \<Longrightarrow> seq_offset s x < 2 ^ 31" "i \<le> n"
  shows "unat (a + of_nat i - s) = Suc (unat (a - 1 - s)) + i"
  using assms(3)
proof (induction i)
  case 0
  show ?case using assms offset_next [of "a - 1" s] by (fastforce simp: has_pulse_def)
next
  case (Suc i)
  then have "sample b (a + of_nat i) \<in> P" using assms(1) by (simp add: has_pulse_def)
  with assms(2) have "unat (a + of_nat i - s) < 2 ^ 31" by fastforce
  from offset_next [OF this] Suc show ?case by (simp add: algebra_simps)
qed

lemma has_pulse_remove:
  assumes "has_pulse b a n (insert p P)" "p \<noteq> sample (\<not> b) (a - 1)"
    and "\<And>i c. i \<le> n \<Longrightarrow> p \<noteq> sample c (a + of_nat i)"
  shows "has_pulse b a n P"
  using assms(1,2) assms(3) [THEN not_sym] unfolding has_pulse_def by (simp add: less_imp_le)

lemma find_left_complete:
  assumes "sorted_wrt (\<lambda>p q. seq_offset s p < seq_offset s q) ps" "length ps < 2 ^ 31"
    and "\<And>x. x \<in> set ps \<Longrightarrow> seq_offset s x < 2 ^ 31"
    and "has_pulse b a (Suc n) (set ps)" "n < 2 ^ 31"
  shows "find_left b ps \<noteq> - 1"
  using assms
proof (induction b ps rule: find_left.induct)
  case (1 b p q qs)
  let ?edge = "sample (\<not> b) (a - 1)"
  have off: "unat (a + of_nat i - s) = Suc (unat (a - 1 - s)) + i" if "i \<le> Suc n" for i
    by (rule pulse_offsets [OF 1(6) _ that]) (rule 1(5))
  show ?case
  proof (cases "p = ?edge")
    case True
    have "a - 1 \<noteq> a + of_nat i" if "i \<le> Suc n" for i
      using off [OF that] by (metis add_Suc lessI not_add_less1)
    then have "p \<noteq> sample c (a + of_nat i)" if "i \<le> Suc n" for c i
      using that True by simp
    then have in_q: "sample c (a + of_nat i) \<in> set (q # qs)"
      if "i \<le> Suc n" "sample c (a + of_nat i) \<in> set (p # q # qs)" for c i
      using that by auto
    have "sample b a \<in> set (q # qs)" using in_q [of 0 b] 1(6) by (auto simp: has_pulse_def dest: spec [of _ 0])
    then obtain rs where "q # qs = sample b a # rs"
      using strict_next [OF 1(3), of "sample b a"] offset_next [of "a - 1" s] 1(5) [of p] True by auto
    then have q: "q = sample b a" by simp
    have in_qs: "sample c (a + 1 + of_nat i) \<in> set qs"
      if "i \<le> n" "sample c (a + of_nat (Suc i)) \<in> set (p # q # qs)" for c i
    proof -
      have "a + of_nat (Suc i) \<noteq> a" using off [of "Suc i"] off [of 0] that(1) by auto
      then have "sample c (a + of_nat (Suc i)) \<noteq> q" by (simp add: q)
      with in_q [of "Suc i" c] that show ?thesis by (simp add: algebra_simps)
    qed
    have "find_right b a q qs \<noteq> None"
    proof (rule find_right_complete [where s = s and m = n])
      show "\<forall>i<n. sample b (pulse_seq q + 1 + of_nat i) \<in> set qs"
        using in_qs 1(6) unfolding has_pulse_def q pulse.simps by (meson Suc_less_eq less_imp_le)
      show "sample (\<not> b) (pulse_seq q + 1 + of_nat n) \<in> set qs"
        using in_qs [OF order_refl] 1(6) unfolding has_pulse_def q pulse.simps by blast
    qed (use 1(3,5,7) in auto)
    then show ?thesis
      using True q 1(4) find_right_result [of b q qs] by auto
  next
    case False
    then have "?edge \<in> set (q # qs)" using 1(6) by (auto simp: has_pulse_def)
    then have "seq_offset s p < seq_offset s ?edge" using 1(3) by auto
    then have "p \<noteq> sample c (a + of_nat i)" if "i \<le> Suc n" for c i
      using off [OF that] by auto
    then have "has_pulse b a (Suc n) (set (q # qs))"
      using has_pulse_remove [of b a "Suc n" p "set (q # qs)"] 1(6) False by simp
    note found = this
    have tail: "sorted_wrt (\<lambda>p q. seq_offset s p < seq_offset s q) (q # qs)" "length (q # qs) < 2 ^ 31"
        "\<And>x. x \<in> set (q # qs) \<Longrightarrow> seq_offset s x < 2 ^ 31"
      using 1(3,4,5) by (simp, simp, meson list.set_intros(2))
    show ?thesis
    proof (cases "pulse_bit p = b \<or> pulse_bit q \<noteq> b \<or> pulse_seq p + 1 \<noteq> pulse_seq q")
      case True
      then show ?thesis using 1(1) [OF _ tail found 1(7)] by simp
    next
      case edge: False
      then show ?thesis
        using 1(2) [OF _ _ tail found 1(7)] find_right_result [of b q qs] 1(4)
        by (cases "find_right b (pulse_seq q) q qs") auto
    qed
  qed
qed (auto simp: has_pulse_def)

section \<open>Properties\<close>

lemma FindPeriod_peer:
  assumes t: "tune_wf t" and dp: "0 < d" "0 < p"
    and peer: "\<And>x. x \<in> set (tune_samples t) \<Longrightarrow>
      pulse_bit x = peer_bit d p (pulse_seq x) \<and> pulse_seq x < 0xffffffff"
  shows "FindPeriod b t \<in> {- 1, int (if b then d else p)}"
proof (cases "FindPeriod b t = - 1")
  case False
  then obtain a n where n: "0 < n" "FindPeriod b t = int n" "has_pulse b a n (set (tune_samples t))"
    using FindPeriod_pulse [OF t refl] by blast
  with pulse_width_of_peer [OF dp n(1,3) peer] show ?thesis by simp
qed simp

lemma FindPeriod_complete:
  assumes t: "tune_wf t"
    and agree: "\<And>x y. x \<in> set (tune_samples t) \<Longrightarrow> y \<in> set (tune_samples t) \<Longrightarrow>
      pulse_seq x = pulse_seq y \<Longrightarrow> x = y"
    and window: "\<And>x. x \<in> set (tune_samples t) \<Longrightarrow> seq_offset s x < 2 ^ 31"
    and pulse: "0 < n" "has_pulse b a n (set (tune_samples t))"
  shows "FindPeriod b t \<noteq> - 1"
proof -
  let ?s = "sort_Slice pulse_less (tune_samples t)"
  have set: "set (collapse ?s) = set (tune_samples t)"
    using agree by (subst collapse_agreeing) auto
  have len: "length (collapse ?s) < 2 ^ 31" "length (collapse ?s) \<le> at_count t"
    using length_collapse [of ?s] length_tune_samples [OF t]
    by (simp_all add: maxAutoTuneSamples_def tune_samples_def)
  have "sample (\<not> b) (a + of_nat n) \<in> set (tune_samples t)" using pulse by (simp add: has_pulse_def)
  from window [OF this] have n: "n < 2 ^ 31"
    using pulse_offsets [OF pulse(2) window, of n] by simp
  have "find_left b (collapse ?s) \<noteq> - 1"
    using pulse window len(1) n sorted_samples [of "tune_samples t" s]
    by (intro find_left_complete [of s _ b a "n - 1"]) (auto simp: set collapse_strict)
  moreover from this have "3 \<le> at_count t"
    using find_left_pulse [of "collapse ?s" b] len by (auto simp: pulse_or_none_def)
  ultimately show ?thesis by (simp add: FindPeriod_def)
qed

definition tune_stream :: "(bool \<times> u32) list \<Rightarrow> autoTune" where
  "tune_stream xs = fold (\<lambda>(b, n). autoTune_Sample b n) xs zero_autoTune"

lemma tune_stream_snoc: "tune_stream (xs @ [(b, n)]) = autoTune_Sample b n (tune_stream xs)"
  by (simp add: tune_stream_def)

lemma tune_stream_wf: "tune_wf (tune_stream xs)"
  by (induction xs rule: rev_induct) (auto simp: tune_stream_snoc Sample_wf tune_stream_def zero_autoTune_wf)

lemma length_tune_samples_count: "length (tune_samples t) = at_count t"
  by (simp add: tune_samples_def)

lemma tune_stream_samples:
  "tune_samples (tune_stream xs) =
     drop (length xs - maxAutoTuneSamples) (map (\<lambda>(b, n). sample b n) xs)"
proof (induction xs rule: rev_induct)
  case Nil
  show ?case by (simp add: tune_stream_def zero_autoTune_wf)
next
  case (snoc x xs)
  obtain b n where x: "x = (b, n)" by (cases x)
  have c: "at_count (tune_stream xs) = min (length xs) maxAutoTuneSamples"
    using arg_cong [OF snoc.IH, of length] by (simp add: length_tune_samples_count)
  show ?case
  proof (cases "length xs < maxAutoTuneSamples")
    case True
    then show ?thesis using c snoc.IH by (simp add: x tune_stream_snoc Sample_room tune_stream_wf)
  next
    case False
    then have "Suc 0 - maxAutoTuneSamples = 0" by (simp add: maxAutoTuneSamples_def)
    with False show ?thesis using c snoc.IH
      by (simp add: x tune_stream_snoc Sample_full tune_stream_wf drop_Suc Suc_diff_le tl_drop not_less)
  qed
qed

text \<open>C14. Auto-detection on the packets of a peer that sends \<open>d\<close> data and \<open>p\<close> parity shards per
  group, sampled in any order with losses and duplicates: a period found for the data (parity)
  signal is \<open>d\<close> (\<open>p\<close>) and nothing else.\<close>

theorem FindPeriod_of_peer:
  assumes "0 < d" "0 < p"
    and "\<And>c m. (c, m) \<in> set xs \<Longrightarrow> c = peer_bit d p m \<and> m < 0xffffffff"
  shows "FindPeriod b (tune_stream xs) \<in> {- 1, int (if b then d else p)}"
  using assms
  by (intro FindPeriod_peer tune_stream_wf) (auto simp: tune_stream_samples dest!: in_set_dropD)

theorem FindPeriod_of_peer_witness:
  "FindPeriod False (tune_stream [(False, 9), (True, 7), (True, 5), (False, 8)]) \<in> {- 1, 2}"
proof -
  have "FindPeriod False (tune_stream [(False, 9), (True, 7), (True, 5), (False, 8)])
      \<in> {- 1, int (if False then 3 else 2)}"
    by (rule FindPeriod_of_peer) (auto simp: peer_bit_def)
  then show ?thesis by simp
qed

text \<open>C15. Auto-detection succeeds: when the last 258 packets sampled are those of such a peer, lie inside half the
  number range and contain one complete pulse of the signal, the period found is the peer's parameter. Nothing is
  asked of earlier packets, which may come from a peer with other parameters.\<close>

theorem FindPeriod_succeeds:
  assumes "0 < d" "0 < p"
    and "\<And>c m. (c, m) \<in> set (drop (length xs - maxAutoTuneSamples) xs) \<Longrightarrow>
      c = peer_bit d p m \<and> m < 0xffffffff \<and> unat (m - s) < 2 ^ 31"
    and "0 < n" "has_pulse b a n (set (tune_samples (tune_stream xs)))"
  shows "FindPeriod b (tune_stream xs) = int (if b then d else p)"
proof -
  have peer: "pulse_bit x = peer_bit d p (pulse_seq x) \<and> pulse_seq x < 0xffffffff \<and> seq_offset s x < 2 ^ 31"
    if "x \<in> set (tune_samples (tune_stream xs))" for x
    using that assms(3) by (auto simp: tune_stream_samples drop_map)
  have "FindPeriod b (tune_stream xs) \<noteq> - 1"
    using peer assms(4,5) tune_stream_wf [of xs]
    by (intro FindPeriod_complete [of _ s n b a]) (auto intro: pulse.equality)
  with FindPeriod_peer [OF tune_stream_wf assms(1,2), of xs b] peer show ?thesis by blast
qed

theorem FindPeriod_succeeds_witness:
  "FindPeriod True (tune_stream [(True, 7), (False, 4), (True, 6), (True, 5), (True, 6), (False, 8)]) = 3"
proof -
  let ?xs = "[(True, 7), (False, 4), (True, 6), (True, 5), (True, 6), (False, 8)]"
  have pulse: "has_pulse True 5 3 (set (tune_samples (tune_stream ?xs)))"
    by (simp add: tune_stream_samples has_pulse_def maxAutoTuneSamples_def less_Suc_eq numeral_3_eq_3)
  have "c = peer_bit 3 2 m \<and> m < 0xffffffff \<and> unat (m - 0) < 2 ^ 31" if "(c, m) \<in> set (drop (length ?xs - maxAutoTuneSamples) ?xs)" for c m
    using that by (auto simp: peer_bit_def maxAutoTuneSamples_def)
  from FindPeriod_succeeds [of 3 2, OF _ _ this _ pulse] show ?thesis by simp
qed

end
