(* ===== verification/Fec_Decoder.thy ===== *)
theory Fec_Decoder
  imports Auto_Tune Snmp "HOL-Library.AList"
begin

text \<open>
  The forward error correction decoder of \<^verbatim>\<open>fec.go\<close>: packets with a sequence number and a kind,
  shard sets collected per group of \<^verbatim>\<open>shardSize\<close> numbers, detection of the peer's parameters, and
  recovery of missing data shards by the Reed-Solomon codec.

  The codec is the package \<^verbatim>\<open>klauspost/reedsolomon\<close>, which is not part of the repository: the
  definitions take its three operations as arguments. \<open>rs_new d p\<close> says that \<^verbatim>\<open>New\<close> succeeds,
  \<open>rs_reconstruct (d, p) shards\<close> is \<^verbatim>\<open>ReconstructData\<close>, a missing shard being the empty list, and
  \<open>None\<close> its error.

  The Go map of shard sets is an association list. The state keeps two ghosts: \<open>fd_pool\<close>, the
  buffers taken from \<^verbatim>\<open>defaultBufferPool\<close> and neither returned nor handed to the caller, and the
  counters \<open>fd_snmp\<close>. The decode cache is cleared before every use, so only its length is kept.
\<close>

section \<open>Packets\<close>

definition fecHeaderSize :: nat where "fecHeaderSize = 6"
definition fecHeaderSizePlus2 :: nat where "fecHeaderSizePlus2 = fecHeaderSize + 2"
definition typeData :: u16 where "typeData = 0xf1"
definition typeParity :: u16 where "typeParity = 0xf2"
definition typeOOB :: u16 where "typeOOB = 0xf3"
definition maxShardSets :: int where "maxShardSets = 3"

type_synonym fecPacket = "byte list"

definition fec_seqid :: "fecPacket \<Rightarrow> u32 option" where
  "fec_seqid bts = Uint32 bts"

definition fec_flag :: "fecPacket \<Rightarrow> u16 option" where
  "fec_flag bts = (if length bts < 4 then None else Uint16 (drop 4 bts))"

definition fec_data :: "fecPacket \<Rightarrow> byte list option" where
  "fec_data bts = (if length bts < 6 then None else Some (drop 6 bts))"

section \<open>Shard sets\<close>

record shardHeap =
  sh_elements :: "fecPacket list"
  sh_marks :: "u32 set"

definition newShardHeap :: shardHeap where
  "newShardHeap = \<lparr>sh_elements = [], sh_marks = {}\<rparr>"

definition shardHeap_Len :: "shardHeap \<Rightarrow> nat" where
  "shardHeap_Len h = length (sh_elements h)"

text \<open>The decoder calls these methods directly and not through \<^verbatim>\<open>container/heap\<close>: the set is a stack.\<close>

definition shardHeap_Push :: "fecPacket \<Rightarrow> shardHeap \<Rightarrow> shardHeap option" where
  "shardHeap_Push x h = do {
     n \<leftarrow> fec_seqid x;
     Some (h\<lparr>sh_elements := sh_elements h @ [x], sh_marks := insert n (sh_marks h)\<rparr>) }"

definition shardHeap_Pop :: "shardHeap \<Rightarrow> (fecPacket \<times> shardHeap) option" where
  "shardHeap_Pop h =
     (if sh_elements h = [] then None
      else let x = last (sh_elements h) in do {
        n \<leftarrow> fec_seqid x;
        Some (x, h\<lparr>sh_elements := butlast (sh_elements h), sh_marks := sh_marks h - {n}\<rparr>) })"

definition shardHeap_Has :: "u32 \<Rightarrow> shardHeap \<Rightarrow> bool" where
  "shardHeap_Has sn h \<longleftrightarrow> sn \<in> sh_marks h"

section \<open>The decoder\<close>

record fecDecoder =
  fd_dataShards :: nat
  fd_parityShards :: nat
  fd_shardSize :: nat
  fd_shardSet :: "(u32 \<times> shardHeap) list"
  fd_paws :: u32
  fd_newestShardId :: u32
  fd_cache :: nat
  fd_codec :: "nat \<times> nat"
  fd_autoTune :: autoTune
  fd_shouldTune :: bool
  fd_pool :: int
  fd_snmp :: Snmp

definition paws_of :: "nat \<Rightarrow> u32" where
  "paws_of n = 0xffffffff div of_nat n * of_nat n"

definition newFECDecoder :: "(nat \<Rightarrow> nat \<Rightarrow> bool) \<Rightarrow> Snmp \<Rightarrow> int \<Rightarrow> int \<Rightarrow> fecDecoder option" where
  "newFECDecoder rs_new sn dataShards parityShards =
     (if dataShards \<le> 0 \<or> parityShards \<le> 0 then None
      else if dataShards + parityShards > 256 then None
      else let d = nat dataShards; p = nat parityShards in
        if \<not> rs_new d p then None
        else Some \<lparr>fd_dataShards = d, fd_parityShards = p, fd_shardSize = d + p, fd_shardSet = [],
          fd_paws = paws_of (d + p), fd_newestShardId = 0, fd_cache = d + p, fd_codec = (d, p),
          fd_autoTune = zero_autoTune, fd_shouldTune = False, fd_pool = 0, fd_snmp = sn\<rparr>)"

definition getShardId :: "u32 \<Rightarrow> fecDecoder \<Rightarrow> u32" where
  "getShardId seqid dec = seqid div of_nat (fd_shardSize dec)"

definition tooOld :: "fecDecoder \<Rightarrow> u32 \<Rightarrow> bool" where
  "tooOld dec shardId \<longleftrightarrow>
     sint (itimediff (fd_newestShardId dec * of_nat (fd_shardSize dec)) (shardId * of_nat (fd_shardSize dec)))
       > maxShardSets * int (fd_shardSize dec)"

definition held :: "(u32 \<times> shardHeap) list \<Rightarrow> nat" where
  "held sets = sum_list (map (\<lambda>(_, h). shardHeap_Len h) sets)"

definition discardShards :: "fecDecoder \<Rightarrow> fecDecoder" where
  "discardShards dec =
     (let old = filter (\<lambda>(i, _). tooOld dec i) (fd_shardSet dec);
          kept = filter (\<lambda>(i, _). \<not> tooOld dec i) (fd_shardSet dec)
      in dec\<lparr>fd_shardSet := kept, fd_pool := fd_pool dec - int (held old),
             fd_snmp := storeFECShardSet (length kept) (fd_snmp dec)\<rparr>)"

text \<open>Sampling of the packet kind, for every packet.\<close>

definition decode_sample :: "u16 \<Rightarrow> u32 \<Rightarrow> fecDecoder \<Rightarrow> fecDecoder" where
  "decode_sample fl n dec =
     dec\<lparr>fd_autoTune := autoTune_Sample (fl = typeData) n (fd_autoTune dec)\<rparr>"

text \<open>The kind a packet must have at its position in the group.\<close>

definition mismatch :: "u16 \<Rightarrow> u32 \<Rightarrow> fecDecoder \<Rightarrow> bool" where
  "mismatch fl n dec \<longleftrightarrow>
     (if n mod of_nat (fd_shardSize dec) < of_nat (fd_dataShards dec) then fl \<noteq> typeData
      else fl \<noteq> typeParity)"

text \<open>Adoption of the detected parameters.\<close>

definition decode_tune :: "(nat \<Rightarrow> nat \<Rightarrow> bool) \<Rightarrow> u32 \<Rightarrow> fecDecoder \<Rightarrow> fecDecoder" where
  "decode_tune rs_new n dec =
     (let autoDS = FindPeriod True (fd_autoTune dec); autoPS = FindPeriod False (fd_autoTune dec)
      in if autoDS > 0 \<and> autoPS > 0 \<and> autoDS + autoPS \<le> 256 then
           (let d = nat autoDS; p = nat autoPS in
            if d \<noteq> fd_dataShards dec \<or> p \<noteq> fd_parityShards dec then
              (let dec = dec\<lparr>fd_dataShards := d, fd_parityShards := p, fd_shardSize := d + p,
                     fd_pool := fd_pool dec - int (held (fd_shardSet dec)), fd_shardSet := []\<rparr>
               in if \<not> rs_new d p then dec
                  else let newest = n div of_nat (d + p) in
                    dec\<lparr>fd_codec := (d, p), fd_cache := d + p, fd_paws := paws_of (d + p),
                        fd_newestShardId := newest,
                        fd_snmp := storeFECShardMin newest (fd_snmp dec), fd_shouldTune := False\<rparr>)
            else dec\<lparr>fd_shouldTune := False\<rparr>)
         else dec)"

text \<open>The drain of a shard set into the decode cache.\<close>

record drained =
  dr_shards :: "byte list option list"
  dr_flags :: "bool list"
  dr_numData :: nat
  dr_maxlen :: nat
  dr_pkts :: "fecPacket list"

definition put_shard :: "nat \<Rightarrow> fecPacket \<Rightarrow> drained \<Rightarrow> drained option" where
  "put_shard shardSize pkt a = do {
     seqid \<leftarrow> fec_seqid pkt;
     d \<leftarrow> fec_data pkt;
     fl \<leftarrow> fec_flag pkt;
     let i = unat (seqid mod of_nat shardSize);
     if i < length (dr_shards a) \<and> i < length (dr_flags a) then
       Some (a\<lparr>dr_pkts := dr_pkts a @ [pkt], dr_shards := (dr_shards a)[i := Some d],
               dr_flags := (dr_flags a)[i := True],
               dr_numData := dr_numData a + (if fl = typeData then 1 else 0),
               dr_maxlen := max (dr_maxlen a) (length d)\<rparr>)
     else None }"

lemma shardHeap_Pop_shrinks:
  "shardHeap_Pop h = Some (x, h') \<Longrightarrow> length (sh_elements h') < length (sh_elements h)"
  by (auto simp: shardHeap_Pop_def Let_def bind_eq_Some_conv split: if_splits)

function drain :: "nat \<Rightarrow> shardHeap \<Rightarrow> drained \<Rightarrow> (shardHeap \<times> drained) option" where
  "drain shardSize h a =
     (if shardHeap_Len h = 0 then Some (h, a)
      else case shardHeap_Pop h of None \<Rightarrow> None
        | Some (pkt, h') \<Rightarrow> (case put_shard shardSize pkt a of None \<Rightarrow> None
            | Some a' \<Rightarrow> drain shardSize h' a'))"
  by pat_completeness auto
termination
  by (relation "measure (\<lambda>(n, h, a). length (sh_elements h))") (auto dest: shardHeap_Pop_shrinks)

declare drain.simps [simp del]

text \<open>Equal-sized shards for the codec, the missing data shards empty.\<close>

definition pad_shard :: "nat \<Rightarrow> byte list option \<Rightarrow> byte list" where
  "pad_shard maxlen s = (case s of Some d \<Rightarrow> d @ replicate (maxlen - length d) 0 | None \<Rightarrow> [])"

definition decode_recover ::
    "(nat \<times> nat \<Rightarrow> byte list list \<Rightarrow> byte list list option) \<Rightarrow> drained \<Rightarrow> fecDecoder
      \<Rightarrow> (byte list list \<times> fecDecoder) option" where
  "decode_recover rs_reconstruct a dec =
     (let missing = filter (\<lambda>k. dr_shards a ! k = None \<and> k < fd_dataShards dec) [0..<length (dr_shards a)];
          dec = dec\<lparr>fd_pool := fd_pool dec + int (length missing)\<rparr>
      in case rs_reconstruct (fd_codec dec) (map (pad_shard (dr_maxlen a)) (dr_shards a)) of
           None \<Rightarrow> Some ([], dec\<lparr>fd_snmp := increaseFECErrs (fd_snmp dec),
                               fd_pool := fd_pool dec - int (length missing)\<rparr>)
         | Some shards \<Rightarrow>
             if fd_dataShards dec \<le> length shards \<and> fd_dataShards dec \<le> length (dr_flags a) then
               (let recovered = map ((!) shards) (filter (\<lambda>k. \<not> dr_flags a ! k) [0..<fd_dataShards dec])
                in Some (recovered, dec\<lparr>fd_snmp := addFECRecovered (length recovered) (fd_snmp dec),
                                       fd_pool := fd_pool dec - int (length recovered)\<rparr>))
             else None)"

text \<open>A complete set: drain it, and recover the data shards unless all are there. The deferred
  calls return the drained packets to the pool first and discard the old sets last.\<close>

definition decode_set ::
    "(nat \<times> nat \<Rightarrow> byte list list \<Rightarrow> byte list list option) \<Rightarrow> u32 \<Rightarrow> shardHeap \<Rightarrow> fecDecoder
      \<Rightarrow> (byte list list \<times> fecDecoder) option" where
  "decode_set rs_reconstruct shardId shard dec = do {
     (shard, a) \<leftarrow> drain (fd_shardSize dec) shard
       \<lparr>dr_shards = replicate (fd_cache dec) None, dr_flags = replicate (fd_cache dec) False,
        dr_numData = 0, dr_maxlen = 0, dr_pkts = []\<rparr>;
     let dec = dec\<lparr>fd_shardSet := AList.update shardId shard (fd_shardSet dec)\<rparr>;
     (recovered, dec) \<leftarrow>
       (if dr_numData a = fd_dataShards dec
        then Some ([], dec\<lparr>fd_snmp := increaseFECFullShardSet (fd_snmp dec)\<rparr>)
        else decode_recover rs_reconstruct a dec);
     let dec = dec\<lparr>fd_pool := fd_pool dec - int (length (dr_pkts a))\<rparr>;
     Some (recovered, discardShards dec) }"

text \<open>The set of the packet, created when it is new.\<close>

definition shard_for :: "u32 \<Rightarrow> fecDecoder \<Rightarrow> shardHeap \<times> fecDecoder" where
  "shard_for shardId dec =
     (case map_of (fd_shardSet dec) shardId of Some h \<Rightarrow> (h, dec)
      | None \<Rightarrow> (newShardHeap, dec\<lparr>fd_shardSet := AList.update shardId newShardHeap (fd_shardSet dec),
                                   fd_snmp := increaseFECShardSet (fd_snmp dec)\<rparr>))"

text \<open>The bookkeeping of a packet pushed to its set.\<close>

definition store_shard :: "u32 \<Rightarrow> shardHeap \<Rightarrow> u16 \<Rightarrow> fecDecoder \<Rightarrow> fecDecoder" where
  "store_shard shardId shard fl dec =
     (let dec = (if fl = typeParity then dec\<lparr>fd_snmp := increaseFECParityShards (fd_snmp dec)\<rparr> else dec);
          dec = dec\<lparr>fd_shardSet := AList.update shardId shard (fd_shardSet dec), fd_pool := fd_pool dec + 1\<rparr>
      in if sint (itimediff (shardId * of_nat (fd_shardSize dec))
                   (fd_newestShardId dec * of_nat (fd_shardSize dec))) > 0
         then dec\<lparr>fd_newestShardId := shardId, fd_snmp := storeFECShardMin shardId (fd_snmp dec)\<rparr>
         else dec)"

definition decode_store ::
    "(nat \<times> nat \<Rightarrow> byte list list \<Rightarrow> byte list list option) \<Rightarrow> fecPacket \<Rightarrow> u16 \<Rightarrow> u32 \<Rightarrow> fecDecoder
      \<Rightarrow> (byte list list \<times> fecDecoder) option" where
  "decode_store rs_reconstruct inp fl n dec =
     (let shardId = getShardId n dec; (shard, dec) = shard_for shardId dec
      in if shardHeap_Has n shard then Some ([], dec)
         else if length inp > maxPacketSize then None
         else do {
           shard \<leftarrow> shardHeap_Push inp shard;
           let dec = store_shard shardId shard fl dec;
           if shardHeap_Len shard < fd_dataShards dec then Some ([], discardShards dec)
           else decode_set rs_reconstruct shardId shard dec })"

definition decode ::
    "(nat \<Rightarrow> nat \<Rightarrow> bool) \<Rightarrow> (nat \<times> nat \<Rightarrow> byte list list \<Rightarrow> byte list list option) \<Rightarrow> fecPacket \<Rightarrow> fecDecoder
      \<Rightarrow> (byte list list \<times> fecDecoder) option" where
  "decode rs_new rs_reconstruct inp dec = do {
     fl \<leftarrow> fec_flag inp;
     n \<leftarrow> fec_seqid inp;
     let dec = decode_sample fl n dec;
     if n \<ge> fd_paws dec then Some ([], dec)
     else let dec = (if mismatch fl n dec then dec\<lparr>fd_shouldTune := True\<rparr> else dec)
          in if fd_shouldTune dec then Some ([], decode_tune rs_new n dec)
             else decode_store rs_reconstruct inp fl n dec }"

section \<open>Packet fields\<close>

abbreviation pkt_seq :: "fecPacket \<Rightarrow> u32" where "pkt_seq p \<equiv> the (fec_seqid p)"
abbreviation pkt_flag :: "fecPacket \<Rightarrow> u16" where "pkt_flag p \<equiv> the (fec_flag p)"
abbreviation pkt_data :: "fecPacket \<Rightarrow> byte list" where "pkt_data p \<equiv> drop 6 p"
abbreviation pkt_pos :: "nat \<Rightarrow> fecPacket \<Rightarrow> nat" where "pkt_pos n p \<equiv> unat (pkt_seq p mod of_nat n)"

lemma fec_fields:
  assumes "6 \<le> length p"
  obtains n fl where "fec_seqid p = Some n" "fec_flag p = Some fl" "fec_data p = Some (pkt_data p)"
  using assms Uint32_defined [of p] Uint16_defined [of "drop 4 p"]
  by (auto simp: fec_seqid_def fec_flag_def fec_data_def)

lemma decode_short: "length inp < 6 \<Longrightarrow> decode rs_new rs_rec inp dec = None"
  using Uint16_defined [of "drop 4 inp"]
  by (cases "Uint16 (drop 4 inp)") (auto simp: decode_def fec_flag_def)

section \<open>Draining a shard set\<close>

definition add_shard :: "nat \<Rightarrow> fecPacket \<Rightarrow> drained \<Rightarrow> drained" where
  "add_shard n p a = a\<lparr>dr_pkts := dr_pkts a @ [p], dr_shards := (dr_shards a)[pkt_pos n p := Some (pkt_data p)],
     dr_flags := (dr_flags a)[pkt_pos n p := True],
     dr_numData := dr_numData a + (if pkt_flag p = typeData then 1 else 0),
     dr_maxlen := max (dr_maxlen a) (length (pkt_data p))\<rparr>"

lemma add_shard_simps [simp]:
  "dr_pkts (add_shard n p a) = dr_pkts a @ [p]"
  "dr_shards (add_shard n p a) = (dr_shards a)[pkt_pos n p := Some (pkt_data p)]"
  "dr_flags (add_shard n p a) = (dr_flags a)[pkt_pos n p := True]"
  "dr_numData (add_shard n p a) = dr_numData a + (if pkt_flag p = typeData then 1 else 0)"
  "dr_maxlen (add_shard n p a) = max (dr_maxlen a) (length (pkt_data p))"
  by (simp_all add: add_shard_def)

lemma put_shard_add:
  assumes "6 \<le> length p" "pkt_pos n p < length (dr_shards a)" "length (dr_flags a) = length (dr_shards a)"
  shows "put_shard n p a = Some (add_shard n p a)"
  by (rule fec_fields [OF assms(1)])
    (use assms(2,3) in \<open>simp add: put_shard_def add_shard_def Let_def\<close>)

lemma Pop_snoc:
  "6 \<le> length p \<Longrightarrow> shardHeap_Pop \<lparr>sh_elements = els @ [p], sh_marks = M\<rparr> =
     Some (p, \<lparr>sh_elements = els, sh_marks = M - {pkt_seq p}\<rparr>)"
  by (erule fec_fields) (simp add: shardHeap_Pop_def)

lemma drain_fold:
  assumes "\<And>p. p \<in> set els \<Longrightarrow> 6 \<le> length p \<and> pkt_pos n p < length (dr_shards a)"
    and "length (dr_flags a) = length (dr_shards a)"
  shows "drain n \<lparr>sh_elements = els, sh_marks = M\<rparr> a =
    Some (\<lparr>sh_elements = [], sh_marks = M - pkt_seq ` set els\<rparr>, foldr (add_shard n) els a)"
  using assms
proof (induction els arbitrary: a M rule: rev_induct)
  case Nil
  show ?case by (simp add: drain.simps [of n "\<lparr>sh_elements = [], sh_marks = M\<rparr>"] shardHeap_Len_def)
next
  case (snoc p els)
  have p: "6 \<le> length p" "put_shard n p a = Some (add_shard n p a)"
    using snoc.prems by (auto intro!: put_shard_add)
  have "drain n \<lparr>sh_elements = els, sh_marks = M - {pkt_seq p}\<rparr> (add_shard n p a) =
      Some (\<lparr>sh_elements = [], sh_marks = M - {pkt_seq p} - pkt_seq ` set els\<rparr>,
        foldr (add_shard n) els (add_shard n p a))"
    using snoc.prems by (intro snoc.IH) auto
  moreover have "M - {pkt_seq p} - pkt_seq ` set els = M - pkt_seq ` set (els @ [p])" by auto
  ultimately show ?case
    using p by (simp add: drain.simps [of n "\<lparr>sh_elements = els @ [p], sh_marks = M\<rparr>"]
      shardHeap_Len_def Pop_snoc)
qed

abbreviation empty_drained :: "nat \<Rightarrow> drained" where
  "empty_drained m \<equiv> \<lparr>dr_shards = replicate m None, dr_flags = replicate m False, dr_numData = 0,
     dr_maxlen = 0, dr_pkts = []\<rparr>"

lemma fold_add_shard:
  fixes m n els
  defines "a \<equiv> foldr (add_shard n) els (empty_drained m)"
  shows "dr_pkts a = rev els"
    and "length (dr_shards a) = m" and "length (dr_flags a) = m"
    and "dr_numData a = length (filter (\<lambda>p. pkt_flag p = typeData) els)"
    and "dr_maxlen a = foldr max (map (length \<circ> drop 6) els) 0"
  unfolding a_def by (induction els) (simp_all add: max.commute)

lemma fold_add_shard_nth:
  assumes "k < m"
  shows "dr_flags (foldr (add_shard n) els (empty_drained m)) ! k \<longleftrightarrow> k \<in> pkt_pos n ` set els"
    and "dr_shards (foldr (add_shard n) els (empty_drained m)) ! k = None \<longleftrightarrow> k \<notin> pkt_pos n ` set els"
proof (induction els)
  case (Cons p els)
  {
    case 1
    show ?case using Cons(1) assms fold_add_shard(3) [of n els m] by (cases "pkt_pos n p = k") auto
  next
    case 2
    show ?case using Cons(2) assms fold_add_shard(2) [of n els m] by (cases "pkt_pos n p = k") auto
  }
qed (use assms in simp_all)

lemma fold_add_shard_at:
  assumes "inj_on (pkt_pos n) (set els)" "p \<in> set els" "pkt_pos n p < m"
  shows "dr_shards (foldr (add_shard n) els (empty_drained m)) ! pkt_pos n p = Some (pkt_data p)"
  using assms
proof (induction els)
  case (Cons q els)
  then show ?case
    using fold_add_shard(2) [of n els m]
    by (cases "pkt_pos n p = pkt_pos n q") (auto simp: inj_on_def)
qed simp

section \<open>Invariant\<close>

text \<open>A packet that belongs to the shard set \<open>i\<close>.\<close>

definition shard_ok :: "fecDecoder \<Rightarrow> u32 \<Rightarrow> fecPacket \<Rightarrow> bool" where
  "shard_ok dec i p \<longleftrightarrow> 6 \<le> length p \<and> length p \<le> maxPacketSize \<and> pkt_seq p < fd_paws dec \<and>
     getShardId (pkt_seq p) dec = i \<and> \<not> mismatch (pkt_flag p) (pkt_seq p) dec"

definition set_ok :: "fecDecoder \<Rightarrow> u32 \<Rightarrow> shardHeap \<Rightarrow> bool" where
  "set_ok dec i h \<longleftrightarrow> sh_marks h = pkt_seq ` set (sh_elements h) \<and> distinct (map pkt_seq (sh_elements h)) \<and>
     (\<forall>p\<in>set (sh_elements h). shard_ok dec i p)"

definition fd_params :: "fecDecoder \<Rightarrow> bool" where
  "fd_params dec \<longleftrightarrow> 0 < fd_dataShards dec \<and> 0 < fd_parityShards dec \<and>
     fd_shardSize dec = fd_dataShards dec + fd_parityShards dec \<and> fd_shardSize dec \<le> 256 \<and>
     fd_paws dec = paws_of (fd_shardSize dec) \<and> fd_cache dec = fd_shardSize dec \<and>
     fd_codec dec = (fd_dataShards dec, fd_parityShards dec) \<and> tune_wf (fd_autoTune dec)"

definition fd_wf :: "fecDecoder \<Rightarrow> bool" where
  "fd_wf dec \<longleftrightarrow> fd_params dec \<and> distinct (map fst (fd_shardSet dec)) \<and>
     (\<forall>(i, h)\<in>set (fd_shardSet dec). set_ok dec i h \<and> shardHeap_Len h < fd_dataShards dec) \<and>
     fd_pool dec = int (held (fd_shardSet dec))"

lemma newFECDecoder_wf: "newFECDecoder rs_new sn d p = Some dec \<Longrightarrow> fd_wf dec \<and> \<not> fd_shouldTune dec"
  by (auto simp: newFECDecoder_def fd_wf_def fd_params_def held_def zero_autoTune_wf Let_def split: if_splits)

lemma shardSize_bounds: "fd_params dec \<Longrightarrow> 0 < fd_shardSize dec \<and> fd_shardSize dec \<le> 256"
  by (simp add: fd_params_def)

lemma shardSize_unat: "fd_params dec \<Longrightarrow> unat (of_nat (fd_shardSize dec) :: u32) = fd_shardSize dec"
  using shardSize_bounds [of dec] by simp

lemma pos_less: "fd_params dec \<Longrightarrow> pkt_pos (fd_shardSize dec) p < fd_shardSize dec"
  using shardSize_bounds [of dec] by (simp add: unat_mod shardSize_unat)

lemma set_ok_pos_inj:
  assumes "fd_params dec" "set_ok dec i h"
  shows "inj_on (pkt_pos (fd_shardSize dec)) (set (sh_elements h))"
proof (rule inj_onI)
  fix p q assume p: "p \<in> set (sh_elements h)" and q: "q \<in> set (sh_elements h)"
    and eq: "pkt_pos (fd_shardSize dec) p = pkt_pos (fd_shardSize dec) q"
  let ?n = "of_nat (fd_shardSize dec) :: u32"
  have "pkt_seq p div ?n = pkt_seq q div ?n" "pkt_seq p mod ?n = pkt_seq q mod ?n"
    using assms(2) p q eq by (auto simp: set_ok_def shard_ok_def getShardId_def word_unat_eq_iff)
  then have "pkt_seq p = pkt_seq q" by (metis div_mult_mod_eq)
  with assms(2) p q show "p = q" by (auto simp: set_ok_def distinct_map dest: inj_onD)
qed

lemma set_update_subset: "set (AList.update k v m) \<subseteq> insert (k, v) (set m)"
  by (induction m) auto

lemma held_update:
  "distinct (map fst m) \<Longrightarrow>
     held (AList.update k h m) + (case map_of m k of None \<Rightarrow> 0 | Some g \<Rightarrow> shardHeap_Len g) = held m + shardHeap_Len h"
  by (induction m) (auto simp: held_def split: option.splits dest: map_of_SomeD)

lemma held_filter: "held (filter P m) + held (filter (\<lambda>x. \<not> P x) m) = held m"
  by (induction m) (auto simp: held_def)

section \<open>What storing a packet does\<close>

definition recovery ::
    "(nat \<times> nat \<Rightarrow> byte list list \<Rightarrow> byte list list option) \<Rightarrow> nat \<times> nat \<Rightarrow> drained \<Rightarrow> byte list list" where
  "recovery rs_rec c a =
     (if dr_numData a = fst c then []
      else case rs_rec c (map (pad_shard (dr_maxlen a)) (dr_shards a)) of None \<Rightarrow> []
        | Some out \<Rightarrow> map ((!) out) (filter (\<lambda>k. \<not> dr_flags a ! k) [0..<fst c]))"

text \<open>The codec returns as many shards as it was given.\<close>

definition rs_keeps_length :: "(nat \<times> nat \<Rightarrow> byte list list \<Rightarrow> byte list list option) \<Rightarrow> bool" where
  "rs_keeps_length rs_rec \<longleftrightarrow> (\<forall>c ss out. rs_rec c ss = Some out \<longrightarrow> length out = length ss)"

definition set_at :: "u32 \<Rightarrow> fecDecoder \<Rightarrow> shardHeap" where
  "set_at i dec = (case map_of (fd_shardSet dec) i of None \<Rightarrow> newShardHeap | Some h \<Rightarrow> h)"

definition newest_with :: "u32 \<Rightarrow> fecDecoder \<Rightarrow> u32" where
  "newest_with i dec =
     (if sint (itimediff (i * of_nat (fd_shardSize dec)) (fd_newestShardId dec * of_nat (fd_shardSize dec))) > 0
      then i else fd_newestShardId dec)"

definition stored :: "u32 \<Rightarrow> shardHeap \<Rightarrow> int \<Rightarrow> Snmp \<Rightarrow> fecDecoder \<Rightarrow> fecDecoder" where
  "stored i h delta sn dec = dec\<lparr>fd_shardSet := AList.update i h (fd_shardSet dec),
     fd_newestShardId := newest_with i dec, fd_pool := fd_pool dec + delta, fd_snmp := sn\<rparr>"

lemma store_shard_stored:
  "\<exists>sn. store_shard i h fl (snd (shard_for i dec)) = stored i h 1 sn dec"
  by (cases "map_of (fd_shardSet dec) i")
    (auto simp: store_shard_def shard_for_def stored_def newest_with_def Let_def intro!: exI fecDecoder.equality)

lemma shard_for_set_at: "fst (shard_for i dec) = set_at i dec"
  by (simp add: shard_for_def set_at_def split: option.splits)

lemma decode_store_duplicate:
  assumes "shardHeap_Has n (set_at (getShardId n dec) dec)"
  shows "decode_store rs_rec inp fl n dec = Some ([], dec)"
  using assms
  by (auto simp: decode_store_def set_at_def shard_for_def shardHeap_Has_def newShardHeap_def Let_def
      split: option.splits)

lemma decode_store_room:
  fixes n dec
  defines "h \<equiv> set_at (getShardId n dec) dec"
  assumes "\<not> shardHeap_Has n h" "Suc (shardHeap_Len h) < fd_dataShards dec"
    and "fec_seqid inp = Some n" "length inp \<le> maxPacketSize"
  shows "\<exists>sn. decode_store rs_rec inp fl n dec = Some ([], discardShards (stored (getShardId n dec)
      \<lparr>sh_elements = sh_elements h @ [inp], sh_marks = insert n (sh_marks h)\<rparr> 1 sn dec))"
proof -
  let ?i = "getShardId n dec" and ?h = "\<lparr>sh_elements = sh_elements h @ [inp], sh_marks = insert n (sh_marks h)\<rparr>"
  obtain dec1 where f: "shard_for ?i dec = (h, dec1)" using shard_for_set_at [of ?i dec] h_def by (metis prod.collapse)
  obtain sn where sn: "store_shard ?i ?h fl dec1 = stored ?i ?h 1 sn dec"
    using store_shard_stored [of ?i ?h fl dec] f by auto
  have "shardHeap_Push inp h = Some ?h" using assms(4) by (simp add: shardHeap_Push_def)
  then have "decode_store rs_rec inp fl n dec = Some ([], discardShards (stored ?i ?h 1 sn dec))"
    using assms(2,3,5) by (simp add: decode_store_def f Let_def sn stored_def shardHeap_Len_def)
  then show ?thesis ..
qed

lemma recover_pool:
  assumes "length (dr_shards a) = m" "\<And>k. k < m \<Longrightarrow> dr_flags a ! k \<longleftrightarrow> dr_shards a ! k \<noteq> None" "d \<le> m"
  shows "length (filter (\<lambda>k. dr_shards a ! k = None \<and> k < d) [0..<m]) = length (filter (\<lambda>k. \<not> dr_flags a ! k) [0..<d])"
proof -
  have "[0..<m] = [0..<d] @ [d..<m]" using assms(3) by (metis le_add_diff_inverse upt_add_eq_append zero_le)
  moreover have "filter (\<lambda>k. dr_shards a ! k = None \<and> k < d) [d..<m] = []" by (auto simp: filter_empty_conv)
  moreover have "filter (\<lambda>k. dr_shards a ! k = None \<and> k < d) [0..<d] = filter (\<lambda>k. \<not> dr_flags a ! k) [0..<d]"
    using assms(2,3) by (intro filter_cong) auto
  ultimately show ?thesis by simp
qed

lemma decode_recover_spec:
  assumes "length (dr_shards a) = m" "length (dr_flags a) = m"
    and "\<And>k. k < m \<Longrightarrow> dr_flags a ! k \<longleftrightarrow> dr_shards a ! k \<noteq> None"
    and "fst (fd_codec dec) = fd_dataShards dec" "fd_dataShards dec \<le> m"
    and "dr_numData a \<noteq> fd_dataShards dec"
    and "rs_keeps_length rs_rec"
  shows "\<exists>sn. decode_recover rs_rec a dec = Some (recovery rs_rec (fd_codec dec) a, dec\<lparr>fd_snmp := sn\<rparr>)"
proof (cases "rs_rec (fd_codec dec) (map (pad_shard (dr_maxlen a)) (dr_shards a))")
  case None
  have "decode_recover rs_rec a dec =
      Some (recovery rs_rec (fd_codec dec) a, dec\<lparr>fd_snmp := increaseFECErrs (fd_snmp dec)\<rparr>)"
    using assms(4,6) None by (simp add: decode_recover_def recovery_def Let_def)
  then show ?thesis by blast
next
  case (Some out)
  let ?r = "recovery rs_rec (fd_codec dec) a"
  have r: "?r = map ((!) out) (filter (\<lambda>k. \<not> dr_flags a ! k) [0..<fd_dataShards dec])"
    using assms(4,6) Some by (simp add: recovery_def)
  have "length out = m" using assms(1,7) Some by (simp add: rs_keeps_length_def del: split_paired_All)
  moreover have "length (filter (\<lambda>k. dr_shards a ! k = None \<and> k < fd_dataShards dec) [0..<m]) = length ?r"
    unfolding r using recover_pool [OF assms(1,3,5)] by simp
  ultimately have "decode_recover rs_rec a dec = Some (?r, dec\<lparr>fd_snmp := addFECRecovered (length ?r) (fd_snmp dec)\<rparr>)"
    using assms(1,2,5) Some by (simp add: decode_recover_def Let_def r [symmetric])
  then show ?thesis by blast
qed

lemma decode_set_spec:
  fixes dec els M
  assumes p: "fd_params dec" and els: "\<forall>p\<in>set els. 6 \<le> length p" and M: "M \<subseteq> pkt_seq ` set els"
    and rs: "rs_keeps_length rs_rec"
  defines "a \<equiv> foldr (add_shard (fd_shardSize dec)) els (empty_drained (fd_shardSize dec))"
  shows "\<exists>sn. decode_set rs_rec i \<lparr>sh_elements = els, sh_marks = M\<rparr> dec =
    Some (recovery rs_rec (fd_codec dec) a, discardShards
      (dec\<lparr>fd_shardSet := AList.update i newShardHeap (fd_shardSet dec),
           fd_pool := fd_pool dec - int (length els), fd_snmp := sn\<rparr>))"
proof -
  let ?n = "fd_shardSize dec" and ?dec = "dec\<lparr>fd_shardSet := AList.update i newShardHeap (fd_shardSet dec)\<rparr>"
  have c: "fd_cache dec = ?n" "fst (fd_codec dec) = fd_dataShards dec" "fd_dataShards dec \<le> ?n"
    using p by (simp_all add: fd_params_def)
  have drain: "drain ?n \<lparr>sh_elements = els, sh_marks = M\<rparr> (empty_drained ?n) = Some (newShardHeap, a)"
    using drain_fold [of els ?n "empty_drained ?n" M] els pos_less [OF p] M
    by (simp add: a_def newShardHeap_def Diff_eq_empty_iff [THEN iffD2])
  note a = fold_add_shard [where n = ?n and els = els and m = ?n, folded a_def]
  note nth = fold_add_shard_nth [where n = ?n and els = els and m = ?n, folded a_def]
  have "\<exists>sn. (if dr_numData a = fd_dataShards ?dec
        then Some ([], ?dec\<lparr>fd_snmp := increaseFECFullShardSet (fd_snmp ?dec)\<rparr>)
        else decode_recover rs_rec a ?dec) = Some (recovery rs_rec (fd_codec dec) a, ?dec\<lparr>fd_snmp := sn\<rparr>)"
  proof (cases "dr_numData a = fd_dataShards ?dec")
    case True
    then have "recovery rs_rec (fd_codec dec) a = []" using c by (simp add: recovery_def)
    with True show ?thesis by auto
  next
    case False
    then show ?thesis using decode_recover_spec [of a ?n ?dec rs_rec] a nth c rs by auto
  qed
  then obtain sn where "(if dr_numData a = fd_dataShards ?dec
        then Some ([], ?dec\<lparr>fd_snmp := increaseFECFullShardSet (fd_snmp ?dec)\<rparr>)
        else decode_recover rs_rec a ?dec) = Some (recovery rs_rec (fd_codec dec) a, ?dec\<lparr>fd_snmp := sn\<rparr>)" ..
  then have "decode_set rs_rec i \<lparr>sh_elements = els, sh_marks = M\<rparr> dec =
    Some (recovery rs_rec (fd_codec dec) a, discardShards
      (?dec\<lparr>fd_snmp := sn, fd_pool := fd_pool ?dec - int (length (dr_pkts a))\<rparr>))"
    unfolding decode_set_def c drain by (simp del: fecDecoder.simps add: Let_def)
  moreover have "?dec\<lparr>fd_snmp := sn, fd_pool := fd_pool ?dec - int (length (dr_pkts a))\<rparr> =
      dec\<lparr>fd_shardSet := AList.update i newShardHeap (fd_shardSet dec),
           fd_pool := fd_pool dec - int (length els), fd_snmp := sn\<rparr>"
    using a(1) by simp
  ultimately show ?thesis by metis
qed

lemma stored_simps [simp]:
  "fd_dataShards (stored i h d sn dec) = fd_dataShards dec"
  "fd_parityShards (stored i h d sn dec) = fd_parityShards dec"
  "fd_shardSize (stored i h d sn dec) = fd_shardSize dec"
  "fd_codec (stored i h d sn dec) = fd_codec dec"
  "fd_paws (stored i h d sn dec) = fd_paws dec"
  "fd_cache (stored i h d sn dec) = fd_cache dec"
  "fd_autoTune (stored i h d sn dec) = fd_autoTune dec"
  "fd_shouldTune (stored i h d sn dec) = fd_shouldTune dec"
  "fd_params (stored i h d sn dec) = fd_params dec"
  by (simp_all add: stored_def fd_params_def)

lemma decode_store_full:
  fixes n dec
  defines "h \<equiv> set_at (getShardId n dec) dec"
  assumes has: "\<not> shardHeap_Has n h" "\<not> Suc (shardHeap_Len h) < fd_dataShards dec"
    and inp: "fec_seqid inp = Some n" "length inp \<le> maxPacketSize" and p: "fd_params dec"
    and len: "\<forall>p\<in>set (sh_elements h @ [inp]). 6 \<le> length p"
    and marks: "sh_marks h = pkt_seq ` set (sh_elements h)"
    and rs: "rs_keeps_length rs_rec"
  shows "\<exists>sn. decode_store rs_rec inp fl n dec = Some (
      recovery rs_rec (fd_codec dec) (foldr (add_shard (fd_shardSize dec)) (sh_elements h @ [inp])
        (empty_drained (fd_shardSize dec))),
      discardShards (stored (getShardId n dec) newShardHeap (- int (shardHeap_Len h)) sn dec))"
proof -
  let ?i = "getShardId n dec" and ?els = "sh_elements h @ [inp]"
  let ?h = "\<lparr>sh_elements = ?els, sh_marks = insert n (sh_marks h)\<rparr>"
  obtain dec1 where f: "shard_for ?i dec = (h, dec1)" using shard_for_set_at [of ?i dec] h_def by (metis prod.collapse)
  obtain sn where sn: "store_shard ?i ?h fl dec1 = stored ?i ?h 1 sn dec"
    using store_shard_stored [of ?i ?h fl dec] f by auto
  have "shardHeap_Push inp h = Some ?h" using inp by (simp add: shardHeap_Push_def)
  then have d: "decode_store rs_rec inp fl n dec = decode_set rs_rec ?i ?h (stored ?i ?h 1 sn dec)"
    using has inp by (simp add: decode_store_def f Let_def sn shardHeap_Len_def)
  have sub: "insert n (sh_marks h) \<subseteq> pkt_seq ` set ?els" using marks inp by auto
  have "fd_params (stored ?i ?h 1 sn dec)" using p by simp
  from decode_set_spec [OF this len sub rs] obtain sn' where
    "decode_store rs_rec inp fl n dec = Some (recovery rs_rec (fd_codec dec)
        (foldr (add_shard (fd_shardSize dec)) ?els (empty_drained (fd_shardSize dec))),
      discardShards ((stored ?i ?h 1 sn dec)\<lparr>fd_shardSet := AList.update ?i newShardHeap (fd_shardSet (stored ?i ?h 1 sn dec)),
        fd_pool := fd_pool (stored ?i ?h 1 sn dec) - int (length ?els), fd_snmp := sn'\<rparr>))"
    unfolding stored_simps d by blast
  moreover have "(stored ?i ?h 1 sn dec)\<lparr>fd_shardSet := AList.update ?i newShardHeap (fd_shardSet (stored ?i ?h 1 sn dec)),
        fd_pool := fd_pool (stored ?i ?h 1 sn dec) - int (length ?els), fd_snmp := sn'\<rparr> =
      stored ?i newShardHeap (- int (shardHeap_Len h)) sn' dec"
    by (simp add: stored_def shardHeap_Len_def)
  ultimately show ?thesis by metis
qed

section \<open>Preservation\<close>

lemma set_ok_cong:
  "fd_dataShards dec' = fd_dataShards dec \<Longrightarrow> fd_shardSize dec' = fd_shardSize dec \<Longrightarrow>
     fd_paws dec' = fd_paws dec \<Longrightarrow> set_ok dec' i h = set_ok dec i h"
  by (simp add: set_ok_def shard_ok_def getShardId_def mismatch_def)

lemma discardShards_simps [simp]:
  "fd_dataShards (discardShards dec) = fd_dataShards dec"
  "fd_parityShards (discardShards dec) = fd_parityShards dec"
  "fd_shardSize (discardShards dec) = fd_shardSize dec"
  "fd_codec (discardShards dec) = fd_codec dec"
  "fd_paws (discardShards dec) = fd_paws dec"
  "fd_cache (discardShards dec) = fd_cache dec"
  "fd_autoTune (discardShards dec) = fd_autoTune dec"
  "fd_shouldTune (discardShards dec) = fd_shouldTune dec"
  "fd_newestShardId (discardShards dec) = fd_newestShardId dec"
  "fd_params (discardShards dec) = fd_params dec"
  "tooOld (discardShards dec) = tooOld dec"
  by (simp_all add: discardShards_def Let_def fd_params_def tooOld_def fun_eq_iff)

lemma discardShards_wf: "fd_wf dec \<Longrightarrow> fd_wf (discardShards dec)"
proof -
  assume wf: "fd_wf dec"
  have "distinct (map fst (filter P (fd_shardSet dec)))" for P
    using wf by (simp add: fd_wf_def distinct_map_filter)
  moreover have "set_ok (discardShards dec) i h = set_ok dec i h" for i h by (rule set_ok_cong) simp_all
  ultimately show ?thesis
    using wf held_filter [of "\<lambda>(i, _). tooOld dec i" "fd_shardSet dec"]
    by (auto simp: fd_wf_def) (auto simp: discardShards_def Let_def case_prod_unfold)
qed

lemma set_at_ok: "fd_wf dec \<Longrightarrow> set_ok dec i (set_at i dec) \<and> shardHeap_Len (set_at i dec) < fd_dataShards dec"
  unfolding set_at_def
  by (cases "map_of (fd_shardSet dec) i")
    (auto simp: fd_wf_def fd_params_def set_ok_def newShardHeap_def shardHeap_Len_def dest!: map_of_SomeD)

lemma stored_wf:
  assumes wf: "fd_wf dec" and h: "set_ok dec i h" "shardHeap_Len h < fd_dataShards dec"
    and d: "d = int (shardHeap_Len h) - int (shardHeap_Len (set_at i dec))"
  shows "fd_wf (stored i h d sn dec)"
proof -
  let ?dec = "stored i h d sn dec"
  have sets: "fd_shardSet ?dec = AList.update i h (fd_shardSet dec)" by (simp add: stored_def)
  have ok: "set_ok ?dec j g = set_ok dec j g" for j g by (rule set_ok_cong) simp_all
  have "set (AList.update i h (fd_shardSet dec)) \<subseteq> insert (i, h) (set (fd_shardSet dec))"
    by (rule set_update_subset)
  moreover have "int (held (AList.update i h (fd_shardSet dec))) = fd_pool dec + d"
    using wf held_update [of "fd_shardSet dec" i h] d
    by (cases "map_of (fd_shardSet dec) i") (auto simp: fd_wf_def set_at_def newShardHeap_def shardHeap_Len_def)
  ultimately show ?thesis
    using wf h unfolding fd_wf_def sets ok stored_simps
    by (auto simp: distinct_update) (simp add: stored_def)
qed

lemma fd_wf_cong:
  assumes "fd_wf dec" "tune_wf (fd_autoTune dec')"
    and "fd_dataShards dec' = fd_dataShards dec" "fd_parityShards dec' = fd_parityShards dec"
    and "fd_shardSize dec' = fd_shardSize dec" "fd_paws dec' = fd_paws dec"
    and "fd_cache dec' = fd_cache dec" "fd_codec dec' = fd_codec dec"
    and "fd_shardSet dec' = fd_shardSet dec" "fd_pool dec' = fd_pool dec"
  shows "fd_wf dec'"
  using assms(1,2) set_ok_cong [of dec' dec, OF assms(3,5,6)]
  by (simp add: fd_wf_def fd_params_def assms(3-))

lemma fd_wf_tune: "fd_wf dec \<Longrightarrow> tune_wf (fd_autoTune dec)"
  by (simp add: fd_wf_def fd_params_def)

lemma decode_sample_wf: "fd_wf dec \<Longrightarrow> fd_wf (decode_sample fl n dec)"
  by (rule fd_wf_cong [of dec]) (simp_all add: decode_sample_def Sample_wf fd_wf_tune)

lemma shouldTune_wf: "fd_wf dec \<Longrightarrow> fd_wf (dec\<lparr>fd_shouldTune := b\<rparr>)"
  by (rule fd_wf_cong [of dec]) (simp_all add: fd_wf_tune)

text \<open>\<^verbatim>\<open>reedsolomon.New\<close> accepts every pair of positive shard counts up to 256 shards in all.\<close>

definition rs_accepts :: "(nat \<Rightarrow> nat \<Rightarrow> bool) \<Rightarrow> bool" where
  "rs_accepts rs_new \<longleftrightarrow> (\<forall>d p. 0 < d \<and> 0 < p \<and> d + p \<le> 256 \<longrightarrow> rs_new d p)"

lemma decode_tune_wf:
  assumes wf: "fd_wf dec" and rs: "rs_accepts rs_new"
  shows "fd_wf (decode_tune rs_new n dec)"
proof -
  let ?d = "FindPeriod True (fd_autoTune dec)" and ?p = "FindPeriod False (fd_autoTune dec)"
  consider (none) "\<not> (?d > 0 \<and> ?p > 0 \<and> ?d + ?p \<le> 256)"
    | (same) "?d > 0" "?p > 0" "?d + ?p \<le> 256" "nat ?d = fd_dataShards dec" "nat ?p = fd_parityShards dec"
    | (new) "?d > 0" "?p > 0" "?d + ?p \<le> 256" "\<not> (nat ?d = fd_dataShards dec \<and> nat ?p = fd_parityShards dec)"
    by blast
  then show ?thesis
  proof cases
    case none
    then have "decode_tune rs_new n dec = dec" unfolding decode_tune_def Let_def by (rule if_not_P)
    with wf show ?thesis by simp
  next
    case same
    then show ?thesis using shouldTune_wf [OF wf, of False] by (simp add: decode_tune_def Let_def)
  next
    case new
    moreover from this have "rs_new (nat ?d) (nat ?p)" using rs by (simp add: rs_accepts_def)
    ultimately show ?thesis
      using wf by (simp add: decode_tune_def Let_def fd_wf_def fd_params_def held_def nat_add_distrib [symmetric])
  qed
qed

lemma decode_store_wf:
  assumes wf: "fd_wf dec" and ok: "shard_ok dec (getShardId (pkt_seq inp) dec) inp" and rs: "rs_keeps_length rs_rec"
  shows "\<exists>r dec'. decode_store rs_rec inp fl (pkt_seq inp) dec = Some (r, dec') \<and> fd_wf dec'"
proof -
  let ?n = "pkt_seq inp" let ?i = "getShardId ?n dec" let ?h = "set_at ?i dec"
  have inp: "6 \<le> length inp" "length inp \<le> maxPacketSize" using ok by (simp_all add: shard_ok_def)
  then have n: "fec_seqid inp = Some ?n" by (auto elim: fec_fields)
  have h: "set_ok dec ?i ?h" "shardHeap_Len ?h < fd_dataShards dec" using set_at_ok [OF wf] by simp_all
  consider "shardHeap_Has ?n ?h" | "\<not> shardHeap_Has ?n ?h" "Suc (shardHeap_Len ?h) < fd_dataShards dec"
    | "\<not> shardHeap_Has ?n ?h" "\<not> Suc (shardHeap_Len ?h) < fd_dataShards dec" by blast
  then show ?thesis
  proof cases
    case 1
    then show ?thesis using decode_store_duplicate wf by blast
  next
    case 2
    let ?h' = "\<lparr>sh_elements = sh_elements ?h @ [inp], sh_marks = insert ?n (sh_marks ?h)\<rparr>"
    have "set_ok dec ?i ?h'" using h(1) 2(1) ok by (auto simp: set_ok_def shardHeap_Has_def)
    then have "fd_wf (stored ?i ?h' 1 sn dec)" for sn
      using wf 2(2) by (intro stored_wf) (auto simp: shardHeap_Len_def)
    then show ?thesis using decode_store_room [OF 2 n inp(2)] discardShards_wf by metis
  next
    case 3
    have "fd_wf (stored ?i newShardHeap (- int (shardHeap_Len ?h)) sn dec)" for sn
      using wf h by (intro stored_wf) (auto simp: shardHeap_Len_def newShardHeap_def set_ok_def)
    moreover have "fd_params dec" "\<forall>p\<in>set (sh_elements ?h @ [inp]). 6 \<le> length p"
        "sh_marks ?h = pkt_seq ` set (sh_elements ?h)"
      using wf h(1) inp by (auto simp: fd_wf_def set_ok_def shard_ok_def)
    ultimately show ?thesis using decode_store_full [OF 3 n inp(2) _ _ _ rs] discardShards_wf by metis
  qed
qed

lemma decode_wf:
  assumes wf: "fd_wf dec" and len: "6 \<le> length inp" "length inp \<le> maxPacketSize"
    and rs: "rs_accepts rs_new" "rs_keeps_length rs_rec"
  shows "\<exists>r dec'. decode rs_new rs_rec inp dec = Some (r, dec') \<and> fd_wf dec'"
proof (rule fec_fields [OF len(1)])
  fix n fl assume f: "fec_seqid inp = Some n" "fec_flag inp = Some fl"
  let ?s = "decode_sample fl n dec"
  have s: "fd_wf ?s" "fd_wf (?s\<lparr>fd_shouldTune := True\<rparr>)"
    using decode_sample_wf [OF wf] shouldTune_wf by blast+
  show ?thesis
  proof (cases "fd_paws ?s \<le> n \<or> mismatch fl n ?s \<or> fd_shouldTune ?s")
    case True
    then show ?thesis
      using f s decode_tune_wf [OF s(1) rs(1)] decode_tune_wf [OF s(2) rs(1)]
      by (auto simp: decode_def Let_def)
  next
    case False
    then have "decode rs_new rs_rec inp dec = decode_store rs_rec inp fl (pkt_seq inp) ?s"
      using f by (simp add: decode_def Let_def)
    moreover have "shard_ok ?s (getShardId (pkt_seq inp) ?s) inp"
      using False f len by (simp add: shard_ok_def not_le)
    ultimately show ?thesis using decode_store_wf [OF s(1) _ rs(2)] by simp
  qed
qed

end
