(* ===== verification/Fec_Encoder.thy ===== *)
theory Fec_Encoder
  imports Fec_Decoder
begin

text \<open>
  The forward error correction encoder of \<^verbatim>\<open>fec.go\<close>: data packets are sealed with consecutive
  sequence numbers and copied into the shard cache; after \<^verbatim>\<open>dataShards\<close> of them the codec fills the
  parity shards, which are sealed and returned.

  A slot of the shard cache is a buffer of \<^verbatim>\<open>maxPacketSize\<close> bytes with the length of the slice
  that is in use. \<open>rs_encode (d, p) shards\<close> is the codec's \<^verbatim>\<open>Encode\<close>, which returns all shards with the parity
  shards overwritten, or \<open>None\<close> for its error. The clock \<open>now\<close> is an argument. Returned packets
  are the bytes at the time of the return.
\<close>

section \<open>State\<close>

record fecEncoder =
  fe_dataShards :: nat
  fe_parityShards :: nat
  fe_shardSize :: nat
  fe_paws :: u32
  fe_next :: u32
  fe_shardCount :: nat
  fe_maxSize :: nat
  fe_headerOffset :: nat
  fe_payloadOffset :: nat
  fe_shardCache :: "(byte list \<times> nat) list"
  fe_tsLatestPacket :: int
  fe_codec :: "nat \<times> nat"
  fe_snmp :: Snmp

definition newFECEncoder :: "(nat \<Rightarrow> nat \<Rightarrow> bool) \<Rightarrow> Snmp \<Rightarrow> int \<Rightarrow> int \<Rightarrow> nat \<Rightarrow> fecEncoder option" where
  "newFECEncoder rs_new sn dataShards parityShards offset =
     (if dataShards \<le> 0 \<or> parityShards \<le> 0 then None
      else let d = nat dataShards; p = nat parityShards in
        if \<not> rs_new d p then None
        else Some \<lparr>fe_dataShards = d, fe_parityShards = p, fe_shardSize = d + p, fe_paws = paws_of (d + p),
          fe_next = 0, fe_shardCount = 0, fe_maxSize = 0,
          fe_headerOffset = offset, fe_payloadOffset = offset + fecHeaderSize,
          fe_shardCache = replicate (d + p) (replicate maxPacketSize 0, maxPacketSize),
          fe_tsLatestPacket = 0, fe_codec = (d, p), fe_snmp = sn\<rparr>)"

section \<open>Sealing\<close>

text \<open>A store of \<open>w\<close> at offset \<open>i\<close> of a slice; \<open>None\<close> when it does not fit.\<close>

definition write_at :: "nat \<Rightarrow> byte list \<Rightarrow> byte list \<Rightarrow> byte list option" where
  "write_at i w b = (if i + length w \<le> length b then Some (take i b @ w @ drop (i + length w) b) else None)"

text \<open>A function applied to the subslice from \<open>i\<close> on.\<close>

definition in_slice :: "nat \<Rightarrow> (byte list \<Rightarrow> byte list option) \<Rightarrow> byte list \<Rightarrow> byte list option" where
  "in_slice i f b = (if i \<le> length b then map_option (\<lambda>c. take i b @ c) (f (drop i b)) else None)"

definition seal :: "u32 \<Rightarrow> u16 \<Rightarrow> byte list \<Rightarrow> byte list option" where
  "seal n ty data = do { data \<leftarrow> write_at 0 (PutUint32 n) data; write_at 4 (PutUint16 ty) data }"

definition advance :: "u32 \<Rightarrow> fecEncoder \<Rightarrow> fecEncoder" where
  "advance k enc = enc\<lparr>fe_next := (fe_next enc + k) mod fe_paws enc\<rparr>"

definition sealData :: "nat \<Rightarrow> byte list \<Rightarrow> fecEncoder \<Rightarrow> (byte list \<times> fecEncoder) option" where
  "sealData off b enc = do {
     b \<leftarrow> in_slice off (seal (fe_next enc) typeData) b;
     Some (b, advance 1 enc) }"

definition sealParity :: "nat \<Rightarrow> byte list \<Rightarrow> fecEncoder \<Rightarrow> (byte list \<times> fecEncoder) option" where
  "sealParity off b enc = do {
     b \<leftarrow> in_slice off (seal (fe_next enc) typeParity) b;
     Some (b, advance 1 enc) }"

definition sealOOB :: "byte list \<Rightarrow> byte list option" where
  "sealOOB data = seal 0xffffffff typeOOB data"

definition put_size :: "nat \<Rightarrow> byte list \<Rightarrow> byte list option" where
  "put_size off b = (if off \<le> length b then write_at off (PutUint16 (of_nat (length b - off))) b else None)"

definition encodeOOB :: "byte list \<Rightarrow> fecEncoder \<Rightarrow> byte list option" where
  "encodeOOB b enc = do {
     b \<leftarrow> in_slice (fe_headerOffset enc) sealOOB b;
     put_size (fe_payloadOffset enc) b }"

definition skipParity :: "fecEncoder \<Rightarrow> fecEncoder" where
  "skipParity enc = advance (of_nat (fe_parityShards enc)) enc"

section \<open>Encoding\<close>

text \<open>The copy of a data packet into its slot of the cache, whose slice is first cut to \<open>length b\<close>.\<close>

definition cache_put :: "nat \<Rightarrow> byte list \<Rightarrow> byte list \<times> nat \<Rightarrow> (byte list \<times> nat) option" where
  "cache_put off b s = (case s of (arr, _) \<Rightarrow>
     if length b \<le> length arr \<and> off \<le> length b
     then Some (take off arr @ drop off b @ drop (length b) arr, length b) else None)"

text \<open>\<^verbatim>\<open>clear(shard[slen:maxSize])\<close>\<close>

definition clear_tail :: "nat \<Rightarrow> byte list \<times> nat \<Rightarrow> (byte list \<times> nat) option" where
  "clear_tail maxSize s = (case s of (arr, slen) \<Rightarrow>
     if slen \<le> maxSize \<and> maxSize \<le> length arr
     then Some (take slen arr @ replicate (maxSize - slen) 0 @ drop maxSize arr, slen) else None)"

definition sub_slice :: "nat \<Rightarrow> nat \<Rightarrow> byte list \<times> nat \<Rightarrow> byte list option" where
  "sub_slice i j s = (case s of (arr, _) \<Rightarrow>
     if i \<le> j \<and> j \<le> length arr then Some (take (j - i) (drop i arr)) else None)"

text \<open>What the codec wrote into the slices \<open>[off..]\<close> of the slots.\<close>

definition write_back :: "nat \<Rightarrow> byte list \<times> nat \<Rightarrow> byte list \<Rightarrow> byte list \<times> nat" where
  "write_back off s w = (case s of (arr, n) \<Rightarrow> (take off arr @ w @ drop (off + length w) arr, n))"

fun option_map_all :: "('a \<Rightarrow> 'b option) \<Rightarrow> 'a list \<Rightarrow> 'b list option" where
  "option_map_all f [] = Some []"
| "option_map_all f (x # xs) = do { y \<leftarrow> f x; ys \<leftarrow> option_map_all f xs; Some (y # ys) }"

text \<open>The loop that seals the parity shards and cuts them to the size of the group.\<close>

fun seal_parities :: "nat \<Rightarrow> (byte list \<times> nat) list \<Rightarrow> fecEncoder
    \<Rightarrow> ((byte list \<times> nat) list \<times> fecEncoder) option" where
  "seal_parities maxSize [] enc = Some ([], enc)"
| "seal_parities maxSize ((arr, n) # ps) enc = do {
     (b, enc) \<leftarrow> sealParity (fe_headerOffset enc) (take n arr) enc;
     if maxSize \<le> length arr then do {
       (ps, enc) \<leftarrow> seal_parities maxSize ps enc;
       Some ((b @ drop n arr, maxSize) # ps, enc) }
     else None }"

text \<open>The data half: seal, write the size, copy into the cache, note the time.\<close>

definition encode_data :: "int \<Rightarrow> byte list \<Rightarrow> fecEncoder \<Rightarrow> (byte list \<times> int \<times> fecEncoder) option" where
  "encode_data now b enc = do {
     (b, enc) \<leftarrow> sealData (fe_headerOffset enc) b enc;
     b \<leftarrow> put_size (fe_payloadOffset enc) b;
     if fe_shardCount enc < length (fe_shardCache enc) then do {
       slot \<leftarrow> cache_put (fe_payloadOffset enc) b (fe_shardCache enc ! fe_shardCount enc);
       Some (b, fe_tsLatestPacket enc,
         enc\<lparr>fe_shardCache := (fe_shardCache enc)[fe_shardCount enc := slot],
             fe_shardCount := fe_shardCount enc + 1,
             fe_maxSize := max (length b) (fe_maxSize enc), fe_tsLatestPacket := now\<rparr>) }
     else None }"

text \<open>The parity half, once the group is complete.\<close>

definition encode_parity ::
    "(nat \<times> nat \<Rightarrow> byte list list \<Rightarrow> byte list list option) \<Rightarrow> nat \<Rightarrow> fecEncoder
      \<Rightarrow> (byte list list \<times> fecEncoder) option" where
  "encode_parity rs_encode maxSize enc = do {
     data \<leftarrow> option_map_all (clear_tail maxSize) (take (fe_dataShards enc) (fe_shardCache enc));
     let shards = data @ drop (fe_dataShards enc) (fe_shardCache enc);
     cache \<leftarrow> option_map_all (sub_slice (fe_payloadOffset enc) maxSize) shards;
     (case rs_encode (fe_codec enc) cache of
        None \<Rightarrow> Some ([], skipParity (enc\<lparr>fe_shardCache := shards, fe_snmp := increaseFECErrs (fe_snmp enc)\<rparr>))
      | Some out \<Rightarrow> do {
          let shards = map2 (write_back (fe_payloadOffset enc)) shards out;
          (ps, enc') \<leftarrow> seal_parities maxSize (drop (fe_dataShards enc) shards) enc;
          Some (map (\<lambda>(arr, n). take n arr) ps,
                enc'\<lparr>fe_shardCache := take (fe_dataShards enc) shards @ ps\<rparr>) }) }"

definition encode ::
    "(nat \<times> nat \<Rightarrow> byte list list \<Rightarrow> byte list list option) \<Rightarrow> int \<Rightarrow> u32 \<Rightarrow> byte list \<Rightarrow> fecEncoder
      \<Rightarrow> (byte list \<times> byte list list \<times> fecEncoder) option" where
  "encode rs_encode now rto b enc = do {
     (b, tsLastPacket, enc) \<leftarrow> encode_data now b enc;
     if fe_shardCount enc \<noteq> fe_dataShards enc then Some (b, [], enc)
     else let maxSize = fe_maxSize enc; enc = enc\<lparr>fe_shardCount := 0, fe_maxSize := 0\<rparr>
          in if now - tsLastPacket \<ge> int (unat rto) then Some (b, [], skipParity enc)
             else do {
               (ps, enc) \<leftarrow> encode_parity rs_encode maxSize enc;
               Some (b, ps, enc) } }"

section \<open>The bytes written\<close>

lemma write_at_length: "write_at i w b = Some c \<Longrightarrow> length c = length b"
  by (auto simp: write_at_def split: if_splits)

definition fec_header :: "u32 \<Rightarrow> u16 \<Rightarrow> byte list" where
  "fec_header n ty = PutUint32 n @ PutUint16 ty"

lemma length_fec_header [simp]: "length (fec_header n ty) = 6"
  by (simp add: fec_header_def)

lemma seal_bytes: "6 \<le> length b \<Longrightarrow> seal n ty b = Some (fec_header n ty @ drop 6 b)"
  by (simp add: seal_def write_at_def fec_header_def)

lemma in_slice_seal:
  "off + 6 \<le> length b \<Longrightarrow> in_slice off (seal n ty) b = Some (take off b @ fec_header n ty @ drop (off + 6) b)"
  by (simp add: in_slice_def seal_bytes add.commute)

lemma header_fields [simp]:
  "fec_seqid (fec_header n ty @ c) = Some n" "fec_flag (fec_header n ty @ c) = Some ty"
proof -
  have "drop 4 (fec_header n ty @ c) = PutUint16 ty @ c" by (simp add: fec_header_def PutUint32_def)
  then show "fec_flag (fec_header n ty @ c) = Some ty" unfolding fec_flag_def by simp
qed (simp add: fec_seqid_def fec_header_def)

text \<open>A data packet as it leaves the encoder: header, size field and payload behind the reserved
  \<open>off\<close> bytes.\<close>

definition data_packet :: "nat \<Rightarrow> u32 \<Rightarrow> byte list \<Rightarrow> byte list" where
  "data_packet off n b =
     take off b @ fec_header n typeData @ PutUint16 (of_nat (length b - (off + 6))) @ drop (off + 8) b"

lemma length_data_packet: "off + 8 \<le> length b \<Longrightarrow> length (data_packet off n b) = length b"
  by (simp add: data_packet_def)

lemma sealed_data:
  assumes "off + 8 \<le> length b"
  shows "in_slice off (seal n typeData) b \<bind> put_size (off + 6) = Some (data_packet off n b)"
  using assms
  by (simp add: in_slice_seal put_size_def write_at_def data_packet_def drop_drop add.commute)

section \<open>Invariant\<close>

definition slot_ok :: "fecEncoder \<Rightarrow> byte list \<times> nat \<Rightarrow> bool" where
  "slot_ok enc s \<longleftrightarrow> length (fst s) = maxPacketSize \<and> fe_payloadOffset enc + 2 \<le> snd s \<and> snd s \<le> maxPacketSize"

definition fe_params :: "fecEncoder \<Rightarrow> bool" where
  "fe_params enc \<longleftrightarrow> 0 < fe_dataShards enc \<and> 0 < fe_parityShards enc \<and>
     fe_shardSize enc = fe_dataShards enc + fe_parityShards enc \<and> fe_shardSize enc \<le> 256 \<and>
     fe_codec enc = (fe_dataShards enc, fe_parityShards enc) \<and> fe_paws enc = paws_of (fe_shardSize enc) \<and>
     fe_payloadOffset enc = fe_headerOffset enc + 6 \<and> length (fe_shardCache enc) = fe_shardSize enc \<and>
     (\<forall>s\<in>set (fe_shardCache enc). slot_ok enc s)"

text \<open>Next to the numbers: the slots collected so far are no longer than \<open>fe_maxSize\<close>.\<close>

definition fe_wf :: "fecEncoder \<Rightarrow> bool" where
  "fe_wf enc \<longleftrightarrow> fe_params enc \<and> fe_shardCount enc < fe_dataShards enc \<and> fe_next enc < fe_paws enc \<and>
     unat (fe_next enc) mod fe_shardSize enc = fe_shardCount enc \<and>
     fe_maxSize enc = foldr max (map snd (take (fe_shardCount enc) (fe_shardCache enc))) 0"

lemma paws_unat: "0 < n \<Longrightarrow> n \<le> 256 \<Longrightarrow> unat (paws_of n) = 4294967295 div n * n"
proof -
  assume n: "0 < n" "n \<le> 256"
  have lt: "4294967295 div n * n < (4294967296 :: nat)"
    using div_times_less_eq_dividend [of 4294967295 n] by linarith
  have u: "unat (of_nat n :: u32) = n" "unat (0xffffffff div of_nat n :: u32) = 4294967295 div n"
    using n by (simp_all add: unat_div)
  have "unat (paws_of n) = (4294967295 div n * n) mod 4294967296"
    unfolding paws_of_def unat_word_ariths(2) u by simp
  also have "\<dots> = 4294967295 div n * n" using lt by (rule mod_less)
  finally show ?thesis .
qed

text \<open>A step inside a group never passes the end of the number range, which is a multiple of the
  group size: it leads to the successor, or from the last number to 0.\<close>

lemma group_end:
  assumes "0 < (n :: nat)" "a < q * n" "a mod n + k \<le> n"
  shows "a + k \<le> q * n"
proof -
  have "a div n < q" using assms(1,2) by (simp add: less_mult_imp_div_less)
  then have "a div n * n + n \<le> q * n" using mult_le_mono1 [of "Suc (a div n)" q n] by simp
  then show ?thesis using assms(3) div_mult_mod_eq [of a n] by linarith
qed

lemma advance_next:
  assumes n: "0 < n" "n \<le> 256" and a: "a < paws_of n" and k: "unat a mod n + k \<le> n"
  shows "unat ((a + of_nat k) mod paws_of n) = (if unat a + k = unat (paws_of n) then 0 else unat a + k)"
    and "unat a + k \<le> unat (paws_of n)"
proof -
  let ?q = "4294967295 div n"
  have p: "unat (paws_of n) = ?q * n" using n by (rule paws_unat)
  have "unat a < ?q * n" using a p by (simp add: word_less_nat_alt)
  from group_end [OF n(1) this k] show le: "unat a + k \<le> unat (paws_of n)" by (simp add: p)
  have "?q * n \<le> 4294967295" by (rule div_times_less_eq_dividend)
  then have "unat a + k < 4294967296" "k < 4294967296" using le p k n by linarith+
  then have "unat (a + of_nat k) = unat a + k" by (simp add: unat_add_u32)
  then show "unat ((a + of_nat k) mod paws_of n) = (if unat a + k = unat (paws_of n) then 0 else unat a + k)"
    using le by (simp add: unat_mod)
qed

lemma word_mod_small: "a < b \<Longrightarrow> a mod b = (a :: u32)"
  by (simp add: word_unat_eq_iff unat_mod word_less_nat_alt)

lemma advance_inside:
  assumes n: "0 < n" "n \<le> 256" and a: "a < paws_of n" and k: "unat a mod n + k < n"
  shows "(a + of_nat k) mod paws_of n = a + of_nat k" "unat (a + of_nat k) = unat a + k"
    "a + of_nat k < paws_of n" "unat (a + of_nat k) mod n = unat a mod n + k"
proof -
  have "unat a + Suc k \<le> unat (paws_of n)" using k by (intro advance_next(2) [OF n a]) simp
  then have lt: "unat a + k < unat (paws_of n)" by simp
  moreover have "unat (paws_of n) < 4294967296" by (rule unat_u32_less)
  ultimately show u: "unat (a + of_nat k) = unat a + k" by (simp add: unat_add_u32)
  show "a + of_nat k < paws_of n" using lt u by (simp add: word_less_nat_alt)
  show "(a + of_nat k) mod paws_of n = a + of_nat k" using lt u by (simp add: word_unat_eq_iff unat_mod)
  show "unat (a + of_nat k) mod n = unat a mod n + k"
    using k unfolding u by (metis mod_add_left_eq mod_less)
qed

lemma advance_wf:
  assumes "0 < n" "n \<le> 256" "a < paws_of n" "unat a mod n + k \<le> n"
  shows "(a + of_nat k) mod paws_of n < paws_of n"
    and "unat ((a + of_nat k) mod paws_of n) mod n = (unat a + k) mod n"
proof -
  note nxt = advance_next [OF assms]
  have "0 < unat (paws_of n)" using assms(3) by (simp add: word_less_nat_alt)
  then show "(a + of_nat k) mod paws_of n < paws_of n"
    using nxt by (auto simp: word_less_nat_alt)
  show "unat ((a + of_nat k) mod paws_of n) mod n = (unat a + k) mod n"
    using nxt paws_unat [OF assms(1,2)] by auto
qed

section \<open>What encoding a data packet does\<close>

lemma cache_put_slot:
  assumes "slot_ok enc s" "fe_payloadOffset enc + 2 \<le> length b" "length b \<le> maxPacketSize"
  shows "\<exists>arr. cache_put (fe_payloadOffset enc) b s = Some (arr, length b) \<and> slot_ok enc (arr, length b) \<and>
    drop (fe_payloadOffset enc) (take (length b) arr) = drop (fe_payloadOffset enc) b"
  using assms by (cases s) (auto simp: cache_put_def slot_ok_def)

lemma encode_data_spec:
  assumes wf: "fe_params enc" "fe_shardCount enc < fe_dataShards enc"
    and b: "fe_headerOffset enc + 8 \<le> length b" "length b \<le> maxPacketSize"
  shows "\<exists>arr. encode_data now b enc = Some (data_packet (fe_headerOffset enc) (fe_next enc) b, fe_tsLatestPacket enc,
      enc\<lparr>fe_next := (fe_next enc + 1) mod fe_paws enc,
          fe_shardCache := (fe_shardCache enc)[fe_shardCount enc := (arr, length b)],
          fe_shardCount := fe_shardCount enc + 1, fe_maxSize := max (length b) (fe_maxSize enc),
          fe_tsLatestPacket := now\<rparr>) \<and>
    slot_ok enc (arr, length b) \<and>
    drop (fe_payloadOffset enc) (take (length b) arr) =
      drop (fe_payloadOffset enc) (data_packet (fe_headerOffset enc) (fe_next enc) b)"
proof -
  let ?b = "data_packet (fe_headerOffset enc) (fe_next enc) b"
  have po: "fe_payloadOffset enc = fe_headerOffset enc + 6" and c: "fe_shardCount enc < length (fe_shardCache enc)"
    using wf by (auto simp: fe_params_def)
  have len: "length ?b = length b" using b(1) by (rule length_data_packet)
  have slot: "slot_ok enc (fe_shardCache enc ! fe_shardCount enc)" using wf(1) c by (simp add: fe_params_def)
  obtain arr where arr: "cache_put (fe_payloadOffset enc) ?b (fe_shardCache enc ! fe_shardCount enc) = Some (arr, length b)"
      "slot_ok enc (arr, length b)" "drop (fe_payloadOffset enc) (take (length b) arr) = drop (fe_payloadOffset enc) ?b"
    using cache_put_slot [OF slot, of ?b] b po len by auto
  obtain c1 where c1: "in_slice (fe_headerOffset enc) (seal (fe_next enc) typeData) b = Some c1"
      "put_size (fe_payloadOffset enc) c1 = Some ?b"
    using sealed_data [OF b(1), of "fe_next enc"] by (auto simp: po bind_eq_Some_conv)
  have "encode_data now b enc = Some (?b, fe_tsLatestPacket enc,
      enc\<lparr>fe_next := (fe_next enc + 1) mod fe_paws enc,
          fe_shardCache := (fe_shardCache enc)[fe_shardCount enc := (arr, length b)],
          fe_shardCount := fe_shardCount enc + 1, fe_maxSize := max (length b) (fe_maxSize enc),
          fe_tsLatestPacket := now\<rparr>)"
    using c1 c arr(1) by (simp add: encode_data_def sealData_def advance_def len)
  with arr show ?thesis by blast
qed

section \<open>What encoding the parity does\<close>

lemma option_map_all_Some:
  "(\<And>x. x \<in> set xs \<Longrightarrow> f x = Some (g x)) \<Longrightarrow> option_map_all f xs = Some (map g xs)"
  by (induction xs) auto

lemma option_map_all_map: "option_map_all f (map g xs) = option_map_all (f \<circ> g) xs"
  by (induction xs) auto

lemma option_map_all_append:
  "option_map_all f (xs @ ys) = do { as \<leftarrow> option_map_all f xs; bs \<leftarrow> option_map_all f ys; Some (as @ bs) }"
  by (induction xs) (auto simp: bind_assoc [symmetric] split: bind_splits)

lemma drop_take_drop: "k \<le> n \<Longrightarrow> n \<le> length xs \<Longrightarrow> drop k (take n xs) @ drop n xs = drop k xs"
  using drop_append [of k "take n xs" "drop n xs"] by simp

text \<open>Sealing the parity shards: each gets the next number, and its slice the size of the group.\<close>

lemma seal_parities_spec:
  assumes "\<And>s. s \<in> set ps \<Longrightarrow> fe_headerOffset enc + 6 \<le> snd s \<and> snd s \<le> length (fst s) \<and> M \<le> length (fst s)"
    and "fe_headerOffset enc + 6 \<le> M"
    and "0 < fe_shardSize enc" "fe_shardSize enc \<le> 256" "fe_paws enc = paws_of (fe_shardSize enc)"
    and "fe_next enc < fe_paws enc" "unat (fe_next enc) mod fe_shardSize enc + length ps \<le> fe_shardSize enc"
  shows "\<exists>qs. seal_parities M ps enc =
      Some (qs, enc\<lparr>fe_next := (fe_next enc + of_nat (length ps)) mod fe_paws enc\<rparr>) \<and> length qs = length ps \<and>
    (\<forall>k<length ps. length (fst (qs ! k)) = length (fst (ps ! k)) \<and> snd (qs ! k) = M \<and>
      drop (fe_headerOffset enc) (take M (fst (qs ! k))) =
        fec_header (fe_next enc + of_nat k) typeParity @ drop (fe_headerOffset enc + 6) (take M (fst (ps ! k))))"
  using assms
proof (induction ps arbitrary: enc)
  case Nil
  then show ?case by (simp add: word_mod_small)
next
  case (Cons s ps)
  obtain arr n where s: "s = (arr, n)" by (cases s)
  let ?o = "fe_headerOffset enc" and ?e = "enc\<lparr>fe_next := (fe_next enc + 1) mod fe_paws enc\<rparr>"
  let ?b = "take ?o arr @ fec_header (fe_next enc) typeParity @ drop (?o + 6) arr"
  have len: "?o + 6 \<le> n" "n \<le> length arr" "M \<le> length arr" using Cons.prems(1) [of s] by (simp_all add: s)
  have seal: "sealParity ?o (take n arr) enc =
      Some (take ?o arr @ fec_header (fe_next enc) typeParity @ drop (?o + 6) (take n arr), ?e)"
    using len by (simp add: sealParity_def in_slice_seal advance_def min_def)
  have b: "(take ?o arr @ fec_header (fe_next enc) typeParity @ drop (?o + 6) (take n arr)) @ drop n arr = ?b"
    using len drop_take_drop [of "?o + 6" n arr] by simp
  note next1 = Cons.prems(3,4) Cons.prems(6) [unfolded Cons.prems(5)]
  have fit: "unat (fe_next enc) mod fe_shardSize enc + 1 \<le> fe_shardSize enc"
    using Cons.prems(7) by simp
  have step: "fe_next ?e = fe_next enc + 1" "unat (fe_next ?e) mod fe_shardSize enc = unat (fe_next enc) mod fe_shardSize enc + 1"
    if "ps \<noteq> []"
    using advance_inside [OF next1, of 1] Cons.prems(5,7) that by (cases ps; simp)+
  have wrap: "unat (fe_next ?e) mod fe_shardSize enc + length ps \<le> fe_shardSize enc"
    using step(2) Cons.prems(3,7) by (cases "ps = []") (simp_all add: less_imp_le)
  obtain qs where qs: "seal_parities M ps ?e =
      Some (qs, ?e\<lparr>fe_next := (fe_next ?e + of_nat (length ps)) mod fe_paws ?e\<rparr>)" "length qs = length ps"
    "\<forall>k<length ps. length (fst (qs ! k)) = length (fst (ps ! k)) \<and> snd (qs ! k) = M \<and>
      drop ?o (take M (fst (qs ! k))) =
        fec_header (fe_next ?e + of_nat k) typeParity @ drop (?o + 6) (take M (fst (ps ! k)))"
    using Cons.IH [of ?e] Cons.prems advance_wf(1) [OF next1, of 1] fit wrap by auto
  have num: "(fe_next ?e + of_nat (length ps)) mod fe_paws enc = (fe_next enc + of_nat (length (s # ps))) mod fe_paws enc"
    using step(1) advance_wf(1) [OF next1, of 1] fit Cons.prems(5)
    by (cases "ps = []") (simp_all add: add.assoc word_mod_small)
  have "seal_parities M (s # ps) enc = Some ((?b, M) # qs, enc\<lparr>fe_next := (fe_next enc + of_nat (length (s # ps))) mod fe_paws enc\<rparr>)"
    using seal b len qs(1) num by (simp add: s)
  moreover have "length (fst (((?b, M) # qs) ! k)) = length (fst ((s # ps) ! k)) \<and> snd (((?b, M) # qs) ! k) = M \<and>
      drop ?o (take M (fst (((?b, M) # qs) ! k))) =
        fec_header (fe_next enc + of_nat k) typeParity @ drop (?o + 6) (take M (fst ((s # ps) ! k)))"
    if "k < length (s # ps)" for k
  proof (cases k)
    case 0
    then show ?thesis using len Cons.prems(2) by (simp add: s drop_take)
  next
    case (Suc j)
    then have "ps \<noteq> []" using that by auto
    from step(1) [OF this] qs(3) that Suc show ?thesis by (simp add: add.assoc)
  qed
  ultimately show ?case using qs(2) by (intro exI [of _ "(?b, M) # qs"]) simp
qed

text \<open>The data shards as the codec sees them, and the parity packets it yields.\<close>

definition pad_to :: "nat \<Rightarrow> byte list \<Rightarrow> byte list" where
  "pad_to n x = x @ replicate (n - length x) 0"

definition shard_of :: "nat \<Rightarrow> byte list \<times> nat \<Rightarrow> byte list" where
  "shard_of off s = drop off (take (snd s) (fst s))"

lemma clear_tail_slot:
  assumes "slot_ok enc s" "snd s \<le> M" "M \<le> maxPacketSize"
  shows "\<exists>arr. clear_tail M s = Some (arr, snd s) \<and> slot_ok enc (arr, snd s) \<and>
    sub_slice (fe_payloadOffset enc) M (arr, snd s) =
      Some (pad_to (M - fe_payloadOffset enc) (shard_of (fe_payloadOffset enc) s))"
proof -
  obtain arr n where s: "s = (arr, n)" by (cases s)
  have len: "length arr = maxPacketSize" "fe_payloadOffset enc + 2 \<le> n" "n \<le> M"
    using assms by (simp_all add: s slot_ok_def)
  then show ?thesis
    using assms(3) by (auto simp: s clear_tail_def slot_ok_def sub_slice_def shard_of_def pad_to_def)
qed

lemma write_back_slot:
  assumes "slot_ok enc s" "length w = M - fe_payloadOffset enc" "M \<le> maxPacketSize" "fe_payloadOffset enc \<le> M"
  shows "slot_ok enc (write_back (fe_payloadOffset enc) s w)"
    and "drop (fe_payloadOffset enc) (take M (fst (write_back (fe_payloadOffset enc) s w))) = w"
  using assms by (cases s; simp add: slot_ok_def write_back_def)+

lemma encode_parity_spec:
  fixes enc M
  defines "d \<equiv> fe_dataShards enc" and "p \<equiv> fe_parityShards enc" and "po \<equiv> fe_payloadOffset enc"
  defines "ds \<equiv> map (pad_to (M - po) \<circ> shard_of po) (take d (fe_shardCache enc))"
  assumes wf: "fe_params enc" and nxt: "fe_next enc < fe_paws enc" "unat (fe_next enc) mod fe_shardSize enc = d"
    and M: "po + 2 \<le> M" "M \<le> maxPacketSize" "\<forall>s\<in>set (take d (fe_shardCache enc)). snd s \<le> M"
    and rs: "\<forall>qs. length qs = p \<and> (\<forall>q\<in>set qs. length q = M - po) \<longrightarrow>
      (\<exists>ps. rs_encode (d, p) (ds @ qs) = Some (ds @ ps) \<and> length ps = p \<and> (\<forall>x\<in>set ps. length x = M - po))"
  shows "\<exists>qs ps out cache. length qs = p \<and> (\<forall>q\<in>set qs. length q = M - po) \<and>
    rs_encode (d, p) (ds @ qs) = Some (ds @ ps) \<and>
    encode_parity rs_encode M enc = Some (out, enc\<lparr>fe_next := (fe_next enc + of_nat p) mod fe_paws enc, fe_shardCache := cache\<rparr>) \<and>
    fe_params (enc\<lparr>fe_shardCache := cache\<rparr>) \<and> length out = p \<and>
    (\<forall>k<p. length (out ! k) = M \<and>
       drop (fe_headerOffset enc) (out ! k) = fec_header (fe_next enc + of_nat k) typeParity @ ps ! k)"
proof -
  let ?C = "fe_shardCache enc" and ?ho = "fe_headerOffset enc"
  define f where "f s = the (clear_tail M s)" for s
  define qs where "qs = map (\<lambda>s. take (M - po) (drop po (fst s))) (drop d ?C)"
  have par: "fe_codec enc = (d, p)" "length ?C = d + p" "fe_shardSize enc = d + p" "po = ?ho + 6" "0 < d" "0 < p"
      "d + p \<le> 256" "fe_paws enc = paws_of (d + p)"
    and slots: "\<And>s. s \<in> set ?C \<Longrightarrow> slot_ok enc s"
    using wf by (auto simp: fe_params_def d_def p_def po_def)
  have f: "clear_tail M s = Some (f s) \<and> slot_ok enc (f s) \<and> sub_slice po M (f s) = Some (pad_to (M - po) (shard_of po s))"
    if "s \<in> set (take d ?C)" for s
  proof -
    have "slot_ok enc s" "snd s \<le> M" using slots [OF in_set_takeD [OF that]] M(3) that by blast+
    from clear_tail_slot [OF this M(2)] show ?thesis by (auto simp: f_def po_def)
  qed
  have cleared: "option_map_all (clear_tail M) (take d ?C) = Some (map f (take d ?C))"
    using f by (intro option_map_all_Some) simp
  have data: "option_map_all (sub_slice po M) (map f (take d ?C)) = Some ds"
    using f unfolding ds_def option_map_all_map by (intro option_map_all_Some) simp
  have arr: "length (fst s) = maxPacketSize" if "s \<in> set (drop d ?C)" for s
    using slots [OF in_set_dropD [OF that]] by (simp add: slot_ok_def)
  have parity: "option_map_all (sub_slice po M) (drop d ?C) = Some qs"
    unfolding qs_def using arr M by (intro option_map_all_Some) (auto simp: sub_slice_def)
  have sub: "option_map_all (sub_slice po M) (map f (take d ?C) @ drop d ?C) = Some (ds @ qs)"
    by (simp add: option_map_all_append data parity)
  have q: "length qs = p" "\<And>q. q \<in> set qs \<Longrightarrow> length q = M - po"
    using arr M(2) par(2) by (auto simp: qs_def)
  obtain ps where ps: "rs_encode (d, p) (ds @ qs) = Some (ds @ ps)" "length ps = p" "\<forall>x\<in>set ps. length x = M - po"
    using rs q by blast
  define A B where "A = map2 (write_back po) (map f (take d ?C)) ds" and "B = map2 (write_back po) (drop d ?C) ps"
  have AB: "map2 (write_back po) (map f (take d ?C) @ drop d ?C) (ds @ ps) = A @ B" "length A = d" "length B = p"
    using par(2) ps(2) by (simp_all add: A_def B_def ds_def)
  have wb: "slot_ok enc (write_back po s w)" "drop po (take M (fst (write_back po s w))) = w"
    if "slot_ok enc s" "length w = M - po" for s w
    using write_back_slot [OF that(1), of w M] that(2) M by (simp_all add: po_def)
  have B: "slot_ok enc (B ! k) \<and> drop po (take M (fst (B ! k))) = ps ! k" if "k < p" for k
    using wb [of "?C ! (d + k)" "ps ! k"] slots [of "?C ! (d + k)"] that par(2) ps(2,3) by (simp add: B_def)
  have lds: "length x = M - po" if "x \<in> set ds" for x
    using that M(3) by (auto simp: ds_def pad_to_def shard_of_def)
  have A: "slot_ok enc s" if s: "s \<in> set A" for s
  proof -
    obtain k where k: "k < d" "s = A ! k" using s AB(2) by (auto simp: in_set_conv_nth)
    have "length ds = d" using par(2) by (simp add: ds_def)
    then have "length (ds ! k) = M - po" "A ! k = write_back po (f (?C ! k)) (ds ! k)"
      using k(1) lds par(2) by (simp_all add: A_def)
    moreover have "?C ! k \<in> set (take d ?C)" using k(1) par(2) by (auto simp: in_set_conv_nth)
    ultimately show ?thesis using f wb(1) k(2) by simp
  qed
  obtain out where out: "seal_parities M B enc = Some (out, enc\<lparr>fe_next := (fe_next enc + of_nat (length B)) mod fe_paws enc\<rparr>)"
      "length out = length B" "\<forall>k<length B. length (fst (out ! k)) = length (fst (B ! k)) \<and> snd (out ! k) = M \<and>
      drop ?ho (take M (fst (out ! k))) = fec_header (fe_next enc + of_nat k) typeParity @ drop (?ho + 6) (take M (fst (B ! k)))"
  proof -
    have "?ho + 6 \<le> snd s \<and> snd s \<le> length (fst s) \<and> M \<le> length (fst s)" if s: "s \<in> set B" for s
    proof -
      obtain k where "k < p" "s = B ! k" using s AB(3) by (metis in_set_conv_nth)
      then show ?thesis using B [of k] M(2) par(4) by (simp add: slot_ok_def po_def)
    qed
    moreover have "unat (fe_next enc) mod fe_shardSize enc + length B \<le> fe_shardSize enc"
      using nxt(2) AB(3) par(3) by simp
    ultimately show ?thesis
      using seal_parities_spec [of B enc M] M(1) par nxt(1) that by auto
  qed
  let ?out = "map (\<lambda>(arr, n). take n arr) out"
  have enc: "encode_parity rs_encode M enc =
      Some (?out, enc\<lparr>fe_next := (fe_next enc + of_nat p) mod fe_paws enc, fe_shardCache := A @ out\<rparr>)"
    using cleared sub ps(1) AB out(1)
    by (simp add: encode_parity_def Let_def d_def [symmetric] po_def [symmetric] par)
  have "slot_ok enc s" if s: "s \<in> set (A @ out)" for s
  proof (cases "s \<in> set A")
    case False
    then obtain k where "k < p" "s = out ! k" using s out(2) AB(3) by (metis Un_iff in_set_conv_nth set_append)
    then show ?thesis using out(3) B [of k] M AB(3) by (simp add: slot_ok_def po_def)
  qed (rule A)
  then have params: "fe_params (enc\<lparr>fe_shardCache := A @ out\<rparr>)"
    using wf AB out(2) par by (simp add: fe_params_def slot_ok_def)
  have pkts: "length (?out ! k) = M \<and> drop ?ho (?out ! k) = fec_header (fe_next enc + of_nat k) typeParity @ ps ! k"
    if "k < p" for k
  proof -
    have "?out ! k = take M (fst (out ! k))" "length (fst (out ! k)) = maxPacketSize"
      using out(2,3) AB(3) B [OF that] that by (simp_all add: case_prod_unfold slot_ok_def)
    then show ?thesis using out(3) AB(3) B [OF that] that M(2) par(4) by simp
  qed
  have len: "length ?out = p" using out(2) AB(3) by simp
  have q': "\<forall>q\<in>set qs. length q = M - po" using q(2) by blast
  have pkts': "\<forall>k<p. length (?out ! k) = M \<and>
      drop ?ho (?out ! k) = fec_header (fe_next enc + of_nat k) typeParity @ ps ! k"
    using pkts by blast
  show ?thesis
    by (rule exI [of _ qs], rule exI [of _ ps], rule exI [of _ ?out], rule exI [of _ "A @ out"])
      (intro conjI q(1) q' ps(1) enc params len pkts')
qed

lemma newFECEncoder_wf:
  assumes "newFECEncoder rs_new sn d p off = Some enc" "d + p \<le> 256" "off + 8 \<le> maxPacketSize"
  shows "fe_wf enc \<and> fe_shardCount enc = 0"
proof -
  have "0 < paws_of (nat d + nat p)" if "0 < d" "0 < p"
  proof -
    have n: "0 < nat d + nat p" "nat d + nat p \<le> 256" using that assms(2) by simp_all
    have "1 \<le> 4294967295 div (nat d + nat p)" using n by (simp add: div_greater_zero_iff Suc_le_eq)
    then show ?thesis using paws_unat [OF n] n(1) by (simp add: word_less_nat_alt)
  qed
  with assms show ?thesis
    by (auto simp: newFECEncoder_def fe_wf_def fe_params_def slot_ok_def fecHeaderSize_def Let_def split: if_splits)
qed

end
