(* ===== verification/Fec_Recovery.thy ===== *)
theory Fec_Recovery
  imports Fec_Encoder
begin

text \<open>
  Encoder and decoder together. The hypothesis on the codec is what the documentation of
  \<^verbatim>\<open>klauspost/reedsolomon\<close> promises: \<^verbatim>\<open>Encode\<close> keeps the data shards and overwrites the parity shards,
  and \<^verbatim>\<open>ReconstructData\<close> restores the data shards from any \<open>d\<close> of the \<open>d + p\<close> shards. From it the
  theorems derive that any \<open>d\<close> packets of a group, in any order, make the decoder return exactly
  the missing payloads.
\<close>

section \<open>The contract of the codec\<close>

definition rs_mds ::
    "(nat \<times> nat \<Rightarrow> byte list list \<Rightarrow> byte list list option) \<Rightarrow>
     (nat \<times> nat \<Rightarrow> byte list list \<Rightarrow> byte list list option) \<Rightarrow> nat \<Rightarrow> nat \<Rightarrow> bool" where
  "rs_mds rs_encode rs_rec d p \<longleftrightarrow>
     (\<forall>n ds qs. 0 < n \<and> length ds = d \<and> length qs = p \<and> (\<forall>x\<in>set (ds @ qs). length x = n) \<longrightarrow>
       (\<exists>ps. length ps = p \<and> (\<forall>x\<in>set ps. length x = n) \<and> rs_encode (d, p) (ds @ qs) = Some (ds @ ps) \<and>
         (\<forall>ss. length ss = d + p \<and> (\<forall>k<d + p. ss ! k = (ds @ ps) ! k \<or> ss ! k = []) \<and>
            d \<le> length (filter (\<lambda>s. s \<noteq> []) ss) \<longrightarrow>
            (\<exists>out. rs_rec (d, p) ss = Some out \<and> take d out = ds))))"

section \<open>The packets of one group\<close>

definition max_len :: "byte list list \<Rightarrow> nat" where
  "max_len xs = foldr max (map length xs) 0"

text \<open>Group \<open>i\<close> with the data shards \<open>ds\<close>: its packets in the order of their numbers.\<close>

definition fec_group ::
    "(nat \<times> nat \<Rightarrow> byte list list \<Rightarrow> byte list list option) \<Rightarrow> nat \<Rightarrow> nat \<Rightarrow> u32 \<Rightarrow> byte list list
      \<Rightarrow> fecPacket list \<Rightarrow> bool" where
  "fec_group rs_encode d p i ds pkts \<longleftrightarrow>
     length ds = d \<and> length pkts = d + p \<and> 0 < max_len ds \<and>
     unat i * (d + p) + (d + p) \<le> unat (paws_of (d + p)) \<and>
     (\<forall>k<d + p. 6 \<le> length (pkts ! k) \<and> length (pkts ! k) \<le> maxPacketSize \<and>
        pkt_seq (pkts ! k) = of_nat (unat i * (d + p) + k) \<and>
        pkt_flag (pkts ! k) = (if k < d then typeData else typeParity)) \<and>
     (\<forall>k<d. pkt_data (pkts ! k) = ds ! k) \<and>
     (\<exists>qs out. length qs = p \<and> (\<forall>q\<in>set qs. length q = max_len ds) \<and>
        rs_encode (d, p) (map (pad_to (max_len ds)) ds @ qs) = Some out \<and>
        (\<forall>k<p. pkt_data (pkts ! (d + k)) = out ! (d + k)))"

lemma max_len_ge: "x \<in> set xs \<Longrightarrow> length x \<le> max_len xs"
  by (induction xs) (auto simp: max_len_def)

lemma length_pad_to: "length x \<le> n \<Longrightarrow> length (pad_to n x) = n"
  by (simp add: pad_to_def)

section \<open>Positions\<close>

lemma group_packet:
  assumes g: "fec_group rs_encode d p i ds pkts" and dp: "0 < d" "0 < p" "d + p \<le> 256" and k: "k < d + p"
  shows "pkt_pos (d + p) (pkts ! k) = k" "pkt_seq (pkts ! k) div of_nat (d + p) = i"
    "pkt_seq (pkts ! k) < paws_of (d + p)"
proof -
  let ?n = "unat i * (d + p) + k"
  have lt: "?n < unat (paws_of (d + p))" "unat (paws_of (d + p)) < 4294967296"
    using g k unat_u32_less by (auto simp: fec_group_def)
  have "pkt_seq (pkts ! k) = of_nat ?n" using g k by (simp add: fec_group_def)
  with lt have s: "unat (pkt_seq (pkts ! k)) = ?n" by (simp only: unat_of_nat_u32)
  have n: "unat (of_nat (d + p) :: u32) = d + p" by (rule unat_of_nat_u32) (use dp in simp)
  show "pkt_pos (d + p) (pkts ! k) = k" unfolding unat_mod n s using k by simp
  show "pkt_seq (pkts ! k) div of_nat (d + p) = i"
    unfolding word_unat_eq_iff unat_div n s using k dp by simp
  show "pkt_seq (pkts ! k) < paws_of (d + p)" unfolding word_less_nat_alt s using lt(1) .
qed

lemma group_member:
  assumes "fec_group rs_encode d p i ds pkts" "x \<in> set pkts"
  shows "\<exists>k<d + p. x = pkts ! k"
  using assms by (auto simp: fec_group_def in_set_conv_nth)

text \<open>Packets are determined by their positions.\<close>

lemma group_pos_image:
  assumes g: "fec_group rs_encode d p i ds pkts" and dp: "0 < d" "0 < p" "d + p \<le> 256"
    and sub: "set xs \<subseteq> set pkts" and k: "k < d + p"
  shows "k \<in> pkt_pos (d + p) ` set xs \<longleftrightarrow> pkts ! k \<in> set xs"
proof
  assume "k \<in> pkt_pos (d + p) ` set xs"
  then obtain x where x: "x \<in> set xs" "pkt_pos (d + p) x = k" by auto
  with sub obtain j where "j < d + p" "x = pkts ! j" using group_member [OF g, of x] by blast
  with x group_packet(1) [OF g dp] show "pkts ! k \<in> set xs" by auto
qed (use group_packet(1) [OF g dp k] in force)

lemma group_inj:
  assumes g: "fec_group rs_encode d p i ds pkts" and dp: "0 < d" "0 < p" "d + p \<le> 256"
  shows "inj_on (pkt_pos (d + p)) (set pkts)" "inj_on pkt_seq (set pkts)"
proof -
  show "inj_on (pkt_pos (d + p)) (set pkts)"
    using group_packet(1) [OF g dp] group_member [OF g] by (metis (no_types, lifting) inj_onI)
  then show "inj_on pkt_seq (set pkts)" by (auto simp: inj_on_def)
qed

lemma group_distinct:
  assumes g: "fec_group rs_encode d p i ds pkts" and dp: "0 < d" "0 < p" "d + p \<le> 256"
  shows "distinct pkts"
  unfolding distinct_conv_nth
proof (intro allI impI)
  fix j k assume jk: "j < length pkts" "k < length pkts" "j \<noteq> k"
  have "length pkts = d + p" using g by (simp add: fec_group_def)
  with jk show "pkts ! j \<noteq> pkts ! k" using group_packet(1) [OF g dp] by metis
qed

section \<open>Recovery from any complete subset\<close>

lemma count_present:
  assumes g: "fec_group rs_encode d p i ds pkts" and dp: "0 < d" "0 < p" "d + p \<le> 256"
    and xs: "distinct xs" "set xs \<subseteq> set pkts"
  shows "length (filter (\<lambda>k. pkts ! k \<in> set xs) [0..<d + p]) = length xs"
proof -
  have "inj_on ((!) pkts) {k. k < d + p}"
    using group_packet(1) [OF g dp] by (auto simp: inj_on_def) metis
  then have "card ((!) pkts ` {k. k < d + p \<and> pkts ! k \<in> set xs}) = card {k. k < d + p \<and> pkts ! k \<in> set xs}"
    by (intro card_image) (auto simp: inj_on_def)
  moreover have "x \<in> (!) pkts ` {k. k < d + p \<and> pkts ! k \<in> set xs}" if "x \<in> set xs" for x
  proof -
    have "x \<in> set pkts" using that xs(2) by blast
    then obtain k where "k < d + p" "x = pkts ! k" using group_member [OF g] by blast
    with that show ?thesis by auto
  qed
  then have "(!) pkts ` {k. k < d + p \<and> pkts ! k \<in> set xs} = set xs" by auto
  moreover have "length (filter (\<lambda>k. pkts ! k \<in> set xs) [0..<d + p]) = card {k. k < d + p \<and> pkts ! k \<in> set xs}"
    by (simp add: length_filter_conv_card cong: conj_cong)
  ultimately show ?thesis using distinct_card [OF xs(1)] by simp
qed

lemma group_parity:
  assumes mds: "rs_mds rs_encode rs_rec d p" and g: "fec_group rs_encode d p i ds pkts"
  obtains ps where "length ps = p" "\<And>k. k < p \<Longrightarrow> pkt_data (pkts ! (d + k)) = ps ! k"
    "\<And>k. k < p \<Longrightarrow> length (ps ! k) = max_len ds"
    "\<And>ss. length ss = d + p \<Longrightarrow> (\<And>k. k < d + p \<Longrightarrow> ss ! k = (map (pad_to (max_len ds)) ds @ ps) ! k \<or> ss ! k = []) \<Longrightarrow>
       d \<le> length (filter (\<lambda>s. s \<noteq> []) ss) \<Longrightarrow>
       \<exists>out. rs_rec (d, p) ss = Some out \<and> take d out = map (pad_to (max_len ds)) ds"
proof -
  let ?ds = "map (pad_to (max_len ds)) ds"
  obtain qs out where q: "length qs = p" "\<forall>q\<in>set qs. length q = max_len ds"
      "rs_encode (d, p) (?ds @ qs) = Some out" "\<forall>k<p. pkt_data (pkts ! (d + k)) = out ! (d + k)"
      "length ds = d" "0 < max_len ds"
    using g by (auto simp: fec_group_def)
  then have "\<forall>x\<in>set (?ds @ qs). length x = max_len ds" by (auto simp: length_pad_to max_len_ge)
  with q have "0 < max_len ds \<and> length ?ds = d \<and> length qs = p \<and> (\<forall>x\<in>set (?ds @ qs). length x = max_len ds)"
    by simp
  with mds obtain ps where ps: "length ps = p" "\<forall>x\<in>set ps. length x = max_len ds"
      "rs_encode (d, p) (?ds @ qs) = Some (?ds @ ps)"
      "\<forall>ss. length ss = d + p \<and> (\<forall>k<d + p. ss ! k = (?ds @ ps) ! k \<or> ss ! k = []) \<and>
         d \<le> length (filter (\<lambda>s. s \<noteq> []) ss) \<longrightarrow> (\<exists>out. rs_rec (d, p) ss = Some out \<and> take d out = ?ds)"
    unfolding rs_mds_def by blast
  show ?thesis
  proof (rule that [of ps])
    show "pkt_data (pkts ! (d + k)) = ps ! k" if "k < p" for k
      using q(3,4,5) that unfolding ps(3) by (auto simp: nth_append)
  qed (use ps in auto)
qed

lemma group_flag:
  assumes "fec_group rs_encode d p i ds pkts" "k < d + p"
  shows "pkt_flag (pkts ! k) = typeData \<longleftrightarrow> k < d"
  using assms by (simp add: fec_group_def typeData_def typeParity_def)

lemma foldr_max_eq: "m \<in> set l \<Longrightarrow> (\<And>x. x \<in> set l \<Longrightarrow> x \<le> m) \<Longrightarrow> foldr max l 0 = (m :: nat)"
proof -
  assume m: "m \<in> set l" "\<And>x. x \<in> set l \<Longrightarrow> x \<le> m"
  have "x \<le> foldr max l 0" if "x \<in> set l" for x using that by (induction l) auto
  moreover have "foldr max l 0 \<le> m" using m(2) by (induction l) auto
  ultimately show ?thesis using m(1) by (meson order_antisym)
qed

text \<open>Either all the data packets are there, or a parity packet is.\<close>

lemma all_data_or_parity:
  assumes g: "fec_group rs_encode d p i ds pkts" and dp: "0 < d" "0 < p" "d + p \<le> 256"
    and xs: "distinct xs" "set xs \<subseteq> set pkts" "length xs = d"
  shows "length (filter (\<lambda>x. pkt_flag x = typeData) xs) = d \<Longrightarrow> k < d \<Longrightarrow> pkts ! k \<in> set xs"
    and "length (filter (\<lambda>x. pkt_flag x = typeData) xs) \<noteq> d \<Longrightarrow> \<exists>k<p. pkts ! (d + k) \<in> set xs"
proof -
  have split: "[0..<d + p] = [0..<d] @ [d..<d + p]" using upt_add_eq_append [of 0 d p] by simp
  {
    assume all: "length (filter (\<lambda>x. pkt_flag x = typeData) xs) = d" and k: "k < d"
    have data: "pkt_flag x = typeData" if "x \<in> set xs" for x
    proof (rule ccontr)
      assume "pkt_flag x \<noteq> typeData"
      with that have "length (filter (\<lambda>x. pkt_flag x = typeData) xs) < length xs" by (rule length_filter_less)
      with all xs(3) show False by simp
    qed
    have "pkts ! j \<notin> set xs" if "d \<le> j" "j < d + p" for j
      using data [of "pkts ! j"] group_flag [OF g that(2)] that(1) by auto
    then have "filter (\<lambda>k. pkts ! k \<in> set xs) [d..<d + p] = []" by (simp add: filter_empty_conv)
    then have "length (filter (\<lambda>k. pkts ! k \<in> set xs) [0..<d]) = d"
      using count_present [OF g dp xs(1,2)] xs(3) split by simp
    moreover have "length (filter (\<lambda>k. pkts ! k \<in> set xs) [0..<d]) < d" if "pkts ! k \<notin> set xs"
      using length_filter_less [of k "[0..<d]" "\<lambda>k. pkts ! k \<in> set xs"] that k by simp
    ultimately show "pkts ! k \<in> set xs" by linarith
  next
    assume "length (filter (\<lambda>x. pkt_flag x = typeData) xs) \<noteq> d"
    then have "filter (\<lambda>x. pkt_flag x = typeData) xs \<noteq> xs" using xs(3) by auto
    then obtain x where x: "x \<in> set xs" "pkt_flag x \<noteq> typeData" unfolding filter_id_conv by blast
    then have "x \<in> set pkts" using xs(2) by blast
    then obtain k where k: "k < d + p" "x = pkts ! k" using group_member [OF g] by blast
    then have "\<not> k < d" using x(2) group_flag [OF g] by simp
    with k x(1) show "\<exists>k<p. pkts ! (d + k) \<in> set xs" by (intro exI [of _ "k - d"]) simp
  }
qed

lemma length_filter_nth: "length (filter P xs) = length (filter (\<lambda>k. P (xs ! k)) [0..<length xs])"
proof -
  have "filter P (map ((!) xs) [0..<length xs]) = map ((!) xs) (filter (P \<circ> (!) xs) [0..<length xs])"
    by (rule filter_map)
  then show ?thesis by (simp add: map_nth comp_def)
qed

lemma recovery_of_group:
  fixes xs
  assumes mds: "rs_mds rs_encode rs_rec d p" and g: "fec_group rs_encode d p i ds pkts"
    and dp: "0 < d" "0 < p" "d + p \<le> 256"
    and xs: "distinct xs" "set xs \<subseteq> set pkts" "length xs = d"
  shows "recovery rs_rec (d, p) (foldr (add_shard (d + p)) xs (empty_drained (d + p))) =
    map (\<lambda>k. pad_to (max_len ds) (ds ! k)) (filter (\<lambda>k. pkts ! k \<notin> set xs) [0..<d])"
proof -
  define a where "a = foldr (add_shard (d + p)) xs (empty_drained (d + p))"
  note a = fold_add_shard [where n = "d + p" and els = xs and m = "d + p", folded a_def]
  have ds: "length ds = d" "0 < max_len ds" "\<And>k. k < d \<Longrightarrow> pkt_data (pkts ! k) = ds ! k"
    using g by (simp_all add: fec_group_def)
  have flags: "dr_flags a ! k \<longleftrightarrow> pkts ! k \<in> set xs" if "k < d + p" for k
    using fold_add_shard_nth(1) [OF that, of "d + p" xs] group_pos_image [OF g dp xs(2) that] by (simp add: a_def)
  have none: "pkts ! k \<notin> set xs \<Longrightarrow> dr_shards a ! k = None" if "k < d + p" for k
    using fold_add_shard_nth(2) [OF that, of "d + p" xs] group_pos_image [OF g dp xs(2) that] by (simp add: a_def)
  have some: "pkts ! k \<in> set xs \<Longrightarrow> dr_shards a ! k = Some (pkt_data (pkts ! k))" if "k < d + p" for k
    using fold_add_shard_at [of "d + p" xs "pkts ! k" "d + p"] inj_on_subset [OF group_inj(1) [OF g dp] xs(2)]
      group_packet(1) [OF g dp that] that by (simp add: a_def)
  show ?thesis
  proof (cases "dr_numData a = d")
    case True
    then have "\<forall>k<d. pkts ! k \<in> set xs" using all_data_or_parity(1) [OF g dp xs] a(4) by simp
    then show ?thesis using True unfolding a_def [symmetric] by (simp add: recovery_def filter_empty_conv)
  next
    case False
    obtain ps where ps: "length ps = p" "\<And>k. k < p \<Longrightarrow> pkt_data (pkts ! (d + k)) = ps ! k"
      "\<And>k. k < p \<Longrightarrow> length (ps ! k) = max_len ds"
      and rec: "\<And>ss. length ss = d + p \<Longrightarrow> (\<And>k. k < d + p \<Longrightarrow> ss ! k = (map (pad_to (max_len ds)) ds @ ps) ! k \<or> ss ! k = []) \<Longrightarrow>
       d \<le> length (filter (\<lambda>s. s \<noteq> []) ss) \<Longrightarrow>
       \<exists>out. rs_rec (d, p) ss = Some out \<and> take d out = map (pad_to (max_len ds)) ds"
      using group_parity [OF mds g] by blast
    have len: "length (pkt_data (pkts ! k)) \<le> max_len ds" if "k < d + p" for k
      using that ds(1,3) ps(2) [of "k - d"] ps(3) [of "k - d"] max_len_ge [of "ds ! k" ds]
      by (cases "k < d") auto
    have maxlen: "dr_maxlen a = max_len ds"
    proof -
      obtain k where "k < p" "pkts ! (d + k) \<in> set xs"
        using all_data_or_parity(2) [OF g dp xs] False a(4) by auto
      with ps(2) [of k] ps(3) [of k] have "max_len ds \<in> set (map (length \<circ> drop 6) xs)"
        unfolding set_map comp_def by (intro image_eqI [of _ _ "pkts ! (d + k)"]) (simp_all only:)
      moreover have "n \<le> max_len ds" if "n \<in> set (map (length \<circ> drop 6) xs)" for n
      proof -
        obtain x where x: "x \<in> set xs" "n = length (pkt_data x)" using \<open>n \<in> _\<close> by auto
        then show ?thesis using group_member [OF g, of x] xs(2) len by blast
      qed
      ultimately show ?thesis unfolding a(5) by (rule foldr_max_eq)
    qed
    let ?ss = "map (pad_shard (dr_maxlen a)) (dr_shards a)"
    have nth: "?ss ! k = (if pkts ! k \<in> set xs then (map (pad_to (max_len ds)) ds @ ps) ! k else [])"
      if "k < d + p" for k
    proof (cases "pkts ! k \<in> set xs")
      case True
      then have "?ss ! k = pad_to (max_len ds) (pkt_data (pkts ! k))"
        using that a(2) some [OF that] by (simp add: pad_shard_def pad_to_def maxlen)
      also have "\<dots> = (map (pad_to (max_len ds)) ds @ ps) ! k"
        using that ds ps(2) [of "k - d"] ps(3) [of "k - d"]
        by (cases "k < d") (simp_all add: nth_append pad_to_def)
      finally show ?thesis using True by simp
    next
      case False
      then show ?thesis using that a(2) none [OF that] by (simp add: pad_shard_def)
    qed
    have nonempty: "?ss ! k \<noteq> [] \<longleftrightarrow> pkts ! k \<in> set xs" if "k < d + p" for k
    proof -
      have "length ((map (pad_to (max_len ds)) ds @ ps) ! k) = max_len ds"
        using that ds ps(3) [of "k - d"] max_len_ge [of "ds ! k" ds] by (cases "k < d") (auto simp: nth_append length_pad_to)
      then show ?thesis using nth [OF that] ds(2) by auto
    qed
    have "length (filter (\<lambda>s. s \<noteq> []) ?ss) = length (filter (\<lambda>k. ?ss ! k \<noteq> []) [0..<d + p])"
      using length_filter_nth [of "\<lambda>s. s \<noteq> []" ?ss] a(2) by simp
    also have "\<dots> = length (filter (\<lambda>k. pkts ! k \<in> set xs) [0..<d + p])"
      using nonempty by (intro arg_cong [where f = length] filter_cong) auto
    also have "\<dots> = d" using count_present [OF g dp xs(1,2)] xs(3) by simp
    finally have count: "length (filter (\<lambda>s. s \<noteq> []) ?ss) = d" .
    have "\<exists>out. rs_rec (d, p) ?ss = Some out \<and> take d out = map (pad_to (max_len ds)) ds"
    proof (rule rec)
      show "length ?ss = d + p" using a(2) by simp
      show "?ss ! k = (map (pad_to (max_len ds)) ds @ ps) ! k \<or> ?ss ! k = []" if "k < d + p" for k
        using nth [OF that] by (cases "pkts ! k \<in> set xs") (simp_all only: if_True if_False simp_thms)
      show "d \<le> length (filter (\<lambda>s. s \<noteq> []) ?ss)" using count by simp
    qed
    then obtain out where out: "rs_rec (d, p) ?ss = Some out" "take d out = map (pad_to (max_len ds)) ds" by blast
    have "out ! k = pad_to (max_len ds) (ds ! k)" if "k < d" for k
      using arg_cong [OF out(2), of "\<lambda>xs. xs ! k"] that ds by simp
    moreover have "filter (\<lambda>k. \<not> dr_flags a ! k) [0..<d] = filter (\<lambda>k. pkts ! k \<notin> set xs) [0..<d]"
      using flags by (intro filter_cong) auto
    ultimately show ?thesis
      using False out(1) unfolding a_def [symmetric] by (simp add: recovery_def)
  qed
qed

section \<open>Feeding the decoder\<close>

text \<open>A decoder with the peer's parameters that holds the packets \<open>els\<close> of group \<open>i\<close>. The group is
  not too old, also with respect to the newest set there is once the group has been seen.\<close>

definition group_state :: "nat \<Rightarrow> nat \<Rightarrow> u32 \<Rightarrow> fecPacket list \<Rightarrow> fecDecoder \<Rightarrow> bool" where
  "group_state d p i els dec \<longleftrightarrow> fd_wf dec \<and> \<not> fd_shouldTune dec \<and> fd_dataShards dec = d \<and> fd_parityShards dec = p \<and>
     sh_elements (set_at i dec) = els \<and> \<not> tooOld (dec\<lparr>fd_newestShardId := newest_with i dec\<rparr>) i"

fun decode_all where
  "decode_all rs_new rs_rec [] dec = Some ([], dec)"
| "decode_all rs_new rs_rec (x # xs) dec = do {
     (r, dec) \<leftarrow> decode rs_new rs_rec x dec;
     (rs, dec) \<leftarrow> decode_all rs_new rs_rec xs dec;
     Some (r @ rs, dec) }"

lemma map_of_filter_key: "P i \<Longrightarrow> map_of (filter (\<lambda>(k, _). P k) m) i = map_of m i"
  by (induction m) auto

lemma newest_with_idem:
  "newest_with i (dec\<lparr>fd_newestShardId := newest_with i dec\<rparr>) = newest_with i dec"
  by (auto simp: newest_with_def itimediff_def)

lemma discard_stored:
  assumes "\<not> tooOld (dec\<lparr>fd_newestShardId := newest_with i dec\<rparr>) i"
  shows "set_at i (discardShards (stored i h \<delta> sn dec)) = h"
    and "newest_with i (discardShards (stored i h \<delta> sn dec)) = newest_with i dec"
    and "tooOld ((discardShards (stored i h \<delta> sn dec))\<lparr>fd_newestShardId := m\<rparr>) = tooOld (dec\<lparr>fd_newestShardId := m\<rparr>)"
proof -
  have old: "tooOld (stored i h \<delta> sn dec) = tooOld (dec\<lparr>fd_newestShardId := newest_with i dec\<rparr>)"
    by (simp add: tooOld_def stored_def fun_eq_iff)
  have "map_of (fd_shardSet (discardShards (stored i h \<delta> sn dec))) i = Some h"
    using assms old map_of_filter_key [of "\<lambda>k. \<not> tooOld (stored i h \<delta> sn dec) k" i "fd_shardSet (stored i h \<delta> sn dec)"]
    by (simp add: discardShards_def Let_def) (simp add: stored_def AList.update_conv')
  then show "set_at i (discardShards (stored i h \<delta> sn dec)) = h" by (simp add: set_at_def)
  show "newest_with i (discardShards (stored i h \<delta> sn dec)) = newest_with i dec"
    using newest_with_idem [of i dec] by (simp add: newest_with_def stored_def)
  show "tooOld ((discardShards (stored i h \<delta> sn dec))\<lparr>fd_newestShardId := m\<rparr>) = tooOld (dec\<lparr>fd_newestShardId := m\<rparr>)"
    by (simp add: tooOld_def fun_eq_iff)
qed

lemma group_state_stored:
  assumes "group_state d p i els dec" "fd_wf (discardShards (stored i h \<delta> sn dec))"
  shows "group_state d p i (sh_elements h) (discardShards (stored i h \<delta> sn dec))"
  using assms discard_stored [where dec = dec and i = i and h = h and \<delta> = \<delta> and sn = sn]
  by (simp add: group_state_def)

lemma sample_simps:
  "set_at i (decode_sample fl n dec) = set_at i dec"
  "newest_with i (decode_sample fl n dec) = newest_with i dec"
  "tooOld ((decode_sample fl n dec)\<lparr>fd_newestShardId := m\<rparr>) = tooOld (dec\<lparr>fd_newestShardId := m\<rparr>)"
  "fd_dataShards (decode_sample fl n dec) = fd_dataShards dec"
  "fd_parityShards (decode_sample fl n dec) = fd_parityShards dec"
  "fd_shouldTune (decode_sample fl n dec) = fd_shouldTune dec"
  by (simp_all add: decode_sample_def set_at_def newest_with_def tooOld_def fun_eq_iff)

lemma group_state_sample: "group_state d p i els dec \<Longrightarrow> group_state d p i els (decode_sample fl n dec)"
  using decode_sample_wf [of dec fl n] by (simp add: group_state_def sample_simps)

text \<open>A packet of the group is taken as a shard.\<close>

lemma decode_group_packet:
  assumes g: "fec_group rs_encode d p i ds pkts" and dp: "0 < d" "0 < p" "d + p \<le> 256"
    and st: "group_state d p i els dec" and x: "x \<in> set pkts"
  shows "\<exists>s. group_state d p i els s \<and> shard_ok s i x \<and>
    decode rs_new rs_rec x dec = decode_store rs_rec x (pkt_flag x) (pkt_seq x) s"
proof -
  obtain k where k: "k < d + p" "x = pkts ! k" using group_member [OF g x] by blast
  have len: "6 \<le> length x" "length x \<le> maxPacketSize" "pkt_flag x = (if k < d then typeData else typeParity)"
    using g k by (auto simp: fec_group_def)
  note pos = group_packet [OF g dp k(1), folded k(2)]
  obtain n fl where f: "fec_seqid x = Some n" "fec_flag x = Some fl" using fec_fields [OF len(1)] .
  let ?s = "decode_sample fl n dec"
  have s: "group_state d p i els ?s" using st by (rule group_state_sample)
  then have ps: "fd_shardSize ?s = d + p" "fd_paws ?s = paws_of (d + p)" "fd_dataShards ?s = d" "\<not> fd_shouldTune ?s"
    by (auto simp: group_state_def fd_wf_def fd_params_def)
  have "unat (of_nat d :: u32) = d" using dp by simp
  then have "n mod of_nat (d + p) < of_nat d \<longleftrightarrow> k < d"
    using pos(1) f unfolding word_less_nat_alt by simp
  then have nm: "\<not> mismatch fl n ?s" using ps f len(3) by (simp add: mismatch_def)
  have "\<not> paws_of (d + p) \<le> n" using pos(3) f by simp
  with nm f ps have "decode rs_new rs_rec x dec = decode_store rs_rec x fl n ?s"
    by (simp add: decode_def Let_def)
  moreover have "shard_ok ?s i x" using nm len(1,2) pos(2,3) f ps by (simp add: shard_ok_def getShardId_def)
  ultimately show ?thesis using s f by auto
qed

lemma decode_group_step:
  assumes g: "fec_group rs_encode d p i ds pkts" and dp: "0 < d" "0 < p" "d + p \<le> 256"
    and st: "group_state d p i els dec" and x: "x \<in> set pkts" "x \<notin> set els" and els: "set els \<subseteq> set pkts"
    and rs: "rs_keeps_length rs_rec"
  shows "Suc (length els) < d \<Longrightarrow>
      \<exists>dec'. decode rs_new rs_rec x dec = Some ([], dec') \<and> group_state d p i (els @ [x]) dec'"
    and "\<not> Suc (length els) < d \<Longrightarrow>
      \<exists>dec'. decode rs_new rs_rec x dec = Some (recovery rs_rec (d, p)
        (foldr (add_shard (d + p)) (els @ [x]) (empty_drained (d + p))), dec') \<and> group_state d p i [] dec'"
proof -
  obtain s where s: "group_state d p i els s" and ok: "shard_ok s i x"
    and dec: "decode rs_new rs_rec x dec = decode_store rs_rec x (pkt_flag x) (pkt_seq x) s"
    using decode_group_packet [OF g dp st x(1)] by blast
  let ?h = "set_at i s"
  have wf: "fd_wf s" "fd_params s" and id: "getShardId (pkt_seq x) s = i"
    and sz: "fd_dataShards s = d" "fd_shardSize s = d + p" "fd_codec s = (d, p)" "sh_elements ?h = els"
    using s ok by (auto simp: group_state_def fd_wf_def fd_params_def shard_ok_def)
  have x': "6 \<le> length x" "length x \<le> maxPacketSize" using ok by (simp_all add: shard_ok_def)
  then have n: "fec_seqid x = Some (pkt_seq x)" by (auto elim: fec_fields)
  have h: "set_ok s i ?h" "shardHeap_Len ?h < d" using set_at_ok [OF wf(1), of i] sz by simp_all
  have len: "shardHeap_Len ?h = length els" by (simp add: shardHeap_Len_def sz)
  have marks: "sh_marks ?h = pkt_seq ` set els" using h(1) sz(4) by (simp add: set_ok_def)
  have has: "\<not> shardHeap_Has (pkt_seq x) ?h"
    using x els group_inj(2) [OF g dp] by (auto simp: shardHeap_Has_def marks dest: inj_onD)
  {
    assume small: "Suc (length els) < d"
    let ?h' = "\<lparr>sh_elements = els @ [x], sh_marks = insert (pkt_seq x) (sh_marks ?h)\<rparr>"
    obtain sn where r: "decode rs_new rs_rec x dec = Some ([], discardShards (stored i ?h' 1 sn s))"
      using decode_store_room [of "pkt_seq x" s x rs_rec "pkt_flag x"] has small n x' dec
      by (auto simp: id len sz)
    have "set_ok s i ?h'" using h(1) has ok sz(4) by (auto simp: set_ok_def shardHeap_Has_def)
    then have "fd_wf (stored i ?h' 1 sn s)"
      using wf(1) small len by (intro stored_wf) (auto simp: shardHeap_Len_def sz)
    from group_state_stored [OF s discardShards_wf [OF this]] r
    show "\<exists>dec'. decode rs_new rs_rec x dec = Some ([], dec') \<and> group_state d p i (els @ [x]) dec'" by auto
  next
    assume big: "\<not> Suc (length els) < d"
    have six: "\<forall>q\<in>set (els @ [x]). 6 \<le> length q" using h(1) sz(4) x' by (auto simp: set_ok_def shard_ok_def)
    obtain sn where r: "decode rs_new rs_rec x dec = Some (recovery rs_rec (d, p)
        (foldr (add_shard (d + p)) (els @ [x]) (empty_drained (d + p))),
        discardShards (stored i newShardHeap (- int (length els)) sn s))"
      using decode_store_full [of "pkt_seq x" s x rs_rec "pkt_flag x"] has big n x' dec wf(2) six marks rs
      by (auto simp: id len sz)
    have "fd_wf (stored i newShardHeap (- int (length els)) sn s)"
      using wf(1) dp(1) len by (intro stored_wf) (auto simp: shardHeap_Len_def newShardHeap_def set_ok_def sz)
    from group_state_stored [OF s discardShards_wf [OF this]] r
    show "\<exists>dec'. decode rs_new rs_rec x dec = Some (recovery rs_rec (d, p)
        (foldr (add_shard (d + p)) (els @ [x]) (empty_drained (d + p))), dec') \<and> group_state d p i [] dec'"
      by (auto simp: newShardHeap_def)
  }
qed

lemma decode_all_collects:
  assumes g: "fec_group rs_encode d p i ds pkts" and dp: "0 < d" "0 < p" "d + p \<le> 256"
    and rs: "rs_keeps_length rs_rec"
  shows "group_state d p i els dec \<Longrightarrow> distinct (els @ xs) \<Longrightarrow> set (els @ xs) \<subseteq> set pkts \<Longrightarrow>
    xs \<noteq> [] \<Longrightarrow> length els + length xs = d \<Longrightarrow>
    \<exists>dec'. decode_all rs_new rs_rec xs dec = Some (recovery rs_rec (d, p)
        (foldr (add_shard (d + p)) (els @ xs) (empty_drained (d + p))), dec') \<and> group_state d p i [] dec'"
proof (induction xs arbitrary: els dec)
  case (Cons x xs)
  note step = decode_group_step [OF g dp Cons.prems(1) _ _ _ rs, of x]
  show ?case
  proof (cases xs)
    case Nil
    then show ?thesis using step(2) Cons.prems by fastforce
  next
    case (Cons y ys)
    then obtain dec1 where r: "decode rs_new rs_rec x dec = Some ([], dec1)" and st: "group_state d p i (els @ [x]) dec1"
      using step(1) Cons.prems by fastforce
    obtain dec' where "decode_all rs_new rs_rec xs dec1 = Some (recovery rs_rec (d, p)
        (foldr (add_shard (d + p)) ((els @ [x]) @ xs) (empty_drained (d + p))), dec')" "group_state d p i [] dec'"
      using Cons.IH [OF st] Cons.prems Cons by fastforce
    with r show ?thesis by simp
  qed
qed simp

section \<open>The group an encoder sends\<close>

text \<open>The state of an encoder that has sent the packets \<open>bs\<close> of the group starting at number \<open>base\<close>.\<close>

definition collecting :: "fecEncoder \<Rightarrow> u32 \<Rightarrow> byte list list \<Rightarrow> bool" where
  "collecting enc base bs \<longleftrightarrow> fe_params enc \<and> fe_shardCount enc = length bs \<and>
     base < fe_paws enc \<and> unat base mod fe_shardSize enc = 0 \<and> fe_next enc = base + of_nat (length bs) \<and>
     fe_maxSize enc = max_len bs \<and>
     (\<forall>k<length bs. snd (fe_shardCache enc ! k) = length (bs ! k) \<and>
        shard_of (fe_payloadOffset enc) (fe_shardCache enc ! k) = drop (fe_payloadOffset enc) (bs ! k))"

fun encode_all where
  "encode_all rs_encode rto [] enc = Some ([], [], enc)"
| "encode_all rs_encode rto ((now, b) # xs) enc = do {
     (b, ps, enc) \<leftarrow> encode rs_encode now rto b enc;
     (bs, qs, enc) \<leftarrow> encode_all rs_encode rto xs enc;
     Some (b # bs, ps @ qs, enc) }"

text \<open>Packets that follow one another within the retransmission timeout.\<close>

fun contiguous :: "u32 \<Rightarrow> int \<Rightarrow> (int \<times> byte list) list \<Rightarrow> bool" where
  "contiguous rto t [] = True"
| "contiguous rto t ((now, b) # xs) \<longleftrightarrow> now - t < int (unat rto) \<and> contiguous rto now xs"

lemma max_len_snoc: "max_len (bs @ [b]) = max (length b) (max_len bs)"
  by (induction bs) (auto simp: max_len_def)

lemma max_len_drop: "max_len (map (drop k) bs) = max_len bs - k"
  by (induction bs) (auto simp: max_len_def)

lemma collecting_start: "fe_wf enc \<Longrightarrow> fe_shardCount enc = 0 \<Longrightarrow> collecting enc (fe_next enc) []"
  by (simp add: fe_wf_def collecting_def max_len_def)

lemma fe_params_upd:
  assumes "fe_params enc" "slot_ok enc (arr, n)" "c < fe_shardSize enc"
  shows "fe_params (enc\<lparr>fe_next := a, fe_shardCache := (fe_shardCache enc)[c := (arr, n)],
    fe_shardCount := k, fe_maxSize := m, fe_tsLatestPacket := t\<rparr>)"
proof -
  have "\<forall>s\<in>set ((fe_shardCache enc)[c := (arr, n)]). slot_ok enc s"
    using assms(1,2) set_update_subset_insert [of "fe_shardCache enc" c "(arr, n)"]
    unfolding fe_params_def by blast
  with assms(1) show ?thesis by (simp add: fe_params_def slot_ok_def)
qed

lemma collect_step:
  assumes c: "collecting enc base bs" and room: "length bs < fe_dataShards enc"
    and b: "fe_headerOffset enc + 8 \<le> length b" "length b \<le> maxPacketSize"
  shows "\<exists>enc'. encode_data now b enc =
      Some (data_packet (fe_headerOffset enc) (base + of_nat (length bs)) b, fe_tsLatestPacket enc, enc') \<and>
    collecting enc' base (bs @ [data_packet (fe_headerOffset enc) (base + of_nat (length bs)) b]) \<and>
    fe_dataShards enc' = fe_dataShards enc \<and> fe_parityShards enc' = fe_parityShards enc \<and>
    fe_headerOffset enc' = fe_headerOffset enc \<and> fe_paws enc' = fe_paws enc \<and> fe_tsLatestPacket enc' = now"
proof -
  let ?b = "data_packet (fe_headerOffset enc) (base + of_nat (length bs)) b"
  have p: "fe_params enc" "fe_shardCount enc = length bs" "fe_next enc = base + of_nat (length bs)"
    using c by (simp_all add: collecting_def)
  have sz: "fe_shardSize enc = fe_dataShards enc + fe_parityShards enc" "0 < fe_parityShards enc"
      "0 < fe_shardSize enc" "fe_shardSize enc \<le> 256" "fe_paws enc = paws_of (fe_shardSize enc)"
      "length (fe_shardCache enc) = fe_shardSize enc"
    using p(1) by (simp_all add: fe_params_def)
  obtain arr where e: "encode_data now b enc = Some (?b, fe_tsLatestPacket enc,
      enc\<lparr>fe_next := (fe_next enc + 1) mod fe_paws enc,
          fe_shardCache := (fe_shardCache enc)[length bs := (arr, length b)],
          fe_shardCount := length bs + 1, fe_maxSize := max (length b) (fe_maxSize enc),
          fe_tsLatestPacket := now\<rparr>)" (is "_ = Some (_, _, ?e)")
      "slot_ok enc (arr, length b)" "drop (fe_payloadOffset enc) (take (length b) arr) = drop (fe_payloadOffset enc) ?b"
    using encode_data_spec [OF p(1) _ b, of now] room p by auto
  have base: "base < paws_of (fe_shardSize enc)" "unat base mod fe_shardSize enc = 0"
    using c sz(5) by (simp_all add: collecting_def)
  have "(fe_next enc + 1) mod fe_paws enc = base + of_nat (Suc (length bs))"
    using advance_inside(1) [OF sz(3,4) base(1), of "Suc (length bs)"] base(2) room sz p(3) by (simp add: algebra_simps)
  moreover have "fe_params ?e" using p(1) e(2) room sz(1) by (intro fe_params_upd) simp_all
  moreover have "snd (fe_shardCache ?e ! k) = length ((bs @ [?b]) ! k) \<and>
      shard_of (fe_payloadOffset ?e) (fe_shardCache ?e ! k) = drop (fe_payloadOffset ?e) ((bs @ [?b]) ! k)"
    if "k < length (bs @ [?b])" for k
    using that c e(3) room sz b(1) by (cases "k < length bs")
      (auto simp: collecting_def nth_append length_data_packet shard_of_def not_less less_Suc_eq)
  ultimately have "collecting ?e base (bs @ [?b])"
    using c b(1) by (simp add: collecting_def max_len_snoc length_data_packet)
  with e(1) show ?thesis by (intro exI [of _ ?e]) simp
qed

lemma max_len_le: "(\<And>b. b \<in> set bs \<Longrightarrow> length b \<le> n) \<Longrightarrow> max_len bs \<le> n"
  by (induction bs) (auto simp: max_len_def)

lemma rs_mds_encode:
  assumes "rs_mds rs_encode rs_rec d p" "length ds = d" "\<And>x. x \<in> set ds \<Longrightarrow> length x = n" "0 < n"
    and "length qs = p" "\<And>q. q \<in> set qs \<Longrightarrow> length q = n"
  shows "\<exists>ps. rs_encode (d, p) (ds @ qs) = Some (ds @ ps) \<and> length ps = p \<and> (\<forall>x\<in>set ps. length x = n)"
proof -
  have "0 < n \<and> length ds = d \<and> length qs = p \<and> (\<forall>x\<in>set (ds @ qs). length x = n)" using assms by auto
  with assms(1) show ?thesis unfolding rs_mds_def by blast
qed

lemma parity_of_group:
  assumes c: "collecting enc base bs" and full: "length bs = fe_dataShards enc"
    and mds: "rs_mds rs_encode rs_rec (fe_dataShards enc) (fe_parityShards enc)"
    and bs: "\<And>b. b \<in> set bs \<Longrightarrow> fe_headerOffset enc + 8 \<le> length b \<and> length b \<le> maxPacketSize"
  defines "ds \<equiv> map (drop (fe_payloadOffset enc)) bs"
  shows "\<exists>qs ps out enc'. length qs = fe_parityShards enc \<and> (\<forall>q\<in>set qs. length q = max_len ds) \<and>
    rs_encode (fe_dataShards enc, fe_parityShards enc) (map (pad_to (max_len ds)) ds @ qs) =
      Some (map (pad_to (max_len ds)) ds @ ps) \<and>
    encode_parity rs_encode (fe_maxSize enc) (enc\<lparr>fe_shardCount := 0, fe_maxSize := 0\<rparr>) = Some (out, enc') \<and>
    fe_wf enc' \<and> fe_shardCount enc' = 0 \<and> fe_dataShards enc' = fe_dataShards enc \<and>
    fe_parityShards enc' = fe_parityShards enc \<and> fe_headerOffset enc' = fe_headerOffset enc \<and>
    fe_next enc' = (base + of_nat (fe_shardSize enc)) mod fe_paws enc \<and> length out = fe_parityShards enc \<and>
    (\<forall>k<fe_parityShards enc. length (out ! k) = max_len bs \<and> drop (fe_headerOffset enc) (out ! k) =
       fec_header (base + of_nat (fe_dataShards enc + k)) typeParity @ ps ! k)"
proof -
  let ?d = "fe_dataShards enc" and ?p = "fe_parityShards enc" and ?po = "fe_payloadOffset enc"
  let ?e = "enc\<lparr>fe_shardCount := 0, fe_maxSize := 0\<rparr>" and ?M = "max_len bs"
  have p: "fe_params ?e" "?d + ?p = fe_shardSize enc" "0 < ?d" "0 < ?p" "fe_shardSize enc \<le> 256"
      "fe_paws enc = paws_of (fe_shardSize enc)" "?po = fe_headerOffset enc + 6" "length (fe_shardCache enc) = ?d + ?p"
    using c by (auto simp: collecting_def fe_params_def slot_ok_def)
  have cc: "fe_next enc = base + of_nat ?d" "fe_maxSize enc = ?M" "base < fe_paws enc" "unat base mod fe_shardSize enc = 0"
      "\<And>k. k < ?d \<Longrightarrow> snd (fe_shardCache enc ! k) = length (bs ! k) \<and> shard_of ?po (fe_shardCache enc ! k) = drop ?po (bs ! k)"
    using c full by (simp_all add: collecting_def)
  have ne: "bs ! 0 \<in> set bs" using full p(3) by simp
  have M: "?po + 2 \<le> ?M" "?M \<le> maxPacketSize" "max_len ds = ?M - ?po"
    using bs [OF ne] max_len_ge [OF ne] max_len_le [of bs] bs p(7) by (auto simp: ds_def max_len_drop)
  have taken: "take ?d (fe_shardCache enc) = map ((!) (fe_shardCache enc)) [0..<?d]"
    using p(8) by (intro nth_equalityI) auto
  have shards: "map (pad_to (?M - ?po) \<circ> shard_of ?po) (take ?d (fe_shardCache enc)) = map (pad_to (max_len ds)) ds"
    unfolding taken using cc(5) full M(3) by (intro nth_equalityI) (auto simp: ds_def)
  have nxt: "fe_next enc < fe_paws enc" "unat (fe_next enc) mod fe_shardSize enc = ?d"
    using advance_inside [of "fe_shardSize enc" base ?d] p cc by auto
  have small: "\<forall>s\<in>set (take ?d (fe_shardCache enc)). snd s \<le> ?M"
    unfolding taken using cc(5) full max_len_ge [of _ bs] by auto
  have padded: "length x = ?M - ?po" if "x \<in> set (map (pad_to (max_len ds)) ds)" for x
    using that length_pad_to [OF max_len_ge, of _ ds] by (auto simp: M(3) [symmetric])
  have codec: "\<forall>qs. length qs = ?p \<and> (\<forall>q\<in>set qs. length q = ?M - ?po) \<longrightarrow>
      (\<exists>ps. rs_encode (?d, ?p) (map (pad_to (max_len ds)) ds @ qs) = Some (map (pad_to (max_len ds)) ds @ ps) \<and>
        length ps = ?p \<and> (\<forall>x\<in>set ps. length x = ?M - ?po))"
    using full M(1) padded by (intro allI impI rs_mds_encode [OF mds]) (auto simp: ds_def)
  have sel: "fe_dataShards ?e = ?d" "fe_parityShards ?e = ?p" "fe_payloadOffset ?e = ?po" "fe_next ?e = fe_next enc"
      "fe_paws ?e = fe_paws enc" "fe_shardSize ?e = fe_shardSize enc" "fe_shardCache ?e = fe_shardCache enc"
      "fe_headerOffset ?e = fe_headerOffset enc"
    by simp_all
  from encode_parity_spec [where enc = ?e and M = ?M and rs_encode = rs_encode, unfolded sel shards,
      OF p(1) nxt M(1,2) small codec]
  obtain qs ps out cache where r: "length qs = ?p" "\<forall>q\<in>set qs. length q = ?M - ?po"
      "rs_encode (?d, ?p) (map (pad_to (max_len ds)) ds @ qs) = Some (map (pad_to (max_len ds)) ds @ ps)"
      "encode_parity rs_encode ?M ?e = Some (out, ?e\<lparr>fe_next := (fe_next enc + of_nat ?p) mod fe_paws enc, fe_shardCache := cache\<rparr>)"
      "fe_params (?e\<lparr>fe_shardCache := cache\<rparr>)" "length out = ?p"
      "\<forall>k<?p. length (out ! k) = ?M \<and> drop (fe_headerOffset enc) (out ! k) =
         fec_header (fe_next enc + of_nat k) typeParity @ ps ! k"
    by auto
  let ?e' = "?e\<lparr>fe_next := (fe_next enc + of_nat ?p) mod fe_paws enc, fe_shardCache := cache\<rparr>"
  have n': "fe_next ?e' = (base + of_nat (fe_shardSize enc)) mod fe_paws enc"
    using cc(1) p(2) by (simp add: add.assoc) (metis of_nat_add)
  have "fe_next ?e' < fe_paws enc" "unat (fe_next ?e') mod fe_shardSize enc = 0"
    using advance_wf [of "fe_shardSize enc" base "fe_shardSize enc"] p(2,3,5,6) cc(3,4) unfolding n' by auto
  moreover have "fe_params ?e' = fe_params (?e\<lparr>fe_shardCache := cache\<rparr>)" by (simp add: fe_params_def slot_ok_def)
  ultimately have "fe_wf ?e'" using r(5) p(3) by (simp add: fe_wf_def)
  with r n' show ?thesis
    apply (rule_tac exI [of _ qs], rule_tac exI [of _ ps], rule_tac exI [of _ out], rule_tac exI [of _ ?e'])
    using M(3) cc(1,2) by (simp add: add.assoc)
qed

text \<open>What a packet stream \<open>xs\<close> becomes from position \<open>j\<close> of the group on.\<close>

definition sealed_from :: "nat \<Rightarrow> u32 \<Rightarrow> nat \<Rightarrow> (int \<times> byte list) list \<Rightarrow> byte list list" where
  "sealed_from off base j xs = map (\<lambda>(k, _, b). data_packet off (base + of_nat (j + k)) b) (enumerate 0 xs)"

lemma length_sealed_from [simp]: "length (sealed_from off base j xs) = length xs"
  by (simp add: sealed_from_def)

lemma nth_sealed_from:
  "k < length xs \<Longrightarrow> sealed_from off base j xs ! k = data_packet off (base + of_nat (j + k)) (snd (xs ! k))"
  by (simp add: sealed_from_def nth_enumerate_eq case_prod_unfold)

lemma sealed_from_Cons:
  "sealed_from off base j ((now, b) # xs) = data_packet off (base + of_nat j) b # sealed_from off base (Suc j) xs"
  by (rule nth_equalityI) (auto simp: nth_sealed_from nth_Cons' less_Suc_eq_0_disj algebra_simps)

lemma encode_all_collects:
  assumes "collecting enc base bs" "length bs + length xs = fe_dataShards enc" "xs \<noteq> []"
    and "contiguous rto (fe_tsLatestPacket enc) xs"
    and "\<And>now b. (now, b) \<in> set xs \<Longrightarrow> fe_headerOffset enc + 8 \<le> length b \<and> length b \<le> maxPacketSize"
    and "\<And>enc'. collecting enc' base (bs @ sealed_from (fe_headerOffset enc) base (length bs) xs) \<Longrightarrow>
      fe_dataShards enc' = fe_dataShards enc \<Longrightarrow> fe_parityShards enc' = fe_parityShards enc \<Longrightarrow>
      fe_headerOffset enc' = fe_headerOffset enc \<Longrightarrow> fe_paws enc' = fe_paws enc \<Longrightarrow>
      \<exists>ps e. encode_parity rs_encode (fe_maxSize enc') (enc'\<lparr>fe_shardCount := 0, fe_maxSize := 0\<rparr>) = Some (ps, e) \<and> Q ps e"
  shows "\<exists>ps e. encode_all rs_encode rto xs enc =
      Some (sealed_from (fe_headerOffset enc) base (length bs) xs, ps, e) \<and> Q ps e"
  using assms
proof (induction xs arbitrary: enc bs)
  case (Cons x xs)
  obtain now b where x: "x = (now, b)" by (cases x)
  let ?b = "data_packet (fe_headerOffset enc) (base + of_nat (length bs)) b"
  have room: "length bs < fe_dataShards enc" and b: "fe_headerOffset enc + 8 \<le> length b" "length b \<le> maxPacketSize"
    using Cons.prems(2,5) by (auto simp: x)
  obtain enc1 where e1: "encode_data now b enc = Some (?b, fe_tsLatestPacket enc, enc1)" "collecting enc1 base (bs @ [?b])"
      "fe_dataShards enc1 = fe_dataShards enc" "fe_parityShards enc1 = fe_parityShards enc"
      "fe_headerOffset enc1 = fe_headerOffset enc" "fe_paws enc1 = fe_paws enc" "fe_tsLatestPacket enc1 = now"
    using collect_step [OF Cons.prems(1) room b, of now] by blast
  have count: "fe_shardCount enc1 = Suc (length bs)" using e1(2) by (simp add: collecting_def)
  show ?case
  proof (cases "xs = []")
    case True
    then have "fe_shardCount enc1 = fe_dataShards enc1" using count Cons.prems(2) e1(3) by simp
    moreover obtain ps e where "encode_parity rs_encode (fe_maxSize enc1) (enc1\<lparr>fe_shardCount := 0, fe_maxSize := 0\<rparr>) = Some (ps, e)" "Q ps e"
      using Cons.prems(6) [of enc1] e1 True by (auto simp: x sealed_from_Cons sealed_from_def)
    ultimately show ?thesis
      using True e1(1) Cons.prems(4) by (auto simp: x encode_def Let_def sealed_from_def)
  next
    case False
    then have "Suc (length bs) \<noteq> fe_dataShards enc" using Cons.prems(2) by (cases xs) auto
    then have "encode rs_encode now rto b enc = Some (?b, [], enc1)"
      using e1(1,3) count by (simp add: encode_def)
    moreover have "\<exists>ps e. encode_all rs_encode rto xs enc1 =
        Some (sealed_from (fe_headerOffset enc1) base (length (bs @ [?b])) xs, ps, e) \<and> Q ps e"
      using Cons.prems e1 False by (intro Cons.IH) (auto simp: x sealed_from_Cons)
    ultimately show ?thesis using e1(5) by (auto simp: x sealed_from_Cons)
  qed
qed simp

text \<open>The packets of one complete group form a \<open>fec_group\<close>.\<close>

lemma sealed_group:
  assumes c: "collecting enc base bs" and full: "length bs = fe_dataShards enc"
    and bs: "bs = sealed_from (fe_headerOffset enc) base 0 xs"
    and xs: "\<forall>x\<in>set xs. fe_headerOffset enc + 8 \<le> length (snd x) \<and> length (snd x) \<le> maxPacketSize"
    and mds: "rs_mds rs_encode rs_rec (fe_dataShards enc) (fe_parityShards enc)"
  shows "\<exists>ps e. encode_parity rs_encode (fe_maxSize enc) (enc\<lparr>fe_shardCount := 0, fe_maxSize := 0\<rparr>) = Some (ps, e) \<and>
    fe_wf e \<and> fe_shardCount e = 0 \<and> fe_next e = (base + of_nat (fe_shardSize enc)) mod fe_paws enc \<and>
    fec_group rs_encode (fe_dataShards enc) (fe_parityShards enc) (base div of_nat (fe_shardSize enc))
      (map (drop (fe_headerOffset enc + 6)) bs) (map (drop (fe_headerOffset enc)) (bs @ ps))"
proof -
  let ?d = "fe_dataShards enc" and ?p = "fe_parityShards enc" and ?ho = "fe_headerOffset enc"
  let ?n = "fe_shardSize enc" and ?ds = "map (drop (fe_headerOffset enc + 6)) bs"
  have par: "?n = ?d + ?p" "0 < ?d" "0 < ?p" "?n \<le> 256" "fe_paws enc = paws_of ?n" "fe_payloadOffset enc = ?ho + 6"
      "base < paws_of ?n" "unat base mod ?n = 0"
    using c by (auto simp: collecting_def fe_params_def)
  have len: "?ho + 8 \<le> length (snd (xs ! k)) \<and> length (snd (xs ! k)) \<le> maxPacketSize" if "k < length xs" for k
    using xs that by simp
  have lx: "length xs = ?d" using full bs by simp
  have nth: "bs ! k = data_packet ?ho (base + of_nat k) (snd (xs ! k))" if "k < ?d" for k
    using that lx bs by (simp add: nth_sealed_from)
  have lb: "?ho + 8 \<le> length b \<and> length b \<le> maxPacketSize" if b: "b \<in> set bs" for b
  proof -
    obtain k where "k < ?d" "b = bs ! k" using b full by (metis in_set_conv_nth)
    then show ?thesis using nth [of k] len [of k] lx by (simp add: length_data_packet)
  qed
  obtain qs ps out e where r: "length qs = ?p" "\<forall>q\<in>set qs. length q = max_len ?ds"
      "rs_encode (?d, ?p) (map (pad_to (max_len ?ds)) ?ds @ qs) = Some (map (pad_to (max_len ?ds)) ?ds @ ps)"
      "encode_parity rs_encode (fe_maxSize enc) (enc\<lparr>fe_shardCount := 0, fe_maxSize := 0\<rparr>) = Some (out, e)"
      "fe_wf e" "fe_shardCount e = 0" "fe_next e = (base + of_nat ?n) mod fe_paws enc" "length out = ?p"
      "\<forall>k<?p. length (out ! k) = max_len bs \<and> drop ?ho (out ! k) = fec_header (base + of_nat (?d + k)) typeParity @ ps ! k"
    using parity_of_group [OF c full mds lb] unfolding par(6) by blast
  have base: "unat (base div of_nat ?n) * ?n = unat base"
    using par(4,8) by (auto simp: unat_div)
  have "fec_group rs_encode ?d ?p (base div of_nat ?n) ?ds (map (drop ?ho) (bs @ out))"
    unfolding fec_group_def par(1) [symmetric] base
  proof (intro conjI allI impI)
    show "0 < max_len ?ds"
      using max_len_ge [of "bs ! 0" bs] lb [of "bs ! 0"] full par(2) by (auto simp: max_len_drop)
    show "unat base + ?n \<le> unat (paws_of ?n)"
      using advance_next(2) [OF _ par(4,7), of ?n] par(1,2,8) by simp
    show "\<exists>qs' out'. length qs' = ?p \<and> (\<forall>q\<in>set qs'. length q = max_len ?ds) \<and>
        rs_encode (?d, ?p) (map (pad_to (max_len ?ds)) ?ds @ qs') = Some out' \<and>
        (\<forall>k<?p. pkt_data (map (drop ?ho) (bs @ out) ! (?d + k)) = out' ! (?d + k))"
      by (rule exI [of _ qs], rule exI [of _ "map (pad_to (max_len ?ds)) ?ds @ ps"])
        (use r(1-3,8,9) full in \<open>simp add: nth_append\<close>)
    fix k assume k: "k < ?n"
    let ?x = "map (drop ?ho) (bs @ out) ! k"
    have "\<exists>c. ?x = fec_header (base + of_nat k) (if k < ?d then typeData else typeParity) @ c \<and>
        length ?x \<le> maxPacketSize"
    proof (cases "k < ?d")
      case True
      then show ?thesis
        using nth [OF True] len [of k] lx full by (auto simp: nth_append data_packet_def)
    next
      case False
      then have "k - ?d < ?p" "of_nat (?d + (k - ?d)) = (of_nat k :: u32)" using k par(1) by simp_all
      then have "?x = fec_header (base + of_nat k) typeParity @ ps ! (k - ?d)"
        using r(8,9) False full by (simp add: nth_append)
      moreover have "?x = drop ?ho (out ! (k - ?d))" using False full \<open>k - ?d < ?p\<close> r(8) by (simp add: nth_append)
      then have "length ?x \<le> length (out ! (k - ?d))" by simp
      then have "length ?x \<le> max_len bs" using r(9) \<open>k - ?d < ?p\<close> by simp
      ultimately show ?thesis using False max_len_le [of bs maxPacketSize] lb by fastforce
    qed
    then obtain c where x: "?x = fec_header (base + of_nat k) (if k < ?d then typeData else typeParity) @ c"
      and l: "length ?x \<le> maxPacketSize" by blast
    show "6 \<le> length ?x" unfolding x by simp
    show "length ?x \<le> maxPacketSize" by (rule l)
    show "pkt_seq ?x = of_nat (unat base + k)" unfolding x by simp
    show "pkt_flag ?x = (if k < ?d then typeData else typeParity)" unfolding x by simp
  qed (use full r(8) par(1) in \<open>simp_all add: nth_append add.commute\<close>)
  with r show ?thesis by blast
qed

section \<open>The encoder's invariant\<close>

lemma wf_collecting:
  assumes wf: "fe_wf enc"
  shows "\<exists>base bs. collecting enc base bs \<and> length bs = fe_shardCount enc \<and>
    (\<forall>b\<in>set bs. fe_headerOffset enc + 8 \<le> length b \<and> length b \<le> maxPacketSize)"
proof -
  let ?c = "fe_shardCount enc" and ?n = "fe_shardSize enc"
  let ?C = "take ?c (fe_shardCache enc)" and ?base = "fe_next enc - of_nat ?c"
  let ?bs = "map (\<lambda>s. take (snd s) (fst s)) ?C"
  have p: "fe_params enc" "?c < fe_dataShards enc" "fe_next enc < paws_of ?n" "unat (fe_next enc) mod ?n = ?c"
      "fe_maxSize enc = foldr max (map snd ?C) 0" "fe_paws enc = paws_of ?n"
      "fe_payloadOffset enc = fe_headerOffset enc + 6" "length (fe_shardCache enc) = ?n" "?c < ?n"
    using wf by (auto simp: fe_wf_def fe_params_def)
  have slot: "length (fst s) = maxPacketSize \<and> fe_headerOffset enc + 8 \<le> snd s \<and> snd s \<le> maxPacketSize"
    if "s \<in> set (fe_shardCache enc)" for s
    using p(1,7) that by (auto simp: fe_params_def slot_ok_def)
  have lens: "map length ?bs = map snd ?C" using slot by (auto dest!: in_set_takeD)
  have le: "?c \<le> unat (fe_next enc)" using p(4) by (metis mod_less_eq_dividend)
  have "unat (of_nat ?c :: u32) = ?c" using wf by (intro unat_of_nat_u32) (auto simp: fe_wf_def fe_params_def)
  with le have b: "unat ?base = unat (fe_next enc) - ?c" by (simp add: unat_diff_u32)
  have "?base < paws_of ?n" using p(3) b by (simp add: word_less_nat_alt)
  moreover have "unat ?base mod ?n = 0" unfolding b using p(4) by (metis minus_mod_eq_mult_div mod_mult_self1_is_0)
  moreover have "snd (fe_shardCache enc ! k) = length (?bs ! k)" if "k < ?c" for k
    using that p(8,9) slot [of "fe_shardCache enc ! k"] by simp
  moreover have "fe_maxSize enc = max_len ?bs" unfolding max_len_def lens by (rule p(5))
  ultimately have "collecting enc ?base ?bs"
    using p(1,6,8,9) unfolding collecting_def by (simp add: shard_of_def)
  moreover have "fe_headerOffset enc + 8 \<le> length b \<and> length b \<le> maxPacketSize" if b: "b \<in> set ?bs" for b
  proof -
    obtain s where "s \<in> set ?C" "b = take (snd s) (fst s)" using b by auto
    with slot [of s] show ?thesis by (auto dest: in_set_takeD)
  qed
  ultimately show ?thesis using p(8,9) by (intro exI [of _ ?base] exI [of _ ?bs]) simp
qed

lemma collecting_wf:
  assumes "collecting enc base bs" "length bs < fe_dataShards enc"
  shows "fe_wf enc"
proof -
  have p: "fe_params enc" "fe_shardCount enc = length bs" "base < paws_of (fe_shardSize enc)"
      "unat base mod fe_shardSize enc = 0" "fe_next enc = base + of_nat (length bs)" "fe_maxSize enc = max_len bs"
      "0 < fe_shardSize enc" "fe_shardSize enc \<le> 256" "fe_paws enc = paws_of (fe_shardSize enc)"
      "length bs < fe_shardSize enc" "length (fe_shardCache enc) = fe_shardSize enc"
    using assms by (auto simp: collecting_def fe_params_def)
  have "map snd (take (length bs) (fe_shardCache enc)) = map length bs"
    using assms(1) p(10,11) by (intro nth_equalityI) (auto simp: collecting_def)
  then have "max_len bs = foldr max (map snd (take (length bs) (fe_shardCache enc))) 0" by (simp add: max_len_def)
  with advance_inside(3,4) [OF p(7,8,3), of "length bs"] p assms(2) show ?thesis by (simp add: fe_wf_def)
qed

text \<open>The parity packets of a group: consecutive numbers after the data, kind parity, one size.\<close>

definition parity_packets :: "nat \<Rightarrow> nat \<Rightarrow> u32 \<Rightarrow> byte list list \<Rightarrow> bool" where
  "parity_packets off p n ps \<longleftrightarrow> length ps = p \<and>
     (\<forall>k<p. \<exists>c. drop off (ps ! k) = fec_header (n + of_nat k) typeParity @ c \<and> length (ps ! k) \<le> maxPacketSize)"

lemma encode_wf:
  assumes wf: "fe_wf enc" and b: "fe_headerOffset enc + 8 \<le> length b" "length b \<le> maxPacketSize"
    and mds: "rs_mds rs_encode rs_rec (fe_dataShards enc) (fe_parityShards enc)"
  shows "\<exists>ps enc'. encode rs_encode now rto b enc = Some (data_packet (fe_headerOffset enc) (fe_next enc) b, ps, enc') \<and>
    fe_wf enc' \<and> fe_dataShards enc' = fe_dataShards enc \<and> fe_parityShards enc' = fe_parityShards enc \<and>
    fe_headerOffset enc' = fe_headerOffset enc \<and>
    fe_shardCount enc' = (fe_shardCount enc + 1) mod fe_dataShards enc \<and>
    (ps = [] \<or> fe_shardCount enc' = 0 \<and> parity_packets (fe_headerOffset enc) (fe_parityShards enc) (fe_next enc + 1) ps)"
proof -
  let ?d = "fe_dataShards enc" and ?p = "fe_parityShards enc" and ?ho = "fe_headerOffset enc"
  obtain base bs where c: "collecting enc base bs" and count: "length bs = fe_shardCount enc"
    and bs: "\<forall>b\<in>set bs. ?ho + 8 \<le> length b \<and> length b \<le> maxPacketSize"
    using wf_collecting [OF wf] by blast
  have room: "length bs < ?d" and nxt: "fe_next enc = base + of_nat (length bs)"
    using wf c count by (simp_all add: fe_wf_def collecting_def)
  let ?b = "data_packet ?ho (fe_next enc) b"
  obtain e1 where e1: "encode_data now b enc = Some (?b, fe_tsLatestPacket enc, e1)" "collecting e1 base (bs @ [?b])"
      "fe_dataShards e1 = ?d" "fe_parityShards e1 = ?p" "fe_headerOffset e1 = ?ho"
    using collect_step [OF c room b, of now] nxt by auto
  have count1: "fe_shardCount e1 = Suc (length bs)" using e1(2) by (simp add: collecting_def)
  show ?thesis
  proof (cases "Suc (length bs) = ?d")
    case False
    with room e1(3) have "fe_wf e1" by (intro collecting_wf [OF e1(2)]) simp
    moreover have "encode rs_encode now rto b enc = Some (?b, [], e1)" using e1 count1 False by (simp add: encode_def)
    ultimately show ?thesis using e1 count1 count room False by auto
  next
    case full: True
    let ?e = "e1\<lparr>fe_shardCount := 0, fe_maxSize := 0\<rparr>"
    have p: "fe_params e1" "fe_next e1 = base + of_nat ?d" "base < paws_of (fe_shardSize e1)" "0 < ?d"
        "unat base mod fe_shardSize e1 = 0" "fe_shardSize e1 = ?d + ?p" "fe_shardSize e1 \<le> 256"
        "fe_paws e1 = paws_of (fe_shardSize e1)"
      using e1(2-5) full by (auto simp: collecting_def fe_params_def)
    show ?thesis
    proof (cases "now - fe_tsLatestPacket enc \<ge> int (unat rto)")
      case True
      then have "encode rs_encode now rto b enc = Some (?b, [], skipParity ?e)"
        using e1 count1 full by (simp add: encode_def Let_def)
      note skip = this
      have "(fe_next e1 + of_nat ?p) mod fe_paws e1 = (base + of_nat (fe_shardSize e1)) mod fe_paws e1"
        using p(2,6) by (simp add: add.assoc)
      moreover have "fe_params (skipParity ?e) = fe_params e1"
        by (simp add: fe_params_def slot_ok_def skipParity_def advance_def)
      ultimately have "fe_wf (skipParity ?e)"
        using advance_wf [OF _ p(7,3), of "fe_shardSize e1"] p(1,4,5,6,8) e1(3,4)
        by (simp add: fe_wf_def) (simp add: skipParity_def advance_def)
      with skip show ?thesis using e1 full count by (auto simp: skipParity_def advance_def)
    next
      case False
      have lens: "\<And>x. x \<in> set (bs @ [?b]) \<Longrightarrow> fe_headerOffset e1 + 8 \<le> length x \<and> length x \<le> maxPacketSize"
        using bs b e1(5) by (auto simp: length_data_packet)
      obtain out e' ps where r: "encode_parity rs_encode (fe_maxSize e1) ?e = Some (out, e')" "fe_wf e'" "fe_shardCount e' = 0"
          "fe_dataShards e' = fe_dataShards e1" "fe_parityShards e' = fe_parityShards e1" "fe_headerOffset e' = fe_headerOffset e1"
          "length out = fe_parityShards e1" "\<forall>k<fe_parityShards e1. length (out ! k) = max_len (bs @ [?b]) \<and>
             drop (fe_headerOffset e1) (out ! k) = fec_header (base + of_nat (fe_dataShards e1 + k)) typeParity @ ps ! k"
        using parity_of_group [OF e1(2) _ _ lens, of rs_encode rs_rec] mds full e1(3,4) by auto
      have "encode rs_encode now rto b enc = Some (?b, out, e')"
        using e1 count1 full False r(1) by (simp add: encode_def Let_def)
      moreover have "parity_packets ?ho ?p (fe_next enc + 1) out"
      proof -
        have num: "base + of_nat (?d + k) = fe_next enc + 1 + of_nat k" for k using nxt full by (simp flip: full)
        have "max_len (bs @ [?b]) \<le> maxPacketSize" using lens by (intro max_len_le) blast
        then show ?thesis using r(7,8) unfolding parity_packets_def e1(3-5) num by auto
      qed
      moreover have "fe_shardCount e' = (fe_shardCount enc + 1) mod ?d" using r(3) full count by simp
      ultimately show ?thesis using r(2-6) e1(3-5) by auto
    qed
  qed
qed

section \<open>Properties\<close>

text \<open>The payload the session takes from a recovered shard: its size field says where it ends.\<close>

definition recovered_payload :: "byte list \<Rightarrow> byte list option" where
  "recovered_payload r =
     (if length r \<ge> 2 then
        (let sz = unat (the (Uint16 r)) in if sz \<le> length r \<and> sz \<ge> 2 then Some (drop 2 (take sz r)) else None)
      else None)"

lemma recovered_padded:
  assumes "off + 8 \<le> length b" "length b \<le> maxPacketSize"
  shows "recovered_payload (pad_to n (drop (off + 6) (data_packet off k b))) = Some (drop (off + 8) b)"
proof -
  let ?sz = "length b - (off + 6)"
  have d: "drop (off + 6) (data_packet off k b) = PutUint16 (of_nat ?sz) @ drop (off + 8) b"
    using assms(1) by (simp add: data_packet_def)
  have sz: "unat (of_nat ?sz :: u16) = ?sz"
    using assms(2) by (simp add: unat_of_nat maxPacketSize_def)
  obtain m where m: "length b = off + 8 + m" using assms(1) le_Suc_ex by blast
  then have n: "?sz = m + 2" by simp
  show ?thesis
    using sz unfolding recovered_payload_def d pad_to_def n by (simp add: Let_def m)
qed

text \<open>The packets of one group, as the encoder puts them out.\<close>

lemma encode_all_group:
  assumes enc: "fe_wf enc" "fe_shardCount enc = 0" "fe_dataShards enc = d" "fe_parityShards enc = p" "fe_headerOffset enc = off"
    and xs: "length xs = d" "contiguous rto (fe_tsLatestPacket enc) xs"
      "\<forall>x\<in>set xs. off + 8 \<le> length (snd x) \<and> length (snd x) \<le> maxPacketSize"
    and rs: "rs_mds rs_encode rs_rec d p"
  defines "bs \<equiv> sealed_from off (fe_next enc) 0 xs"
  shows "\<exists>ps e. encode_all rs_encode rto xs enc = Some (bs, ps, e) \<and> fe_wf e \<and>
    fec_group rs_encode d p (fe_next enc div of_nat (d + p)) (map (drop (off + 6)) bs) (map (drop off) (bs @ ps))"
proof -
  let ?base = "fe_next enc" and ?n = "d + p" let ?i = "?base div of_nat ?n"
  let ?bs = "sealed_from off ?base 0 xs" let ?ds = "map (drop (off + 6)) ?bs"
  have par: "fe_shardSize enc = ?n" "0 < d" "0 < p" "?n \<le> 256" "xs \<noteq> []"
    using enc xs(1) by (auto simp: fe_wf_def fe_params_def)
  have lens: "(now, b) \<in> set xs \<Longrightarrow> off + 8 \<le> length b \<and> length b \<le> maxPacketSize" for now b
    using xs(3) by fastforce
  have "\<exists>ps e. encode_all rs_encode rto xs enc = Some (sealed_from (fe_headerOffset enc) ?base (length ([] :: byte list list)) xs, ps, e) \<and>
      (fe_wf e \<and> fec_group rs_encode d p ?i ?ds (map (drop off) (?bs @ ps)))"
  proof (rule encode_all_collects [OF collecting_start [OF enc(1,2)] _ par(5),
        where Q = "\<lambda>ps e. fe_wf e \<and> fec_group rs_encode d p ?i ?ds (map (drop off) (?bs @ ps))"])
    fix enc' assume c: "collecting enc' ?base ([] @ sealed_from (fe_headerOffset enc) ?base (length ([] :: byte list list)) xs)"
      "fe_dataShards enc' = fe_dataShards enc" "fe_parityShards enc' = fe_parityShards enc"
      "fe_headerOffset enc' = fe_headerOffset enc"
    have eqs: "fe_dataShards enc' = d" "fe_parityShards enc' = p" "fe_headerOffset enc' = off" "fe_shardSize enc' = ?n"
      using c enc by (simp_all add: collecting_def fe_params_def)
    have c': "collecting enc' ?base ?bs" "length ?bs = fe_dataShards enc'" "?bs = sealed_from (fe_headerOffset enc') ?base 0 xs"
      using c(1) enc(5) eqs xs(1) by simp_all
    have lens': "\<forall>x\<in>set xs. fe_headerOffset enc' + 8 \<le> length (snd x) \<and> length (snd x) \<le> maxPacketSize"
      unfolding eqs by (rule xs(3))
    have mds': "rs_mds rs_encode rs_rec (fe_dataShards enc') (fe_parityShards enc')" using rs by (simp add: eqs)
    show "\<exists>ps e. encode_parity rs_encode (fe_maxSize enc') (enc'\<lparr>fe_shardCount := 0, fe_maxSize := 0\<rparr>) = Some (ps, e) \<and>
        (fe_wf e \<and> fec_group rs_encode d p ?i ?ds (map (drop off) (?bs @ ps)))"
      using sealed_group [OF c' lens' mds'] unfolding eqs by blast
  qed (use enc xs(1,2) lens in \<open>simp_all\<close>)
  then show ?thesis using enc(5) unfolding bs_def by auto
qed

text \<open>C12. Forward error correction end to end: an encoder sends a group of \<open>d\<close> packets within the
  retransmission timeout, producing \<open>p\<close> parity packets. Whatever \<open>d\<close> of these \<open>d + p\<close> packets reach a
  decoder with the same parameters, in whatever order, decoding them yields exactly the payloads of
  the data packets that did not arrive, in the order in which they were sent.\<close>

theorem fec_end_to_end:
  assumes enc: "fe_wf enc" "fe_shardCount enc = 0" "fe_dataShards enc = d" "fe_parityShards enc = p" "fe_headerOffset enc = off"
    and xs: "length xs = d" "contiguous rto (fe_tsLatestPacket enc) xs"
      "\<forall>x\<in>set xs. off + 8 \<le> length (snd x) \<and> length (snd x) \<le> maxPacketSize"
    and rs: "rs_mds rs_encode rs_rec d p" "rs_keeps_length rs_rec"
    and dec: "group_state d p (fe_next enc div of_nat (d + p)) [] dec"
  shows "\<exists>bs ps enc'. encode_all rs_encode rto xs enc = Some (bs, ps, enc') \<and> fe_wf enc' \<and>
    length bs = d \<and> length ps = p \<and> distinct (map (drop off) (bs @ ps)) \<and>
    (\<forall>ys. distinct ys \<and> set ys \<subseteq> set (map (drop off) (bs @ ps)) \<and> length ys = d \<longrightarrow>
      (\<exists>rec dec'. decode_all rs_new rs_rec ys dec = Some (rec, dec') \<and> fd_wf dec' \<and>
        map recovered_payload rec =
          map (\<lambda>k. Some (drop (off + 8) (snd (xs ! k)))) (filter (\<lambda>k. drop off (bs ! k) \<notin> set ys) [0..<d])))"
proof -
  let ?base = "fe_next enc" and ?n = "d + p" let ?i = "?base div of_nat ?n"
  let ?bs = "sealed_from off ?base 0 xs" let ?ds = "map (drop (off + 6)) ?bs"
  have par: "fe_shardSize enc = ?n" "0 < d" "0 < p" "?n \<le> 256" "xs \<noteq> []"
    using enc xs(1) by (auto simp: fe_wf_def fe_params_def)
  have lens: "(now, b) \<in> set xs \<Longrightarrow> off + 8 \<le> length b \<and> length b \<le> maxPacketSize" for now b
    using xs(3) by fastforce
  obtain ps e where e: "encode_all rs_encode rto xs enc = Some (?bs, ps, e)" "fe_wf e"
      and g: "fec_group rs_encode d p ?i ?ds (map (drop off) (?bs @ ps))"
    using encode_all_group [OF enc xs rs(1)] by blast
  have "\<exists>rec dec'. decode_all rs_new rs_rec ys dec = Some (rec, dec') \<and> fd_wf dec' \<and>
      map recovered_payload rec =
        map (\<lambda>k. Some (drop (off + 8) (snd (xs ! k)))) (filter (\<lambda>k. drop off (?bs ! k) \<notin> set ys) [0..<d])"
    if ys: "distinct ys" "set ys \<subseteq> set (map (drop off) (?bs @ ps))" "length ys = d" for ys
  proof -
    have "ys \<noteq> []" using ys(3) par(2) by auto
    then obtain dec' where r: "decode_all rs_new rs_rec ys dec = Some (recovery rs_rec (d, p)
        (foldr (add_shard ?n) ys (empty_drained ?n)), dec')" "group_state d p ?i [] dec'"
      using decode_all_collects [OF g par(2-4) rs(2) dec, of ys] ys by auto
    have nth: "recovered_payload (pad_to (max_len ?ds) (?ds ! k)) = Some (drop (off + 8) (snd (xs ! k)))" if "k < d" for k
      using recovered_padded [of off "snd (xs ! k)"] lens [of "fst (xs ! k)" "snd (xs ! k)"] that xs(1)
      by (simp add: nth_sealed_from)
    have "filter (\<lambda>k. map (drop off) (?bs @ ps) ! k \<notin> set ys) [0..<d] = filter (\<lambda>k. drop off (?bs ! k) \<notin> set ys) [0..<d]"
      using xs(1) by (intro filter_cong) (auto simp: nth_append)
    with r nth recovery_of_group [OF rs(1) g par(2-4) ys] show ?thesis
      by (auto simp: group_state_def)
  qed
  note decoded = this
  have "length ps = p" using g xs(1) by (simp add: fec_group_def)
  with e decoded group_distinct [OF g par(2-4)] xs(1) show ?thesis
    by (rule_tac exI [of _ ?bs], rule_tac exI [of _ ps], rule_tac exI [of _ e]) (simp del: map_append)
qed

text \<open>A codec for the witnesses: two data shards and their exclusive or.\<close>

definition xor_shard :: "byte list \<Rightarrow> byte list \<Rightarrow> byte list" where
  "xor_shard a b = map2 (XOR) a b"

definition xor_encode :: "nat \<times> nat \<Rightarrow> byte list list \<Rightarrow> byte list list option" where
  "xor_encode c ss = (case ss of [a, b, q] \<Rightarrow> Some [a, b, xor_shard a b] | _ \<Rightarrow> None)"

definition xor_rec :: "nat \<times> nat \<Rightarrow> byte list list \<Rightarrow> byte list list option" where
  "xor_rec c ss = (case ss of [a, b, q] \<Rightarrow>
     Some [if a = [] then xor_shard b q else a, if b = [] then xor_shard a q else b, q] | _ \<Rightarrow> None)"

lemma xor_keeps_length: "rs_keeps_length xor_rec"
  by (auto simp: rs_keeps_length_def xor_rec_def split: list.splits)

lemma xor_shard_simps:
  "length a = length b \<Longrightarrow> length (xor_shard a b) = length b"
  "length a = length b \<Longrightarrow> xor_shard b (xor_shard a b) = a"
  "length a = length b \<Longrightarrow> xor_shard a (xor_shard a b) = b"
  by (auto simp: xor_shard_def intro!: nth_equalityI) (metis xor.commute xor.assoc xor_self_eq xor.right_neutral)+

lemma xor_mds: "rs_mds xor_encode xor_rec 2 1"
  unfolding rs_mds_def
proof (intro allI impI)
  fix n and ds qs :: "byte list list"
  assume "0 < n \<and> length ds = 2 \<and> length qs = 1 \<and> (\<forall>x\<in>set (ds @ qs). length x = n)"
  then obtain a b q where ds: "ds = [a, b]" "qs = [q]" "length a = n" "length b = n" "0 < n"
    by (auto simp: length_Suc_conv numeral_2_eq_2)
  let ?c = "xor_shard a b"
  have "\<exists>out. xor_rec (2, 1) ss = Some out \<and> take 2 out = ds"
    if ss: "length ss = 2 + 1" "\<forall>k<2 + 1. ss ! k = (ds @ [?c]) ! k \<or> ss ! k = []" "2 \<le> length (filter (\<lambda>s. s \<noteq> []) ss)" for ss
  proof -
    obtain x y z where xyz: "ss = [x, y, z]" using ss(1) by (auto simp: length_Suc_conv numeral_3_eq_3)
    have "x = a \<or> x = []" "y = b \<or> y = []" "z = ?c \<or> z = []"
      using ss(2)[rule_format, of 0] ss(2)[rule_format, of 1] ss(2)[rule_format, of 2] by (simp_all add: xyz ds)
    then show ?thesis
      using ss(3) ds xor_shard_simps [of a b] by (auto simp: xyz xor_rec_def split: if_splits)
  qed
  then show "\<exists>ps. length ps = 1 \<and> (\<forall>x\<in>set ps. length x = n) \<and> xor_encode (2, 1) (ds @ qs) = Some (ds @ ps) \<and>
      (\<forall>ss. length ss = 2 + 1 \<and> (\<forall>k<2 + 1. ss ! k = (ds @ ps) ! k \<or> ss ! k = []) \<and>
        2 \<le> length (filter (\<lambda>s. s \<noteq> []) ss) \<longrightarrow> (\<exists>out. xor_rec (2, 1) ss = Some out \<and> take 2 out = ds))"
    by (intro exI [of _ "[?c]"]) (use ds xor_shard_simps(1) [of a b] in \<open>auto simp: xor_encode_def\<close>)
qed

definition fec_pair :: "fecEncoder \<times> fecDecoder" where
  "fec_pair = (the (newFECEncoder (\<lambda>_ _. True) newSnmp 2 1 0), the (newFECDecoder (\<lambda>_ _. True) newSnmp 2 1))"

lemma fec_pair_ready:
  "fe_wf (fst fec_pair)" "fe_shardCount (fst fec_pair) = 0" "fe_dataShards (fst fec_pair) = 2"
  "fe_parityShards (fst fec_pair) = 1" "fe_headerOffset (fst fec_pair) = 0" "fe_tsLatestPacket (fst fec_pair) = 0"
  "fe_next (fst fec_pair) = 0" "group_state 2 1 0 [] (snd fec_pair)"
proof -
  obtain enc where e: "newFECEncoder (\<lambda>_ _. True) newSnmp 2 1 0 = Some enc"
    by (simp add: newFECEncoder_def Let_def)
  from newFECEncoder_wf [OF e] show "fe_wf (fst fec_pair)" "fe_shardCount (fst fec_pair) = 0"
    by (simp_all add: fec_pair_def e maxPacketSize_def)
  obtain dec where d: "newFECDecoder (\<lambda>_ _. True) newSnmp 2 1 = Some dec"
    by (simp add: newFECDecoder_def Let_def)
  from newFECDecoder_wf [OF d] show "group_state 2 1 0 [] (snd fec_pair)"
    using d by (simp add: fec_pair_def group_state_def)
      (auto simp: newFECDecoder_def Let_def set_at_def newShardHeap_def newest_with_def tooOld_def itimediff_def maxShardSets_def)
qed (simp_all add: fec_pair_def newFECEncoder_def Let_def)

theorem fec_end_to_end_witness:
  "\<exists>b1 b2 q enc' rec dec'.
     encode_all xor_encode 100 [(40, replicate 8 0 @ [7, 5]), (90, replicate 8 0 @ [9])] (fst fec_pair) =
       Some ([b1, b2], [q], enc') \<and>
     decode_all (\<lambda>_ _. True) xor_rec [q, b2] (snd fec_pair) = Some (rec, dec') \<and>
     map recovered_payload rec = [Some [7, 5]]"
proof -
  let ?xs = "[(40, replicate 8 0 @ [7, 5]), (90, replicate 8 0 @ [9])] :: (int \<times> byte list) list"
  have "\<exists>bs ps enc'. encode_all xor_encode 100 ?xs (fst fec_pair) = Some (bs, ps, enc') \<and> fe_wf enc' \<and>
    length bs = 2 \<and> length ps = 1 \<and> distinct (map (drop 0) (bs @ ps)) \<and>
    (\<forall>ys. distinct ys \<and> set ys \<subseteq> set (map (drop 0) (bs @ ps)) \<and> length ys = 2 \<longrightarrow>
      (\<exists>rec dec'. decode_all (\<lambda>_ _. True) xor_rec ys (snd fec_pair) = Some (rec, dec') \<and> fd_wf dec' \<and>
        map recovered_payload rec =
          map (\<lambda>k. Some (drop (0 + 8) (snd (?xs ! k)))) (filter (\<lambda>k. drop 0 (bs ! k) \<notin> set ys) [0..<2])))"
    by (rule fec_end_to_end) (use fec_pair_ready xor_mds xor_keeps_length in \<open>simp_all add: maxPacketSize_def\<close>)
  then obtain bs ps enc' where e: "encode_all xor_encode 100 ?xs (fst fec_pair) = Some (bs, ps, enc')"
    "length bs = 2" "length ps = 1" "distinct (map (drop 0) (bs @ ps))"
    and d: "\<And>ys. distinct ys \<and> set ys \<subseteq> set (map (drop 0) (bs @ ps)) \<and> length ys = 2 \<longrightarrow>
      (\<exists>rec dec'. decode_all (\<lambda>_ _. True) xor_rec ys (snd fec_pair) = Some (rec, dec') \<and> fd_wf dec' \<and>
        map recovered_payload rec =
          map (\<lambda>k. Some (drop (0 + 8) (snd (?xs ! k)))) (filter (\<lambda>k. drop 0 (bs ! k) \<notin> set ys) [0..<2]))"
    by blast
  obtain b1 b2 q where b: "bs = [b1, b2]" "ps = [q]" using e(2,3) by (auto simp: length_Suc_conv numeral_2_eq_2)
  have "filter (\<lambda>k. bs ! k \<notin> set [q, b2]) [0..<2] = [0]" using e(4) by (auto simp: b numeral_2_eq_2)
  with d [of "[q, b2]"] e(4) obtain rec dec' where "decode_all (\<lambda>_ _. True) xor_rec [q, b2] (snd fec_pair) = Some (rec, dec')"
    "map recovered_payload rec = [Some [7, 5]]" by (auto simp: b simp del: decode_all.simps)
  with e(1) show ?thesis unfolding b by - (intro exI conjI, assumption+)
qed

text \<open>Every packet the encoder is given leaves it sealed with the next number, which is in a data
  position, whatever the clock says; the parity packets that may follow carry the numbers right
  after it with kind parity. The encoder's invariant is kept, so it never panics and its numbering
  stays in step with the groups.\<close>

theorem encode_numbers:
  assumes "fe_wf enc" "fe_headerOffset enc + 8 \<le> length b" "length b \<le> maxPacketSize"
    and "rs_mds rs_encode rs_rec (fe_dataShards enc) (fe_parityShards enc)"
  shows "\<exists>ps enc'. encode rs_encode now rto b enc = Some (data_packet (fe_headerOffset enc) (fe_next enc) b, ps, enc') \<and>
    fe_wf enc' \<and> unat (fe_next enc) mod fe_shardSize enc < fe_dataShards enc \<and>
    fe_shardCount enc' = (fe_shardCount enc + 1) mod fe_dataShards enc \<and>
    (ps = [] \<or> fe_shardCount enc' = 0 \<and> parity_packets (fe_headerOffset enc) (fe_parityShards enc) (fe_next enc + 1) ps)"
  using encode_wf [OF assms, of now rto] assms(1) by (auto simp: fe_wf_def)

theorem encode_numbers_witness:
  "\<exists>ps enc'. encode xor_encode 40 100 (replicate 8 0 @ [7]) (fst fec_pair) =
     Some (data_packet 0 0 (replicate 8 0 @ [7]), ps, enc') \<and> fe_wf enc'"
proof -
  have mds: "rs_mds xor_encode xor_rec (fe_dataShards (fst fec_pair)) (fe_parityShards (fst fec_pair))"
    using xor_mds by (simp add: fec_pair_ready)
  from encode_numbers [OF fec_pair_ready(1) _ _ mds, of "replicate 8 0 @ [7]" 40 100] show ?thesis
    by (auto simp: fec_pair_ready maxPacketSize_def)
qed

lemma decode_all_wf:
  assumes "rs_accepts rs_new" "rs_keeps_length rs_rec"
  shows "fd_wf dec \<Longrightarrow> \<forall>x\<in>set xs. 6 \<le> length x \<and> length x \<le> maxPacketSize \<Longrightarrow>
    \<exists>out dec'. decode_all rs_new rs_rec xs dec = Some (out, dec') \<and> fd_wf dec'"
proof (induction xs arbitrary: dec)
  case (Cons x xs)
  obtain r dec1 where "decode rs_new rs_rec x dec = Some (r, dec1)" "fd_wf dec1"
    using decode_wf [OF Cons.prems(1) _ _ assms, of x] Cons.prems(2) by auto
  with Cons.IH [of dec1] Cons.prems(2) show ?case by auto
qed simp

text \<open>C13. The decoder never panics: from \<^verbatim>\<open>newFECDecoder\<close>, any sequence of packets of at least a header
  and at most a buffer is decoded, whatever parameters the auto-detection adopts on the way. Its
  invariant holds at the end; in particular the buffers it holds are exactly those of its sets.\<close>

theorem decoder_never_panics:
  assumes "newFECDecoder rs_new sn d p = Some dec" "\<forall>x\<in>set xs. 6 \<le> length x \<and> length x \<le> maxPacketSize"
    and "rs_accepts rs_new" "rs_keeps_length rs_rec"
  shows "\<exists>out dec'. decode_all rs_new rs_rec xs dec = Some (out, dec') \<and> fd_wf dec' \<and>
    fd_pool dec' = int (held (fd_shardSet dec'))"
  using decode_all_wf [OF assms(3,4) _ assms(2)] newFECDecoder_wf [OF assms(1)] by (fastforce simp: fd_wf_def)

theorem decoder_never_panics_witness:
  "\<exists>out dec'. decode_all (\<lambda>_ _. True) xor_rec [replicate 9 1, replicate 6 255] (snd fec_pair) = Some (out, dec') \<and> fd_wf dec'"
proof -
  obtain dec where d: "newFECDecoder (\<lambda>_ _. True) newSnmp 2 1 = Some dec" by (simp add: newFECDecoder_def Let_def)
  have "rs_accepts (\<lambda>_ _. True)" by (simp add: rs_accepts_def)
  from decoder_never_panics [OF d _ this xor_keeps_length, of "[replicate 9 1, replicate 6 255]"] show ?thesis
    by (auto simp: fec_pair_def d maxPacketSize_def simp del: decode_all.simps)
qed

text \<open>A packet the decoder already holds changes nothing but the samples of the auto-detection.\<close>

theorem decode_ignores_duplicates:
  assumes "fd_wf dec" "\<not> fd_shouldTune dec" "x \<in> set (sh_elements (set_at i dec))"
  shows "decode rs_new rs_rec x dec = Some ([], decode_sample (pkt_flag x) (pkt_seq x) dec)"
proof -
  have ok: "set_ok dec i (set_at i dec)" using set_at_ok [OF assms(1)] by simp
  then have x: "shard_ok dec i x" "pkt_seq x \<in> sh_marks (set_at i dec)" using assms(3) by (auto simp: set_ok_def)
  then obtain n fl where f: "fec_seqid x = Some n" "fec_flag x = Some fl" by (auto simp: shard_ok_def elim: fec_fields)
  let ?s = "decode_sample fl n dec"
  have s: "getShardId n ?s = i" "n < fd_paws ?s" "\<not> mismatch fl n ?s" "\<not> fd_shouldTune ?s"
    using x(1) f assms(2) by (auto simp: shard_ok_def getShardId_def mismatch_def decode_sample_def)
  then have "shardHeap_Has n (set_at (getShardId n ?s) ?s)" using x(2) f by (simp add: shardHeap_Has_def sample_simps)
  from decode_store_duplicate [OF this] s f show ?thesis by (simp add: decode_def Let_def not_le [symmetric])
qed

theorem decode_ignores_duplicates_witness:
  "decode (\<lambda>_ _. True) xor_rec (fec_header 0 typeData @ [1, 2, 3])
     ((snd fec_pair)\<lparr>fd_shardSet := [(0, \<lparr>sh_elements = [fec_header 0 typeData @ [1, 2, 3]], sh_marks = {0}\<rparr>)], fd_pool := 1\<rparr>) =
   Some ([], decode_sample typeData 0
     ((snd fec_pair)\<lparr>fd_shardSet := [(0, \<lparr>sh_elements = [fec_header 0 typeData @ [1, 2, 3]], sh_marks = {0}\<rparr>)], fd_pool := 1\<rparr>))"
proof -
  let ?x = "fec_header 0 typeData @ [1, 2, 3]"
  let ?dec = "(snd fec_pair)\<lparr>fd_shardSet := [(0, \<lparr>sh_elements = [?x], sh_marks = {0}\<rparr>)], fd_pool := 1\<rparr>"
  have p: "fd_params (snd fec_pair)" "\<not> fd_shouldTune (snd fec_pair)" "fd_dataShards (snd fec_pair) = 2" "fd_shardSize (snd fec_pair) = 3"
    using fec_pair_ready(8) by (auto simp: group_state_def fd_wf_def fd_params_def)
  then have "fd_params ?dec" "fd_paws (snd fec_pair) = paws_of 3" by (simp_all add: fd_params_def)
  moreover have "0 < paws_of 3" by (simp add: paws_of_def)
  ultimately have "fd_wf ?dec" using p
    by (simp add: fd_wf_def set_ok_def shard_ok_def getShardId_def mismatch_def held_def shardHeap_Len_def maxPacketSize_def)
  from decode_ignores_duplicates [OF this, of ?x 0] p(2) show ?thesis by (simp add: set_at_def)
qed

end
