(* ===== verification/Crypt.thy ===== *)
theory Crypt
  imports Prelude
begin

text \<open>
  The packet ciphers of \<^verbatim>\<open>crypt.go\<close>: the unrolled cipher feedback loops for block ciphers with 8
  and 16 byte blocks, and the stream, table and null ciphers behind the interface \<^verbatim>\<open>BlockCrypt\<close>.

  The block ciphers, the Salsa20 key stream, the derived key table and the AEAD are packages outside
  the repository and therefore arguments: \<open>E\<close> maps one block to its encryption. Go code may pass
  one slice as source and destination; \<open>inplace = True\<close> models that case: the source bytes
  are then read from the destination as they are at that moment. The slices here have equal length.
  The lemmas show that the loops compute cipher feedback mode block by block, whichever way
  the slices overlap, and that decryption inverts encryption.
\<close>

section \<open>Slices\<close>

definition slice :: "nat \<Rightarrow> nat \<Rightarrow> 'a list \<Rightarrow> 'a list option" where
  "slice i j xs = (if i \<le> j \<and> j \<le> length xs then Some (take (j - i) (drop i xs)) else None)"

definition xor_bytes :: "byte list \<Rightarrow> byte list \<Rightarrow> byte list" where
  "xor_bytes x y = map2 (XOR) x y"

text \<open>\<^verbatim>\<open>subtle.XORBytes(dst, x, y)\<close> writes as many bytes as the shorter operand has.\<close>

definition XORBytes :: "byte list \<Rightarrow> byte list \<Rightarrow> byte list \<Rightarrow> byte list option" where
  "XORBytes d x y =
     (let n = min (length x) (length y) in if length d < n then None else Some (xor_bytes x y @ drop n d))"

section \<open>Cipher feedback loops\<close>

definition initialVector :: "byte list" where
  "initialVector = [167, 115, 79, 156, 18, 172, 27, 1, 164, 21, 242, 193, 252, 120, 230, 107]"

record cfb =
  cf_dst :: "byte list"
  cf_src :: "byte list"
  cf_tbl :: "byte list"
  cf_next :: "byte list"

definition cfb_source :: "bool \<Rightarrow> cfb \<Rightarrow> byte list" where
  "cfb_source inplace st = (if inplace then cf_dst st else cf_src st)"

definition xor_range :: "bool \<Rightarrow> nat \<Rightarrow> nat \<Rightarrow> nat \<Rightarrow> byte list \<Rightarrow> cfb \<Rightarrow> cfb option" where
  "xor_range inplace i j j' key st = do {
     d \<leftarrow> slice i j (cf_dst st);
     x \<leftarrow> slice i j' (cfb_source inplace st);
     d \<leftarrow> XORBytes d x key;
     Some (st\<lparr>cf_dst := take i (cf_dst st) @ d @ drop j (cf_dst st)\<rparr>) }"

text \<open>\<^verbatim>\<open>XORBytes(dst[i:j], src[i:j], key)\<close> and \<^verbatim>\<open>XORBytes(dst[i:], src[i:], key)\<close>\<close>

definition xor_block :: "bool \<Rightarrow> nat \<Rightarrow> nat \<Rightarrow> byte list \<Rightarrow> cfb \<Rightarrow> cfb option" where
  "xor_block inplace i j key st = xor_range inplace i j j key st"

definition xor_open :: "bool \<Rightarrow> nat \<Rightarrow> byte list \<Rightarrow> cfb \<Rightarrow> cfb option" where
  "xor_open inplace i key st = xor_range inplace i (length (cf_dst st)) (length (cfb_source inplace st)) key st"

text \<open>\<^verbatim>\<open>block.Encrypt(_, b)\<close> encrypts the first block of \<open>b\<close>, which must be there.\<close>

definition block_Encrypt :: "(byte list \<Rightarrow> byte list) \<Rightarrow> nat \<Rightarrow> byte list \<Rightarrow> byte list option" where
  "block_Encrypt E w b = (if w \<le> length b then Some (E (take w b)) else None)"

definition encrypt_step :: "(byte list \<Rightarrow> byte list) \<Rightarrow> bool \<Rightarrow> nat \<Rightarrow> nat \<Rightarrow> cfb \<Rightarrow> cfb option" where
  "encrypt_step E inplace w i st = do {
     st \<leftarrow> xor_block inplace i (i + w) (cf_tbl st) st;
     b \<leftarrow> slice i (i + w) (cf_dst st);
     t \<leftarrow> block_Encrypt E w b;
     Some (st\<lparr>cf_tbl := t\<rparr>) }"

definition encrypt_open :: "(byte list \<Rightarrow> byte list) \<Rightarrow> bool \<Rightarrow> nat \<Rightarrow> nat \<Rightarrow> cfb \<Rightarrow> cfb option" where
  "encrypt_open E inplace w i st = do {
     st \<leftarrow> xor_open inplace i (cf_tbl st) st;
     b \<leftarrow> slice i (length (cf_dst st)) (cf_dst st);
     t \<leftarrow> block_Encrypt E w b;
     Some (st\<lparr>cf_tbl := t\<rparr>) }"

fun encrypt_steps :: "(byte list \<Rightarrow> byte list) \<Rightarrow> bool \<Rightarrow> nat \<Rightarrow> nat list \<Rightarrow> cfb \<Rightarrow> cfb option" where
  "encrypt_steps E inplace w [] st = Some st"
| "encrypt_steps E inplace w (i # is) st = do { st \<leftarrow> encrypt_step E inplace w i st; encrypt_steps E inplace w is st }"

text \<open>The loop body, unrolled eight times.\<close>

definition encrypt_group :: "(byte list \<Rightarrow> byte list) \<Rightarrow> bool \<Rightarrow> nat \<Rightarrow> nat \<Rightarrow> cfb \<Rightarrow> cfb option" where
  "encrypt_group E inplace w base st = do {
     s \<leftarrow> slice base (base + 8 * w) (cfb_source inplace st);
     d \<leftarrow> slice base (base + 8 * w) (cf_dst st);
     encrypt_steps E inplace w [base, base + w, base + 2 * w, base + 3 * w,
       base + 4 * w, base + 5 * w, base + 6 * w, base + 7 * w] st }"

fun encrypt_loop :: "(byte list \<Rightarrow> byte list) \<Rightarrow> bool \<Rightarrow> nat \<Rightarrow> nat \<Rightarrow> nat \<Rightarrow> cfb \<Rightarrow> (nat \<times> cfb) option" where
  "encrypt_loop E inplace w 0 base st = Some (base, st)"
| "encrypt_loop E inplace w (Suc k) base st = do {
     st \<leftarrow> encrypt_group E inplace w base st;
     encrypt_loop E inplace w k (base + 8 * w) st }"

text \<open>The switch on the remaining blocks, each case falling through to the next.\<close>

fun encrypt8_tail :: "(byte list \<Rightarrow> byte list) \<Rightarrow> bool \<Rightarrow> nat \<Rightarrow> nat \<Rightarrow> cfb \<Rightarrow> cfb option" where
  "encrypt8_tail E inplace 0 base st = xor_open inplace base (cf_tbl st) st"
| "encrypt8_tail E inplace (Suc left) base st = do {
     st \<leftarrow> encrypt_step E inplace 8 base st;
     encrypt8_tail E inplace left (base + 8) st }"

fun encrypt16_tail :: "(byte list \<Rightarrow> byte list) \<Rightarrow> bool \<Rightarrow> nat \<Rightarrow> nat \<Rightarrow> cfb \<Rightarrow> cfb option" where
  "encrypt16_tail E inplace 0 base st = xor_open inplace base (cf_tbl st) st"
| "encrypt16_tail E inplace (Suc left) base st = do {
     st \<leftarrow> encrypt_open E inplace 16 base st;
     encrypt16_tail E inplace left (base + 16) st }"

definition encrypt8 :: "(byte list \<Rightarrow> byte list) \<Rightarrow> bool \<Rightarrow> byte list \<Rightarrow> byte list \<Rightarrow> byte list \<Rightarrow> byte list option" where
  "encrypt8 E inplace dst src buf = do {
     _ \<leftarrow> slice 0 8 buf;
     tbl \<leftarrow> block_Encrypt E 8 initialVector;
     let n = length src div 8;
     (base, st) \<leftarrow> encrypt_loop E inplace 8 (n div 8) 0
       \<lparr>cf_dst = dst, cf_src = src, cf_tbl = tbl, cf_next = []\<rparr>;
     st \<leftarrow> encrypt8_tail E inplace (n mod 8) base st;
     Some (cf_dst st) }"

definition encrypt16 :: "(byte list \<Rightarrow> byte list) \<Rightarrow> bool \<Rightarrow> byte list \<Rightarrow> byte list \<Rightarrow> byte list \<Rightarrow> byte list option" where
  "encrypt16 E inplace dst src buf = do {
     _ \<leftarrow> slice 0 16 buf;
     tbl \<leftarrow> block_Encrypt E 16 initialVector;
     let n = length src div 16;
     (base, st) \<leftarrow> encrypt_loop E inplace 16 (n div 8) 0
       \<lparr>cf_dst = dst, cf_src = src, cf_tbl = tbl, cf_next = []\<rparr>;
     st \<leftarrow> encrypt16_tail E inplace (n mod 8) base st;
     Some (cf_dst st) }"

definition encrypt :: "nat \<Rightarrow> (byte list \<Rightarrow> byte list) \<Rightarrow> bool \<Rightarrow> byte list \<Rightarrow> byte list \<Rightarrow> byte list \<Rightarrow> byte list option" where
  "encrypt blockSize E inplace dst src buf =
     (if blockSize = 8 then encrypt8 E inplace dst src buf
      else if blockSize = 16 then encrypt16 E inplace dst src buf
      else None)"

text \<open>Decryption computes the next table before it overwrites the block it comes from.\<close>

definition decrypt_even :: "(byte list \<Rightarrow> byte list) \<Rightarrow> bool \<Rightarrow> nat \<Rightarrow> nat \<Rightarrow> cfb \<Rightarrow> cfb option" where
  "decrypt_even E inplace w i st = do {
     b \<leftarrow> slice i (i + w) (cfb_source inplace st);
     t \<leftarrow> block_Encrypt E w b;
     let st = st\<lparr>cf_next := t\<rparr>;
     xor_block inplace i (i + w) (cf_tbl st) st }"

definition decrypt_odd :: "(byte list \<Rightarrow> byte list) \<Rightarrow> bool \<Rightarrow> nat \<Rightarrow> nat \<Rightarrow> cfb \<Rightarrow> cfb option" where
  "decrypt_odd E inplace w i st = do {
     b \<leftarrow> slice i (i + w) (cfb_source inplace st);
     t \<leftarrow> block_Encrypt E w b;
     let st = st\<lparr>cf_tbl := t\<rparr>;
     xor_block inplace i (i + w) (cf_next st) st }"

fun decrypt_steps :: "(byte list \<Rightarrow> byte list) \<Rightarrow> bool \<Rightarrow> nat \<Rightarrow> (nat \<times> nat) list \<Rightarrow> cfb \<Rightarrow> cfb option" where
  "decrypt_steps E inplace w [] st = Some st"
| "decrypt_steps E inplace w ((i, j) # is) st = do {
     st \<leftarrow> decrypt_even E inplace w i st;
     st \<leftarrow> decrypt_odd E inplace w j st;
     decrypt_steps E inplace w is st }"

definition decrypt_group :: "(byte list \<Rightarrow> byte list) \<Rightarrow> bool \<Rightarrow> nat \<Rightarrow> nat \<Rightarrow> cfb \<Rightarrow> cfb option" where
  "decrypt_group E inplace w base st = do {
     s \<leftarrow> slice base (base + 8 * w) (cfb_source inplace st);
     d \<leftarrow> slice base (base + 8 * w) (cf_dst st);
     decrypt_steps E inplace w [(base, base + w), (base + 2 * w, base + 3 * w),
       (base + 4 * w, base + 5 * w), (base + 6 * w, base + 7 * w)] st }"

fun decrypt_loop :: "(byte list \<Rightarrow> byte list) \<Rightarrow> bool \<Rightarrow> nat \<Rightarrow> nat \<Rightarrow> nat \<Rightarrow> cfb \<Rightarrow> (nat \<times> cfb) option" where
  "decrypt_loop E inplace w 0 base st = Some (base, st)"
| "decrypt_loop E inplace w (Suc k) base st = do {
     st \<leftarrow> decrypt_group E inplace w base st;
     decrypt_loop E inplace w k (base + 8 * w) st }"

definition swap_tables :: "cfb \<Rightarrow> cfb" where
  "swap_tables st = st\<lparr>cf_tbl := cf_next st, cf_next := cf_tbl st\<rparr>"

definition decrypt_open :: "(byte list \<Rightarrow> byte list) \<Rightarrow> bool \<Rightarrow> nat \<Rightarrow> nat \<Rightarrow> cfb \<Rightarrow> cfb option" where
  "decrypt_open E inplace w i st = do {
     b \<leftarrow> slice i (length (cfb_source inplace st)) (cfb_source inplace st);
     t \<leftarrow> block_Encrypt E w b;
     let st = st\<lparr>cf_next := t\<rparr>;
     xor_open inplace i (cf_tbl st) st }"

fun decrypt8_tail :: "(byte list \<Rightarrow> byte list) \<Rightarrow> bool \<Rightarrow> nat \<Rightarrow> nat \<Rightarrow> cfb \<Rightarrow> cfb option" where
  "decrypt8_tail E inplace 0 base st = xor_open inplace base (cf_tbl st) st"
| "decrypt8_tail E inplace (Suc left) base st = do {
     st \<leftarrow> decrypt_even E inplace 8 base st;
     decrypt8_tail E inplace left (base + 8) (swap_tables st) }"

fun decrypt16_tail :: "(byte list \<Rightarrow> byte list) \<Rightarrow> bool \<Rightarrow> nat \<Rightarrow> nat \<Rightarrow> cfb \<Rightarrow> cfb option" where
  "decrypt16_tail E inplace 0 base st = xor_open inplace base (cf_tbl st) st"
| "decrypt16_tail E inplace (Suc left) base st = do {
     st \<leftarrow> decrypt_open E inplace 16 base st;
     decrypt16_tail E inplace left (base + 16) (swap_tables st) }"

definition decrypt8 :: "(byte list \<Rightarrow> byte list) \<Rightarrow> bool \<Rightarrow> byte list \<Rightarrow> byte list \<Rightarrow> byte list \<Rightarrow> byte list option" where
  "decrypt8 E inplace dst src buf = do {
     _ \<leftarrow> slice 0 8 buf;
     next \<leftarrow> slice 8 16 buf;
     tbl \<leftarrow> block_Encrypt E 8 initialVector;
     let n = length src div 8;
     (base, st) \<leftarrow> decrypt_loop E inplace 8 (n div 8) 0
       \<lparr>cf_dst = dst, cf_src = src, cf_tbl = tbl, cf_next = next\<rparr>;
     st \<leftarrow> decrypt8_tail E inplace (n mod 8) base st;
     Some (cf_dst st) }"

definition decrypt16 :: "(byte list \<Rightarrow> byte list) \<Rightarrow> bool \<Rightarrow> byte list \<Rightarrow> byte list \<Rightarrow> byte list \<Rightarrow> byte list option" where
  "decrypt16 E inplace dst src buf = do {
     _ \<leftarrow> slice 0 16 buf;
     next \<leftarrow> slice 16 32 buf;
     tbl \<leftarrow> block_Encrypt E 16 initialVector;
     let n = length src div 16;
     (base, st) \<leftarrow> decrypt_loop E inplace 16 (n div 8) 0
       \<lparr>cf_dst = dst, cf_src = src, cf_tbl = tbl, cf_next = next\<rparr>;
     st \<leftarrow> decrypt16_tail E inplace (n mod 8) base st;
     Some (cf_dst st) }"

definition decrypt :: "nat \<Rightarrow> (byte list \<Rightarrow> byte list) \<Rightarrow> bool \<Rightarrow> byte list \<Rightarrow> byte list \<Rightarrow> byte list \<Rightarrow> byte list option" where
  "decrypt blockSize E inplace dst src buf =
     (if blockSize = 8 then decrypt8 E inplace dst src buf
      else if blockSize = 16 then decrypt16 E inplace dst src buf
      else None)"

section \<open>Cipher feedback mode, block by block\<close>

fun cfb_enc :: "(byte list \<Rightarrow> byte list) \<Rightarrow> nat \<Rightarrow> byte list \<Rightarrow> byte list \<Rightarrow> byte list" where
  "cfb_enc E w key xs =
     (if w = 0 \<or> length xs < w then xor_bytes xs key
      else let c = xor_bytes (take w xs) key in c @ cfb_enc E w (E c) (drop w xs))"

fun cfb_dec :: "(byte list \<Rightarrow> byte list) \<Rightarrow> nat \<Rightarrow> byte list \<Rightarrow> byte list \<Rightarrow> byte list" where
  "cfb_dec E w key xs =
     (if w = 0 \<or> length xs < w then xor_bytes xs key
      else xor_bytes (take w xs) key @ cfb_dec E w (E (take w xs)) (drop w xs))"

declare cfb_enc.simps [simp del] cfb_dec.simps [simp del]

text \<open>What the code needs of a block cipher: one block is mapped to one block.\<close>

definition block_ok :: "nat \<Rightarrow> (byte list \<Rightarrow> byte list) \<Rightarrow> bool" where
  "block_ok w E \<longleftrightarrow> (\<forall>b. length b = w \<longrightarrow> length (E b) = w)"

lemma block_okD: "block_ok w E \<Longrightarrow> length b = w \<Longrightarrow> length (E b) = w"
  by (simp add: block_ok_def)

lemma length_xor_bytes [simp]: "length (xor_bytes x y) = min (length x) (length y)"
  by (simp add: xor_bytes_def)

lemma xor_bytes_cancel: "length x \<le> length y \<Longrightarrow> xor_bytes (xor_bytes x y) y = x"
  by (rule nth_equalityI) (auto simp: xor_bytes_def ac_simps)

lemma cfb_enc_full:
  "0 < w \<Longrightarrow> w \<le> length xs \<Longrightarrow>
   cfb_enc E w key xs = xor_bytes (take w xs) key @ cfb_enc E w (E (xor_bytes (take w xs) key)) (drop w xs)"
  by (subst cfb_enc.simps) (simp add: Let_def)

lemma cfb_enc_short: "length xs < w \<Longrightarrow> cfb_enc E w key xs = xor_bytes xs key"
  by (subst cfb_enc.simps) simp

lemma cfb_dec_full:
  "0 < w \<Longrightarrow> w \<le> length xs \<Longrightarrow>
   cfb_dec E w key xs = xor_bytes (take w xs) key @ cfb_dec E w (E (take w xs)) (drop w xs)"
  by (subst cfb_dec.simps) simp

lemma cfb_dec_short: "length xs < w \<Longrightarrow> cfb_dec E w key xs = xor_bytes xs key"
  by (subst cfb_dec.simps) simp

lemma length_cfb_enc:
  "0 < w \<Longrightarrow> block_ok w E \<Longrightarrow> length key = w \<Longrightarrow> length (cfb_enc E w key xs) = length xs"
proof (induction "length xs" arbitrary: xs key rule: less_induct)
  case less
  show ?case
  proof (cases "length xs < w")
    case False
    then have "length (cfb_enc E w (E (xor_bytes (take w xs) key)) (drop w xs)) = length (drop w xs)"
      using less.prems by (intro less.hyps) (auto simp: block_okD)
    with False less.prems show ?thesis by (simp add: cfb_enc_full)
  qed (simp add: cfb_enc_short less.prems)
qed

lemma length_cfb_dec:
  "0 < w \<Longrightarrow> block_ok w E \<Longrightarrow> length key = w \<Longrightarrow> length (cfb_dec E w key xs) = length xs"
proof (induction "length xs" arbitrary: xs key rule: less_induct)
  case less
  show ?case
  proof (cases "length xs < w")
    case False
    then have "length (cfb_dec E w (E (take w xs)) (drop w xs)) = length (drop w xs)"
      using less.prems by (intro less.hyps) (auto simp: block_okD)
    with False less.prems show ?thesis by (simp add: cfb_dec_full)
  qed (simp add: cfb_dec_short less.prems)
qed

lemma cfb_dec_enc:
  "0 < w \<Longrightarrow> block_ok w E \<Longrightarrow> length key = w \<Longrightarrow> cfb_dec E w key (cfb_enc E w key xs) = xs"
proof (induction "length xs" arbitrary: xs key rule: less_induct)
  case less
  have len: "length (cfb_enc E w key xs) = length xs" using less.prems by (rule length_cfb_enc)
  show ?case
  proof (cases "length xs < w")
    case True
    with less.prems show ?thesis by (simp add: cfb_enc_short cfb_dec_short xor_bytes_cancel)
  next
    case False
    let ?c = "xor_bytes (take w xs) key"
    have c: "length ?c = w" using False less.prems by simp
    have ih: "cfb_dec E w (E ?c) (cfb_enc E w (E ?c) (drop w xs)) = drop w xs"
      using False less.prems c by (intro less.hyps) (auto simp: block_okD)
    have "cfb_dec E w key (?c @ cfb_enc E w (E ?c) (drop w xs)) = take w xs @ drop w xs"
      using c ih False less.prems by (simp add: cfb_dec_full xor_bytes_cancel)
    with False less.prems show ?thesis by (simp add: cfb_enc_full)
  qed
qed

section \<open>The loops compute it\<close>

definition cfb_shape :: "bool \<Rightarrow> byte list \<Rightarrow> nat \<Rightarrow> cfb \<Rightarrow> bool" where
  "cfb_shape inplace src0 base st \<longleftrightarrow>
     length (cf_dst st) = length src0 \<and> length (cf_src st) = length src0 \<and> base \<le> length src0 \<and>
     drop base (cfb_source inplace st) = drop base src0"

lemma source_tables [simp]:
  "cfb_source inplace (st\<lparr>cf_tbl := t\<rparr>) = cfb_source inplace st" "cfb_source inplace (st\<lparr>cf_next := t\<rparr>) = cfb_source inplace st"
  by (simp_all add: cfb_source_def)

lemma cfb_shape_tables [simp]:
  "cfb_shape inplace s i (st\<lparr>cf_tbl := t\<rparr>) = cfb_shape inplace s i st"
  "cfb_shape inplace s i (st\<lparr>cf_next := t\<rparr>) = cfb_shape inplace s i st"
  by (simp_all add: cfb_shape_def)

lemma length_source: "cfb_shape inplace s b st \<Longrightarrow> length (cfb_source inplace st) = length s"
  by (auto simp: cfb_shape_def cfb_source_def)

lemma xor_block_eval:
  assumes sh: "cfb_shape inplace src0 i st" and i: "i + w \<le> length src0" and k: "length key = w"
  shows "xor_block inplace i (i + w) key st =
    Some (st\<lparr>cf_dst := take i (cf_dst st) @ xor_bytes (take w (drop i src0)) key @ drop (i + w) (cf_dst st)\<rparr>)"
  using assms length_source [OF sh]
  by (simp add: cfb_shape_def xor_block_def xor_range_def slice_def XORBytes_def)

lemma xor_open_eval:
  assumes sh: "cfb_shape inplace src0 i st" and i: "i + w \<le> length src0" and k: "length key = w"
  shows "xor_open inplace i key st = xor_block inplace i (i + w) key st"
proof -
  have len: "length (cf_dst st) = length src0" "length (cfb_source inplace st) = length src0"
    and dr: "drop i (cfb_source inplace st) = drop i src0"
    using sh length_source [OF sh] by (auto simp: cfb_shape_def)
  have x: "xor_bytes (drop i src0) key = xor_bytes (take w (drop i src0)) key"
    using i k by (intro nth_equalityI) (auto simp: xor_bytes_def)
  show ?thesis
    using i k len dr x unfolding xor_block_eval [OF assms]
    by (simp add: xor_open_def xor_range_def slice_def XORBytes_def add.commute)
qed

lemma xor_open_last:
  assumes sh: "cfb_shape inplace src0 i st" and i: "length src0 < i + w" and k: "length key = w"
  shows "xor_open inplace i key st =
    Some (st\<lparr>cf_dst := take i (cf_dst st) @ xor_bytes (drop i src0) key\<rparr>)"
  using assms length_source [OF sh]
  by (simp add: cfb_shape_def xor_open_def xor_range_def slice_def XORBytes_def)

text \<open>The state after a block was written.\<close>

lemma cfb_shape_step:
  assumes sh: "cfb_shape inplace src0 i st" and i: "i + w \<le> length src0" and x: "length x = w"
  shows "cfb_shape inplace src0 (i + w) (st\<lparr>cf_dst := take i (cf_dst st) @ x @ drop (i + w) (cf_dst st)\<rparr>)"
proof -
  have "drop (i + w) (cfb_source inplace st) = drop w (drop i (cfb_source inplace st))" by (simp add: add.commute)
  also have "\<dots> = drop (i + w) src0" using sh by (simp add: cfb_shape_def add.commute)
  finally show ?thesis using sh i x by (simp add: cfb_shape_def cfb_source_def split: if_splits)
qed

definition enc_at :: "(byte list \<Rightarrow> byte list) \<Rightarrow> nat \<Rightarrow> bool \<Rightarrow> byte list \<Rightarrow> byte list \<Rightarrow> nat \<Rightarrow> cfb \<Rightarrow> bool" where
  "enc_at E w inplace src0 out base st \<longleftrightarrow>
     cfb_shape inplace src0 base st \<and> length (cf_tbl st) = w \<and>
     take base (cf_dst st) @ cfb_enc E w (cf_tbl st) (drop base src0) = out"

definition dec_at :: "(byte list \<Rightarrow> byte list) \<Rightarrow> nat \<Rightarrow> bool \<Rightarrow> byte list \<Rightarrow> byte list \<Rightarrow> byte list \<Rightarrow> nat \<Rightarrow> cfb \<Rightarrow> bool" where
  "dec_at E w inplace src0 out key base st \<longleftrightarrow>
     cfb_shape inplace src0 base st \<and> length key = w \<and>
     take base (cf_dst st) @ cfb_dec E w key (drop base src0) = out"

lemma encrypt_step_at:
  assumes E: "0 < w" "block_ok w E" and at: "enc_at E w inplace s out i st" and i: "i + w \<le> length s"
  shows "\<exists>st'. encrypt_step E inplace w i st = Some st' \<and> enc_at E w inplace s out (i + w) st'"
proof -
  have sh: "cfb_shape inplace s i st" and k: "length (cf_tbl st) = w" using at by (auto simp: enc_at_def)
  let ?c = "xor_bytes (take w (drop i s)) (cf_tbl st)"
  let ?d = "take i (cf_dst st) @ ?c @ drop (i + w) (cf_dst st)"
  have c: "length ?c = w" using i k by simp
  have d: "length (cf_dst st) = length s" using sh by (simp add: cfb_shape_def)
  have "encrypt_step E inplace w i st = Some (st\<lparr>cf_dst := ?d, cf_tbl := E ?c\<rparr>)"
    using i c d by (simp add: encrypt_step_def xor_block_eval [OF sh i k] slice_def block_Encrypt_def)
  moreover have "cfb_shape inplace s (i + w) (st\<lparr>cf_dst := ?d, cf_tbl := E ?c\<rparr>)"
    using cfb_shape_step [OF sh i c] by (simp only: cfb_shape_tables)
  moreover have "take (i + w) ?d @ cfb_enc E w (E ?c) (drop (i + w) s) = out"
    using at i c d E by (simp add: enc_at_def cfb_enc_full add.commute)
  ultimately show ?thesis using block_okD [OF E(2) c] by (simp add: enc_at_def)
qed

lemma encrypt_open_step:
  assumes at: "enc_at E w inplace s out i st" and i: "i + w \<le> length s"
  shows "encrypt_open E inplace w i st = encrypt_step E inplace w i st"
proof -
  have sh: "cfb_shape inplace s i st" and k: "length (cf_tbl st) = w" using at by (auto simp: enc_at_def)
  have d: "length (cf_dst st) = length s" using sh by (simp add: cfb_shape_def)
  show ?thesis
    using i d k unfolding encrypt_open_def encrypt_step_def xor_open_eval [OF sh i k] xor_block_eval [OF sh i k]
    by (simp add: slice_def block_Encrypt_def)
qed

lemma decrypt_even_at:
  assumes E: "0 < w" "block_ok w E" and at: "dec_at E w inplace s out (cf_tbl st) i st" and i: "i + w \<le> length s"
  shows "\<exists>st'. decrypt_even E inplace w i st = Some st' \<and> dec_at E w inplace s out (cf_next st') (i + w) st'"
proof -
  have sh: "cfb_shape inplace s i st" and k: "length (cf_tbl st) = w" using at by (auto simp: dec_at_def)
  let ?b = "take w (drop i s)" let ?st = "st\<lparr>cf_next := E ?b\<rparr>"
  let ?d = "take i (cf_dst st) @ xor_bytes ?b (cf_tbl st) @ drop (i + w) (cf_dst st)"
  have sh': "cfb_shape inplace s i ?st" using sh by simp
  have b: "length ?b = w" and x: "length (xor_bytes ?b (cf_tbl st)) = w" using i k by auto
  have d: "length (cf_dst st) = length s" and dr: "drop i (cfb_source inplace st) = drop i s"
    using sh by (auto simp: cfb_shape_def)
  have "decrypt_even E inplace w i st = Some (?st\<lparr>cf_dst := ?d\<rparr>)"
    using xor_block_eval [OF sh' i k] i b length_source [OF sh] dr
    by (simp add: decrypt_even_def slice_def block_Encrypt_def)
  moreover have "cfb_shape inplace s (i + w) (?st\<lparr>cf_dst := ?d\<rparr>)"
    using cfb_shape_step [OF sh' i x] by simp
  moreover have "take (i + w) ?d @ cfb_dec E w (E ?b) (drop (i + w) s) = out"
    using at i x d E by (simp add: dec_at_def cfb_dec_full add.commute)
  ultimately show ?thesis using block_okD [OF E(2) b] by (simp add: dec_at_def)
qed

text \<open>The odd step is the even step with the two tables exchanged.\<close>

lemma swap_tables_simps [simp]:
  "swap_tables (swap_tables st) = st" "cf_dst (swap_tables st) = cf_dst st" "cf_src (swap_tables st) = cf_src st"
  "cf_tbl (swap_tables st) = cf_next st" "cf_next (swap_tables st) = cf_tbl st"
  "cfb_source inplace (swap_tables st) = cfb_source inplace st"
  by (simp_all add: swap_tables_def cfb_source_def)

lemma dec_at_swap [simp]: "dec_at E w inplace s out key i (swap_tables st) = dec_at E w inplace s out key i st"
  by (simp add: dec_at_def cfb_shape_def)

lemma xor_range_swap:
  "xor_range inplace i j j' key (swap_tables st) = map_option swap_tables (xor_range inplace i j j' key st)"
  by (auto simp: xor_range_def slice_def XORBytes_def swap_tables_def cfb_source_def Let_def split: if_splits)

lemma decrypt_odd_swap:
  "decrypt_odd E inplace w i st = map_option swap_tables (decrypt_even E inplace w i (swap_tables st))"
proof -
  have "st\<lparr>cf_tbl := t\<rparr> = swap_tables (swap_tables st\<lparr>cf_next := t\<rparr>)" for t
    by (simp add: swap_tables_def)
  then have "xor_range inplace i (i + w) (i + w) key (st\<lparr>cf_tbl := t\<rparr>) =
      map_option swap_tables (xor_range inplace i (i + w) (i + w) key (swap_tables st\<lparr>cf_next := t\<rparr>))" for key t
    by (metis xor_range_swap)
  then show ?thesis
    by (auto simp: decrypt_odd_def decrypt_even_def xor_block_def Let_def split: bind_split)
qed

lemma decrypt_odd_at:
  assumes E: "0 < w" "block_ok w E" and at: "dec_at E w inplace s out (cf_next st) i st" and i: "i + w \<le> length s"
  shows "\<exists>st'. decrypt_odd E inplace w i st = Some st' \<and> dec_at E w inplace s out (cf_tbl st') (i + w) st'"
  using decrypt_even_at [OF E, of inplace s out "swap_tables st" i] at i by (auto simp: decrypt_odd_swap)

lemma decrypt_open_step:
  assumes at: "dec_at E w inplace s out (cf_tbl st) i st" and i: "i + w \<le> length s"
  shows "decrypt_open E inplace w i st = decrypt_even E inplace w i st"
proof -
  have sh: "cfb_shape inplace s i st" and k: "length (cf_tbl st) = w" using at by (auto simp: dec_at_def)
  have sh': "cfb_shape inplace s i (st\<lparr>cf_next := t\<rparr>)" for t using sh by simp
  have "w \<le> length s - i" using i by simp
  then show ?thesis
    using i length_source [OF sh] xor_open_eval [OF sh' i k]
    by (simp add: decrypt_open_def decrypt_even_def slice_def block_Encrypt_def)
qed

text \<open>Consecutive block offsets.\<close>

fun offsets_from :: "nat \<Rightarrow> nat \<Rightarrow> nat list \<Rightarrow> bool" where
  "offsets_from w i [] = True"
| "offsets_from w i (j # js) = (j = i \<and> offsets_from w (i + w) js)"

lemma encrypt_steps_at:
  assumes E: "0 < w" "block_ok w E"
  shows "enc_at E w inplace s out i st \<Longrightarrow> offsets_from w i js \<Longrightarrow> i + length js * w \<le> length s \<Longrightarrow>
    \<exists>st'. encrypt_steps E inplace w js st = Some st' \<and> enc_at E w inplace s out (i + length js * w) st'"
proof (induction js arbitrary: i st)
  case (Cons j js)
  obtain st1 where st1: "encrypt_step E inplace w i st = Some st1" "enc_at E w inplace s out (i + w) st1"
    using encrypt_step_at [OF E Cons.prems(1)] Cons.prems(3) by auto
  obtain st2 where "encrypt_steps E inplace w js st1 = Some st2"
      "enc_at E w inplace s out (i + w + length js * w) st2"
    using Cons.IH [OF st1(2)] Cons.prems by auto
  with st1 Cons.prems show ?case by (simp add: ac_simps)
qed simp

lemma encrypt_group_at:
  assumes E: "0 < w" "block_ok w E" and at: "enc_at E w inplace s out i st" and i: "i + 8 * w \<le> length s"
  shows "\<exists>st'. encrypt_group E inplace w i st = Some st' \<and> enc_at E w inplace s out (i + 8 * w) st'"
proof -
  let ?js = "[i, i + w, i + 2 * w, i + 3 * w, i + 4 * w, i + 5 * w, i + 6 * w, i + 7 * w]"
  have sh: "cfb_shape inplace s i st" using at by (simp add: enc_at_def)
  have "encrypt_group E inplace w i st = encrypt_steps E inplace w ?js st"
    using sh i length_source [OF sh] by (simp add: encrypt_group_def slice_def cfb_shape_def)
  with encrypt_steps_at [OF E at, of ?js] i show ?thesis by (simp add: numeral_eq_Suc)
qed

lemma encrypt_loop_at:
  assumes E: "0 < w" "block_ok w E"
  shows "enc_at E w inplace s out i st \<Longrightarrow> i + k * (8 * w) \<le> length s \<Longrightarrow>
    \<exists>st'. encrypt_loop E inplace w k i st = Some (i + k * (8 * w), st') \<and> enc_at E w inplace s out (i + k * (8 * w)) st'"
proof (induction k arbitrary: i st)
  case (Suc k)
  obtain st1 where st1: "encrypt_group E inplace w i st = Some st1" "enc_at E w inplace s out (i + 8 * w) st1"
    using encrypt_group_at [OF E Suc.prems(1)] Suc.prems(2) by auto
  obtain st2 where "encrypt_loop E inplace w k (i + 8 * w) st1 = Some (i + 8 * w + k * (8 * w), st2)"
      "enc_at E w inplace s out (i + 8 * w + k * (8 * w)) st2"
    using Suc.IH [OF st1(2)] Suc.prems by auto
  with st1 show ?case by (simp add: algebra_simps)
qed simp

lemma encrypt_last_at:
  assumes at: "enc_at E w inplace s out i st" and i: "length s < i + w"
  shows "\<exists>st'. xor_open inplace i (cf_tbl st) st = Some st' \<and> cf_dst st' = out"
proof -
  have sh: "cfb_shape inplace s i st" and k: "length (cf_tbl st) = w" using at by (auto simp: enc_at_def)
  then show ?thesis
    using at i xor_open_last [OF sh i k] by (auto simp: enc_at_def cfb_enc_short cfb_shape_def)
qed

lemma encrypt8_tail_at:
  assumes E: "block_ok 8 E"
  shows "enc_at E 8 inplace s out i st \<Longrightarrow> i + k * 8 \<le> length s \<Longrightarrow> length s < i + k * 8 + 8 \<Longrightarrow>
    \<exists>st'. encrypt8_tail E inplace k i st = Some st' \<and> cf_dst st' = out"
proof (induction k arbitrary: i st)
  case (Suc k)
  obtain st1 where "encrypt_step E inplace 8 i st = Some st1" "enc_at E 8 inplace s out (i + 8) st1"
    using encrypt_step_at [OF _ E Suc.prems(1)] Suc.prems(2) by auto
  with Suc.IH [of "i + 8" st1] Suc.prems show ?case by (simp add: ac_simps)
qed (simp add: encrypt_last_at)

lemma encrypt16_tail_at:
  assumes E: "block_ok 16 E"
  shows "enc_at E 16 inplace s out i st \<Longrightarrow> i + k * 16 \<le> length s \<Longrightarrow> length s < i + k * 16 + 16 \<Longrightarrow>
    \<exists>st'. encrypt16_tail E inplace k i st = Some st' \<and> cf_dst st' = out"
proof (induction k arbitrary: i st)
  case (Suc k)
  have "i + 16 \<le> length s" using Suc.prems(2) by simp
  then obtain st1 where "encrypt_open E inplace 16 i st = Some st1" "enc_at E 16 inplace s out (i + 16) st1"
    using encrypt_step_at [OF _ E Suc.prems(1)] encrypt_open_step [OF Suc.prems(1)] by auto
  with Suc.IH [of "i + 16" st1] Suc.prems show ?case by (simp add: ac_simps)
qed (simp add: encrypt_last_at)

text \<open>The blocks of a packet are the groups of eight and the rest.\<close>

lemma blocks_split:
  "0 < w \<Longrightarrow> L div w div 8 * (8 * w) + L div w mod 8 * w \<le> (L :: nat)"
  "0 < w \<Longrightarrow> L < L div w div 8 * (8 * w) + L div w mod 8 * w + w"
proof -
  have "L div w div 8 * (8 * w) + L div w mod 8 * w = (L div w div 8 * 8 + L div w mod 8) * w"
    by (simp only: distrib_right mult.assoc)
  also have "\<dots> = L div w * w" by simp
  finally have eq: "L div w div 8 * (8 * w) + L div w mod 8 * w = L div w * w" .
  show "L div w div 8 * (8 * w) + L div w mod 8 * w \<le> L" unfolding eq by simp
  show "L < L div w div 8 * (8 * w) + L div w mod 8 * w + w" if "0 < w"
    unfolding eq using dividend_less_div_times [OF that, of L] by (simp add: add.commute)
qed

lemma length_initialVector [simp]: "length initialVector = 16"
  by (simp add: initialVector_def)

lemma enc_at_start:
  "length dst = length src \<Longrightarrow> (inplace \<longrightarrow> dst = src) \<Longrightarrow> length tbl = w \<Longrightarrow>
   enc_at E w inplace src (cfb_enc E w tbl src) 0 \<lparr>cf_dst = dst, cf_src = src, cf_tbl = tbl, cf_next = x\<rparr>"
  by (auto simp: enc_at_def cfb_shape_def cfb_source_def)

lemma encrypt8_eq:
  assumes E: "block_ok 8 E" and len: "length dst = length src" "8 \<le> length buf" and al: "inplace \<longrightarrow> dst = src"
  shows "encrypt8 E inplace dst src buf = Some (cfb_enc E 8 (E (take 8 initialVector)) src)"
proof -
  let ?tbl = "E (take 8 initialVector)" let ?out = "cfb_enc E 8 ?tbl src" let ?n = "length src div 8"
  let ?st = "\<lparr>cf_dst = dst, cf_src = src, cf_tbl = ?tbl, cf_next = []\<rparr>"
  have at: "enc_at E 8 inplace src ?out 0 ?st" using len al E by (intro enc_at_start) (simp_all add: block_okD)
  obtain st1 where st1: "encrypt_loop E inplace 8 (?n div 8) 0 ?st = Some (?n div 8 * 64, st1)"
      "enc_at E 8 inplace src ?out (?n div 8 * 64) st1"
    using encrypt_loop_at [OF _ E at, of "?n div 8"] blocks_split(1) [of 8 "length src"] by auto
  obtain st2 where "encrypt8_tail E inplace (?n mod 8) (?n div 8 * 64) st1 = Some st2" "cf_dst st2 = ?out"
    using encrypt8_tail_at [OF E st1(2)] blocks_split [of 8 "length src"] by auto
  with st1 len show ?thesis by (simp add: encrypt8_def slice_def block_Encrypt_def Let_def)
qed

lemma encrypt16_eq:
  assumes E: "block_ok 16 E" and len: "length dst = length src" "16 \<le> length buf" and al: "inplace \<longrightarrow> dst = src"
  shows "encrypt16 E inplace dst src buf = Some (cfb_enc E 16 (E initialVector) src)"
proof -
  let ?tbl = "E initialVector" let ?out = "cfb_enc E 16 ?tbl src" let ?n = "length src div 16"
  let ?st = "\<lparr>cf_dst = dst, cf_src = src, cf_tbl = ?tbl, cf_next = []\<rparr>"
  have at: "enc_at E 16 inplace src ?out 0 ?st" using len al E by (intro enc_at_start) (simp_all add: block_okD)
  obtain st1 where st1: "encrypt_loop E inplace 16 (?n div 8) 0 ?st = Some (?n div 8 * 128, st1)"
      "enc_at E 16 inplace src ?out (?n div 8 * 128) st1"
    using encrypt_loop_at [OF _ E at, of "?n div 8"] blocks_split(1) [of 16 "length src"] by auto
  obtain st2 where "encrypt16_tail E inplace (?n mod 8) (?n div 8 * 128) st1 = Some st2" "cf_dst st2 = ?out"
    using encrypt16_tail_at [OF E st1(2)] blocks_split [of 16 "length src"] by auto
  with st1 len show ?thesis by (simp add: encrypt16_def slice_def block_Encrypt_def Let_def)
qed

lemma decrypt_pair_at:
  assumes E: "0 < w" "block_ok w E" and at: "dec_at E w inplace s out (cf_tbl st) i st" and i: "i + w + w \<le> length s"
  shows "\<exists>st1 st2. decrypt_even E inplace w i st = Some st1 \<and> decrypt_odd E inplace w (i + w) st1 = Some st2 \<and>
    dec_at E w inplace s out (cf_tbl st2) (i + w + w) st2"
proof -
  obtain st1 where "decrypt_even E inplace w i st = Some st1" and at1: "dec_at E w inplace s out (cf_next st1) (i + w) st1"
    using decrypt_even_at [OF E at] i by auto
  with decrypt_odd_at [OF E at1 i] show ?thesis by blast
qed

lemma decrypt_steps_at:
  assumes E: "0 < w" "block_ok w E"
  shows "dec_at E w inplace s out (cf_tbl st) i st \<Longrightarrow> offsets_from w i (concat (map (\<lambda>(a, b). [a, b]) js)) \<Longrightarrow>
    i + length js * (w + w) \<le> length s \<Longrightarrow>
    \<exists>st'. decrypt_steps E inplace w js st = Some st' \<and> dec_at E w inplace s out (cf_tbl st') (i + length js * (w + w)) st'"
proof (induction js arbitrary: i st)
  case (Cons j js)
  have j: "j = (i, i + w)" using Cons.prems(2) by (cases j) auto
  obtain st1 st2 where st: "decrypt_even E inplace w i st = Some st1" "decrypt_odd E inplace w (i + w) st1 = Some st2"
      "dec_at E w inplace s out (cf_tbl st2) (i + w + w) st2"
    using decrypt_pair_at [OF E Cons.prems(1)] Cons.prems(3) by auto
  obtain st3 where "decrypt_steps E inplace w js st2 = Some st3"
      "dec_at E w inplace s out (cf_tbl st3) (i + w + w + length js * (w + w)) st3"
    using Cons.IH [OF st(3)] Cons.prems j by auto
  with st j show ?case by (simp add: ac_simps)
qed simp

lemma decrypt_group_at:
  assumes E: "0 < w" "block_ok w E" and at: "dec_at E w inplace s out (cf_tbl st) i st" and i: "i + 8 * w \<le> length s"
  shows "\<exists>st'. decrypt_group E inplace w i st = Some st' \<and> dec_at E w inplace s out (cf_tbl st') (i + 8 * w) st'"
proof -
  let ?js = "[(i, i + w), (i + 2 * w, i + 3 * w), (i + 4 * w, i + 5 * w), (i + 6 * w, i + 7 * w)]"
  have sh: "cfb_shape inplace s i st" using at by (simp add: dec_at_def)
  have "decrypt_group E inplace w i st = decrypt_steps E inplace w ?js st"
    using sh i length_source [OF sh] by (simp add: decrypt_group_def slice_def cfb_shape_def)
  with decrypt_steps_at [OF E at, of ?js] i show ?thesis by (simp add: numeral_eq_Suc add.assoc)
qed

lemma decrypt_loop_at:
  assumes E: "0 < w" "block_ok w E"
  shows "dec_at E w inplace s out (cf_tbl st) i st \<Longrightarrow> i + k * (8 * w) \<le> length s \<Longrightarrow>
    \<exists>st'. decrypt_loop E inplace w k i st = Some (i + k * (8 * w), st') \<and>
      dec_at E w inplace s out (cf_tbl st') (i + k * (8 * w)) st'"
proof (induction k arbitrary: i st)
  case (Suc k)
  obtain st1 where st1: "decrypt_group E inplace w i st = Some st1" "dec_at E w inplace s out (cf_tbl st1) (i + 8 * w) st1"
    using decrypt_group_at [OF E Suc.prems(1)] Suc.prems(2) by auto
  obtain st2 where "decrypt_loop E inplace w k (i + 8 * w) st1 = Some (i + 8 * w + k * (8 * w), st2)"
      "dec_at E w inplace s out (cf_tbl st2) (i + 8 * w + k * (8 * w)) st2"
    using Suc.IH [OF st1(2)] Suc.prems by auto
  with st1 show ?case by (simp add: algebra_simps)
qed simp

lemma decrypt_last_at:
  assumes at: "dec_at E w inplace s out (cf_tbl st) i st" and i: "length s < i + w"
  shows "\<exists>st'. xor_open inplace i (cf_tbl st) st = Some st' \<and> cf_dst st' = out"
proof -
  have sh: "cfb_shape inplace s i st" and k: "length (cf_tbl st) = w" using at by (auto simp: dec_at_def)
  then show ?thesis
    using at i xor_open_last [OF sh i k] by (auto simp: dec_at_def cfb_dec_short cfb_shape_def)
qed

lemma decrypt8_tail_at:
  assumes E: "block_ok 8 E"
  shows "dec_at E 8 inplace s out (cf_tbl st) i st \<Longrightarrow> i + k * 8 \<le> length s \<Longrightarrow> length s < i + k * 8 + 8 \<Longrightarrow>
    \<exists>st'. decrypt8_tail E inplace k i st = Some st' \<and> cf_dst st' = out"
proof (induction k arbitrary: i st)
  case (Suc k)
  obtain st1 where "decrypt_even E inplace 8 i st = Some st1" "dec_at E 8 inplace s out (cf_next st1) (i + 8) st1"
    using decrypt_even_at [OF _ E Suc.prems(1)] Suc.prems(2) by auto
  with Suc.IH [of "swap_tables st1" "i + 8"] Suc.prems show ?case by (simp add: ac_simps)
qed (simp add: decrypt_last_at)

lemma decrypt16_tail_at:
  assumes E: "block_ok 16 E"
  shows "dec_at E 16 inplace s out (cf_tbl st) i st \<Longrightarrow> i + k * 16 \<le> length s \<Longrightarrow> length s < i + k * 16 + 16 \<Longrightarrow>
    \<exists>st'. decrypt16_tail E inplace k i st = Some st' \<and> cf_dst st' = out"
proof (induction k arbitrary: i st)
  case (Suc k)
  have "i + 16 \<le> length s" using Suc.prems(2) by simp
  then obtain st1 where "decrypt_open E inplace 16 i st = Some st1" "dec_at E 16 inplace s out (cf_next st1) (i + 16) st1"
    using decrypt_even_at [OF _ E Suc.prems(1)] decrypt_open_step [OF Suc.prems(1)] by auto
  with Suc.IH [of "swap_tables st1" "i + 16"] Suc.prems show ?case by (simp add: ac_simps)
qed (simp add: decrypt_last_at)

lemma dec_at_start:
  "length dst = length src \<Longrightarrow> (inplace \<longrightarrow> dst = src) \<Longrightarrow> length tbl = w \<Longrightarrow>
   dec_at E w inplace src (cfb_dec E w tbl src) tbl 0 \<lparr>cf_dst = dst, cf_src = src, cf_tbl = tbl, cf_next = x\<rparr>"
  by (auto simp: dec_at_def cfb_shape_def cfb_source_def)

lemma decrypt8_eq:
  assumes E: "block_ok 8 E" and len: "length dst = length src" "16 \<le> length buf" and al: "inplace \<longrightarrow> dst = src"
  shows "decrypt8 E inplace dst src buf = Some (cfb_dec E 8 (E (take 8 initialVector)) src)"
proof -
  let ?tbl = "E (take 8 initialVector)" let ?out = "cfb_dec E 8 ?tbl src" let ?n = "length src div 8"
  let ?st = "\<lparr>cf_dst = dst, cf_src = src, cf_tbl = ?tbl, cf_next = take 8 (drop 8 buf)\<rparr>"
  have at: "dec_at E 8 inplace src ?out (cf_tbl ?st) 0 ?st"
    using len al E dec_at_start [of dst src inplace ?tbl 8] by (simp add: block_okD)
  obtain st1 where st1: "decrypt_loop E inplace 8 (?n div 8) 0 ?st = Some (?n div 8 * 64, st1)"
      "dec_at E 8 inplace src ?out (cf_tbl st1) (?n div 8 * 64) st1"
    using decrypt_loop_at [OF _ E at, of "?n div 8"] blocks_split(1) [of 8 "length src"] by auto
  obtain st2 where "decrypt8_tail E inplace (?n mod 8) (?n div 8 * 64) st1 = Some st2" "cf_dst st2 = ?out"
    using decrypt8_tail_at [OF E st1(2)] blocks_split [of 8 "length src"] by auto
  with st1 len show ?thesis by (simp add: decrypt8_def slice_def block_Encrypt_def Let_def)
qed

lemma decrypt16_eq:
  assumes E: "block_ok 16 E" and len: "length dst = length src" "32 \<le> length buf" and al: "inplace \<longrightarrow> dst = src"
  shows "decrypt16 E inplace dst src buf = Some (cfb_dec E 16 (E initialVector) src)"
proof -
  let ?tbl = "E initialVector" let ?out = "cfb_dec E 16 ?tbl src" let ?n = "length src div 16"
  let ?st = "\<lparr>cf_dst = dst, cf_src = src, cf_tbl = ?tbl, cf_next = take 16 (drop 16 buf)\<rparr>"
  have at: "dec_at E 16 inplace src ?out (cf_tbl ?st) 0 ?st"
    using len al E dec_at_start [of dst src inplace ?tbl 16] by (simp add: block_okD)
  obtain st1 where st1: "decrypt_loop E inplace 16 (?n div 8) 0 ?st = Some (?n div 8 * 128, st1)"
      "dec_at E 16 inplace src ?out (cf_tbl st1) (?n div 8 * 128) st1"
    using decrypt_loop_at [OF _ E at, of "?n div 8"] blocks_split(1) [of 16 "length src"] by auto
  obtain st2 where "decrypt16_tail E inplace (?n mod 8) (?n div 8 * 128) st1 = Some st2" "cf_dst st2 = ?out"
    using decrypt16_tail_at [OF E st1(2)] blocks_split [of 16 "length src"] by auto
  with st1 len show ?thesis by (simp add: decrypt16_def slice_def block_Encrypt_def Let_def)
qed

section \<open>The packet ciphers\<close>

record cipher_Block =
  BlockSize :: nat
  blk_Encrypt :: "byte list \<Rightarrow> byte list"

record AEAD =
  aead_NonceSize :: nat
  aead_Overhead :: nat
  aead_Seal :: "byte list \<Rightarrow> byte list \<Rightarrow> byte list \<Rightarrow> byte list"
  aead_Open :: "byte list \<Rightarrow> byte list \<Rightarrow> byte list \<Rightarrow> byte list option"

text \<open>
  The values behind the interface. The working buffers of a \<^verbatim>\<open>blockCrypt\<close> are overwritten before they
  are read, under the locks \<^verbatim>\<open>encMu\<close> and \<^verbatim>\<open>decMu\<close>, so only their lengths matter.
\<close>

datatype BlockCrypt =
    aeadCrypt AEAD
  | blockCrypt (encbuf: "byte list") (decbuf: "byte list") cipher_Block nat
  | salsa20BlockCrypt "byte list"
  | simpleXORBlockCrypt "byte list"
  | noneBlockCrypt

definition saltxor :: string where
  "saltxor = ''sH3CIVoF#rWLtJo6''"

definition newBlockCrypt :: "cipher_Block \<Rightarrow> BlockCrypt" where
  "newBlockCrypt block =
     blockCrypt (replicate (BlockSize block) 0) (replicate (2 * BlockSize block) 0) block (BlockSize block)"

text \<open>The constructors return the error of the package's \<^verbatim>\<open>NewCipher\<close>, an argument here.\<close>

definition NewAEADCrypt :: "AEAD option \<Rightarrow> BlockCrypt option" where
  "NewAEADCrypt aead = (case aead of None \<Rightarrow> None | Some a \<Rightarrow> Some (aeadCrypt a))"

definition NewAESGCMCrypt ::
    "(byte list \<Rightarrow> 'e + cipher_Block) \<Rightarrow> (cipher_Block \<Rightarrow> 'e + AEAD) \<Rightarrow> byte list \<Rightarrow> 'e + BlockCrypt" where
  "NewAESGCMCrypt NewCipher NewGCM key =
     (case NewCipher key of
        Inl err \<Rightarrow> Inl err
      | Inr block \<Rightarrow> (case NewGCM block of Inl err \<Rightarrow> Inl err | Inr aesgcm \<Rightarrow> Inr (aeadCrypt aesgcm)))"

definition from_NewCipher :: "(byte list \<Rightarrow> 'e + cipher_Block) \<Rightarrow> byte list \<Rightarrow> 'e + BlockCrypt" where
  "from_NewCipher NewCipher key =
     (case NewCipher key of Inl err \<Rightarrow> Inl err | Inr block \<Rightarrow> Inr (newBlockCrypt block))"

definition NewSM4BlockCrypt :: "(byte list \<Rightarrow> 'e + cipher_Block) \<Rightarrow> byte list \<Rightarrow> 'e + BlockCrypt" where
  "NewSM4BlockCrypt sm4_NewCipher key = from_NewCipher sm4_NewCipher key"

definition NewTwofishBlockCrypt :: "(byte list \<Rightarrow> 'e + cipher_Block) \<Rightarrow> byte list \<Rightarrow> 'e + BlockCrypt" where
  "NewTwofishBlockCrypt twofish_NewCipher key = from_NewCipher twofish_NewCipher key"

definition NewTripleDESBlockCrypt :: "(byte list \<Rightarrow> 'e + cipher_Block) \<Rightarrow> byte list \<Rightarrow> 'e + BlockCrypt" where
  "NewTripleDESBlockCrypt des_NewTripleDESCipher key = from_NewCipher des_NewTripleDESCipher key"

definition NewCast5BlockCrypt :: "(byte list \<Rightarrow> 'e + cipher_Block) \<Rightarrow> byte list \<Rightarrow> 'e + BlockCrypt" where
  "NewCast5BlockCrypt cast5_NewCipher key = from_NewCipher cast5_NewCipher key"

definition NewBlowfishBlockCrypt :: "(byte list \<Rightarrow> 'e + cipher_Block) \<Rightarrow> byte list \<Rightarrow> 'e + BlockCrypt" where
  "NewBlowfishBlockCrypt blowfish_NewCipher key = from_NewCipher blowfish_NewCipher key"

definition NewAESBlockCrypt :: "(byte list \<Rightarrow> 'e + cipher_Block) \<Rightarrow> byte list \<Rightarrow> 'e + BlockCrypt" where
  "NewAESBlockCrypt aes_NewCipher key = from_NewCipher aes_NewCipher key"

definition NewTEABlockCrypt :: "(byte list \<Rightarrow> int \<Rightarrow> 'e + cipher_Block) \<Rightarrow> byte list \<Rightarrow> 'e + BlockCrypt" where
  "NewTEABlockCrypt tea_NewCipherWithRounds key = from_NewCipher (\<lambda>key. tea_NewCipherWithRounds key 16) key"

definition NewXTEABlockCrypt :: "(byte list \<Rightarrow> 'e + cipher_Block) \<Rightarrow> byte list \<Rightarrow> 'e + BlockCrypt" where
  "NewXTEABlockCrypt xtea_NewCipher key = from_NewCipher xtea_NewCipher key"

text \<open>\<^verbatim>\<open>copy(dst, src)\<close>\<close>

definition go_copy :: "'a list \<Rightarrow> 'a list \<Rightarrow> 'a list" where
  "go_copy dst src = take (length dst) src @ drop (length src) dst"

definition NewSalsa20BlockCrypt :: "byte list \<Rightarrow> BlockCrypt" where
  "NewSalsa20BlockCrypt key = salsa20BlockCrypt (go_copy (replicate 32 0) key)"

definition NewSimpleXORBlockCrypt :: "(byte list \<Rightarrow> string \<Rightarrow> nat \<Rightarrow> nat \<Rightarrow> byte list) \<Rightarrow> byte list \<Rightarrow> BlockCrypt" where
  "NewSimpleXORBlockCrypt pbkdf2_Key key = simpleXORBlockCrypt (pbkdf2_Key key saltxor 32 maxPacketSize)"

definition NewNoneBlockCrypt :: "byte list \<Rightarrow> BlockCrypt" where
  "NewNoneBlockCrypt key = noneBlockCrypt"

text \<open>
  \<^verbatim>\<open>salsa20.XORKeyStream(out, in, nonce, key)\<close>: the key stream \<open>ks key nonce n\<close> of \<open>n\<close> bytes is an argument;
  the call panics when the output is too short.
\<close>

definition XORKeyStream :: "(byte list \<Rightarrow> byte list \<Rightarrow> nat \<Rightarrow> byte list) \<Rightarrow>
    byte list \<Rightarrow> byte list \<Rightarrow> byte list \<Rightarrow> byte list \<Rightarrow> byte list option" where
  "XORKeyStream ks out inp nonce key =
     (if length out < length inp then None
      else Some (xor_bytes inp (ks key nonce (length inp)) @ drop (length inp) out))"

definition salsa20_crypt :: "(byte list \<Rightarrow> byte list \<Rightarrow> nat \<Rightarrow> byte list) \<Rightarrow> byte list \<Rightarrow>
    bool \<Rightarrow> byte list \<Rightarrow> byte list \<Rightarrow> byte list option" where
  "salsa20_crypt ks key inplace dst src =
     (if length src < 8 then Some dst
      else do {
        d \<leftarrow> slice 8 (length dst) dst;
        body \<leftarrow> XORKeyStream ks d (drop 8 src) (take 8 src) key;
        let dst = take 8 dst @ body;
        Some (if \<not> inplace then go_copy (take 8 dst) (take 8 src) @ drop 8 dst else dst) })"

definition simpleXOR_crypt :: "byte list \<Rightarrow> byte list \<Rightarrow> byte list \<Rightarrow> byte list option" where
  "simpleXOR_crypt xortbl dst src = (if src = [] then Some dst else XORBytes dst src xortbl)"

definition none_crypt :: "bool \<Rightarrow> byte list \<Rightarrow> byte list \<Rightarrow> byte list option" where
  "none_crypt inplace dst src =
     (if src = [] then Some dst
      else if dst = [] then None
      else if \<not> inplace then Some (go_copy dst src)
      else Some dst)"

text \<open>\<^verbatim>\<open>Encrypt\<close> and \<^verbatim>\<open>Decrypt\<close> of each cipher. Nothing is a panic: AEAD ciphers refuse both.\<close>

fun Encrypt :: "(byte list \<Rightarrow> byte list \<Rightarrow> nat \<Rightarrow> byte list) \<Rightarrow> BlockCrypt \<Rightarrow>
    bool \<Rightarrow> byte list \<Rightarrow> byte list \<Rightarrow> byte list option" where
  "Encrypt ks (aeadCrypt a) inplace dst src = None"
| "Encrypt ks (blockCrypt eb db block bs) inplace dst src = encrypt (BlockSize block) (blk_Encrypt block) inplace dst src eb"
| "Encrypt ks (salsa20BlockCrypt key) inplace dst src = salsa20_crypt ks key inplace dst src"
| "Encrypt ks (simpleXORBlockCrypt xortbl) inplace dst src = simpleXOR_crypt xortbl dst src"
| "Encrypt ks noneBlockCrypt inplace dst src = none_crypt inplace dst src"

fun Decrypt :: "(byte list \<Rightarrow> byte list \<Rightarrow> nat \<Rightarrow> byte list) \<Rightarrow> BlockCrypt \<Rightarrow>
    bool \<Rightarrow> byte list \<Rightarrow> byte list \<Rightarrow> byte list option" where
  "Decrypt ks (aeadCrypt a) inplace dst src = None"
| "Decrypt ks (blockCrypt eb db block bs) inplace dst src = decrypt (BlockSize block) (blk_Encrypt block) inplace dst src db"
| "Decrypt ks (salsa20BlockCrypt key) inplace dst src = salsa20_crypt ks key inplace dst src"
| "Decrypt ks (simpleXORBlockCrypt xortbl) inplace dst src = simpleXOR_crypt xortbl dst src"
| "Decrypt ks noneBlockCrypt inplace dst src = none_crypt inplace dst src"

text \<open>
  \<^verbatim>\<open>aeadCrypt.Seal\<close> appends to \<open>dst\<close>, whose capacity is \<open>c\<close>; it panics rather than let the AEAD allocate.
\<close>

definition Seal :: "AEAD \<Rightarrow> byte list option \<Rightarrow> nat \<Rightarrow> byte list \<Rightarrow> byte list \<Rightarrow> byte list \<Rightarrow> byte list option" where
  "Seal a dst c nonce plaintext additionalData =
     (case dst of
        None \<Rightarrow> None
      | Some d \<Rightarrow> if int c - int (length d) < int (length plaintext) + int (aead_Overhead a) then None
                  else Some (d @ aead_Seal a nonce plaintext additionalData))"

definition Open :: "AEAD \<Rightarrow> byte list \<Rightarrow> byte list \<Rightarrow> byte list \<Rightarrow> byte list \<Rightarrow> byte list option" where
  "Open a dst nonce ciphertext additionalData =
     map_option (\<lambda>p. dst @ p) (aead_Open a nonce ciphertext additionalData)"

section \<open>Round trips\<close>

text \<open>What the packages document of their ciphers, for a packet of \<open>n\<close> bytes.\<close>

fun crypt_ok :: "(byte list \<Rightarrow> byte list \<Rightarrow> nat \<Rightarrow> byte list) \<Rightarrow> BlockCrypt \<Rightarrow> nat \<Rightarrow> bool" where
  "crypt_ok ks (aeadCrypt a) n = False"
| "crypt_ok ks (blockCrypt eb db block bs) n \<longleftrightarrow>
     BlockSize block \<in> {8, 16} \<and> block_ok (BlockSize block) (blk_Encrypt block) \<and>
     BlockSize block \<le> length eb \<and> 2 * BlockSize block \<le> length db"
| "crypt_ok ks (salsa20BlockCrypt key) n \<longleftrightarrow> 8 \<le> n \<and> (\<forall>nonce. length (ks key nonce (n - 8)) = n - 8)"
| "crypt_ok ks (simpleXORBlockCrypt xortbl) n \<longleftrightarrow> n \<le> length xortbl"
| "crypt_ok ks noneBlockCrypt n = True"

lemma crypt_ok_newBlockCrypt:
  "BlockSize block \<in> {8, 16} \<Longrightarrow> block_ok (BlockSize block) (blk_Encrypt block) \<Longrightarrow> crypt_ok ks (newBlockCrypt block) n"
  by (simp add: newBlockCrypt_def)

text \<open>Every constructor passes the package's error on, or gives a cipher that works, if the package's blocks do.\<close>

lemma from_NewCipher_cases:
  assumes "\<forall>block. NewCipher key = Inr block \<longrightarrow> BlockSize block \<in> {8, 16} \<and> block_ok (BlockSize block) (blk_Encrypt block)"
  shows "(\<exists>err. NewCipher key = Inl err \<and> from_NewCipher NewCipher key = Inl err) \<or>
    (\<exists>c. from_NewCipher NewCipher key = Inr c \<and> crypt_ok ks c n)"
  using assms by (cases "NewCipher key") (simp_all add: from_NewCipher_def crypt_ok_newBlockCrypt del: crypt_ok.simps)

lemmas block_constructors = NewSM4BlockCrypt_def NewTwofishBlockCrypt_def NewTripleDESBlockCrypt_def NewCast5BlockCrypt_def
  NewBlowfishBlockCrypt_def NewAESBlockCrypt_def NewTEABlockCrypt_def NewXTEABlockCrypt_def

lemma encrypt_eq:
  assumes "w \<in> {8, 16}" "block_ok w E" "length dst = length src" "w \<le> length buf" "inplace \<longrightarrow> dst = src"
  shows "encrypt w E inplace dst src buf = Some (cfb_enc E w (E (take w initialVector)) src)"
  using assms by (auto simp: encrypt_def encrypt8_eq encrypt16_eq)

lemma decrypt_eq:
  assumes "w \<in> {8, 16}" "block_ok w E" "length dst = length src" "2 * w \<le> length buf" "inplace \<longrightarrow> dst = src"
  shows "decrypt w E inplace dst src buf = Some (cfb_dec E w (E (take w initialVector)) src)"
  using assms by (auto simp: decrypt_def decrypt8_eq decrypt16_eq)

lemma block_round_trip:
  assumes ok: "crypt_ok ks (blockCrypt eb db block bs) (length src)"
    and d: "length dst = length src" "inplace \<longrightarrow> dst = src"
  shows "\<exists>ct. Encrypt ks (blockCrypt eb db block bs) inplace dst src = Some ct \<and> length ct = length src \<and>
    (\<forall>dst' inplace'. length dst' = length src \<longrightarrow> (inplace' \<longrightarrow> dst' = ct) \<longrightarrow>
       Decrypt ks (blockCrypt eb db block bs) inplace' dst' ct = Some src)"
proof -
  let ?w = "BlockSize block" let ?E = "blk_Encrypt block" let ?k = "?E (take ?w initialVector)"
  let ?ct = "cfb_enc ?E ?w ?k src"
  have w: "?w \<in> {8, 16}" "0 < ?w" and E: "block_ok ?w ?E" using ok by auto
  have k: "length ?k = ?w" using w E by (auto simp: block_okD)
  have len: "length ?ct = length src" using w(2) E k by (rule length_cfb_enc)
  have "decrypt ?w ?E inplace' dst' ?ct db = Some src"
    if "length dst' = length src" "inplace' \<longrightarrow> dst' = ?ct" for dst' inplace'
    using decrypt_eq [OF w(1) E, of dst' ?ct db inplace'] that len ok w(2) E k by (simp add: cfb_dec_enc)
  with encrypt_eq [OF w(1) E d(1) _ d(2), of eb] len ok show ?thesis by (intro exI [of _ ?ct]) auto
qed

lemma salsa20_round_trip:
  assumes ks: "\<forall>nonce. length (ks key nonce (length src - 8)) = length src - 8" and n: "8 \<le> length src"
    and d: "length dst = length src" "inplace \<longrightarrow> dst = src"
  shows "\<exists>ct. salsa20_crypt ks key inplace dst src = Some ct \<and> length ct = length src \<and>
    (\<forall>dst' inplace'. length dst' = length src \<longrightarrow> (inplace' \<longrightarrow> dst' = ct) \<longrightarrow>
       salsa20_crypt ks key inplace' dst' ct = Some src)"
proof -
  have eval: "salsa20_crypt ks key i dd ss = Some (take 8 ss @ xor_bytes (drop 8 ss) (ks key (take 8 ss) (length src - 8)))"
    if "length ss = length src" "length dd = length src" "i \<longrightarrow> dd = ss" for i dd ss
    using that n ks by (cases i) (auto simp: salsa20_crypt_def slice_def XORKeyStream_def go_copy_def Let_def)
  let ?ct = "take 8 src @ xor_bytes (drop 8 src) (ks key (take 8 src) (length src - 8))"
  have len: "length ?ct = length src" using ks n by simp
  have "xor_bytes (xor_bytes (drop 8 src) (ks key (take 8 src) (length src - 8)))
      (ks key (take 8 src) (length src - 8)) = drop 8 src"
    using ks by (intro xor_bytes_cancel) simp
  then have "salsa20_crypt ks key i dd ?ct = Some src" if "length dd = length src" "i \<longrightarrow> dd = ?ct" for i dd
    using eval [OF len that] n by simp
  with eval [OF refl d] len show ?thesis by (intro exI [of _ ?ct] conjI allI impI) auto
qed

lemma simpleXOR_round_trip:
  assumes "length src \<le> length xortbl" and d: "length dst = length src"
  shows "\<exists>ct. simpleXOR_crypt xortbl dst src = Some ct \<and> length ct = length src \<and>
    (\<forall>dst'. length dst' = length src \<longrightarrow> simpleXOR_crypt xortbl dst' ct = Some src)"
proof -
  have eval: "simpleXOR_crypt xortbl dd ss = Some (xor_bytes ss xortbl)"
    if "length ss = length src" "length dd = length src" for dd ss
    using that assms by (auto simp: simpleXOR_crypt_def XORBytes_def xor_bytes_def)
  show ?thesis
    using assms eval eval [OF refl d] by (intro exI [of _ "xor_bytes src xortbl"]) (simp add: xor_bytes_cancel)
qed

lemma none_round_trip:
  "length dst = length src \<Longrightarrow> (inplace \<longrightarrow> dst = src) \<Longrightarrow> none_crypt inplace dst src = Some src"
  by (auto simp: none_crypt_def go_copy_def)

text \<open>C17. For block ciphers with 8 and 16 byte blocks, the unrolled loops of \<^verbatim>\<open>encrypt\<close> and
\<^verbatim>\<open>decrypt\<close> (groups of eight blocks, the fall-through switch on the remaining blocks, the alternating tables)
compute cipher feedback mode block by block from the fixed initial vector, on every packet length,
whether source and destination are the same slice or not; any other block size panics.\<close>

theorem crypt_is_cfb:
  assumes "w \<in> {8, 16}" "block_ok w E" "length dst = length src" "2 * w \<le> length buf" "inplace \<longrightarrow> dst = src"
  shows "encrypt w E inplace dst src buf = Some (cfb_enc E w (E (take w initialVector)) src) \<and>
    decrypt w E inplace dst src buf = Some (cfb_dec E w (E (take w initialVector)) src) \<and>
    (\<forall>v. v \<notin> {8, 16} \<longrightarrow> encrypt v E inplace dst src buf = None \<and> decrypt v E inplace dst src buf = None)"
  using encrypt_eq [OF assms(1,2,3) _ assms(5), of buf] decrypt_eq [OF assms] assms(4)
  by (auto simp: encrypt_def decrypt_def)

lemma Decrypt_total:
  assumes ok: "crypt_ok ks c (length b)"
  shows "\<exists>b'. Decrypt ks c True b b = Some b' \<and> length b' = length b"
proof (cases c)
  case (blockCrypt eb db block bs)
  then have w: "BlockSize block \<in> {8, 16}" "0 < BlockSize block" and E: "block_ok (BlockSize block) (blk_Encrypt block)"
    and db: "2 * BlockSize block \<le> length db" using ok by auto
  have "length (blk_Encrypt block (take (BlockSize block) initialVector)) = BlockSize block"
    using w E by (auto simp: block_okD)
  then show ?thesis
    using decrypt_eq [OF w(1) E, of b b db True] db length_cfb_dec [OF w(2) E] by (simp add: blockCrypt)
next
  case (salsa20BlockCrypt key)
  then have "\<forall>nonce. length (ks key nonce (length b - 8)) = length b - 8" "8 \<le> length b" using ok by auto
  from salsa20_round_trip [of ks key, OF this, of b True] show ?thesis by (auto simp: salsa20BlockCrypt)
next
  case (simpleXORBlockCrypt tbl)
  then show ?thesis using simpleXOR_round_trip [of b tbl b] ok by auto
next
  case noneBlockCrypt
  then show ?thesis by (simp add: none_round_trip)
qed (use ok in simp)

text \<open>A toy block cipher and a packet of 139 bytes: one group of eight blocks, one more block and a rest.\<close>

definition toy_block :: "byte list \<Rightarrow> byte list" where
  "toy_block b = map (\<lambda>x. x * 3 + 5) (rev b)"

definition toy_packet :: "byte list" where
  "toy_packet = map of_nat [0..<139]"

lemma toy_block_ok: "block_ok w toy_block"
  by (simp add: block_ok_def toy_block_def)

theorem crypt_is_cfb_witness:
  "encrypt 16 toy_block True toy_packet toy_packet (replicate 32 0) =
     Some (cfb_enc toy_block 16 (toy_block (take 16 initialVector)) toy_packet) \<and>
   length toy_packet = 139"
  using crypt_is_cfb [of 16 toy_block toy_packet toy_packet "replicate 32 0" True] toy_block_ok
  by (simp add: toy_packet_def)

lemma crypt_round_trip:
  assumes ok: "crypt_ok ks c (length src)" and d: "length dst = length src" "inplace \<longrightarrow> dst = src"
  shows "\<exists>ct. Encrypt ks c inplace dst src = Some ct \<and> length ct = length src \<and>
    (\<forall>dst' inplace'. length dst' = length src \<longrightarrow> (inplace' \<longrightarrow> dst' = ct) \<longrightarrow>
       Decrypt ks c inplace' dst' ct = Some src)"
proof (cases c)
  case (blockCrypt eb db block bs)
  show ?thesis unfolding blockCrypt by (rule block_round_trip [OF ok [unfolded blockCrypt] d])
next
  case (salsa20BlockCrypt key)
  have "\<forall>nonce. length (ks key nonce (length src - 8)) = length src - 8" "8 \<le> length src"
    using ok salsa20BlockCrypt by auto
  from salsa20_round_trip [of ks key, OF this d] salsa20BlockCrypt show ?thesis by simp
next
  case (simpleXORBlockCrypt tbl)
  with ok have "length src \<le> length tbl" by simp
  from simpleXOR_round_trip [OF this d(1)] simpleXORBlockCrypt show ?thesis by auto
next
  case noneBlockCrypt
  then show ?thesis using d by (auto simp: none_round_trip)
qed (use ok in simp)

text \<open>C16. Decrypting what a packet cipher encrypted gives the packet back: for the block ciphers (any
cipher with 8 or 16 byte blocks), Salsa20, the XOR table and the null cipher, in place or into
another slice on either side; the encrypted packet has the length of the packet.\<close>

theorem Decrypt_Encrypt:
  assumes ok: "crypt_ok ks c (length src)" and d: "length dst = length src" "inplace \<longrightarrow> dst = src"
  shows "\<exists>ct. Encrypt ks c inplace dst src = Some ct \<and> length ct = length src \<and>
    (\<forall>dst' inplace'. length dst' = length src \<longrightarrow> (inplace' \<longrightarrow> dst' = ct) \<longrightarrow>
       Decrypt ks c inplace' dst' ct = Some src)"
  by (rule crypt_round_trip [OF assms])

theorem Decrypt_Encrypt_witness:
  "\<exists>ct. Encrypt (\<lambda>_ _ _. []) (newBlockCrypt \<lparr>BlockSize = 8, blk_Encrypt = toy_block\<rparr>) True toy_packet toy_packet = Some ct \<and>
    Decrypt (\<lambda>_ _ _. []) (newBlockCrypt \<lparr>BlockSize = 8, blk_Encrypt = toy_block\<rparr>) True ct ct = Some toy_packet"
proof -
  let ?c = "newBlockCrypt \<lparr>BlockSize = 8, blk_Encrypt = toy_block\<rparr>"
  have "crypt_ok (\<lambda>_ _ _. []) ?c (length toy_packet)"
    using toy_block_ok by (intro crypt_ok_newBlockCrypt) simp_all
  from Decrypt_Encrypt [OF this, of toy_packet True] show ?thesis by auto
qed

end
