(* ===== verification/Send_Queue.thy ===== *)
theory Send_Queue
  imports Ring_Buffer
begin

text \<open>
  The queue of \<^verbatim>\<open>sendqueue.go\<close> between a session and its post-processing workers: a slice with a
  moving head that is compacted when its storage is full and released when it drains. The
  slice is its elements and its capacity; what \<^verbatim>\<open>append\<close> allocates is the language's
  choice, the argument \<open>g\<close>. Locks make each method atomic. The lemmas show a
  first-in first-out queue of at most \<^verbatim>\<open>devBacklog\<close> requests, the contract stated as the
  locale \<open>bounded_fifo\<close>.
\<close>

section \<open>The queue\<close>

record sendRequest =
  req_buffer :: "byte list"
  req_oob :: bool

definition zero_request :: sendRequest where
  "zero_request = \<lparr>req_buffer = [], req_oob = False\<rparr>"

definition devBacklog :: nat where "devBacklog = 2048"
definition sendQueueKeep :: nat where "sendQueueKeep = 64"

record sendQueue =
  sq_q :: "sendRequest list"
  sq_cap :: nat
  sq_head :: nat

definition empty_queue :: sendQueue where
  "empty_queue = \<lparr>sq_q = [], sq_cap = 0, sq_head = 0\<rparr>"

text \<open>\<^verbatim>\<open>append\<close> on one element: in place while there is room, otherwise in a larger array.\<close>

definition append_one :: "(nat \<Rightarrow> nat) \<Rightarrow> sendRequest \<Rightarrow> sendQueue \<Rightarrow> sendQueue" where
  "append_one g r sq = sq\<lparr>sq_q := sq_q sq @ [r],
     sq_cap := (if length (sq_q sq) < sq_cap sq then sq_cap sq
                else max (Suc (length (sq_q sq))) (g (sq_cap sq)))\<rparr>"

text \<open>\<^verbatim>\<open>copy(sq.q, sq.q[sq.head:])\<close>, then the slice cut to what was copied.\<close>

definition compact :: "sendQueue \<Rightarrow> sendQueue" where
  "compact sq = sq\<lparr>sq_q := drop (sq_head sq) (sq_q sq), sq_head := 0\<rparr>"

definition queue_len :: "sendQueue \<Rightarrow> nat" where
  "queue_len sq = length (sq_q sq) - sq_head sq"

definition queue_enq :: "(nat \<Rightarrow> nat) \<Rightarrow> sendRequest \<Rightarrow> sendQueue \<Rightarrow> bool \<times> sendQueue" where
  "queue_enq g r sq =
     (if length (sq_q sq) - sq_head sq \<ge> devBacklog then (False, sq)
      else let sq = (if sq_head sq > 0 \<and> length (sq_q sq) = sq_cap sq then compact sq else sq)
           in (True, append_one g r sq))"

definition queue_deq :: "sendQueue \<Rightarrow> sendRequest option \<times> sendQueue" where
  "queue_deq sq =
     (if sq_head sq = length (sq_q sq) then (None, sq)
      else let r = sq_q sq ! sq_head sq;
               sq = sq\<lparr>sq_q := (sq_q sq)[sq_head sq := zero_request], sq_head := Suc (sq_head sq)\<rparr>;
               sq = (if sq_head sq = length (sq_q sq)
                     then sq\<lparr>sq_q := [], sq_head := 0,
                             sq_cap := (if sq_cap sq > sendQueueKeep then 0 else sq_cap sq)\<rparr>
                     else sq)
           in (Some r, sq))"

section \<open>Contents and invariant\<close>

definition queue_list :: "sendQueue \<Rightarrow> sendRequest list" where
  "queue_list sq = drop (sq_head sq) (sq_q sq)"

definition queue_wf :: "sendQueue \<Rightarrow> bool" where
  "queue_wf sq \<longleftrightarrow> sq_head sq \<le> length (sq_q sq) \<and> length (sq_q sq) \<le> sq_cap sq \<and>
     length (queue_list sq) \<le> devBacklog \<and> (sq_head sq = length (sq_q sq) \<longrightarrow> sq_q sq = [])"

lemma queue_len_list: "queue_len sq = length (queue_list sq)"
  by (simp add: queue_len_def queue_list_def)

lemma queue_enq_spec:
  assumes wf: "queue_wf sq"
  shows "fst (queue_enq g r sq) \<longleftrightarrow> length (queue_list sq) < devBacklog"
    and "queue_list (snd (queue_enq g r sq)) = queue_list sq @ (if fst (queue_enq g r sq) then [r] else [])"
    and "queue_wf (snd (queue_enq g r sq))"
proof -
  show a: "fst (queue_enq g r sq) \<longleftrightarrow> length (queue_list sq) < devBacklog"
    by (auto simp: queue_enq_def queue_list_def Let_def)
  show b: "queue_list (snd (queue_enq g r sq)) = queue_list sq @ (if fst (queue_enq g r sq) then [r] else [])"
    using wf by (auto simp: queue_enq_def queue_list_def append_one_def compact_def queue_wf_def Let_def)
  show "queue_wf (snd (queue_enq g r sq))"
    using wf a b unfolding queue_wf_def
    by (auto simp: queue_enq_def append_one_def compact_def Let_def split: if_splits)
qed

lemma queue_deq_spec:
  assumes wf: "queue_wf sq"
  shows "queue_list sq = [] \<Longrightarrow> queue_deq sq = (None, sq)"
    and "queue_list sq \<noteq> [] \<Longrightarrow> fst (queue_deq sq) = Some (hd (queue_list sq))"
    and "queue_list (snd (queue_deq sq)) = tl (queue_list sq)"
    and "queue_wf (snd (queue_deq sq))"
proof -
  have head: "queue_list sq = sq_q sq ! sq_head sq # drop (Suc (sq_head sq)) (sq_q sq)" if "sq_head sq < length (sq_q sq)"
    using that by (simp add: queue_list_def Cons_nth_drop_Suc)
  show "queue_deq sq = (None, sq)" if "queue_list sq = []"
    using that wf by (auto simp: queue_deq_def queue_list_def queue_wf_def)
  show "fst (queue_deq sq) = Some (hd (queue_list sq))" if "queue_list sq \<noteq> []"
    using that head by (auto simp: queue_deq_def queue_list_def hd_drop_conv_nth Let_def)
  show c: "queue_list (snd (queue_deq sq)) = tl (queue_list sq)"
    using wf by (auto simp: queue_deq_def queue_list_def queue_wf_def Let_def tl_drop simp flip: drop_Suc)
  show "queue_wf (snd (queue_deq sq))"
    using wf c unfolding queue_wf_def
    by (auto simp: queue_deq_def Let_def split: if_splits)
qed

section \<open>The contract\<close>

text \<open>A queue that refuses an element when it is full, and otherwise is first in, first out.\<close>

locale bounded_fifo =
  fixes start :: 'q
    and enq :: "'a \<Rightarrow> 'q \<Rightarrow> bool \<times> 'q"
    and deq :: "'q \<Rightarrow> 'a option \<times> 'q"
    and elems :: "'q \<Rightarrow> 'a list"
    and wf :: "'q \<Rightarrow> bool"
    and limit :: nat
  assumes wf_start: "wf start"
    and elems_start: "elems start = []"
    and wf_enq: "wf q \<Longrightarrow> wf (snd (enq x q))"
    and enq_accepts: "wf q \<Longrightarrow> fst (enq x q) \<longleftrightarrow> length (elems q) < limit"
    and elems_enq: "wf q \<Longrightarrow> elems (snd (enq x q)) = elems q @ (if fst (enq x q) then [x] else [])"
    and wf_deq: "wf q \<Longrightarrow> wf (snd (deq q))"
    and deq_hd: "wf q \<Longrightarrow> fst (deq q) = (case elems q of [] \<Rightarrow> None | x # _ \<Rightarrow> Some x)"
    and elems_deq: "wf q \<Longrightarrow> elems (snd (deq q)) = tl (elems q)"
begin

text \<open>A run of the queue: \<open>Some x\<close> is an attempt to queue \<open>x\<close>, \<open>None\<close> one to take an element. The
  result is the elements accepted, those taken, and the queue.\<close>

fun run :: "'a option list \<Rightarrow> 'q \<Rightarrow> 'a list \<times> 'a list \<times> 'q" where
  "run [] q = ([], [], q)"
| "run (Some x # xs) q =
     (let r = enq x q; s = run xs (snd r)
      in ((if fst r then [x] else []) @ fst s, snd s))"
| "run (None # xs) q =
     (let r = deq q; s = run xs (snd r)
      in (fst s, (case fst r of None \<Rightarrow> [] | Some x \<Rightarrow> [x]) @ fst (snd s), snd (snd s)))"

lemma run_fifo:
  "wf q \<Longrightarrow> wf (snd (snd (run xs q))) \<and>
     elems q @ fst (run xs q) = fst (snd (run xs q)) @ elems (snd (snd (run xs q)))"
proof (induction xs arbitrary: q)
  case (Cons a xs)
  show ?case
  proof (cases a)
    case None
    with Cons.IH [OF wf_deq [OF Cons.prems]] Cons.prems show ?thesis
      by (cases "elems q") (simp_all add: Let_def elems_deq deq_hd)
  next
    case (Some x)
    with Cons.IH [OF wf_enq [OF Cons.prems], of x] Cons.prems show ?thesis
      by (simp add: Let_def elems_enq)
  qed
qed simp

lemma run_bounded:
  "wf q \<Longrightarrow> length (elems q) \<le> limit \<Longrightarrow> length (elems (snd (snd (run xs q)))) \<le> limit"
proof (induction xs arbitrary: q)
  case (Cons a xs)
  show ?case
  proof (cases a)
    case None
    with Cons.IH [OF wf_deq [OF Cons.prems(1)]] Cons.prems show ?thesis by (simp add: Let_def elems_deq)
  next
    case (Some x)
    with Cons.IH [OF wf_enq [OF Cons.prems(1)], of x] Cons.prems show ?thesis
      by (simp add: Let_def elems_enq enq_accepts)
  qed
qed simp

end

interpretation sq: bounded_fifo empty_queue "queue_enq g" queue_deq queue_list queue_wf devBacklog for g
proof
  show "fst (queue_deq q) = (case queue_list q of [] \<Rightarrow> None | x # _ \<Rightarrow> Some x)" if "queue_wf q" for q
    using queue_deq_spec(1,2) [OF that] by (cases "queue_list q") auto
qed (simp_all add: queue_enq_spec queue_deq_spec, simp_all add: empty_queue_def queue_wf_def queue_list_def)

text \<open>C31. The send queue is a bounded first-in first-out queue: whatever requests are queued and taken in
  whatever order, starting empty, the requests taken are a prefix of those accepted, in order, those
  still queued are the rest, at most \<^verbatim>\<open>devBacklog\<close> of them, and a request is refused exactly when
  that many are queued. Compaction, growth and release of the storage never show.\<close>

theorem send_queue_refines:
  "fst (sq.run g xs empty_queue) =
     fst (snd (sq.run g xs empty_queue)) @ queue_list (snd (snd (sq.run g xs empty_queue))) \<and>
   queue_len (snd (snd (sq.run g xs empty_queue))) \<le> devBacklog \<and>
   (fst (queue_enq g r (snd (snd (sq.run g xs empty_queue)))) \<longleftrightarrow>
      queue_len (snd (snd (sq.run g xs empty_queue))) < devBacklog)"
proof -
  have w: "queue_wf (snd (snd (sq.run g xs empty_queue)))"
    using sq.run_fifo [OF sq.wf_start, of g xs] by simp
  show ?thesis
    using sq.run_fifo [OF sq.wf_start, of g xs] sq.run_bounded [OF sq.wf_start, of g xs] queue_enq_spec(1) [OF w]
    by (simp add: sq.elems_start queue_len_list)
qed

end
