(* ===== verification/Session.thy ===== *)
theory Session
  imports Kcp_Machine Fec_Recovery Crypt Send_Queue
begin

text \<open>
  One session of \<^verbatim>\<open>sess.go\<close>: the struct \<^verbatim>\<open>UDPSession\<close> and the operations that move data between the
  application, the protocol machine and the network. Each method runs under the session's
  lock, so a method is one step. The output callback runs inside the protocol machine; the model
  runs it on the packets a step has put out, in order, at the end of the step.

  The record \<open>env\<close> holds what is not code of the repository: the clocks, the random bytes, the
  content of recycled buffers, \<^verbatim>\<open>append\<close>'s growth, CRC-32, the Salsa20 key stream and the
  Reed-Solomon codec. The fields \<open>s_wire\<close> and \<open>s_oob\<close> record what was handed to the socket and to
  the out-of-band callback; \<open>s_ppQueued\<close> is the number of entries of this session in the
  global work queue. \<open>None\<close> is a panic.
\<close>

section \<open>State\<close>

record env =
  e_clock :: clock
  e_now :: "nat \<Rightarrow> int"
  e_rand :: "nat \<Rightarrow> nat \<Rightarrow> byte list"
  e_stale :: "byte list"
  e_grow :: "nat \<Rightarrow> nat"
  e_crc32 :: "byte list \<Rightarrow> u32"
  e_salsa20 :: "byte list \<Rightarrow> byte list \<Rightarrow> nat \<Rightarrow> byte list"
  e_rs_new :: "nat \<Rightarrow> nat \<Rightarrow> bool"
  e_rs_encode :: "nat \<times> nat \<Rightarrow> byte list list \<Rightarrow> byte list list option"
  e_rs_reconstruct :: "nat \<times> nat \<Rightarrow> byte list list \<Rightarrow> byte list list option"

record UDPSession =
  s_kcp :: kcp
  s_listener :: bool
  s_block :: "BlockCrypt option"
  s_recvbuf :: "byte list"
  s_input :: "byte list"
  s_fecDecoder :: "fecDecoder option"
  s_fecEncoder :: "fecEncoder option"
  s_headerSize :: nat
  s_ackNoDelay :: bool
  s_writeDelay :: bool
  s_dup :: int
  s_die :: bool
  s_chReadEvent :: bool
  s_chWriteEvent :: bool
  s_readError :: bool
  s_readNotify :: bool
  s_readNotified :: nat
  s_postQueue :: sendQueue
  s_ppRunning :: bool
  s_ppQueued :: nat
  s_ppClosing :: bool
  s_oobHandler :: bool
  s_oob :: "byte list list"
  s_wire :: "byte list list"
  s_calls :: nat
  s_snmp :: Snmp

definition nonceSize :: nat where "nonceSize = 16"
definition crcSize :: nat where "crcSize = 4"
definition cryptHeaderSize :: nat where "cryptHeaderSize = nonceSize + crcSize"
definition convSize :: nat where "convSize = 4"
definition maxFECEncodeLatency :: u32 where "maxFECEncodeLatency = 500"
definition maxBatchSize :: nat where "maxBatchSize = 64"
definition ppBudget :: nat where "ppBudget = 4 * maxBatchSize"

lemmas sess_consts = nonceSize_def crcSize_def cryptHeaderSize_def convSize_def maxBatchSize_def
  fecHeaderSize_def fecHeaderSizePlus2_def IKCP_OVERHEAD_def maxPacketSize_def

definition sess_count :: "(Snmp \<Rightarrow> Snmp) \<Rightarrow> UDPSession \<Rightarrow> UDPSession" where
  "sess_count f s = s\<lparr>s_snmp := f (s_snmp s)\<rparr>"

section \<open>Notifications and the output callback\<close>

text \<open>The event channels hold one token; a second one is dropped. \<open>s_readNotified\<close> counts the calls of the callback
  of \<^verbatim>\<open>SetReadNotify\<close>, and a stored socket error is never cleared.\<close>

definition callReadNotify :: "UDPSession \<Rightarrow> UDPSession" where
  "callReadNotify s = (if s_readNotify s then s\<lparr>s_readNotified := Suc (s_readNotified s)\<rparr> else s)"

definition notifyReadEvent :: "UDPSession \<Rightarrow> UDPSession" where
  "notifyReadEvent s = callReadNotify (s\<lparr>s_chReadEvent := True\<rparr>)"

definition notifyReadError :: "UDPSession \<Rightarrow> UDPSession" where
  "notifyReadError s = callReadNotify (s\<lparr>s_readError := True\<rparr>)"

definition notifyWriteEvent :: "UDPSession \<Rightarrow> UDPSession" where
  "notifyWriteEvent s = s\<lparr>s_chWriteEvent := True\<rparr>"

definition claimPostProcess :: "UDPSession \<Rightarrow> bool \<times> UDPSession" where
  "claimPostProcess s = (if s_ppRunning s then (False, s) else (True, s\<lparr>s_ppRunning := True\<rparr>))"

definition kickPostProcess :: "UDPSession \<Rightarrow> UDPSession" where
  "kickPostProcess s =
     (let (claimed, s) = claimPostProcess s
      in if claimed then s\<lparr>s_ppQueued := Suc (s_ppQueued s)\<rparr> else s)"

definition post :: "env \<Rightarrow> sendRequest \<Rightarrow> UDPSession \<Rightarrow> UDPSession" where
  "post env r s =
     (let (ok, q) = queue_enq (e_grow env) r (s_postQueue s); s = s\<lparr>s_postQueue := q\<rparr>
      in if ok then kickPostProcess s else s)"

definition output_callback :: "env \<Rightarrow> byte list \<Rightarrow> UDPSession \<Rightarrow> UDPSession option" where
  "output_callback env buf s =
     (if length buf \<ge> IKCP_OVERHEAD then
        if length buf + s_headerSize s > maxPacketSize then None
        else if s_die s then Some s
        else Some (post env \<lparr>req_buffer = take (s_headerSize s) (e_stale env) @ buf, req_oob = False\<rparr> s)
      else Some s)"

fun outputs :: "env \<Rightarrow> byte list list \<Rightarrow> UDPSession \<Rightarrow> UDPSession option" where
  "outputs env [] s = Some s"
| "outputs env (p # ps) s = do { s \<leftarrow> output_callback env p s; outputs env ps s }"

text \<open>The protocol machine after a step, its packets handed to the callback.\<close>

definition set_kcp :: "env \<Rightarrow> kcp \<Rightarrow> UDPSession \<Rightarrow> UDPSession option" where
  "set_kcp env k s = outputs env (sent k) (s\<lparr>s_kcp := k\<lparr>sent := []\<rparr>\<rparr>)"

definition sess_Input :: "env \<Rightarrow> byte list \<Rightarrow> PacketType \<Rightarrow> UDPSession \<Rightarrow> (int \<times> UDPSession) option" where
  "sess_Input env data pt s = do {
     (ret, k) \<leftarrow> Input (e_clock env) data pt (s_ackNoDelay s) (s_kcp s);
     s \<leftarrow> set_kcp env k s;
     Some (ret, s) }"

definition sess_flush :: "env \<Rightarrow> UDPSession \<Rightarrow> (u32 \<times> UDPSession) option" where
  "sess_flush env s = do {
     (nextUpdate, k) \<leftarrow> flush (e_clock env) IKCP_FLUSH_FULL (s_kcp s);
     s \<leftarrow> set_kcp env k s;
     Some (nextUpdate, s) }"

section \<open>Construction and settings\<close>

definition sess_SetMtu :: "int \<Rightarrow> UDPSession \<Rightarrow> (bool \<times> UDPSession) option" where
  "sess_SetMtu m s = do {
     let m = min (int maxPacketSize) m - int (s_headerSize s);
     let m = (case s_block s of Some (aeadCrypt a) \<Rightarrow> m - int (aead_Overhead a) | _ \<Rightarrow> m);
     (ret, k) \<leftarrow> SetMtu m (s_kcp s);
     Some (ret = 0, s\<lparr>s_kcp := k\<rparr>) }"

definition cryptHeader :: "BlockCrypt option \<Rightarrow> nat" where
  "cryptHeader block =
     (case block of None \<Rightarrow> 0 | Some (aeadCrypt a) \<Rightarrow> aead_NonceSize a | Some _ \<Rightarrow> cryptHeaderSize)"

definition newUDPSession ::
    "env \<Rightarrow> u32 \<Rightarrow> int \<Rightarrow> int \<Rightarrow> bool \<Rightarrow> BlockCrypt option \<Rightarrow> Snmp \<Rightarrow> UDPSession option" where
  "newUDPSession env c dataShards parityShards listener block sn = do {
     let enc = newFECEncoder (e_rs_new env) newSnmp dataShards parityShards (cryptHeader block);
     let s = \<lparr>s_kcp = NewKCP c, s_listener = listener, s_block = block,
              s_recvbuf = replicate maxPacketSize 0, s_input = [],
              s_fecDecoder = newFECDecoder (e_rs_new env) newSnmp dataShards parityShards,
              s_fecEncoder = enc,
              s_headerSize = cryptHeader block + (if enc \<noteq> None then fecHeaderSizePlus2 else 0),
              s_ackNoDelay = False, s_writeDelay = False, s_dup = 0,
              s_die = False, s_chReadEvent = False, s_chWriteEvent = False, s_readError = False,
              s_readNotify = False, s_readNotified = 0,
              s_postQueue = empty_queue, s_ppRunning = False, s_ppQueued = 0, s_ppClosing = False,
              s_oobHandler = False, s_oob = [], s_wire = [], s_calls = 0, s_snmp = sn\<rparr>;
     (ok, s) \<leftarrow> sess_SetMtu (int (unat IKCP_MTU_DEF)) s;
     if \<not> ok then None
     else Some (sess_count increaseCurrEstab
       (sess_count (if listener then increasePassiveOpens else increaseActiveOpens) s)) }"

definition SetWriteDelay :: "bool \<Rightarrow> UDPSession \<Rightarrow> UDPSession" where
  "SetWriteDelay delay s = s\<lparr>s_writeDelay := delay\<rparr>"

definition SetWindowSize :: "int \<Rightarrow> int \<Rightarrow> UDPSession \<Rightarrow> UDPSession" where
  "SetWindowSize sndwnd rcvwnd s = s\<lparr>s_kcp := WndSize sndwnd rcvwnd (s_kcp s)\<rparr>"

definition SetStreamMode :: "bool \<Rightarrow> UDPSession \<Rightarrow> UDPSession" where
  "SetStreamMode enable s = s\<lparr>s_kcp := (s_kcp s)\<lparr>stream := (if enable then 1 else 0)\<rparr>\<rparr>"

definition SetACKNoDelay :: "bool \<Rightarrow> UDPSession \<Rightarrow> UDPSession" where
  "SetACKNoDelay nodly s = s\<lparr>s_ackNoDelay := nodly\<rparr>"

definition SetDUP :: "int \<Rightarrow> UDPSession \<Rightarrow> UDPSession" where
  "SetDUP dup s = s\<lparr>s_dup := dup\<rparr>"

definition SetNoDelay :: "int \<Rightarrow> int \<Rightarrow> int \<Rightarrow> int \<Rightarrow> UDPSession \<Rightarrow> UDPSession" where
  "SetNoDelay nodly itv resend nc s = s\<lparr>s_kcp := NoDelay nodly itv resend nc (s_kcp s)\<rparr>"

definition sess_ResetRTO :: "env \<Rightarrow> UDPSession \<Rightarrow> UDPSession option" where
  "sess_ResetRTO env s = map_option (\<lambda>k. s\<lparr>s_kcp := k\<rparr>) (ResetRTO (e_clock env) (s_kcp s))"

definition SetReadNotify :: "UDPSession \<Rightarrow> UDPSession" where
  "SetReadNotify s = s\<lparr>s_readNotify := True\<rparr>"

definition GetConv :: "UDPSession \<Rightarrow> u32" where
  "GetConv s = conv (s_kcp s)"

definition GetRTO :: "UDPSession \<Rightarrow> u32" where
  "GetRTO s = rx_rto (s_kcp s)"

definition GetSRTT :: "UDPSession \<Rightarrow> i32" where
  "GetSRTT s = rx_srtt (s_kcp s)"

definition GetSRTTVar :: "UDPSession \<Rightarrow> i32" where
  "GetSRTTVar s = rx_rttvar (s_kcp s)"

text \<open>\<open>False\<close> is the error that FEC is not enabled.\<close>

definition SetOOBHandler :: "UDPSession \<Rightarrow> bool \<times> UDPSession" where
  "SetOOBHandler s = (if s_fecEncoder s = None then (False, s) else (True, s\<lparr>s_oobHandler := True\<rparr>))"

section \<open>Reading\<close>

definition notifyReadIfAvailableLocked :: "UDPSession \<Rightarrow> UDPSession option" where
  "notifyReadIfAvailableLocked s = do {
     n \<leftarrow> PeekSize (s_kcp s);
     Some (if s_input s \<noteq> [] \<or> n > 0 then notifyReadEvent s else s) }"

text \<open>\<^verbatim>\<open>readLocked(b)\<close> for a buffer of \<open>blen\<close> bytes: the count, the bytes at the start of the buffer, and
  whether there was data.\<close>

definition readLocked :: "nat \<Rightarrow> UDPSession \<Rightarrow> (nat \<times> byte list \<times> bool \<times> UDPSession) option" where
  "readLocked blen s =
     (if s_input s \<noteq> [] then do {
        let bs = take blen (s_input s);
        s \<leftarrow> notifyReadIfAvailableLocked (s\<lparr>s_input := drop blen (s_input s)\<rparr>);
        Some (length bs, bs, True, s) }
      else do {
        size \<leftarrow> PeekSize (s_kcp s);
        if size \<le> 0 then Some (0, [], False, s)
        else if int blen \<ge> size then do {
          (_, bs, k) \<leftarrow> Recv blen (s_kcp s);
          s \<leftarrow> notifyReadIfAvailableLocked (s\<lparr>s_kcp := k\<rparr>);
          Some (nat size, bs, True, s) }
        else do {
          let buf = (if int (length (s_recvbuf s)) < size then replicate (nat size) 0 else s_recvbuf s);
          (_, bs, k) \<leftarrow> Recv (nat size) (s_kcp s);
          let buf = go_copy buf bs;
          let inp = take (nat size) buf;
          s \<leftarrow> notifyReadIfAvailableLocked (s\<lparr>s_kcp := k, s_recvbuf := buf, s_input := drop blen inp\<rparr>);
          Some (length (take blen inp), take blen inp, True, s) } })"

definition sess_read :: "nat \<Rightarrow> UDPSession \<Rightarrow> (nat \<times> byte list \<times> bool \<times> UDPSession) option" where
  "sess_read blen s = do {
     (n, bs, ok, s) \<leftarrow> readLocked blen s;
     Some (n, bs, ok, if ok then sess_count (addBytesReceived n) s else s) }"

text \<open>The errors of the blocking calls: \<^verbatim>\<open>errTimeout\<close>, the stored socket error, \<^verbatim>\<open>io.ErrClosedPipe\<close>.\<close>

datatype io_error = errTimeout | errSocket | errClosedPipe

text \<open>\<^verbatim>\<open>TryRead\<close>: when the session is closed and its socket failed, either error may be chosen.\<close>

definition TryRead :: "bool \<Rightarrow> nat \<Rightarrow> UDPSession \<Rightarrow> ((io_error + nat \<times> byte list) \<times> UDPSession) option" where
  "TryRead pick blen s = do {
     (n, bs, ok, s) \<leftarrow> sess_read blen s;
     Some (if ok then (Inr (n, bs), s)
           else if s_readError s \<and> (\<not> s_die s \<or> pick) then (Inl errSocket, s)
           else if s_die s then (Inl errClosedPipe, s)
           else (Inr (0, []), s)) }"

section \<open>Writing\<close>

text \<open>The inner loop of \<^verbatim>\<open>writeBuffersLocked\<close> has no bound of its own.\<close>

partial_function (option) send_chunks :: "byte list \<Rightarrow> kcp \<Rightarrow> kcp option" where
  "send_chunks b k =
     (if length b \<le> unat (mss k) then map_option snd (Send b k)
      else Option.bind (Send (take (unat (mss k)) b) k)
             (\<lambda>(ret, k). send_chunks (drop (unat (mss k)) b) k))"

declare send_chunks.simps [code]

fun send_buffers :: "byte list list \<Rightarrow> kcp \<Rightarrow> kcp option" where
  "send_buffers [] k = Some k"
| "send_buffers (b # v) k = do { k \<leftarrow> send_chunks b k; send_buffers v k }"

definition writeBuffersLocked :: "env \<Rightarrow> byte list list \<Rightarrow> UDPSession \<Rightarrow> (nat \<times> bool \<times> UDPSession) option" where
  "writeBuffersLocked env v s =
     (if WaitSnd (s_kcp s) \<ge> unat (snd_wnd (s_kcp s)) then Some (0, False, s)
      else do {
        k \<leftarrow> send_buffers v (s_kcp s);
        let s = s\<lparr>s_kcp := k\<rparr>;
        s \<leftarrow> (if WaitSnd k \<ge> unat (snd_wnd k) \<or> \<not> s_writeDelay s
               then map_option snd (sess_flush env s) else Some s);
        Some (sum_list (map length v), True, s) })"

definition writeBuffers :: "env \<Rightarrow> byte list list \<Rightarrow> UDPSession \<Rightarrow> (nat \<times> bool \<times> UDPSession) option" where
  "writeBuffers env v s = do {
     (n, ok, s) \<leftarrow> writeBuffersLocked env v s;
     Some (n, ok, if ok then sess_count (addBytesSent n) s else s) }"

definition buffersEmpty :: "byte list list \<Rightarrow> bool" where
  "buffersEmpty v \<longleftrightarrow> (\<forall>b\<in>set v. length b = 0)"

definition update :: "env \<Rightarrow> UDPSession \<Rightarrow> (u32 option \<times> UDPSession) option" where
  "update env s =
     (if s_die s then Some (None, s)
      else do {
        (interval, s) \<leftarrow> sess_flush env s;
        let s = (if WaitSnd (s_kcp s) < unat (snd_wnd (s_kcp s)) then notifyWriteEvent s else s);
        Some (Some interval, s) })"

section \<open>Out-of-band packets\<close>

definition GetOOBMaxSize :: "UDPSession \<Rightarrow> int" where
  "GetOOBMaxSize s = (if s_fecEncoder s = None then 0 else int (unat (mtu (s_kcp s))) - int convSize)"

datatype oob_error = ErrOOBNoFEC | ErrOOBTooLarge | ErrOOBClosed

definition SendOOB :: "env \<Rightarrow> byte list \<Rightarrow> UDPSession \<Rightarrow> (oob_error option \<times> UDPSession) option" where
  "SendOOB env data s =
     (if s_fecEncoder s = None then Some (Some ErrOOBNoFEC, s)
      else let size = convSize + length data in
        if size > unat (mtu (s_kcp s)) then Some (Some ErrOOBTooLarge, s)
        else if size + s_headerSize s > maxPacketSize then None
        else let buf = take (s_headerSize s) (e_stale env) @ PutUint32 (conv (s_kcp s)) @ data in
          if s_die s then Some (Some ErrOOBClosed, s)
          else Some (None, post env \<lparr>req_buffer = buf, req_oob = True\<rparr> s))"

section \<open>Incoming packets\<close>

text \<open>Decryption and verification, the same code in a session and in a listener.\<close>

datatype opened = Dropped | CsumError | Opened "byte list"

definition open_packet :: "env \<Rightarrow> BlockCrypt option \<Rightarrow> byte list \<Rightarrow> opened option" where
  "open_packet env block data =
     (case block of
        None \<Rightarrow> Some (Opened data)
      | Some (aeadCrypt a) \<Rightarrow>
          (let nonceSize = aead_NonceSize a in
           if length data < nonceSize + aead_Overhead a then Some Dropped
           else case Open a [] (take nonceSize data) (drop nonceSize data) [] of
               None \<Rightarrow> Some CsumError
             | Some plaintext \<Rightarrow> Some (Opened plaintext))
      | Some c \<Rightarrow>
          (if length data < cryptHeaderSize then Some Dropped
           else do {
             data \<leftarrow> Decrypt (e_salsa20 env) c True data data;
             let data = drop nonceSize data;
             sum \<leftarrow> Uint32 data;
             Some (if e_crc32 env (drop crcSize data) \<noteq> sum then CsumError else Opened (drop crcSize data)) }))"

text \<open>The packets FEC recovered, fed to the protocol machine; the number of errors.\<close>

fun input_recovered :: "env \<Rightarrow> byte list list \<Rightarrow> nat \<Rightarrow> UDPSession \<Rightarrow> (nat \<times> UDPSession) option" where
  "input_recovered env [] errs s = Some (errs, s)"
| "input_recovered env (r # rs) errs s =
     (case recovered_payload r of
        None \<Rightarrow> input_recovered env rs errs s
      | Some payload \<Rightarrow> do {
          (ret, s) \<leftarrow> sess_Input env payload IKCP_PACKET_FEC s;
          input_recovered env rs (if ret \<noteq> 0 then Suc errs else errs) s })"

definition notify_after_input :: "UDPSession \<Rightarrow> UDPSession option" where
  "notify_after_input s = do {
     n \<leftarrow> PeekSize (s_kcp s);
     let s = (if n > 0 then notifyReadEvent s else s);
     Some (if WaitSnd (s_kcp s) < unat (snd_wnd (s_kcp s)) then notifyWriteEvent s else s) }"

definition input_fec :: "env \<Rightarrow> byte list \<Rightarrow> UDPSession \<Rightarrow> UDPSession option" where
  "input_fec env data s =
     (if length data < fecHeaderSizePlus2 then Some (sess_count increaseInErrs s)
      else do {
        dec \<leftarrow> (case s_fecDecoder s of Some d \<Rightarrow> Some d | None \<Rightarrow> newFECDecoder (e_rs_new env) newSnmp 1 1);
        let s = s\<lparr>s_fecDecoder := Some dec\<rparr>;
        flag \<leftarrow> fec_flag data;
        (ret, s) \<leftarrow> (if flag = typeData then sess_Input env (drop fecHeaderSizePlus2 data) IKCP_PACKET_REGULAR s
                      else Some (0, s));
        (recovers, dec) \<leftarrow> decode (e_rs_new env) (e_rs_reconstruct env) data dec;
        let s = s\<lparr>s_fecDecoder := Some dec\<rparr>;
        (errs, s) \<leftarrow> input_recovered env recovers (if ret \<noteq> 0 then 1 else 0) s;
        s \<leftarrow> notify_after_input s;
        Some (if errs > 0 then sess_count (addKCPInErrors (of_nat errs)) s else s) })"

definition input_oob :: "byte list \<Rightarrow> UDPSession \<Rightarrow> UDPSession option" where
  "input_oob data s =
     (let s = sess_count increaseOOBPackets s
      in if \<not> s_oobHandler s then Some s
         else do {
           payload \<leftarrow> slice (fecHeaderSizePlus2 + convSize) (length data) data;
           Some (s\<lparr>s_oob := s_oob s @ [payload]\<rparr>) })"

definition input_plain :: "env \<Rightarrow> byte list \<Rightarrow> UDPSession \<Rightarrow> UDPSession option" where
  "input_plain env data s = do {
     (ret, s) \<leftarrow> sess_Input env data IKCP_PACKET_REGULAR s;
     let s = (if ret \<noteq> 0 then sess_count (addKCPInErrors 1) s else s);
     notify_after_input s }"

definition kcpInput :: "env \<Rightarrow> byte list \<Rightarrow> UDPSession \<Rightarrow> UDPSession option" where
  "kcpInput env data s = do {
     let s = sess_count (addInBytes (length data)) (sess_count increaseInPkts s);
     fecFlag \<leftarrow> Uint16 (drop 4 data);
     if fecFlag = typeData \<or> fecFlag = typeParity then input_fec env data s
     else if fecFlag = typeOOB then input_oob data s
     else input_plain env data s }"

definition packetInput :: "env \<Rightarrow> byte list \<Rightarrow> UDPSession \<Rightarrow> UDPSession option" where
  "packetInput env data s = do {
     r \<leftarrow> open_packet env (s_block s) data;
     (case r of
        Dropped \<Rightarrow> Some s
      | CsumError \<Rightarrow> Some (sess_count increaseInCsumErrors s)
      | Opened data \<Rightarrow>
          if length data < min IKCP_OVERHEAD (fecHeaderSizePlus2 + convSize)
          then Some (sess_count (addKCPInErrors 1) s)
          else kcpInput env data s) }"

section \<open>Outgoing packets\<close>

text \<open>Stage 1: the FEC header and, at the end of a group, the parity packets.\<close>

definition fec_stage :: "env \<Rightarrow> sendRequest \<Rightarrow> UDPSession \<Rightarrow> (byte list \<times> byte list list \<times> UDPSession) option" where
  "fec_stage env req s =
     (case s_fecEncoder s of
        None \<Rightarrow> Some (req_buffer req, [], s)
      | Some enc \<Rightarrow>
          if \<not> req_oob req then do {
            (buf, ecc, enc) \<leftarrow> encode (e_rs_encode env) (e_now env (s_calls s)) maxFECEncodeLatency (req_buffer req) enc;
            Some (buf, ecc, s\<lparr>s_fecEncoder := Some enc, s_calls := Suc (s_calls s)\<rparr>) }
          else do {
            buf \<leftarrow> encodeOOB (req_buffer req) enc;
            Some (buf, [], s) })"

text \<open>Stage 2: encryption of one packet, whose buffer has capacity \<^verbatim>\<open>maxPacketSize\<close>.\<close>

definition seal_packet :: "env \<Rightarrow> BlockCrypt option \<Rightarrow> byte list \<Rightarrow> UDPSession \<Rightarrow> (byte list \<times> UDPSession) option" where
  "seal_packet env block buf s =
     (case block of
        None \<Rightarrow> Some (buf, s)
      | Some (aeadCrypt a) \<Rightarrow> do {
          let nonce = e_rand env (s_calls s) (aead_NonceSize a);
          plaintext \<leftarrow> slice (aead_NonceSize a) (length buf) buf;
          buf \<leftarrow> Seal a (Some nonce) maxPacketSize nonce plaintext [];
          Some (buf, s\<lparr>s_calls := Suc (s_calls s)\<rparr>) }
      | Some c \<Rightarrow> do {
          data \<leftarrow> slice cryptHeaderSize (length buf) buf;
          let buf = e_rand env (s_calls s) nonceSize @ PutUint32 (e_crc32 env data) @ data;
          buf \<leftarrow> Encrypt (e_salsa20 env) c True buf buf;
          Some (buf, s\<lparr>s_calls := Suc (s_calls s)\<rparr>) })"

fun seal_packets :: "env \<Rightarrow> BlockCrypt option \<Rightarrow> byte list list \<Rightarrow> UDPSession \<Rightarrow> (byte list list \<times> UDPSession) option" where
  "seal_packets env block [] s = Some ([], s)"
| "seal_packets env block (b # bs) s = do {
     (b, s) \<leftarrow> seal_packet env block b s;
     (bs, s) \<leftarrow> seal_packets env block bs s;
     Some (b # bs, s) }"

text \<open>One packet through the pipeline: what it adds to the transmit queue.\<close>

definition process_one :: "env \<Rightarrow> sendRequest \<Rightarrow> UDPSession \<Rightarrow> (byte list list \<times> UDPSession) option" where
  "process_one env req s = do {
     (buf, ecc, s) \<leftarrow> fec_stage env req s;
     (buf, s) \<leftarrow> seal_packet env (s_block s) buf s;
     (ecc, s) \<leftarrow> seal_packets env (s_block s) ecc s;
     Some (buf # replicate (nat (s_dup s)) buf @ ecc, s) }"

text \<open>\<^verbatim>\<open>sendTx\<close> and \<^verbatim>\<open>flushTx\<close>: nothing leaves once the session is closing.\<close>

definition sendTx :: "byte list list \<Rightarrow> UDPSession \<Rightarrow> UDPSession" where
  "sendTx txqueue s = (if s_ppClosing s then s else s\<lparr>s_wire := s_wire s @ txqueue\<rparr>)"

definition flushTx :: "byte list list \<Rightarrow> UDPSession \<Rightarrow> bool \<times> UDPSession" where
  "flushTx txqueue s = (if s_die s then (True, s) else (False, sendTx txqueue s))"

fun postProcess_loop :: "env \<Rightarrow> nat \<Rightarrow> byte list list \<Rightarrow> UDPSession \<Rightarrow> (bool \<times> UDPSession) option" where
  "postProcess_loop env 0 txqueue s =
     (if txqueue = [] then Some (queue_len (s_postQueue s) > 0, s)
      else let (closed, s) = flushTx txqueue s
           in Some (closed \<or> queue_len (s_postQueue s) > 0, s))"
| "postProcess_loop env (Suc n) txqueue s =
     (let (r, q) = queue_deq (s_postQueue s); s = s\<lparr>s_postQueue := q\<rparr>
      in case r of
           None \<Rightarrow> Some (False, s)
         | Some req \<Rightarrow> do {
             (msgs, s) \<leftarrow> process_one env req s;
             let txqueue = txqueue @ msgs;
             if queue_len (s_postQueue s) = 0 \<or> length txqueue \<ge> maxBatchSize then
               (let (closed, s) = flushTx txqueue s
                in if closed then Some (True, s) else postProcess_loop env n [] s)
             else postProcess_loop env n txqueue s })"

definition postProcess :: "env \<Rightarrow> UDPSession \<Rightarrow> (bool \<times> UDPSession) option" where
  "postProcess env s = postProcess_loop env ppBudget [] s"

section \<open>Closing and the worker\<close>

text \<open>
  \<^verbatim>\<open>discardPostProcess\<close> pops until the queue is empty. Every pop that returns a request makes a
  well-formed queue shorter; the test for it is the recursion's measure.
\<close>

function discard_queue :: "sendQueue \<Rightarrow> sendQueue" where
  "discard_queue q = (case queue_deq q of (None, q') \<Rightarrow> q' | (Some _, q') \<Rightarrow>
     if queue_len q' < queue_len q then discard_queue q' else q')"
  by pat_completeness auto
termination
  by (relation "measure queue_len") auto

definition discardPostProcess :: "UDPSession \<Rightarrow> UDPSession" where
  "discardPostProcess s = s\<lparr>s_postQueue := discard_queue (s_postQueue s)\<rparr>"

definition finishPostProcess :: "UDPSession \<Rightarrow> bool \<times> UDPSession" where
  "finishPostProcess s =
     (let s = s\<lparr>s_ppRunning := False\<rparr>
      in if s_die s then (False, discardPostProcess s)
         else if queue_len (s_postQueue s) > 0 then claimPostProcess s else (False, s))"

text \<open>The body of \<^verbatim>\<open>postProcessWorker\<close> after it took this session from the work queue.\<close>

definition worker_step :: "env \<Rightarrow> UDPSession \<Rightarrow> UDPSession option" where
  "worker_step env s =
     (let s = s\<lparr>s_ppQueued := s_ppQueued s - 1\<rparr>
      in if s_die s then Some (snd (finishPostProcess s))
         else do {
           (more, s) \<leftarrow> postProcess env s;
           let (again, s) = (if more then (True, s) else finishPostProcess s);
           Some (if again then s\<lparr>s_ppQueued := Suc (s_ppQueued s)\<rparr> else s) })"

text \<open>\<^verbatim>\<open>Close\<close> up to the listener and the socket: \<open>False\<close> is the error of a second call.\<close>

definition sess_Close :: "env \<Rightarrow> UDPSession \<Rightarrow> (bool \<times> UDPSession) option" where
  "sess_Close env s =
     (if s_die s then Some (False, s)
      else do {
        (_, s) \<leftarrow> sess_flush env s;
        let s = s\<lparr>s_die := True, s_ppClosing := True\<rparr>;
        Some (True, discardPostProcess (callReadNotify (sess_count decreaseCurrEstab s))) })"

section \<open>Recovered packets fit a buffer\<close>

text \<open>Reconstruction gives a missing shard the length of the others.\<close>

definition rs_bounded :: "(nat \<times> nat \<Rightarrow> byte list list \<Rightarrow> byte list list option) \<Rightarrow> bool" where
  "rs_bounded rs_rec \<longleftrightarrow> (\<forall>c ss out n. rs_rec c ss = Some out \<longrightarrow>
     (\<forall>x\<in>set ss. length x \<le> n) \<longrightarrow> (\<forall>x\<in>set out. length x \<le> n))"

lemma fold_shard_sizes:
  assumes "\<forall>p\<in>set els. length p \<le> B"
  shows "dr_maxlen (foldr (add_shard n) els (empty_drained m)) \<le> B"
    and "\<forall>d. Some d \<in> set (dr_shards (foldr (add_shard n) els (empty_drained m))) \<longrightarrow>
      length d \<le> dr_maxlen (foldr (add_shard n) els (empty_drained m))"
  using assms
proof (induction els)
  case (Cons p els)
  let ?a = "foldr (add_shard n) els (empty_drained m)"
  {
    case 1
    then show ?case using Cons.IH by auto
  next
    case 2
    have "set ((dr_shards ?a)[pkt_pos n p := Some (pkt_data p)]) \<subseteq> insert (Some (pkt_data p)) (set (dr_shards ?a))"
      by (rule set_update_subset_insert)
    then show ?case using Cons.IH 2 by fastforce
  }
qed simp_all

lemma recovery_bounded:
  assumes "\<forall>p\<in>set els. length p \<le> B" and rs: "rs_bounded rs_rec" "rs_keeps_length rs_rec" and m: "fst c \<le> m"
    and x: "x \<in> set (recovery rs_rec c (foldr (add_shard n) els (empty_drained m)))"
  shows "length x \<le> B"
proof -
  let ?a = "foldr (add_shard n) els (empty_drained m)"
  let ?ss = "map (pad_shard (dr_maxlen ?a)) (dr_shards ?a)"
  note sz = fold_shard_sizes [OF assms(1), of n m]
  have "length y \<le> B" if "y \<in> set ?ss" for y
  proof -
    from that obtain s where s: "s \<in> set (dr_shards ?a)" "y = pad_shard (dr_maxlen ?a) s" by auto
    show ?thesis
    proof (cases s)
      case (Some d)
      then have "length d \<le> dr_maxlen ?a" using s(1) sz(2) by blast
      then show ?thesis using s(2) Some sz(1) by (simp add: pad_shard_def)
    qed (use s(2) in \<open>simp add: pad_shard_def\<close>)
  qed
  then have small: "\<forall>y\<in>set ?ss. length y \<le> B" by blast
  show ?thesis
  proof (cases "rs_rec c ?ss")
    case None
    with x show ?thesis by (simp add: recovery_def split: if_splits)
  next
    case (Some out)
    have "length out = length ?ss" using rs(2) Some by (simp add: rs_keeps_length_def del: split_paired_All)
    then have "length out = m" by (simp add: fold_add_shard(2))
    moreover obtain k where "k < fst c" "x = out ! k" using x Some by (auto simp: recovery_def split: if_splits)
    ultimately have "x \<in> set out" using m by simp
    with rs(1) Some small show ?thesis unfolding rs_bounded_def by blast
  qed
qed

lemma decode_bounded:
  assumes wf: "fd_wf dec" and len: "6 \<le> length inp" "length inp \<le> maxPacketSize"
    and rs: "rs_bounded rs_rec" "rs_keeps_length rs_rec"
    and d: "decode rs_new rs_rec inp dec = Some (r, dec')"
  shows "\<forall>x\<in>set r. length x \<le> maxPacketSize"
proof (rule fec_fields [OF len(1)])
  fix n fl assume f: "fec_seqid inp = Some n" "fec_flag inp = Some fl"
  let ?s = "decode_sample fl n dec" let ?h = "set_at (getShardId n ?s) ?s"
  have s: "fd_wf ?s" using decode_sample_wf [OF wf] .
  show ?thesis
  proof (cases "fd_paws ?s \<le> n \<or> mismatch fl n ?s \<or> fd_shouldTune ?s")
    case True
    then show ?thesis using d f by (auto simp: decode_def Let_def split: if_splits)
  next
    case False
    then have D: "decode_store rs_rec inp fl n ?s = Some (r, dec')"
      using d f by (simp add: decode_def Let_def)
    have h: "set_ok ?s (getShardId n ?s) ?h" "fd_params ?s" using set_at_ok [OF s] s by (simp_all add: fd_wf_def)
    have m: "sh_marks ?h = pkt_seq ` set (sh_elements ?h)"
      and els: "\<forall>p\<in>set (sh_elements ?h @ [inp]). 6 \<le> length p" "\<forall>p\<in>set (sh_elements ?h @ [inp]). length p \<le> maxPacketSize"
      using h(1) len by (auto simp: set_ok_def shard_ok_def)
    consider "shardHeap_Has n ?h" | "\<not> shardHeap_Has n ?h" "Suc (shardHeap_Len ?h) < fd_dataShards ?s"
      | "\<not> shardHeap_Has n ?h" "\<not> Suc (shardHeap_Len ?h) < fd_dataShards ?s" by blast
    then show ?thesis
    proof cases
      case 1
      then show ?thesis using D by (simp add: decode_store_duplicate)
    next
      case 2
      from decode_store_room [OF 2 f(1) len(2), of rs_rec fl] obtain dec'' where
        "decode_store rs_rec inp fl n ?s = Some ([], dec'')" by blast
      then show ?thesis using D by simp
    next
      case 3
      have "fst (fd_codec ?s) \<le> fd_shardSize ?s" using h(2) by (simp add: fd_params_def)
      moreover obtain sn where "decode_store rs_rec inp fl n ?s = Some (
          recovery rs_rec (fd_codec ?s) (foldr (add_shard (fd_shardSize ?s)) (sh_elements ?h @ [inp])
            (empty_drained (fd_shardSize ?s))),
          discardShards (stored (getShardId n ?s) newShardHeap (- int (shardHeap_Len ?h)) sn ?s))"
        using decode_store_full [OF 3 f(1) len(2) h(2) els(1) m rs(2), of fl] by (elim exE)
      then have "r = recovery rs_rec (fd_codec ?s) (foldr (add_shard (fd_shardSize ?s)) (sh_elements ?h @ [inp])
            (empty_drained (fd_shardSize ?s)))" using D by simp
      ultimately show ?thesis using recovery_bounded [OF els(2) rs] by blast
    qed
  qed
qed

end
