(* ===== verification/Session_Safety.thy ===== *)
theory Session_Safety
  imports Session
begin

text \<open>
  The invariant of a session and that every operation keeps it: the protocol machine, the FEC
  decoder and encoder and the send queue are each well-formed, and every packet leaves room for
  the headers and tags that are still to come. So no operation panics, on any packet of at most
  \<^verbatim>\<open>maxPacketSize\<close> bytes from the network and whatever the application does.
\<close>

section \<open>What the environment provides\<close>

definition aead_ok :: "AEAD \<Rightarrow> bool" where
  "aead_ok a \<longleftrightarrow>
     (\<forall>nonce p ad. length nonce = aead_NonceSize a \<longrightarrow>
        length (aead_Seal a nonce p ad) = length p + aead_Overhead a \<and>
        aead_Open a nonce (aead_Seal a nonce p ad) ad = Some p) \<and>
     (\<forall>nonce c ad p. aead_Open a nonce c ad = Some p \<longrightarrow> length p + aead_Overhead a = length c)"

fun block_wf :: "env \<Rightarrow> BlockCrypt option \<Rightarrow> bool" where
  "block_wf env None = True"
| "block_wf env (Some (aeadCrypt a)) = aead_ok a"
| "block_wf env (Some c) = (\<forall>n. cryptHeaderSize \<le> n \<and> n \<le> maxPacketSize \<longrightarrow> crypt_ok (e_salsa20 env) c n)"

definition env_ok :: "env \<Rightarrow> bool" where
  "env_ok env \<longleftrightarrow> (\<forall>i n. length (e_rand env i n) = n) \<and> length (e_stale env) = maxPacketSize \<and>
     rs_accepts (e_rs_new env) \<and> rs_keeps_length (e_rs_reconstruct env) \<and> rs_bounded (e_rs_reconstruct env)"

lemma Encrypt_total:
  assumes "crypt_ok ks c (length b)"
  shows "\<exists>b'. Encrypt ks c True b b = Some b' \<and> length b' = length b \<and> Decrypt ks c True b' b' = Some b"
  using crypt_round_trip [OF assms, of b True] by auto

section \<open>The invariant\<close>

definition cryptTail :: "BlockCrypt option \<Rightarrow> nat" where
  "cryptTail block = (case block of Some (aeadCrypt a) \<Rightarrow> aead_Overhead a | _ \<Rightarrow> 0)"

text \<open>What a packet must leave free.\<close>

definition head_room :: "UDPSession \<Rightarrow> nat" where
  "head_room s = s_headerSize s + cryptTail (s_block s)"

definition req_ok :: "UDPSession \<Rightarrow> sendRequest \<Rightarrow> bool" where
  "req_ok s r \<longleftrightarrow> s_headerSize s \<le> length (req_buffer r) \<and>
     length (req_buffer r) + cryptTail (s_block s) \<le> maxPacketSize"

definition queue_ok :: "UDPSession \<Rightarrow> sendQueue \<Rightarrow> bool" where
  "queue_ok s q \<longleftrightarrow> queue_wf q \<and> (\<forall>r\<in>set (queue_list q). req_ok s r)"

definition decoder_ok :: "fecDecoder option \<Rightarrow> bool" where
  "decoder_ok d \<longleftrightarrow> (case d of None \<Rightarrow> True | Some dec \<Rightarrow> fd_wf dec)"

definition encoder_ok :: "env \<Rightarrow> BlockCrypt option \<Rightarrow> nat \<Rightarrow> fecEncoder option \<Rightarrow> bool" where
  "encoder_ok env block hs e \<longleftrightarrow>
     (case e of None \<Rightarrow> hs = cryptHeader block
      | Some enc \<Rightarrow> fe_wf enc \<and> fe_headerOffset enc = cryptHeader block \<and> hs = cryptHeader block + 8 \<and>
          fe_maxSize enc + cryptTail block \<le> maxPacketSize \<and>
          rs_mds (e_rs_encode env) (e_rs_reconstruct env) (fe_dataShards enc) (fe_parityShards enc))"

definition codec_ok :: "env \<Rightarrow> UDPSession \<Rightarrow> bool" where
  "codec_ok env s \<longleftrightarrow> decoder_ok (s_fecDecoder s) \<and> encoder_ok env (s_block s) (s_headerSize s) (s_fecEncoder s)"

definition kcp_fits :: "UDPSession \<Rightarrow> kcp \<Rightarrow> bool" where
  "kcp_fits s k \<longleftrightarrow> (\<exists>L. kcp_wf L k \<and> L + head_room s \<le> maxPacketSize)"

definition sess_wf :: "env \<Rightarrow> UDPSession \<Rightarrow> bool" where
  "sess_wf env s \<longleftrightarrow> kcp_fits s (s_kcp s) \<and> sent (s_kcp s) = [] \<and> block_wf env (s_block s) \<and>
     codec_ok env s \<and> queue_ok s (s_postQueue s) \<and> (\<forall>b\<in>set (s_wire s). length b \<le> maxPacketSize)"

lemmas sess_parts = sess_wf_def kcp_fits_def head_room_def codec_ok_def queue_ok_def req_ok_def

text \<open>Fields outside the invariant.\<close>

lemma sess_wf_frame [simp]:
  "sess_wf env (s\<lparr>s_recvbuf := a\<rparr>) = sess_wf env s" "sess_wf env (s\<lparr>s_input := b\<rparr>) = sess_wf env s"
  "sess_wf env (s\<lparr>s_ackNoDelay := c\<rparr>) = sess_wf env s" "sess_wf env (s\<lparr>s_writeDelay := c\<rparr>) = sess_wf env s"
  "sess_wf env (s\<lparr>s_dup := d\<rparr>) = sess_wf env s" "sess_wf env (s\<lparr>s_die := c\<rparr>) = sess_wf env s"
  "sess_wf env (s\<lparr>s_chReadEvent := c\<rparr>) = sess_wf env s" "sess_wf env (s\<lparr>s_chWriteEvent := c\<rparr>) = sess_wf env s"
  "sess_wf env (s\<lparr>s_ppRunning := c\<rparr>) = sess_wf env s" "sess_wf env (s\<lparr>s_ppQueued := n\<rparr>) = sess_wf env s"
  "sess_wf env (s\<lparr>s_ppClosing := c\<rparr>) = sess_wf env s" "sess_wf env (s\<lparr>s_oobHandler := c\<rparr>) = sess_wf env s"
  "sess_wf env (s\<lparr>s_oob := e\<rparr>) = sess_wf env s"
  "sess_wf env (s\<lparr>s_readError := c\<rparr>) = sess_wf env s" "sess_wf env (s\<lparr>s_readNotify := c\<rparr>) = sess_wf env s"
  "sess_wf env (s\<lparr>s_readNotified := n\<rparr>) = sess_wf env s"
  "sess_wf env (s\<lparr>s_calls := n\<rparr>) = sess_wf env s" "sess_wf env (s\<lparr>s_snmp := f\<rparr>) = sess_wf env s"
  by (simp_all add: sess_parts)

lemma sess_wf_count [simp]: "sess_wf env (sess_count f s) = sess_wf env s"
  by (simp add: sess_count_def)

lemma sess_wf_notify [simp]:
  "sess_wf env (callReadNotify s) = sess_wf env s" "sess_wf env (notifyReadEvent s) = sess_wf env s"
  "sess_wf env (notifyReadError s) = sess_wf env s" "sess_wf env (notifyWriteEvent s) = sess_wf env s"
  by (simp_all add: callReadNotify_def notifyReadEvent_def notifyReadError_def notifyWriteEvent_def)

lemma callReadNotify_die [simp]: "s_die (callReadNotify s) = s_die s"
  by (simp add: callReadNotify_def)

lemma queue_ok_cong:
  "s_headerSize s' = s_headerSize s \<Longrightarrow> s_block s' = s_block s \<Longrightarrow> queue_ok s' q = queue_ok s q"
  by (simp add: queue_ok_def req_ok_def)

lemma sess_wf_queue: "sess_wf env s \<Longrightarrow> queue_ok s q \<Longrightarrow> sess_wf env (s\<lparr>s_postQueue := q\<rparr>)"
  by (simp add: sess_parts)

lemma sess_wf_kcp:
  "sess_wf env s \<Longrightarrow> kcp_fits s k \<Longrightarrow> sent k = [] \<Longrightarrow> sess_wf env (s\<lparr>s_kcp := k\<rparr>)"
  by (simp add: sess_parts)

section \<open>The output callback\<close>

text \<open>A step that changed only the queue of outgoing packets.\<close>

definition posted :: "UDPSession \<Rightarrow> UDPSession \<Rightarrow> bool" where
  "posted s s' \<longleftrightarrow> (\<exists>q b n. s' = s\<lparr>s_postQueue := q, s_ppRunning := b, s_ppQueued := n\<rparr>)"

lemma posted_refl [simp]: "posted s s"
  unfolding posted_def
  by (intro exI [of _ "s_postQueue s"] exI [of _ "s_ppRunning s"] exI [of _ "s_ppQueued s"]) simp

lemma posted_trans:
  assumes "posted s s'" "posted s' s''"
  shows "posted s s''"
proof -
  obtain q b n where "s'' = s'\<lparr>s_postQueue := q, s_ppRunning := b, s_ppQueued := n\<rparr>" using assms(2) by (auto simp: posted_def)
  moreover obtain q' b' n' where "s' = s\<lparr>s_postQueue := q', s_ppRunning := b', s_ppQueued := n'\<rparr>"
    using assms(1) by (auto simp: posted_def)
  ultimately have "s'' = s\<lparr>s_postQueue := q, s_ppRunning := b, s_ppQueued := n\<rparr>" by simp
  then show ?thesis unfolding posted_def by blast
qed

lemma posted_same:
  "posted s s' \<Longrightarrow> s_kcp s' = s_kcp s \<and> s_block s' = s_block s \<and> s_headerSize s' = s_headerSize s \<and>
     s_fecDecoder s' = s_fecDecoder s \<and> s_fecEncoder s' = s_fecEncoder s \<and> s_ackNoDelay s' = s_ackNoDelay s \<and>
     s_input s' = s_input s \<and> s_die s' = s_die s \<and> s_wire s' = s_wire s"
  by (auto simp: posted_def)

lemma post_ok:
  assumes wf: "sess_wf env s" and r: "req_ok s r"
  shows "sess_wf env (post env r s) \<and> posted s (post env r s)"
proof -
  let ?e = "queue_enq (e_grow env) r (s_postQueue s)"
  have q: "queue_wf (s_postQueue s)" "\<forall>r\<in>set (queue_list (s_postQueue s)). req_ok s r"
    using wf by (simp_all add: sess_wf_def queue_ok_def)
  have "queue_ok s (snd ?e)"
    using queue_enq_spec [OF q(1), of "e_grow env" r] q(2) r by (auto simp: queue_ok_def)
  then have w: "sess_wf env (s\<lparr>s_postQueue := snd ?e\<rparr>)" by (rule sess_wf_queue [OF wf])
  obtain b n where "post env r s = s\<lparr>s_postQueue := snd ?e, s_ppRunning := b, s_ppQueued := n\<rparr>"
  proof -
    have "post env r s = s\<lparr>s_postQueue := snd ?e,
        s_ppRunning := s_ppRunning (post env r s), s_ppQueued := s_ppQueued (post env r s)\<rparr>"
      by (simp add: post_def kickPostProcess_def claimPostProcess_def split_beta Let_def)
    then show ?thesis using that by blast
  qed
  with w show ?thesis by (auto simp: posted_def)
qed

lemma output_callback_wf:
  assumes wf: "sess_wf env s" and env: "env_ok env" and p: "length p + head_room s \<le> maxPacketSize"
  shows "\<exists>s'. output_callback env p s = Some s' \<and> sess_wf env s' \<and> posted s s'"
proof -
  let ?r = "\<lparr>req_buffer = take (s_headerSize s) (e_stale env) @ p, req_oob = False\<rparr>"
  have "length (e_stale env) = maxPacketSize" using env by (simp add: env_ok_def)
  then have "req_ok s ?r" using p by (simp add: req_ok_def head_room_def)
  from post_ok [OF wf this] show ?thesis using wf p by (auto simp: output_callback_def head_room_def)
qed

lemma outputs_wf:
  assumes env: "env_ok env"
  shows "sess_wf env s \<Longrightarrow> \<forall>p\<in>set ps. length p + head_room s \<le> maxPacketSize \<Longrightarrow>
    \<exists>s'. outputs env ps s = Some s' \<and> sess_wf env s' \<and> posted s s'"
proof (induction ps arbitrary: s)
  case (Cons p ps)
  obtain s1 where s1: "output_callback env p s = Some s1" "sess_wf env s1" "posted s s1"
    using output_callback_wf [OF Cons.prems(1) env] Cons.prems(2) by auto
  have "head_room s1 = head_room s" using posted_same [OF s1(3)] by (simp add: head_room_def)
  then obtain s2 where "outputs env ps s1 = Some s2" "sess_wf env s2" "posted s1 s2"
    using Cons.IH [OF s1(2)] Cons.prems(2) by auto
  with s1 show ?case using posted_trans by auto
qed simp

lemma set_kcp_wf:
  assumes wf: "sess_wf env s" and env: "env_ok env"
    and L: "kcp_wf L k" "L + head_room s \<le> maxPacketSize" and ps: "\<forall>p\<in>set (sent k). length p \<le> L"
  shows "\<exists>s'. set_kcp env k s = Some s' \<and> sess_wf env s' \<and> posted (s\<lparr>s_kcp := k\<lparr>sent := []\<rparr>\<rparr>) s'"
proof -
  let ?s = "s\<lparr>s_kcp := k\<lparr>sent := []\<rparr>\<rparr>"
  have "kcp_wf L (k\<lparr>sent := []\<rparr>) = kcp_wf L k" by (rule kcp_wf_frame) simp_all
  then have "kcp_fits s (k\<lparr>sent := []\<rparr>)" using L unfolding kcp_fits_def by blast
  then have "sess_wf env ?s" using wf by (intro sess_wf_kcp) simp_all
  moreover have "\<forall>p\<in>set (sent k). length p + head_room ?s \<le> maxPacketSize"
    using ps L(2) by (fastforce simp: head_room_def)
  ultimately show ?thesis using outputs_wf [OF env, of ?s "sent k"] by (simp add: set_kcp_def)
qed

lemma sess_Input_wf:
  assumes wf: "sess_wf env s" and env: "env_ok env" and len: "length data \<le> maxPacketSize"
  shows "\<exists>ret s' k. sess_Input env data pt s = Some (ret, s') \<and> sess_wf env s' \<and> posted (s\<lparr>s_kcp := k\<rparr>) s'"
proof -
  obtain L where L: "kcp_wf L (s_kcp s)" "L + head_room s \<le> maxPacketSize"
    using wf by (auto simp: sess_wf_def kcp_fits_def)
  obtain ret k where I: "Input (e_clock env) data pt (s_ackNoDelay s) (s_kcp s) = Some (ret, k)" "kcp_wf L k" "sends L (s_kcp s) k"
    using Input_wf [OF L(1), of data "e_clock env" pt "s_ackNoDelay s"] len by auto
  have "\<forall>p\<in>set (sent k). length p \<le> L" using I(3) wf by (auto simp: sends_def sess_wf_def)
  from set_kcp_wf [OF wf env I(2) L(2) this] I(1) show ?thesis by (auto simp: sess_Input_def)
qed

lemma sess_flush_wf:
  assumes wf: "sess_wf env s" and env: "env_ok env"
  shows "\<exists>nu s' k. sess_flush env s = Some (nu, s') \<and> sess_wf env s' \<and> posted (s\<lparr>s_kcp := k\<rparr>) s'"
proof -
  obtain L where L: "kcp_wf L (s_kcp s)" "L + head_room s \<le> maxPacketSize"
    using wf by (auto simp: sess_wf_def kcp_fits_def)
  obtain nu k where F: "flush (e_clock env) IKCP_FLUSH_FULL (s_kcp s) = Some (nu, k)" "kcp_wf L k" "sends L (s_kcp s) k"
    using flush_kcp_wf [OF L(1), of "e_clock env" IKCP_FLUSH_FULL] flush_sends by blast
  have "\<forall>p\<in>set (sent k). length p \<le> L" using F(3) wf by (auto simp: sends_def sess_wf_def)
  from set_kcp_wf [OF wf env F(2) L(2) this] F(1) show ?thesis by (auto simp: sess_flush_def)
qed

section \<open>Input\<close>

lemma sess_PeekSize: "sess_wf env s \<Longrightarrow> PeekSize (s_kcp s) = Some (peek_list (ring_list (rcv_queue (s_kcp s))))"
  by (rule PeekSize_list) (auto simp: sess_wf_def kcp_fits_def kcp_wf_def rcv_wf_def)

lemma notify_after_input_wf:
  "sess_wf env s \<Longrightarrow> \<exists>s'. notify_after_input s = Some s' \<and> sess_wf env s'"
  by (simp add: notify_after_input_def sess_PeekSize Let_def)

lemma sess_wf_decoder: "sess_wf env s \<Longrightarrow> fd_wf dec \<Longrightarrow> sess_wf env (s\<lparr>s_fecDecoder := Some dec\<rparr>)"
  by (simp add: sess_parts decoder_ok_def)

lemma recovered_payload_length: "recovered_payload r = Some p \<Longrightarrow> length p \<le> length r"
  by (auto simp: recovered_payload_def Let_def split: if_splits)

lemma input_recovered_wf:
  assumes env: "env_ok env"
  shows "sess_wf env s \<Longrightarrow> \<forall>r\<in>set rs. length r \<le> maxPacketSize \<Longrightarrow>
    \<exists>n s'. input_recovered env rs e s = Some (n, s') \<and> sess_wf env s'"
proof (induction rs arbitrary: e s)
  case (Cons r rs)
  show ?case
  proof (cases "recovered_payload r")
    case None
    with Cons show ?thesis by simp
  next
    case (Some p)
    have "length p \<le> maxPacketSize" using recovered_payload_length [OF Some] Cons.prems(2) by auto
    then obtain ret s1 where "sess_Input env p IKCP_PACKET_FEC s = Some (ret, s1)" "sess_wf env s1"
      using sess_Input_wf [OF Cons.prems(1) env] by blast
    with Cons.IH [of s1] Cons.prems(2) Some show ?thesis by simp
  qed
qed simp

lemma input_fec_wf:
  assumes wf: "sess_wf env s" and env: "env_ok env" and len: "length data \<le> maxPacketSize"
  shows "\<exists>s'. input_fec env data s = Some s' \<and> sess_wf env s'"
proof (cases "length data < fecHeaderSizePlus2")
  case False
  then have l6: "6 \<le> length data" by (simp add: sess_consts)
  have rs: "rs_accepts (e_rs_new env)" "rs_keeps_length (e_rs_reconstruct env)" "rs_bounded (e_rs_reconstruct env)"
    using env by (simp_all add: env_ok_def)
  have "e_rs_new env 1 1" using rs(1) by (simp add: rs_accepts_def)
  then obtain dec0 where new: "newFECDecoder (e_rs_new env) newSnmp 1 1 = Some dec0"
    by (simp add: newFECDecoder_def Let_def)
  define dec where "dec = (case s_fecDecoder s of Some d \<Rightarrow> d | None \<Rightarrow> dec0)"
  have dec: "(case s_fecDecoder s of Some d \<Rightarrow> Some d | None \<Rightarrow> newFECDecoder (e_rs_new env) newSnmp 1 1) = Some dec"
    "fd_wf dec"
    using new newFECDecoder_wf [OF new] wf by (auto simp: dec_def sess_parts decoder_ok_def split: option.splits)
  let ?s = "s\<lparr>s_fecDecoder := Some dec\<rparr>"
  have w: "sess_wf env ?s" by (rule sess_wf_decoder [OF wf dec(2)])
  have l8: "length (drop fecHeaderSizePlus2 data) \<le> maxPacketSize" using len by simp
  obtain flag where flag: "fec_flag data = Some flag" using fec_fields [OF l6] by metis
  obtain ret s1 where s1: "(if flag = typeData then sess_Input env (drop fecHeaderSizePlus2 data) IKCP_PACKET_REGULAR ?s
      else Some (0, ?s)) = Some (ret, s1)" "sess_wf env s1"
    using sess_Input_wf [OF w env l8, of IKCP_PACKET_REGULAR] w by (cases "flag = typeData") auto
  obtain rec dec' where d: "decode (e_rs_new env) (e_rs_reconstruct env) data dec = Some (rec, dec')" "fd_wf dec'"
    using decode_wf [OF dec(2) l6 len rs(1,2)] by blast
  have "\<forall>x\<in>set rec. length x \<le> maxPacketSize" by (rule decode_bounded [OF dec(2) l6 len rs(3,2) d(1)])
  then obtain n s2 where s2: "input_recovered env rec (if ret \<noteq> 0 then 1 else 0) (s1\<lparr>s_fecDecoder := Some dec'\<rparr>) = Some (n, s2)"
      "sess_wf env s2"
    using input_recovered_wf [OF env sess_wf_decoder [OF s1(2) d(2)]] by blast
  obtain s3 where s3: "notify_after_input s2 = Some s3" "sess_wf env s3" using notify_after_input_wf [OF s2(2)] by blast
  have "input_fec env data s = Some (if n > 0 then sess_count (addKCPInErrors (of_nat n)) s3 else s3)"
    using False dec(1) flag s1(1) d(1) s2(1) s3(1) by (simp add: input_fec_def Let_def)
  with s3(2) show ?thesis by simp
qed (simp add: input_fec_def wf)

lemma kcpInput_wf:
  assumes wf: "sess_wf env s" and env: "env_ok env" and len: "12 \<le> length data" "length data \<le> maxPacketSize"
  shows "\<exists>s'. kcpInput env data s = Some s' \<and> sess_wf env s'"
proof -
  let ?s = "sess_count (addInBytes (length data)) (sess_count increaseInPkts s)"
  have w: "sess_wf env ?s" using wf by simp
  obtain fl where fl: "Uint16 (drop 4 data) = Some fl" using Uint16_defined [of "drop 4 data"] len(1) by auto
  have oob: "\<exists>s'. input_oob data ?s = Some s' \<and> sess_wf env s'"
    using w len(1) by (auto simp: input_oob_def slice_def sess_consts Let_def)
  obtain ret s1 where s1: "sess_Input env data IKCP_PACKET_REGULAR ?s = Some (ret, s1)" "sess_wf env s1"
    using sess_Input_wf [OF w env len(2)] by blast
  have plain: "\<exists>s'. input_plain env data ?s = Some s' \<and> sess_wf env s'"
    using s1 notify_after_input_wf [of env "if ret \<noteq> 0 then sess_count (addKCPInErrors 1) s1 else s1"]
    by (simp add: input_plain_def Let_def)
  show ?thesis using input_fec_wf [OF w env len(2)] oob plain by (simp add: kcpInput_def Let_def fl)
qed

lemma open_packet_wf:
  assumes bw: "block_wf env block" and len: "length data \<le> maxPacketSize"
  shows "\<exists>r. open_packet env block data = Some r \<and> (\<forall>d. r = Opened d \<longrightarrow> length d \<le> maxPacketSize)"
proof -
  have legacy: ?thesis if "block = Some c" "block_wf env (Some c) = (\<forall>n. cryptHeaderSize \<le> n \<and> n \<le> maxPacketSize \<longrightarrow> crypt_ok (e_salsa20 env) c n)"
    "\<And>a. c \<noteq> aeadCrypt a" for c
  proof (cases "length data < cryptHeaderSize")
    case False
    then have "crypt_ok (e_salsa20 env) c (length data)" using that(1,2) bw len by simp
    then obtain d where d: "Decrypt (e_salsa20 env) c True data data = Some d" "length d = length data"
      using Decrypt_total by blast
    obtain sum where "Uint32 (drop nonceSize d) = Some sum"
      using Uint32_defined [of "drop nonceSize d"] False d(2) by (auto simp: sess_consts)
    then show ?thesis using d False len that(1,3) by (cases c) (auto simp: open_packet_def Let_def)
  qed (use that in \<open>cases c; simp add: open_packet_def\<close>)
  show ?thesis
  proof (cases block)
    case (Some c)
    then show ?thesis
    proof (cases c)
      case (aeadCrypt a)
      have "length p \<le> maxPacketSize" if "aead_Open a nonce (drop n data) ad = Some p" for nonce n ad p
        using that bw Some aeadCrypt len unfolding aead_ok_def
        by (metis (no_types, lifting) block_wf.simps(2) aead_ok_def diff_le_self le_add1 le_trans length_drop)
      then show ?thesis
        using Some aeadCrypt by (auto simp: open_packet_def Open_def Let_def split: option.splits)
    qed (use Some legacy in auto)
  qed (simp add: open_packet_def len)
qed

lemma packetInput_wf:
  assumes wf: "sess_wf env s" and env: "env_ok env" and len: "length data \<le> maxPacketSize"
  shows "\<exists>s'. packetInput env data s = Some s' \<and> sess_wf env s'"
proof -
  have "block_wf env (s_block s)" using wf by (simp add: sess_wf_def)
  from open_packet_wf [OF this len] obtain r where r: "open_packet env (s_block s) data = Some r"
    "\<forall>d. r = Opened d \<longrightarrow> length d \<le> maxPacketSize" by blast
  show ?thesis
  proof (cases r)
    case (Opened d)
    then show ?thesis
      using r wf kcpInput_wf [OF wf env, of d] by (auto simp: packetInput_def sess_consts not_less)
  qed (use r(1) wf in \<open>simp_all add: packetInput_def\<close>)
qed

section \<open>Reading and writing\<close>

text \<open>The bytes on their way to the reader: what is left of a message, and the messages behind it.\<close>

definition read_stream :: "UDPSession \<Rightarrow> byte list" where
  "read_stream s = s_input s @ msg_bytes (ring_list (rcv_queue (s_kcp s)))"

lemma sess_rcv_wf: "sess_wf env s \<Longrightarrow> rcv_wf (s_kcp s)"
  by (auto simp: sess_wf_def kcp_fits_def kcp_wf_def)

lemma sess_Recv:
  assumes wf: "sess_wf env s" and peek: "0 < peek_list (ring_list (rcv_queue (s_kcp s)))"
    "peek_list (ring_list (rcv_queue (s_kcp s))) \<le> int n"
  shows "\<exists>bs k moved. Recv n (s_kcp s) = Some (peek_list (ring_list (rcv_queue (s_kcp s))), bs, k) \<and>
    int (length bs) = peek_list (ring_list (rcv_queue (s_kcp s))) \<and> sess_wf env (s\<lparr>s_kcp := k\<rparr>) \<and>
    msg_bytes (ring_list (rcv_queue (s_kcp s))) @ moved = bs @ msg_bytes (ring_list (rcv_queue k))"
proof -
  let ?L = "ring_list (rcv_queue (s_kcp s))"
  obtain L where L: "kcp_wf L (s_kcp s)" "L + head_room s \<le> maxPacketSize"
    using wf by (auto simp: sess_wf_def kcp_fits_def)
  obtain m rest where split: "split_msg ?L = (m, rest)" by (cases "split_msg ?L")
  have len: "peek_list ?L = int (length (msg_bytes m))"
    using peek(1) split by (auto simp: peek_list_def split: list.splits if_splits)
  have pk: "0 \<le> peek_list ?L" "length (msg_bytes m) \<le> n" using peek len by linarith+
  have q: "?L = m @ rest" using split split_msg_append [of ?L] by simp
  obtain k mv where R: "Recv n (s_kcp s) = Some (int (length (msg_bytes m)), msg_bytes m, k)" "ring_list (rcv_queue k) = rest @ mv"
    using Recv_ok [OF sess_rcv_wf [OF wf] split pk] by blast
  obtain r bs k' where "Recv n (s_kcp s) = Some (r, bs, k')" "kcp_wf L k'" "quiet (s_kcp s) k'"
    using Recv_wf [OF L(1), of n] by blast
  then have "kcp_wf L k" "sent k = []" using R(1) wf by (auto simp: quiet_def sess_wf_def)
  then have "sess_wf env (s\<lparr>s_kcp := k\<rparr>)" using wf L(2) by (intro sess_wf_kcp) (auto simp: kcp_fits_def)
  moreover have "msg_bytes ?L @ msg_bytes mv = msg_bytes m @ msg_bytes (ring_list (rcv_queue k))"
    by (simp add: q R(2))
  ultimately show ?thesis using R(1) len by auto
qed

lemma notifyRead_wf:
  assumes "sess_wf env s"
  shows "\<exists>s'. notifyReadIfAvailableLocked s = Some s' \<and> sess_wf env s' \<and> s_input s' = s_input s \<and> s_kcp s' = s_kcp s \<and>
    (s_input s \<noteq> [] \<or> 0 < peek_list (ring_list (rcv_queue (s_kcp s))) \<longrightarrow> s_chReadEvent s')"
  using sess_PeekSize [OF assms] assms
  by (auto simp: notifyReadIfAvailableLocked_def) (simp_all add: notifyReadEvent_def callReadNotify_def)

definition read_result :: "env \<Rightarrow> nat \<Rightarrow> UDPSession \<Rightarrow> nat \<Rightarrow> byte list \<Rightarrow> UDPSession \<Rightarrow> bool" where
  "read_result env blen s n bs s' \<longleftrightarrow> sess_wf env s' \<and> n = length bs \<and> n \<le> blen \<and> (0 < blen \<longrightarrow> 0 < n) \<and>
     (\<exists>moved. read_stream s @ moved = bs @ read_stream s') \<and>
     (s_input s' \<noteq> [] \<or> 0 < peek_list (ring_list (rcv_queue (s_kcp s'))) \<longrightarrow> s_chReadEvent s')"

lemma read_result_notify:
  assumes w: "sess_wf env s1" and n: "n = length bs" "n \<le> blen" "0 < blen \<Longrightarrow> 0 < n"
    and st: "read_stream s @ moved = bs @ read_stream s1"
  shows "\<exists>s'. notifyReadIfAvailableLocked s1 = Some s' \<and> read_result env blen s n bs s'"
proof -
  obtain s' where s': "notifyReadIfAvailableLocked s1 = Some s'" "sess_wf env s'" "s_input s' = s_input s1" "s_kcp s' = s_kcp s1"
      "s_input s1 \<noteq> [] \<or> 0 < peek_list (ring_list (rcv_queue (s_kcp s1))) \<longrightarrow> s_chReadEvent s'"
    using notifyRead_wf [OF w] by blast
  moreover have "read_stream s' = read_stream s1" by (simp add: read_stream_def s'(3,4))
  ultimately have "read_result env blen s n bs s'" using n st by (auto simp: read_result_def)
  with s'(1) show ?thesis by blast
qed

lemma readLocked_spec:
  assumes wf: "sess_wf env s"
  shows "s_input s = [] \<and> peek_list (ring_list (rcv_queue (s_kcp s))) \<le> 0 \<and> readLocked blen s = Some (0, [], False, s) \<or>
    (\<exists>n bs s'. readLocked blen s = Some (n, bs, True, s') \<and> read_result env blen s n bs s')"
proof (cases "s_input s = []")
  case False
  let ?s = "s\<lparr>s_input := drop blen (s_input s)\<rparr>"
  have "read_stream s @ [] = take blen (s_input s) @ read_stream ?s" by (simp add: read_stream_def)
  then obtain s' where "notifyReadIfAvailableLocked ?s = Some s'"
      "read_result env blen s (length (take blen (s_input s))) (take blen (s_input s)) s'"
    using read_result_notify [of env ?s "length (take blen (s_input s))" "take blen (s_input s)" blen s "[]"] wf False by auto
  then show ?thesis using False by (simp add: readLocked_def Let_def)
next
  case True
  let ?p = "peek_list (ring_list (rcv_queue (s_kcp s)))"
  have P: "PeekSize (s_kcp s) = Some ?p" by (rule sess_PeekSize [OF wf])
  consider "?p \<le> 0" | "0 < ?p" "?p \<le> int blen" | "0 < ?p" "int blen < ?p" by linarith
  then show ?thesis
  proof cases
    case 1
    then show ?thesis using True P by (simp add: readLocked_def)
  next
    case 2
    obtain bs k moved where R: "Recv blen (s_kcp s) = Some (?p, bs, k)" "int (length bs) = ?p" "sess_wf env (s\<lparr>s_kcp := k\<rparr>)"
        "msg_bytes (ring_list (rcv_queue (s_kcp s))) @ moved = bs @ msg_bytes (ring_list (rcv_queue k))"
      using sess_Recv [OF wf 2] by blast
    have n: "nat ?p = length bs" "nat ?p \<le> blen" "0 < nat ?p" using 2 R(2) by linarith+
    have "read_stream s @ moved = bs @ read_stream (s\<lparr>s_kcp := k\<rparr>)" using R(4) True by (simp add: read_stream_def)
    then obtain s' where "notifyReadIfAvailableLocked (s\<lparr>s_kcp := k\<rparr>) = Some s'" "read_result env blen s (nat ?p) bs s'"
      using read_result_notify [OF R(3) n(1,2)] n(3) by blast
    then show ?thesis using True P 2 R(1) by (simp add: readLocked_def)
  next
    case 3
    define buf where "buf = (if int (length (s_recvbuf s)) < ?p then replicate (nat ?p) 0 else s_recvbuf s)"
    obtain bs k moved where R: "Recv (nat ?p) (s_kcp s) = Some (?p, bs, k)" "int (length bs) = ?p" "sess_wf env (s\<lparr>s_kcp := k\<rparr>)"
        "msg_bytes (ring_list (rcv_queue (s_kcp s))) @ moved = bs @ msg_bytes (ring_list (rcv_queue k))"
      using sess_Recv [OF wf 3(1), of "nat ?p"] 3(1) by auto
    have n: "nat ?p = length bs" "length bs \<le> length buf" "blen < length bs" using 3 R(2) by (auto simp: nat_le_iff buf_def)
    have inp: "take (nat ?p) (go_copy buf bs) = bs" using n(1,2) by (simp add: go_copy_def)
    have tk: "take blen (go_copy buf bs) = take blen bs" using n by (simp add: go_copy_def)
    let ?s = "s\<lparr>s_kcp := k, s_recvbuf := go_copy buf bs, s_input := drop blen bs\<rparr>"
    have "read_stream s @ moved = take blen bs @ read_stream ?s" using R(4) True by (simp add: read_stream_def)
    moreover have "sess_wf env ?s" using R(3) by simp
    ultimately obtain s' where "notifyReadIfAvailableLocked ?s = Some s'" "read_result env blen s (length (take blen bs)) (take blen bs) s'"
      using read_result_notify [of env ?s "length (take blen bs)" "take blen bs" blen s moved] n(3) by auto
    then show ?thesis using True P 3 R(1) inp tk by (simp add: readLocked_def Let_def del: length_take flip: buf_def)
  qed
qed

lemma sess_read_wf:
  assumes wf: "sess_wf env s"
  shows "\<exists>n bs ok s'. sess_read blen s = Some (n, bs, ok, s') \<and> sess_wf env s'"
  using readLocked_spec [OF wf, of blen] wf by (auto simp: sess_read_def read_result_def)

text \<open>The writer's loop ends: every segment size is positive.\<close>

lemma Send_chunk:
  assumes wf: "kcp_wf L k" and L: "L \<le> maxPacketSize" and b: "length b \<le> unat (mss k)"
  shows "\<exists>r k'. Send b k = Some (r, k') \<and> kcp_wf L k' \<and> quiet k k' \<and>
    msg_bytes (ring_list (snd_queue k')) = msg_bytes (ring_list (snd_queue k)) @ b \<and> snd_buf k' = snd_buf k"
proof -
  have m: "unat (mss k) \<le> maxPacketSize" "0 < unat (mss k)" using kcp_wf_mss(2,3) [OF wf] L by auto
  obtain r k' where S: "Send b k = Some (r, k')" "kcp_wf L k'" "quiet k k'"
    and c: "b = [] \<and> r = - 1 \<and> k' = k \<or> b \<noteq> [] \<and> send_effect b k r k'"
    using Send_wf [OF wf m(1)] by blast
  have "\<not> 255 * unat (mss k) < length b" using b by simp
  with c show ?thesis using S by (auto simp: send_effect_def)
qed

lemma send_chunks_wf:
  assumes L: "L \<le> maxPacketSize"
  shows "kcp_wf L k \<Longrightarrow> \<exists>k'. send_chunks b k = Some k' \<and> kcp_wf L k' \<and> quiet k k' \<and>
    msg_bytes (ring_list (snd_queue k')) = msg_bytes (ring_list (snd_queue k)) @ b \<and> snd_buf k' = snd_buf k"
proof (induction "length b" arbitrary: b k rule: less_induct)
  case less
  let ?m = "unat (mss k)"
  have m: "0 < ?m" using kcp_wf_mss(2) [OF less.prems] .
  show ?case
  proof (cases "length b \<le> ?m")
    case True
    then show ?thesis using Send_chunk [OF less.prems L True] by (subst send_chunks.simps) auto
  next
    case False
    obtain r k1 where S: "Send (take ?m b) k = Some (r, k1)" "kcp_wf L k1" "quiet k k1"
        "msg_bytes (ring_list (snd_queue k1)) = msg_bytes (ring_list (snd_queue k)) @ take ?m b" "snd_buf k1 = snd_buf k"
      using Send_chunk [OF less.prems L, of "take ?m b"] by auto
    have "length (drop ?m b) < length b" using m False by simp
    from less.hyps [OF this S(2)] obtain k2 where k2: "send_chunks (drop ?m b) k1 = Some k2" "kcp_wf L k2" "quiet k1 k2"
        "msg_bytes (ring_list (snd_queue k2)) = msg_bytes (ring_list (snd_queue k1)) @ drop ?m b" "snd_buf k2 = snd_buf k1" by blast
    have "mss k1 = mss k" using S(3) by (simp add: quiet_def)
    then have "send_chunks b k = Some k2" using False S(1) k2(1) by (subst send_chunks.simps) simp
    then show ?thesis using k2 S quiet_trans [OF S(3) k2(3)] by simp
  qed
qed

lemma send_buffers_wf:
  assumes L: "L \<le> maxPacketSize"
  shows "kcp_wf L k \<Longrightarrow> \<exists>k'. send_buffers v k = Some k' \<and> kcp_wf L k' \<and> quiet k k' \<and>
    msg_bytes (ring_list (snd_queue k')) = msg_bytes (ring_list (snd_queue k)) @ concat v \<and> snd_buf k' = snd_buf k"
proof (induction v arbitrary: k)
  case (Cons b v)
  obtain k1 where k1: "send_chunks b k = Some k1" "kcp_wf L k1" "quiet k k1"
      "msg_bytes (ring_list (snd_queue k1)) = msg_bytes (ring_list (snd_queue k)) @ b" "snd_buf k1 = snd_buf k"
    using send_chunks_wf [OF L Cons.prems] by blast
  from Cons.IH [OF k1(2)] k1 show ?case using quiet_trans [OF k1(3)] by auto
qed simp

lemma writeBuffers_spec:
  assumes wf: "sess_wf env s" and env: "env_ok env"
  shows "\<exists>s'. sess_wf env s' \<and>
    (if WaitSnd (s_kcp s) < unat (snd_wnd (s_kcp s)) then writeBuffers env v s = Some (length (concat v), True, s')
     else writeBuffers env v s = Some (0, False, s) \<and> s' = s)"
proof (cases "WaitSnd (s_kcp s) < unat (snd_wnd (s_kcp s))")
  case True
  obtain L where L: "kcp_wf L (s_kcp s)" "L + head_room s \<le> maxPacketSize"
    using wf by (auto simp: sess_wf_def kcp_fits_def)
  obtain k where k: "send_buffers v (s_kcp s) = Some k" "kcp_wf L k" "quiet (s_kcp s) k"
    using send_buffers_wf [OF _ L(1), of v] L(2) by auto
  have "sent k = []" using k(3) wf by (simp add: quiet_def sess_wf_def)
  then have w: "sess_wf env (s\<lparr>s_kcp := k\<rparr>)" using wf L(2) k(2) by (intro sess_wf_kcp) (auto simp: kcp_fits_def)
  obtain nu s1 where f: "sess_flush env (s\<lparr>s_kcp := k\<rparr>) = Some (nu, s1)" "sess_wf env s1"
    using sess_flush_wf [OF w env] by blast
  have "length (concat v) = sum_list (map length v)" by (simp add: length_concat)
  then show ?thesis using True k(1) w f by (auto simp: writeBuffers_def writeBuffersLocked_def Let_def)
qed (use wf in \<open>simp add: writeBuffers_def writeBuffersLocked_def\<close>)

lemma update_wf:
  assumes wf: "sess_wf env s" and env: "env_ok env"
  shows "\<exists>r s'. update env s = Some (r, s') \<and> sess_wf env s'"
  using sess_flush_wf [OF wf env] wf by (auto simp: update_def Let_def)

section \<open>Settings and construction\<close>

lemma SetMtu_fits:
  assumes wf: "sess_wf env s" and m: "m + int (head_room s) \<le> int maxPacketSize"
  shows "\<exists>r k. SetMtu m (s_kcp s) = Some (r, k) \<and> kcp_fits s k \<and> sent k = [] \<and>
    (r = 0 \<longleftrightarrow> 24 < m) \<and> (24 < m \<longrightarrow> unat (mtu k) = nat m)"
proof -
  obtain L where L: "kcp_wf L (s_kcp s)" "L + head_room s \<le> maxPacketSize"
    using wf by (auto simp: sess_wf_def kcp_fits_def)
  have "m < 2 ^ 32" using m by (simp add: maxPacketSize_def)
  from SetMtu_wf [OF L(1) this] obtain r k where S: "SetMtu m (s_kcp s) = Some (r, k)"
    and c: "m \<le> 24 \<and> r = - 1 \<and> k = s_kcp s \<or>
      24 < m \<and> r = 0 \<and> unat (mtu k) = nat m \<and> unat (mss k) = nat m - 24 \<and> kcp_wf (buffer_len k) k" by blast
  show ?thesis
  proof (cases "m \<le> 24")
    case True
    then show ?thesis using S c wf by (auto simp: sess_wf_def)
  next
    case False
    then have k: "unat (mtu k) = nat m" "kcp_wf (buffer_len k) k" "r = 0" using c by auto
    have rw: "ring_wf (snd_buf (s_kcp s))" "ring_wf (snd_queue (s_kcp s))"
      using L(1) by (simp_all add: kcp_wf_def snd_wf_def inflight_wf_def)
    have same: "snd_buf k = snd_buf (s_kcp s)" "snd_queue k = snd_queue (s_kcp s)" "sent k = sent (s_kcp s)"
      using SetMtu_eq [OF rw, of m] S False by (auto simp: IKCP_OVERHEAD_def)
    let ?L = "min (buffer_len k) (maxPacketSize - head_room s)"
    have sz: "size_wf L (s_kcp s)" "size_wf (buffer_len k) k" using L(1) k(2) by (simp_all add: kcp_wf_def)
    have "L \<le> maxPacketSize - head_room s" using L(2) by simp
    then have "\<forall>x\<in>set (ring_list (snd_buf k) @ ring_list (snd_queue k)). IKCP_OVERHEAD + length (seg_bytes x) \<le> maxPacketSize - head_room s"
      using sz(1) unfolding size_wf_def same by (meson le_trans)
    moreover have "nat m \<le> maxPacketSize - head_room s" using m by linarith
    ultimately have "size_wf ?L k" using sz(2) k(1) by (simp add: size_wf_def room_def)
    then have "kcp_wf ?L k" using k(2) by (simp add: kcp_wf_def)
    moreover have "?L + head_room s \<le> maxPacketSize" using L(2) by simp
    ultimately have "kcp_fits s k" unfolding kcp_fits_def by blast
    then show ?thesis using S k same(3) False wf by (auto simp: sess_wf_def)
  qed
qed

definition session_mtu :: "int \<Rightarrow> UDPSession \<Rightarrow> int" where
  "session_mtu m s = min (int maxPacketSize) m - int (s_headerSize s) - int (cryptTail (s_block s))"

lemma sess_SetMtu_eq:
  "sess_SetMtu m s = map_option (\<lambda>(ret, k). (ret = 0, s\<lparr>s_kcp := k\<rparr>)) (SetMtu (session_mtu m s) (s_kcp s))"
  by (cases "SetMtu (session_mtu m s) (s_kcp s)"; cases "s_block s")
     (auto simp: sess_SetMtu_def session_mtu_def cryptTail_def Let_def split: BlockCrypt.splits)

lemma sess_SetMtu_wf:
  assumes wf: "sess_wf env s"
  shows "\<exists>k. sess_SetMtu m s = Some (24 < session_mtu m s, s\<lparr>s_kcp := k\<rparr>) \<and> sess_wf env (s\<lparr>s_kcp := k\<rparr>) \<and>
    (24 < session_mtu m s \<longrightarrow> int (unat (mtu k)) = session_mtu m s)"
proof -
  have "session_mtu m s + int (head_room s) \<le> int maxPacketSize" by (simp add: session_mtu_def head_room_def)
  from SetMtu_fits [OF wf this] obtain r k where k: "SetMtu (session_mtu m s) (s_kcp s) = Some (r, k)" "kcp_fits s k" "sent k = []"
    "r = 0 \<longleftrightarrow> 24 < session_mtu m s" "24 < session_mtu m s \<longrightarrow> unat (mtu k) = nat (session_mtu m s)" by blast
  have "int (unat (mtu k)) = session_mtu m s" if "24 < session_mtu m s" using that k(5) by simp
  with k sess_wf_kcp [OF wf k(2,3)] show ?thesis
    by (intro exI [of _ k] conjI) (simp_all add: sess_SetMtu_eq)
qed

lemma config_sent: "sent (WndSize a b k) = sent k" "sent (NoDelay c d e f k) = sent k"
  by (simp_all add: WndSize_def NoDelay_def Let_def)

lemma settings_wf:
  assumes wf: "sess_wf env s"
  shows "sess_wf env (SetWindowSize a b s)" "sess_wf env (SetNoDelay c d e f s)" "sess_wf env (SetStreamMode g s)"
proof -
  have k: "sess_wf env (s\<lparr>s_kcp := k\<rparr>)" if "\<And>L. kcp_wf L (s_kcp s) \<Longrightarrow> kcp_wf L k" "sent k = sent (s_kcp s)" for k
    using wf that by (intro sess_wf_kcp) (auto simp: sess_wf_def kcp_fits_def)
  show "sess_wf env (SetWindowSize a b s)" unfolding SetWindowSize_def by (rule k) (simp_all add: config_wf config_sent)
  show "sess_wf env (SetNoDelay c d e f s)" unfolding SetNoDelay_def by (rule k) (simp_all add: config_wf config_sent)
  show "sess_wf env (SetStreamMode g s)" unfolding SetStreamMode_def by (rule k) (simp_all add: config_wf)
qed

lemma sess_ResetRTO_wf:
  assumes wf: "sess_wf env s"
  shows "\<exists>s'. sess_ResetRTO env s = Some s' \<and> sess_wf env s'"
proof -
  obtain L where L: "kcp_wf L (s_kcp s)" "L + head_room s \<le> maxPacketSize"
    using wf by (auto simp: sess_wf_def kcp_fits_def)
  obtain k where k: "ResetRTO (e_clock env) (s_kcp s) = Some k" "kcp_wf L k" "quiet (s_kcp s) k"
    using ResetRTO_wf [OF L(1)] by blast
  have "sess_wf env (s\<lparr>s_kcp := k\<rparr>)"
    using wf L(2) k by (intro sess_wf_kcp) (auto simp: kcp_fits_def quiet_def sess_wf_def)
  with k(1) show ?thesis by (simp add: sess_ResetRTO_def)
qed

text \<open>An out-of-band packet up to the advertised size fits.\<close>

lemma SendOOB_wf:
  assumes wf: "sess_wf env s" and env: "env_ok env"
  shows "\<exists>r s'. SendOOB env data s = Some (r, s') \<and> sess_wf env s'"
proof (cases "s_fecEncoder s = None \<or> convSize + length data > unat (mtu (s_kcp s))")
  case False
  let ?r = "\<lparr>req_buffer = take (s_headerSize s) (e_stale env) @ PutUint32 (conv (s_kcp s)) @ data, req_oob = True\<rparr>"
  obtain L where L: "kcp_wf L (s_kcp s)" "L + head_room s \<le> maxPacketSize"
    using wf by (auto simp: sess_wf_def kcp_fits_def)
  have "unat (mtu (s_kcp s)) \<le> L" using L(1) by (simp add: kcp_wf_def size_wf_def room_def)
  then have fits: "convSize + length data + s_headerSize s + cryptTail (s_block s) \<le> maxPacketSize"
    using False L(2) by (simp add: head_room_def)
  moreover have "length (e_stale env) = maxPacketSize" using env by (simp add: env_ok_def)
  ultimately have "req_ok s ?r" by (simp add: req_ok_def convSize_def)
  from post_ok [OF wf this] show ?thesis using False fits wf by (auto simp: SendOOB_def Let_def)
qed (use wf in \<open>auto simp: SendOOB_def Let_def\<close>)

section \<open>Output\<close>

lemma seal_parities_sizes:
  "seal_parities M ps enc = Some (qs, enc') \<Longrightarrow> (\<forall>q\<in>set qs. snd q = M) \<and> fe_maxSize enc' = fe_maxSize enc"
proof (induction ps arbitrary: enc qs)
  case (Cons p ps)
  obtain arr n where p: "p = (arr, n)" by (cases p)
  from Cons.prems obtain b enc1 qs1 where "sealParity (fe_headerOffset enc) (take n arr) enc = Some (b, enc1)"
      "seal_parities M ps enc1 = Some (qs1, enc')" "qs = (b @ drop n arr, M) # qs1"
    by (auto simp: p bind_eq_Some_conv split: if_splits)
  moreover from this(1) have "fe_maxSize enc1 = fe_maxSize enc" by (auto simp: sealParity_def advance_def bind_eq_Some_conv)
  ultimately show ?case using Cons.IH by auto
qed simp

lemma encode_parity_sizes:
  assumes "encode_parity rs M enc = Some (ps, enc')"
  shows "(\<forall>p\<in>set ps. length p \<le> M) \<and> fe_maxSize enc' = fe_maxSize enc"
  using assms seal_parities_sizes
  by (fastforce simp: encode_parity_def skipParity_def advance_def bind_eq_Some_conv Let_def split: option.splits)

lemma encode_data_sizes:
  assumes "encode_data now b enc = Some (b', t, enc')"
  shows "length b' = length b \<and> fe_maxSize enc' = max (length b) (fe_maxSize enc)"
proof -
  obtain b1 where b1: "in_slice (fe_headerOffset enc) (seal (fe_next enc) typeData) b = Some b1"
      "put_size (fe_payloadOffset enc) b1 = Some b'" "fe_maxSize enc' = max (length b') (fe_maxSize enc)"
    using assms by (auto simp: encode_data_def sealData_def advance_def bind_eq_Some_conv split: if_splits)
  have "length b1 = length b" using b1(1)
    by (auto simp: in_slice_def seal_def bind_eq_Some_conv dest!: write_at_length split: if_splits)
  moreover have "length b' = length b1" using b1(2) by (auto simp: put_size_def dest!: write_at_length split: if_splits)
  ultimately show ?thesis using b1(3) by simp
qed

lemma encode_sizes:
  assumes "encode rs now rto b enc = Some (b', ps, enc')" "fe_maxSize enc \<le> B" "length b \<le> B"
  shows "length b' = length b \<and> (\<forall>p\<in>set ps. length p \<le> B) \<and> fe_maxSize enc' \<le> B"
proof -
  obtain t b1 enc1 where d: "encode_data now b enc = Some (b1, t, enc1)"
    using assms(1) by (auto simp: encode_def bind_eq_Some_conv)
  have l: "length b1 = length b" "fe_maxSize enc1 \<le> B" using encode_data_sizes [OF d] assms(2,3) by simp_all
  let ?e = "enc1\<lparr>fe_shardCount := 0, fe_maxSize := 0\<rparr>"
  consider "b' = b1" "ps = []" "enc' = enc1" | "b' = b1" "ps = []" "enc' = skipParity ?e"
    | "b' = b1" "encode_parity rs (fe_maxSize enc1) ?e = Some (ps, enc')"
    using assms(1) by (auto simp: encode_def d Let_def bind_eq_Some_conv split: if_splits)
  then show ?thesis
  proof cases
    case 3
    then show ?thesis using encode_parity_sizes [OF 3(2)] l le_trans by auto
  qed (use l in \<open>simp_all add: skipParity_def advance_def\<close>)
qed

text \<open>A packet between the two stages: room for the nonce in front and the tag behind.\<close>

definition pkt_ok :: "BlockCrypt option \<Rightarrow> byte list \<Rightarrow> bool" where
  "pkt_ok block b \<longleftrightarrow> cryptHeader block \<le> length b \<and> length b + cryptTail block \<le> maxPacketSize"

lemma encodeOOB_length:
  assumes "fe_headerOffset enc + 8 \<le> length b" "fe_payloadOffset enc = fe_headerOffset enc + 6"
  shows "\<exists>b'. encodeOOB b enc = Some b' \<and> length b' = length b"
  using assms by (simp add: encodeOOB_def in_slice_def sealOOB_def seal_bytes put_size_def write_at_def)

lemma fec_stage_wf:
  assumes wf: "sess_wf env s" and r: "req_ok s r"
  shows "\<exists>buf ecc s'. fec_stage env r s = Some (buf, ecc, s') \<and> sess_wf env s' \<and> pkt_ok (s_block s) buf \<and>
    (\<forall>e\<in>set ecc. pkt_ok (s_block s) e) \<and> length buf = length (req_buffer r) \<and>
    (\<exists>e n. s' = s\<lparr>s_fecEncoder := e, s_calls := n\<rparr>)"
proof (cases "s_fecEncoder s")
  case None
  then have "s_headerSize s = cryptHeader (s_block s)" using wf by (simp add: sess_wf_def codec_ok_def encoder_ok_def)
  moreover have "s = s\<lparr>s_fecEncoder := None, s_calls := s_calls s\<rparr>" using None by simp
  then have "\<exists>e n. s = s\<lparr>s_fecEncoder := e, s_calls := n\<rparr>" by blast
  ultimately show ?thesis
    using None wf r
    by (intro exI [of _ "req_buffer r"] exI [of _ "[]"] exI [of _ s] conjI) (simp_all add: fec_stage_def req_ok_def pkt_ok_def)
next
  case (Some enc)
  let ?b = "req_buffer r" let ?B = "maxPacketSize - cryptTail (s_block s)"
  have e: "fe_wf enc" "fe_headerOffset enc = cryptHeader (s_block s)" "s_headerSize s = cryptHeader (s_block s) + 8"
      "fe_maxSize enc + cryptTail (s_block s) \<le> maxPacketSize"
      "rs_mds (e_rs_encode env) (e_rs_reconstruct env) (fe_dataShards enc) (fe_parityShards enc)"
    using wf Some by (simp_all add: sess_wf_def codec_ok_def encoder_ok_def)
  have b: "fe_headerOffset enc + 8 \<le> length ?b" "length ?b \<le> maxPacketSize" "length ?b \<le> ?B" "fe_maxSize enc \<le> ?B"
    using r e by (auto simp: req_ok_def)
  have tail: "cryptTail (s_block s) \<le> maxPacketSize" using e(4) by simp
  show ?thesis
  proof (cases "req_oob r")
    case True
    have "fe_payloadOffset enc = fe_headerOffset enc + 6" using e(1) by (simp add: fe_wf_def fe_params_def)
    then obtain b' where "encodeOOB ?b enc = Some b'" "length b' = length ?b" using encodeOOB_length [OF b(1)] by blast
    moreover have "s = s\<lparr>s_fecEncoder := Some enc, s_calls := s_calls s\<rparr>" using Some by simp
    then have "\<exists>e n. s = s\<lparr>s_fecEncoder := e, s_calls := n\<rparr>" by blast
    ultimately show ?thesis
      using Some True wf b(1,3) e(2) tail
      by (intro exI [of _ b'] exI [of _ "[]"] exI [of _ s] conjI) (simp_all add: fec_stage_def pkt_ok_def le_diff_conv2)
  next
    case False
    let ?now = "e_now env (s_calls s)"
    obtain b' ps enc' where E: "encode (e_rs_encode env) ?now maxFECEncodeLatency ?b enc = Some (b', ps, enc')" "fe_wf enc'"
        "fe_dataShards enc' = fe_dataShards enc" "fe_parityShards enc' = fe_parityShards enc" "fe_headerOffset enc' = fe_headerOffset enc"
        "ps = [] \<or> parity_packets (fe_headerOffset enc) (fe_parityShards enc) (fe_next enc + 1) ps"
      using encode_wf [OF e(1) b(1,2) e(5), of ?now maxFECEncodeLatency] by blast
    have sz: "length b' = length ?b" "\<forall>p\<in>set ps. length p \<le> ?B" "fe_maxSize enc' \<le> ?B"
      using encode_sizes [OF E(1) b(4,3)] by simp_all
    have "fe_headerOffset enc \<le> length p" if p: "p \<in> set ps" for p
    proof -
      obtain k where k: "k < length ps" "ps ! k = p" using p by (auto simp: in_set_conv_nth)
      then obtain c where "drop (fe_headerOffset enc) p = fec_header (fe_next enc + 1 + of_nat k) typeParity @ c"
        using E(6) by (cases "ps = []") (auto simp: parity_packets_def)
      from arg_cong [OF this, of length] show ?thesis by simp
    qed
    then have "\<forall>p\<in>set ps. pkt_ok (s_block s) p" using sz(2) e(2) tail by (auto simp: pkt_ok_def le_diff_conv2)
    moreover have "pkt_ok (s_block s) b'" using sz(1) b(1,3) e(2) tail by (simp add: pkt_ok_def le_diff_conv2)
    moreover have "sess_wf env (s\<lparr>s_fecEncoder := Some enc', s_calls := Suc (s_calls s)\<rparr>)"
      using wf Some E e sz(3) tail by (simp add: sess_parts encoder_ok_def le_diff_conv2)
    moreover have "\<exists>e n. s\<lparr>s_fecEncoder := Some enc', s_calls := Suc (s_calls s)\<rparr> = s\<lparr>s_fecEncoder := e, s_calls := n\<rparr>" by blast
    ultimately show ?thesis using Some False E(1) sz(1)
      by (intro exI [of _ b'] exI [of _ ps] exI [of _ "s\<lparr>s_fecEncoder := Some enc', s_calls := Suc (s_calls s)\<rparr>"] conjI)
         (simp_all add: fec_stage_def)
  qed
qed

lemma sess_wf_tail: "sess_wf env s \<Longrightarrow> s_block s = block \<Longrightarrow> block_wf env block"
  by (simp add: sess_wf_def)

text \<open>What is sealed can be opened again.\<close>

lemma seal_packet_spec:
  assumes bw: "block_wf env block" and env: "env_ok env" and b: "pkt_ok block b"
  shows "\<exists>b' n. seal_packet env block b s = Some (b', s\<lparr>s_calls := n\<rparr>) \<and> length b' = length b + cryptTail block \<and>
    open_packet env block b' = Some (Opened (drop (cryptHeader block) b))"
proof -
  have rand: "length (e_rand env i n) = n" for i n using env by (simp add: env_ok_def)
  have legacy: ?thesis if c: "block = Some c" "\<And>a. c \<noteq> aeadCrypt a" "cryptHeader block = cryptHeaderSize" "cryptTail block = 0"
      "\<forall>n. cryptHeaderSize \<le> n \<and> n \<le> maxPacketSize \<longrightarrow> crypt_ok (e_salsa20 env) c n" for c
  proof -
    let ?d = "drop cryptHeaderSize b"
    let ?p = "e_rand env (s_calls s) nonceSize @ PutUint32 (e_crc32 env ?d) @ ?d"
    have len: "cryptHeaderSize \<le> length b" "length b \<le> maxPacketSize" "length ?p = length b"
      using b c(3,4) rand by (auto simp: pkt_ok_def sess_consts)
    then have "crypt_ok (e_salsa20 env) c (length ?p)" using c(5) by simp
    then obtain b' where e: "Encrypt (e_salsa20 env) c True ?p ?p = Some b'" "length b' = length b"
        "Decrypt (e_salsa20 env) c True b' b' = Some ?p"
      using Encrypt_total len(3) by metis
    have "seal_packet env block b s = Some (b', s\<lparr>s_calls := Suc (s_calls s)\<rparr>)"
      using e(1) len(1) c(1,2) by (cases c) (simp_all add: seal_packet_def slice_def Let_def)
    moreover have "open_packet env block b' = Some (Opened ?d)"
      using e(2,3) len(1) c(1,2) rand by (cases c) (simp_all add: open_packet_def Let_def sess_consts)
    ultimately show ?thesis using e(2) c(3,4) by auto
  qed
  show ?thesis
  proof (cases block)
    case None
    have "seal_packet env block b s = Some (b, s\<lparr>s_calls := s_calls s\<rparr>)" by (simp add: None seal_packet_def)
    then show ?thesis
      by (intro exI [of _ b] exI [of _ "s_calls s"]) (simp add: None open_packet_def cryptHeader_def cryptTail_def)
  next
    case (Some c)
    show ?thesis
    proof (cases c)
      case (aeadCrypt a)
      let ?n = "e_rand env (s_calls s) (aead_NonceSize a)" let ?p = "drop (aead_NonceSize a) b"
      have ok: "length (aead_Seal a ?n ?p []) = length ?p + aead_Overhead a" "aead_Open a ?n (aead_Seal a ?n ?p []) [] = Some ?p"
        using bw Some aeadCrypt rand by (simp_all add: aead_ok_def)
      have len: "aead_NonceSize a \<le> length b" "length b + aead_Overhead a \<le> maxPacketSize"
        using b Some aeadCrypt by (simp_all add: pkt_ok_def cryptHeader_def cryptTail_def)
      have "seal_packet env block b s = Some (?n @ aead_Seal a ?n ?p [], s\<lparr>s_calls := Suc (s_calls s)\<rparr>)"
        using len rand Some aeadCrypt by (simp add: seal_packet_def slice_def Seal_def Let_def of_nat_diff)
      moreover have "open_packet env block (?n @ aead_Seal a ?n ?p []) = Some (Opened ?p)"
        using ok len rand Some aeadCrypt by (simp add: open_packet_def Open_def Let_def)
      ultimately show ?thesis using ok(1) len rand Some aeadCrypt by (auto simp: cryptHeader_def cryptTail_def)
    qed (rule legacy [OF Some]; use Some bw in \<open>auto simp: cryptHeader_def cryptTail_def simp del: crypt_ok.simps\<close>)+
  qed
qed

lemma seal_packets_wf:
  assumes bw: "block_wf env block" and env: "env_ok env"
  shows "\<forall>b\<in>set bs. pkt_ok block b \<Longrightarrow>
    \<exists>bs' n. seal_packets env block bs s = Some (bs', s\<lparr>s_calls := n\<rparr>) \<and> (\<forall>b\<in>set bs'. length b \<le> maxPacketSize)"
proof (induction bs arbitrary: s)
  case Nil
  show ?case by (intro exI [of _ "[]"] exI [of _ "s_calls s"]) simp
next
  case (Cons b bs)
  obtain b' n where b: "seal_packet env block b s = Some (b', s\<lparr>s_calls := n\<rparr>)" "length b' = length b + cryptTail block"
    using seal_packet_spec [OF bw env, of b s] Cons.prems by auto
  obtain bs' n' where bs: "seal_packets env block bs (s\<lparr>s_calls := n\<rparr>) = Some (bs', s\<lparr>s_calls := n\<rparr>\<lparr>s_calls := n'\<rparr>)"
      "\<forall>b\<in>set bs'. length b \<le> maxPacketSize"
    using Cons.IH [of "s\<lparr>s_calls := n\<rparr>"] Cons.prems by auto
  have "length b' \<le> maxPacketSize" using b(2) Cons.prems by (simp add: pkt_ok_def)
  then show ?case using b(1) bs by (intro exI [of _ "b' # bs'"] exI [of _ n']) simp
qed

text \<open>What a step of the pipeline leaves alone.\<close>

definition piped :: "UDPSession \<Rightarrow> UDPSession \<Rightarrow> bool" where
  "piped s s' \<longleftrightarrow> (\<exists>e n. s' = s\<lparr>s_fecEncoder := e, s_calls := n\<rparr>)"

lemma process_one_wf:
  assumes wf: "sess_wf env s" and env: "env_ok env" and r: "req_ok s r"
  shows "\<exists>msgs s'. process_one env r s = Some (msgs, s') \<and> sess_wf env s' \<and> piped s s' \<and>
    msgs \<noteq> [] \<and> (\<forall>b\<in>set msgs. length b \<le> maxPacketSize)"
proof -
  obtain buf ecc s1 e n where 1: "fec_stage env r s = Some (buf, ecc, s1)" "sess_wf env s1" "pkt_ok (s_block s) buf"
      "\<forall>e\<in>set ecc. pkt_ok (s_block s) e" "s1 = s\<lparr>s_fecEncoder := e, s_calls := n\<rparr>"
    using fec_stage_wf [OF wf r] by blast
  have bw: "block_wf env (s_block s)" using wf by (simp add: sess_wf_def)
  obtain b n1 where 2: "seal_packet env (s_block s) buf s1 = Some (b, s1\<lparr>s_calls := n1\<rparr>)" "length b = length buf + cryptTail (s_block s)"
    using seal_packet_spec [OF bw env 1(3)] by blast
  obtain bs n2 where 3: "seal_packets env (s_block s) ecc (s1\<lparr>s_calls := n1\<rparr>) = Some (bs, s1\<lparr>s_calls := n1\<rparr>\<lparr>s_calls := n2\<rparr>)"
      "\<forall>b\<in>set bs. length b \<le> maxPacketSize"
    using seal_packets_wf [OF bw env 1(4)] by blast
  let ?s = "s1\<lparr>s_calls := n2\<rparr>"
  have "process_one env r s = Some (b # replicate (nat (s_dup ?s)) b @ bs, ?s)"
    using 1(1,5) 2(1) 3(1) by (simp add: process_one_def)
  moreover have "length b \<le> maxPacketSize" using 2(2) 1(3) by (simp add: pkt_ok_def)
  moreover have "piped s ?s" unfolding piped_def 1(5) by (intro exI [of _ e] exI [of _ n2]) simp
  ultimately show ?thesis using 1(2) 3(2)
    by (intro exI [of _ "b # replicate (nat (s_dup ?s)) b @ bs"] exI [of _ ?s]) auto
qed

lemma flushTx_wf:
  "sess_wf env s \<Longrightarrow> \<forall>b\<in>set tx. length b \<le> maxPacketSize \<Longrightarrow> sess_wf env (snd (flushTx tx s))"
  by (auto simp: flushTx_def sendTx_def sess_parts)

lemma queue_deq_ok:
  assumes "queue_ok s q" "queue_deq q = (r, q')"
  shows "queue_ok s q' \<and> (\<forall>x. r = Some x \<longrightarrow> req_ok s x \<and> queue_list q = x # queue_list q')"
proof -
  have q: "queue_wf q" "\<forall>x\<in>set (queue_list q). req_ok s x" using assms(1) by (simp_all add: queue_ok_def)
  have d: "queue_wf q'" "queue_list q' = tl (queue_list q)" using queue_deq_spec(3,4) [OF q(1)] assms(2) by simp_all
  have "req_ok s x \<and> queue_list q = x # queue_list q'" if "r = Some x" for x
  proof -
    have "queue_list q \<noteq> []" using that assms(2) queue_deq_spec(1) [OF q(1)] by auto
    then show ?thesis using queue_deq_spec(2) [OF q(1)] that assms(2) q(2) d(2) by (cases "queue_list q") auto
  qed
  moreover have "set (queue_list q') \<subseteq> set (queue_list q)" unfolding d(2) by (cases "queue_list q") auto
  ultimately show ?thesis using d(1) q(2) unfolding queue_ok_def by blast
qed

lemma postProcess_loop_wf:
  assumes env: "env_ok env"
  shows "sess_wf env s \<Longrightarrow> \<forall>b\<in>set tx. length b \<le> maxPacketSize \<Longrightarrow>
    \<exists>more s'. postProcess_loop env n tx s = Some (more, s') \<and> sess_wf env s'"
proof (induction n arbitrary: tx s)
  case 0
  have "sess_wf env (snd (flushTx tx s))" using 0 by (rule flushTx_wf)
  then show ?case using 0(1) by (simp add: split_beta Let_def)
next
  case (Suc n)
  obtain r q where d: "queue_deq (s_postQueue s) = (r, q)" by fastforce
  have q: "queue_ok s q" "\<And>x. r = Some x \<Longrightarrow> req_ok s x"
    using queue_deq_ok [OF _ d, of s] Suc.prems(1) by (auto simp: sess_wf_def)
  let ?s = "s\<lparr>s_postQueue := q\<rparr>"
  have w: "sess_wf env ?s" by (rule sess_wf_queue [OF Suc.prems(1) q(1)])
  show ?case
  proof (cases r)
    case None
    then show ?thesis using d w by auto
  next
    case (Some x)
    have "req_ok ?s x" using q(2) [OF Some] by (simp add: req_ok_def)
    then obtain msgs s1 where p: "process_one env x ?s = Some (msgs, s1)" "sess_wf env s1" "\<forall>b\<in>set msgs. length b \<le> maxPacketSize"
      using process_one_wf [OF w env] by blast
    obtain c s2 where f: "flushTx (tx @ msgs) s1 = (c, s2)" by fastforce
    have tx: "\<forall>b\<in>set (tx @ msgs). length b \<le> maxPacketSize" using Suc.prems(2) p(3) by auto
    have w2: "sess_wf env s2" using flushTx_wf [OF p(2) tx] f by simp
    show ?thesis using d Some p(1,2) f w2 Suc.IH [OF w2, of "[]"] Suc.IH [OF p(2) tx] by (simp add: Let_def ex_bool_eq)
  qed
qed

declare discard_queue.simps [simp del]

lemma discard_queue_spec:
  assumes "queue_wf q"
  shows "queue_wf (discard_queue q) \<and> queue_list (discard_queue q) = []"
  using assms
proof (induction q rule: discard_queue.induct)
  case (1 q)
  obtain r q' where d: "queue_deq q = (r, q')" by fastforce
  have w: "queue_wf q'" "queue_list q' = tl (queue_list q)" using queue_deq_spec(3,4) [OF 1(2)] d by simp_all
  show ?case
  proof (cases "queue_list q")
    case Nil
    then have "queue_deq q = (None, q)" using queue_deq_spec(1) [OF 1(2)] by simp
    then show ?thesis using 1(2) Nil by (subst (1 2) discard_queue.simps) simp
  next
    case (Cons x xs)
    then have r: "r = Some x" using queue_deq_spec(2) [OF 1(2)] d by simp
    have lt: "queue_len q' < queue_len q" using w(2) Cons by (simp add: queue_len_list)
    then have "discard_queue q = discard_queue q'" using d r by (subst discard_queue.simps) simp
    then show ?thesis using 1(1) [OF d [symmetric] r lt w(1)] by simp
  qed
qed

lemma discardPostProcess_wf: "sess_wf env s \<Longrightarrow> sess_wf env (discardPostProcess s)"
  unfolding discardPostProcess_def
  by (rule sess_wf_queue) (auto simp: queue_ok_def sess_wf_def discard_queue_spec)

lemma finishPostProcess_wf: "sess_wf env s \<Longrightarrow> sess_wf env (snd (finishPostProcess s))"
  using discardPostProcess_wf [of env "s\<lparr>s_ppRunning := False\<rparr>"]
  by (simp add: finishPostProcess_def claimPostProcess_def Let_def)

lemma worker_step_wf:
  assumes wf: "sess_wf env s" and env: "env_ok env"
  shows "\<exists>s'. worker_step env s = Some s' \<and> sess_wf env s'"
proof -
  let ?s = "s\<lparr>s_ppQueued := s_ppQueued s - 1\<rparr>"
  have w: "sess_wf env ?s" using wf by simp
  obtain more s1 where p: "postProcess env ?s = Some (more, s1)" "sess_wf env s1"
    using postProcess_loop_wf [OF env w, of "[]" ppBudget] unfolding postProcess_def by auto
  show ?thesis
    using finishPostProcess_wf [OF w] finishPostProcess_wf [OF p(2)] p
    by (cases "s_die s"; cases more) (auto simp: worker_step_def split_beta Let_def)
qed

lemma sess_Close_wf:
  assumes wf: "sess_wf env s" and env: "env_ok env"
  shows "\<exists>r s'. sess_Close env s = Some (r, s') \<and> sess_wf env s' \<and> s_die s'"
proof (cases "s_die s")
  case False
  obtain nu s1 where f: "sess_flush env s = Some (nu, s1)" "sess_wf env s1" using sess_flush_wf [OF wf env] by blast
  let ?s = "callReadNotify (sess_count decreaseCurrEstab (s1\<lparr>s_die := True, s_ppClosing := True\<rparr>))"
  have "sess_wf env (discardPostProcess ?s)" using f(2) by (intro discardPostProcess_wf) simp
  moreover have "s_die (discardPostProcess ?s)" by (simp add: discardPostProcess_def sess_count_def)
  ultimately show ?thesis using False f(1) by (auto simp: sess_Close_def)
qed (simp add: sess_Close_def wf ex_bool_eq)

section \<open>A new session\<close>

lemma newUDPSession_wf:
  assumes env: "env_ok env" and bw: "block_wf env block" and dp: "d + p \<le> 256"
    and fits: "cryptHeader block + cryptTail block \<le> 1367"
    and mds: "0 < d \<and> 0 < p \<longrightarrow> rs_mds (e_rs_encode env) (e_rs_reconstruct env) (nat d) (nat p)"
  shows "\<exists>s. newUDPSession env c d p l block sn = Some s \<and> sess_wf env s"
proof -
  define enc where "enc = newFECEncoder (e_rs_new env) newSnmp d p (cryptHeader block)"
  define s0 where "s0 = \<lparr>s_kcp = NewKCP c, s_listener = l, s_block = block,
              s_recvbuf = replicate maxPacketSize 0, s_input = [],
              s_fecDecoder = newFECDecoder (e_rs_new env) newSnmp d p,
              s_fecEncoder = enc,
              s_headerSize = cryptHeader block + (if enc \<noteq> None then fecHeaderSizePlus2 else 0),
              s_ackNoDelay = False, s_writeDelay = False, s_dup = 0,
              s_die = False, s_chReadEvent = False, s_chWriteEvent = False, s_readError = False,
              s_readNotify = False, s_readNotified = 0,
              s_postQueue = empty_queue, s_ppRunning = False, s_ppQueued = 0, s_ppClosing = False,
              s_oobHandler = False, s_oob = [], s_wire = [], s_calls = 0, s_snmp = sn\<rparr>"
  have small: "head_room s0 \<le> 1375"
    using fits by (simp add: s0_def head_room_def sess_consts)
  have "decoder_ok (s_fecDecoder s0)"
    by (auto simp: s0_def decoder_ok_def split: option.splits dest: newFECDecoder_wf)
  moreover have "encoder_ok env (s_block s0) (s_headerSize s0) (s_fecEncoder s0)"
  proof (cases enc)
    case (Some e)
    have "cryptHeader block + 8 \<le> maxPacketSize" using fits by (simp add: maxPacketSize_def)
    then have "fe_wf e" using newFECEncoder_wf [of "e_rs_new env" newSnmp d p "cryptHeader block" e] dp Some by (simp add: enc_def)
    moreover have "fe_headerOffset e = cryptHeader block" "fe_maxSize e = 0" "fe_dataShards e = nat d" "fe_parityShards e = nat p"
        "0 < d" "0 < p"
      using Some by (auto simp: enc_def newFECEncoder_def Let_def split: if_splits)
    ultimately show ?thesis
      using mds Some fits by (simp add: encoder_ok_def s0_def sess_consts)
  qed (simp add: encoder_ok_def s0_def)
  moreover have "queue_ok s0 (s_postQueue s0)" by (simp add: s0_def queue_ok_def sq.wf_start sq.elems_start)
  ultimately have w0: "sent (s_kcp s0) = [] \<and> block_wf env (s_block s0) \<and> codec_ok env s0 \<and> queue_ok s0 (s_postQueue s0) \<and> s_wire s0 = []"
    using bw by (simp add: codec_ok_def) (simp add: s0_def NewKCP_def)
  have m: "session_mtu 1400 s0 = 1400 - int (head_room s0)"
    by (simp add: session_mtu_def head_room_def maxPacketSize_def)
  have "24 < session_mtu 1400 s0" "session_mtu 1400 s0 < 2 ^ 32" using small m by simp_all
  from SetMtu_wf [OF NewKCP_wf(1) this(2), of c] this(1) obtain k where S: "SetMtu (session_mtu 1400 s0) (NewKCP c) = Some (0, k)"
      "unat (mtu k) = nat (session_mtu 1400 s0)" "kcp_wf (buffer_len k) k" by auto
  have ne: "ring_list (snd_buf (NewKCP c)) = []" "ring_list (snd_queue (NewKCP c)) = []"
    and rw: "ring_wf (snd_buf (NewKCP c))" "ring_wf (snd_queue (NewKCP c))"
    by (simp_all add: NewKCP_def)
  have same: "snd_buf k = snd_buf (NewKCP c)" "snd_queue k = snd_queue (NewKCP c)" "sent k = []"
    using SetMtu_eq [OF rw, of "session_mtu 1400 s0"] S(1) \<open>24 < session_mtu 1400 s0\<close>
    by (auto simp: IKCP_OVERHEAD_def NewKCP_def)
  let ?L = "min (buffer_len k) (maxPacketSize - head_room s0)"
  have "size_wf (buffer_len k) k" using S(3) by (simp add: kcp_wf_def)
  then have "size_wf ?L k" using S(2) m by (auto simp: size_wf_def room_def same ne maxPacketSize_def)
  then have "kcp_wf ?L k" using S(3) by (simp add: kcp_wf_def)
  moreover have "?L + head_room s0 \<le> maxPacketSize" using small by (simp add: maxPacketSize_def)
  ultimately have "kcp_fits s0 k" unfolding kcp_fits_def by blast
  then have w: "sess_wf env (s0\<lparr>s_kcp := k\<rparr>)" using w0 same(3) by (simp add: sess_parts)
  have "sess_SetMtu (int (unat IKCP_MTU_DEF)) s0 = Some (True, s0\<lparr>s_kcp := k\<rparr>)"
    using S(1) by (simp add: sess_SetMtu_eq kcp_consts) (simp add: s0_def)
  then have "newUDPSession env c d p l block sn = Some (sess_count increaseCurrEstab
       (sess_count (if l then increasePassiveOpens else increaseActiveOpens) (s0\<lparr>s_kcp := k\<rparr>)))"
    unfolding newUDPSession_def Let_def enc_def [symmetric] s0_def [symmetric] by simp
  with w show ?thesis by simp
qed

section \<open>A session as a state machine\<close>

datatype sess_op =
    S_packetInput "byte list"
  | S_Read nat
  | S_Write "byte list list"
  | S_update
  | S_SendOOB "byte list"
  | S_worker
  | S_SetMtu int
  | S_SetWindowSize int int
  | S_SetNoDelay int int int int
  | S_SetStreamMode bool
  | S_SetACKNoDelay bool
  | S_SetWriteDelay bool
  | S_SetDUP int
  | S_SetOOBHandler
  | S_SetReadNotify
  | S_readError
  | S_ResetRTO
  | S_Close

fun sess_exec :: "env \<Rightarrow> sess_op \<Rightarrow> UDPSession \<Rightarrow> UDPSession option" where
  "sess_exec env (S_packetInput data) s = packetInput env data s"
| "sess_exec env (S_Read n) s = map_option (\<lambda>(_, _, _, s). s) (sess_read n s)"
| "sess_exec env (S_Write v) s = map_option (\<lambda>(_, _, s). s) (writeBuffers env v s)"
| "sess_exec env S_update s = map_option snd (update env s)"
| "sess_exec env (S_SendOOB data) s = map_option snd (SendOOB env data s)"
| "sess_exec env S_worker s = worker_step env s"
| "sess_exec env (S_SetMtu m) s = map_option snd (sess_SetMtu m s)"
| "sess_exec env (S_SetWindowSize a b) s = Some (SetWindowSize a b s)"
| "sess_exec env (S_SetNoDelay a b c d) s = Some (SetNoDelay a b c d s)"
| "sess_exec env (S_SetStreamMode b) s = Some (SetStreamMode b s)"
| "sess_exec env (S_SetACKNoDelay b) s = Some (SetACKNoDelay b s)"
| "sess_exec env (S_SetWriteDelay b) s = Some (SetWriteDelay b s)"
| "sess_exec env (S_SetDUP n) s = Some (SetDUP n s)"
| "sess_exec env S_SetOOBHandler s = Some (snd (SetOOBHandler s))"
| "sess_exec env S_SetReadNotify s = Some (SetReadNotify s)"
| "sess_exec env S_readError s = Some (notifyReadError s)"
| "sess_exec env S_ResetRTO s = sess_ResetRTO env s"
| "sess_exec env S_Close s = map_option snd (sess_Close env s)"

text \<open>
  The packets considered: at most \<^verbatim>\<open>maxPacketSize\<close> bytes, the size of the buffers of the read loops. \<^verbatim>\<open>pushedPacket\<close> passes on
  what a \<^verbatim>\<open>PacketPusher\<close> hands it, of any length, so here it is an assumption on the pusher.
\<close>

fun deliverable :: "sess_op \<Rightarrow> bool" where
  "deliverable (S_packetInput data) \<longleftrightarrow> length data \<le> maxPacketSize"
| "deliverable _ \<longleftrightarrow> True"

inductive sess_reach :: "env \<Rightarrow> UDPSession \<Rightarrow> UDPSession \<Rightarrow> bool" for env s0 where
  sess_start: "sess_reach env s0 s0"
| sess_step: "sess_reach env s0 s \<Longrightarrow> deliverable x \<Longrightarrow> sess_exec env x s = Some s' \<Longrightarrow> sess_reach env s0 s'"

lemma sess_exec_wf:
  assumes wf: "sess_wf env s" and env: "env_ok env" and x: "deliverable x"
  shows "\<exists>s'. sess_exec env x s = Some s' \<and> sess_wf env s'"
proof (cases x)
  case (S_packetInput data)
  then show ?thesis using packetInput_wf [OF wf env, of data] x by simp
next
  case (S_Read n)
  then show ?thesis using sess_read_wf [OF wf, of n] by auto
next
  case (S_Write v)
  then show ?thesis
    using writeBuffers_spec [OF wf env, of v] by (cases "WaitSnd (s_kcp s) < unat (snd_wnd (s_kcp s))") auto
next
  case S_update
  then show ?thesis using update_wf [OF wf env] by auto
next
  case (S_SendOOB data)
  then show ?thesis using SendOOB_wf [OF wf env, of data] by auto
next
  case S_worker
  then show ?thesis using worker_step_wf [OF wf env] by simp
next
  case (S_SetMtu m)
  then show ?thesis using sess_SetMtu_wf [OF wf, of m] by auto
next
  case S_ResetRTO
  then show ?thesis using sess_ResetRTO_wf [OF wf] by simp
next
  case S_Close
  then show ?thesis using sess_Close_wf [OF wf env] by auto
qed (use wf settings_wf [OF wf] in \<open>simp_all add: SetACKNoDelay_def SetWriteDelay_def SetDUP_def SetOOBHandler_def SetReadNotify_def\<close>)

lemma sess_reach_wf:
  assumes "sess_reach env s0 s" "sess_wf env s0" "env_ok env"
  shows "sess_wf env s"
  using assms
proof (induction rule: sess_reach.induct)
  case (sess_step s x s')
  then show ?case using sess_exec_wf [of env s x] by auto
qed

end
