(* ===== verification/Session_Events.thy ===== *)
theory Session_Events
  imports Session_Safety
begin

text \<open>
  What a session announces. Data for the reader is announced on the channel \<^verbatim>\<open>chReadEvent\<close> and to the callback
  of \<^verbatim>\<open>SetReadNotify\<close>, room for the writer on \<^verbatim>\<open>chWriteEvent\<close>. The lemmas go through every operation of
  \<^verbatim>\<open>sess.go\<close> and show that none makes data readable, or the window writable, without saying so; the one exception is
  \<^verbatim>\<open>SetWindowSize\<close>, after which a writer learns of the larger window at the next \<^verbatim>\<open>update\<close>.
\<close>

section \<open>Readable and writable\<close>

definition readable :: "UDPSession \<Rightarrow> bool" where
  "readable s \<longleftrightarrow> s_input s \<noteq> [] \<or> (case PeekSize (s_kcp s) of None \<Rightarrow> False | Some n \<Rightarrow> n > 0)"

definition writable :: "UDPSession \<Rightarrow> bool" where
  "writable s \<longleftrightarrow> WaitSnd (s_kcp s) < unat (snd_wnd (s_kcp s))"

text \<open>From \<open>s\<close> to \<open>s'\<close> no announcement is lost, and data or room that is new is announced.\<close>

definition tells_reader :: "UDPSession \<Rightarrow> UDPSession \<Rightarrow> bool" where
  "tells_reader s s' \<longleftrightarrow> (s_chReadEvent s \<longrightarrow> s_chReadEvent s') \<and> s_readNotify s' = s_readNotify s \<and>
     s_readNotified s \<le> s_readNotified s' \<and>
     (readable s' \<longrightarrow> readable s \<or> s_chReadEvent s' \<and> (s_readNotify s \<longrightarrow> s_readNotified s < s_readNotified s'))"

definition tells_writer :: "UDPSession \<Rightarrow> UDPSession \<Rightarrow> bool" where
  "tells_writer s s' \<longleftrightarrow> (s_chWriteEvent s \<longrightarrow> s_chWriteEvent s') \<and> (writable s' \<longrightarrow> writable s \<or> s_chWriteEvent s')"

lemma tells_reader_trans: "tells_reader s s1 \<Longrightarrow> tells_reader s1 s2 \<Longrightarrow> tells_reader s s2"
  by (auto simp: tells_reader_def)

lemma tells_writer_trans: "tells_writer s s1 \<Longrightarrow> tells_writer s1 s2 \<Longrightarrow> tells_writer s s2"
  by (auto simp: tells_writer_def)

text \<open>Steps that touch neither the channels nor what the reader has left of a message.\<close>

definition steady :: "UDPSession \<Rightarrow> UDPSession \<Rightarrow> bool" where
  "steady s s' \<longleftrightarrow> s_chReadEvent s' = s_chReadEvent s \<and> s_chWriteEvent s' = s_chWriteEvent s \<and>
     s_readNotify s' = s_readNotify s \<and> s_readNotified s' = s_readNotified s \<and> s_input s' = s_input s \<and>
     s_die s' = s_die s"

definition same_flow :: "kcp \<Rightarrow> kcp \<Rightarrow> bool" where
  "same_flow k k' \<longleftrightarrow> rcv_queue k' = rcv_queue k \<and> WaitSnd k' = WaitSnd k \<and> snd_wnd k' = snd_wnd k"

lemma steady_refl [simp]: "steady s s"
  by (simp add: steady_def)

lemma steady_trans: "steady s s1 \<Longrightarrow> steady s1 s2 \<Longrightarrow> steady s s2"
  by (simp add: steady_def)

lemma steady_count [simp]: "steady s (sess_count f s')  = steady s s'" "steady (sess_count f s) s' = steady s s'"
  by (simp_all add: steady_def sess_count_def)

lemma same_flow_refl [simp]: "same_flow k k"
  by (simp add: same_flow_def)

lemma same_flow_trans: "same_flow k k1 \<Longrightarrow> same_flow k1 k2 \<Longrightarrow> same_flow k k2"
  by (simp add: same_flow_def)

lemma PeekSize_cong:
  assumes "rcv_queue k' = rcv_queue k"
  shows "PeekSize k' = PeekSize k"
  unfolding PeekSize_def assms ..

lemma readable_cong:
  assumes "rcv_queue (s_kcp s') = rcv_queue (s_kcp s)" "s_input s' = s_input s"
  shows "readable s' = readable s"
  unfolding readable_def PeekSize_cong [OF assms(1)] assms(2) ..

lemma steady_tells:
  assumes st: "steady s s'"
  shows "rcv_queue (s_kcp s') = rcv_queue (s_kcp s) \<Longrightarrow> tells_reader s s'"
    and "same_flow (s_kcp s) (s_kcp s') \<Longrightarrow> tells_writer s s'"
proof -
  assume "rcv_queue (s_kcp s') = rcv_queue (s_kcp s)"
  then have "readable s' = readable s" using st by (intro readable_cong) (simp_all add: steady_def)
  then show "tells_reader s s'" using st by (simp add: tells_reader_def steady_def)
next
  assume "same_flow (s_kcp s) (s_kcp s')"
  then have "writable s' = writable s" by (simp add: writable_def same_flow_def)
  then show "tells_writer s s'" using st by (simp add: tells_writer_def steady_def)
qed

lemma steady_both: "steady s s' \<Longrightarrow> same_flow (s_kcp s) (s_kcp s') \<Longrightarrow> tells_reader s s' \<and> tells_writer s s'"
  using steady_tells [of s s'] by (simp add: same_flow_def)

section \<open>Output\<close>

lemma posted_steady: "posted s s' \<Longrightarrow> steady s s'"
  by (auto simp: posted_def steady_def)

lemma post_posted: "posted s (post env r s)"
proof -
  have "post env r s = s\<lparr>s_postQueue := snd (queue_enq (e_grow env) r (s_postQueue s)),
      s_ppRunning := s_ppRunning (post env r s), s_ppQueued := s_ppQueued (post env r s)\<rparr>"
    by (simp add: post_def kickPostProcess_def claimPostProcess_def split_beta Let_def)
  then show ?thesis unfolding posted_def by blast
qed

lemma output_callback_posted: "output_callback env p s = Some s' \<Longrightarrow> posted s s'"
  using post_posted by (auto simp: output_callback_def split: if_splits)

lemma outputs_posted: "outputs env ps s = Some s' \<Longrightarrow> posted s s'"
proof (induction ps arbitrary: s)
  case (Cons p ps)
  then obtain s1 where "output_callback env p s = Some s1" "outputs env ps s1 = Some s'" by (auto simp: bind_eq_Some_conv)
  then show ?case using output_callback_posted Cons.IH posted_trans by blast
qed simp

lemma set_kcp_posted: "set_kcp env k s = Some s' \<Longrightarrow> posted (s\<lparr>s_kcp := k\<lparr>sent := []\<rparr>\<rparr>) s'"
  by (simp add: set_kcp_def outputs_posted)

lemma set_kcp_steady:
  assumes "set_kcp env k s = Some s'"
  shows "steady s s' \<and> s_kcp s' = k\<lparr>sent := []\<rparr> \<and> s_die s' = s_die s"
proof -
  note p = set_kcp_posted [OF assms]
  show ?thesis using posted_steady [OF p] posted_same [OF p] by (simp add: steady_def)
qed

lemma sess_Input_steady: "sess_Input env data pt s = Some (r, s') \<Longrightarrow> steady s s'"
  using set_kcp_steady by (auto simp: sess_Input_def bind_eq_Some_conv)

lemma flush_flow:
  assumes "kcp_wf L k" "flush clk ft k = Some (u, k')"
  shows "same_flow k k'"
proof -
  have "flush_effect L ft k k'" using flush_kcp_wf [OF assms(1), of clk ft] assms(2) by auto
  then obtain moved asks ps a b q sb t x th cw ic st where
      k': "k' = k\<lparr>acklist := [], probe_wait := a, ts_probe := b, probe := 0, snd_queue := q, snd_buf := sb,
       snd_nxt := snd_nxt k + of_nat (length moved), ticks := t, sent := sent k @ ps, state := x,
       ssthresh := th, cwnd := cw, incr := ic, snmp := st\<rparr>"
    and q: "ring_list (snd_queue k) = moved @ ring_list q"
    and R: "list_all2 (if ft = IKCP_FLUSH_FULL then xmit_rel (ack_header k) else (=))
       (ring_list (snd_buf k) @ number k (snd_nxt k) moved) (ring_list sb)"
    by (rule flush_effectE)
  have "length (ring_list sb) = length (ring_list (snd_buf k)) + length moved" using list_all2_lengthD [OF R] by simp
  moreover have "length (ring_list (snd_queue k)) = length moved + length (ring_list q)" by (simp add: q)
  ultimately have "ring_Len sb + ring_Len q = ring_Len (snd_buf k) + ring_Len (snd_queue k)" unfolding length_ring_list by simp
  then show ?thesis by (simp add: k' same_flow_def WaitSnd_def)
qed

lemma sess_kcp_wf: "sess_wf env s \<Longrightarrow> \<exists>L. kcp_wf L (s_kcp s)"
  by (auto simp: sess_wf_def kcp_fits_def)

lemma sess_flush_flow:
  assumes wf: "sess_wf env s" and F: "sess_flush env s = Some (nu, s')"
  shows "steady s s' \<and> same_flow (s_kcp s) (s_kcp s') \<and> s_die s' = s_die s"
proof -
  obtain k where k: "flush (e_clock env) IKCP_FLUSH_FULL (s_kcp s) = Some (nu, k)" "set_kcp env k s = Some s'"
    using F by (auto simp: sess_flush_def bind_eq_Some_conv)
  obtain L where L: "kcp_wf L (s_kcp s)" using sess_kcp_wf [OF wf] by blast
  have "same_flow (s_kcp s) k" by (rule flush_flow [OF L k(1)])
  then show ?thesis using set_kcp_steady [OF k(2)] by (simp add: same_flow_def WaitSnd_def)
qed

section \<open>Input\<close>

text \<open>Every path that feeds the protocol machine ends in \<^verbatim>\<open>notify_after_input\<close>.\<close>

lemma notifyReadEvent_fields [simp]:
  "s_chReadEvent (notifyReadEvent s) = True" "s_chWriteEvent (notifyReadEvent s) = s_chWriteEvent s"
  "s_readNotify (notifyReadEvent s) = s_readNotify s" "s_input (notifyReadEvent s) = s_input s" "s_kcp (notifyReadEvent s) = s_kcp s"
  "s_readNotified (notifyReadEvent s) = s_readNotified s + (if s_readNotify s then 1 else 0)" "s_die (notifyReadEvent s) = s_die s"
  by (simp_all add: notifyReadEvent_def callReadNotify_def)

lemma notifyWriteEvent_fields [simp]:
  "s_chReadEvent (notifyWriteEvent s) = s_chReadEvent s" "s_chWriteEvent (notifyWriteEvent s) = True"
  "s_readNotify (notifyWriteEvent s) = s_readNotify s" "s_input (notifyWriteEvent s) = s_input s" "s_kcp (notifyWriteEvent s) = s_kcp s"
  "s_readNotified (notifyWriteEvent s) = s_readNotified s" "s_die (notifyWriteEvent s) = s_die s"
  by (simp_all add: notifyWriteEvent_def)

text \<open>A state after the reader, and one after the writer, has been told.\<close>

lemma told:
  assumes "s_chReadEvent s' = (s_chReadEvent s \<or> b)" "s_readNotify s' = s_readNotify s" "readable s' \<longrightarrow> readable s \<or> b"
    "s_readNotified s' = s_readNotified s + (if b \<and> s_readNotify s then 1 else 0)"
  shows "tells_reader s s'"
  using assms by (cases b) (simp_all add: tells_reader_def)

lemma notify_after_input_tells:
  assumes st: "steady s s1" and N: "notify_after_input s1 = Some s'"
  shows "tells_reader s s' \<and> tells_writer s s' \<and> s_die s' = s_die s"
proof -
  obtain n where n: "PeekSize (s_kcp s1) = Some n" using N by (auto simp: notify_after_input_def bind_eq_Some_conv)
  define s2 where "s2 = (if n > 0 then notifyReadEvent s1 else s1)"
  have s': "s' = (if writable s2 then notifyWriteEvent s2 else s2)"
    by (cases "n > 0") (use N n in \<open>auto simp: notify_after_input_def writable_def s2_def Let_def split: if_splits\<close>)
  have k: "s_kcp s' = s_kcp s1" "s_input s' = s_input s1" by (simp_all add: s' s2_def)
  have "readable s' \<longrightarrow> readable s \<or> n > 0" unfolding readable_def k n using st by (auto simp: steady_def)
  then have "tells_reader s s'" by (intro told [of _ _ "n > 0"]) (use st in \<open>simp_all add: s' s2_def steady_def\<close>)
  moreover have "writable s' \<longrightarrow> s_chWriteEvent s'" unfolding s' by (simp add: writable_def)
  then have "tells_writer s s'" using st by (simp add: tells_writer_def s' s2_def steady_def)
  moreover have "s_die s' = s_die s" using st by (simp add: s' s2_def steady_def)
  ultimately show ?thesis by blast
qed

lemma input_recovered_steady: "input_recovered env rs e s = Some (n, s') \<Longrightarrow> steady s s'"
proof (induction rs arbitrary: e s)
  case (Cons r rs)
  show ?case
  proof (cases "recovered_payload r")
    case None
    then show ?thesis using Cons by simp
  next
    case (Some p)
    then obtain ret s1 where "sess_Input env p IKCP_PACKET_FEC s = Some (ret, s1)"
        "input_recovered env rs (if ret \<noteq> 0 then Suc e else e) s1 = Some (n, s')"
      using Cons.prems by (auto simp: bind_eq_Some_conv)
    then show ?thesis using sess_Input_steady Cons.IH steady_trans by blast
  qed
qed simp

lemma die_count [simp]: "s_die (sess_count f s) = s_die s"
  by (simp add: sess_count_def)

lemma tells_count [simp]:
  "tells_reader s (sess_count f s') = tells_reader s s'" "tells_writer s (sess_count f s') = tells_writer s s'"
  "tells_reader (sess_count f s) s' = tells_reader s s'" "tells_writer (sess_count f s) s' = tells_writer s s'"
  by (simp_all add: tells_reader_def tells_writer_def readable_def writable_def sess_count_def)

lemma tells_refl [simp]: "tells_reader s s" "tells_writer s s"
  by (simp_all add: tells_reader_def tells_writer_def)

lemma steady_decoder [simp]: "steady s (s'\<lparr>s_fecDecoder := d\<rparr>) = steady s s'" "steady (s\<lparr>s_fecDecoder := d\<rparr>) s' = steady s s'"
  by (simp_all add: steady_def)

lemma input_fec_tells:
  assumes "input_fec env data s = Some s'"
  shows "tells_reader s s' \<and> tells_writer s s' \<and> s_die s' = s_die s"
proof (cases "length data < fecHeaderSizePlus2")
  case False
  then obtain dec flag ret s1 rec dec' errs s2 s3 where
      1: "(if flag = typeData then sess_Input env (drop fecHeaderSizePlus2 data) IKCP_PACKET_REGULAR (s\<lparr>s_fecDecoder := Some dec\<rparr>)
           else Some (0, s\<lparr>s_fecDecoder := Some dec\<rparr>)) = Some (ret, s1)"
    and 2: "input_recovered env rec (if ret \<noteq> 0 then 1 else 0) (s1\<lparr>s_fecDecoder := Some dec'\<rparr>) = Some (errs, s2)"
    and 3: "notify_after_input s2 = Some s3" "s' = (if errs > 0 then sess_count (addKCPInErrors (of_nat errs)) s3 else s3)"
    using assms unfolding input_fec_def Let_def bind_eq_Some_conv by (simp add: bind_eq_Some_conv) metis
  have "steady s s1" using 1 sess_Input_steady by (fastforce split: if_splits)
  then have "steady s s2" using input_recovered_steady [OF 2] steady_trans by fastforce
  then show ?thesis using notify_after_input_tells [OF _ 3(1)] 3(2) by auto
next
  case True
  then have "s' = sess_count increaseInErrs s" using assms by (simp add: input_fec_def)
  then show ?thesis by simp
qed

lemma kcpInput_tells:
  assumes "kcpInput env data s = Some s'"
  shows "tells_reader s s' \<and> tells_writer s s' \<and> s_die s' = s_die s"
proof -
  let ?s = "sess_count (addInBytes (length data)) (sess_count increaseInPkts s)"
  consider (fec) "input_fec env data ?s = Some s'" | (oob) "input_oob data ?s = Some s'" | (plain) "input_plain env data ?s = Some s'"
    using assms by (auto simp: kcpInput_def Let_def bind_eq_Some_conv split: if_splits)
  then show ?thesis
  proof cases
    case fec
    then show ?thesis using input_fec_tells by fastforce
  next
    case oob
    then have "steady s s'" "s_kcp s' = s_kcp s"
      by (auto simp: input_oob_def Let_def bind_eq_Some_conv steady_def sess_count_def split: if_splits)
    then show ?thesis using steady_both by (simp add: steady_def)
  next
    case plain
    then obtain ret s1 where s1: "sess_Input env data IKCP_PACKET_REGULAR ?s = Some (ret, s1)"
        "notify_after_input (if ret \<noteq> 0 then sess_count (addKCPInErrors 1) s1 else s1) = Some s'"
      by (auto simp: input_plain_def Let_def bind_eq_Some_conv)
    have "steady s (if ret \<noteq> 0 then sess_count (addKCPInErrors 1) s1 else s1)" using sess_Input_steady [OF s1(1)] by simp
    then show ?thesis using notify_after_input_tells s1(2) by blast
  qed
qed

lemma packetInput_tells:
  assumes "packetInput env data s = Some s'"
  shows "tells_reader s s' \<and> tells_writer s s' \<and> s_die s' = s_die s"
proof -
  obtain r where r: "(case r of Dropped \<Rightarrow> Some s | CsumError \<Rightarrow> Some (sess_count increaseInCsumErrors s)
      | Opened data \<Rightarrow> if length data < min IKCP_OVERHEAD (fecHeaderSizePlus2 + convSize) then Some (sess_count (addKCPInErrors 1) s)
        else kcpInput env data s) = Some s'"
    using assms by (auto simp: packetInput_def bind_eq_Some_conv)
  then show ?thesis using kcpInput_tells by (cases r) (auto split: if_splits)
qed

section \<open>Reading and writing\<close>

lemma Recv_flow:
  assumes "rcv_wf k" "Recv n k = Some (r, bs, k')"
  shows "WaitSnd k' = WaitSnd k \<and> snd_wnd k' = snd_wnd k"
  using assms
proof (cases rule: Recv_cases)
  case (msg m q)
  obtain moved where "moves (k\<lparr>rcv_queue := q, pool_out := pool_out k - live m\<rparr>) moved
      (rcv_move (k\<lparr>rcv_queue := q, pool_out := pool_out k - live m\<rparr>))" using rcv_move_moves [OF msg(3)] by blast
  then show ?thesis using msg(4) by (auto simp: moves_def WaitSnd_def)
qed simp

text \<open>From \<open>s\<close> to \<open>s1\<close> only the queue of messages and the rest of a message changed.\<close>

definition reads :: "UDPSession \<Rightarrow> UDPSession \<Rightarrow> bool" where
  "reads s s1 \<longleftrightarrow> s_chReadEvent s1 = s_chReadEvent s \<and> s_chWriteEvent s1 = s_chWriteEvent s \<and> s_die s1 = s_die s \<and>
     s_readNotify s1 = s_readNotify s \<and> s_readNotified s1 = s_readNotified s \<and> writable s1 = writable s"

lemma notifyReadIfAvailable_tells:
  assumes N: "notifyReadIfAvailableLocked s1 = Some s'" and r: "reads s s1"
  shows "tells_reader s s' \<and> tells_writer s s' \<and> s_die s' = s_die s \<and> (readable s' \<longrightarrow> s_chReadEvent s')"
proof -
  obtain n where n: "PeekSize (s_kcp s1) = Some n" using N by (auto simp: notifyReadIfAvailableLocked_def bind_eq_Some_conv)
  have s': "s' = (if readable s1 then notifyReadEvent s1 else s1)"
    using N n by (simp add: notifyReadIfAvailableLocked_def readable_def)
  have "readable s' \<longrightarrow> readable s1" by (simp add: s' readable_def)
  then have "tells_reader s s'" by (intro told [of _ _ "readable s1"]) (use r in \<open>simp_all add: s' reads_def\<close>)
  moreover have "tells_writer s s'" "s_die s' = s_die s" using r by (simp_all add: tells_writer_def s' reads_def writable_def)
  moreover have "readable s' \<longrightarrow> s_chReadEvent s'" by (simp add: s' readable_def)
  ultimately show ?thesis by blast
qed

lemma readLocked_tells:
  assumes wf: "sess_wf env s" and R: "readLocked blen s = Some (n, bs, ok, s')"
  shows "tells_reader s s' \<and> tells_writer s s' \<and> s_die s' = s_die s \<and>
    (\<not> ok \<longrightarrow> s' = s \<and> \<not> readable s) \<and> (ok \<longrightarrow> readable s' \<longrightarrow> s_chReadEvent s')"
proof (cases "s_input s = []")
  case False
  then have "notifyReadIfAvailableLocked (s\<lparr>s_input := drop blen (s_input s)\<rparr>) = Some s'" "ok"
    using R by (auto simp: readLocked_def Let_def bind_eq_Some_conv)
  moreover have "reads s (s\<lparr>s_input := drop blen (s_input s)\<rparr>)" by (simp add: reads_def writable_def)
  ultimately show ?thesis using notifyReadIfAvailable_tells by blast
next
  case True
  have upd: "reads s (s\<lparr>s_kcp := k, s_recvbuf := b, s_input := i\<rparr>)" if "Recv m (s_kcp s) = Some (r, c, k)" for m r c k b i
    using Recv_flow [OF sess_rcv_wf [OF wf] that] by (simp add: reads_def writable_def)
  obtain size where P: "PeekSize (s_kcp s) = Some size" using True R by (auto simp: readLocked_def bind_eq_Some_conv)
  consider "size \<le> 0" | "0 < size" "size \<le> int blen" | "0 < size" "\<not> size \<le> int blen" by linarith
  then show ?thesis
  proof cases
    case 1
    then have "s' = s" "\<not> ok" using R True P by (simp_all add: readLocked_def)
    then show ?thesis using True P 1 by (simp add: readable_def)
  next
    case 2
    then obtain r c k where k: "Recv blen (s_kcp s) = Some (r, c, k)" "notifyReadIfAvailableLocked (s\<lparr>s_kcp := k\<rparr>) = Some s'" "ok"
      using R True P by (auto simp: readLocked_def bind_eq_Some_conv)
    have "reads s (s\<lparr>s_kcp := k\<rparr>)" using upd [OF k(1), of "s_input s" "s_recvbuf s"] by simp
    then show ?thesis using notifyReadIfAvailable_tells [OF k(2)] k(3) by blast
  next
    case 3
    then obtain r c k b i where k: "Recv (nat size) (s_kcp s) = Some (r, c, k)"
        "notifyReadIfAvailableLocked (s\<lparr>s_kcp := k, s_recvbuf := b, s_input := i\<rparr>) = Some s'" "ok"
      using R True P by (auto simp: readLocked_def Let_def bind_eq_Some_conv)
    show ?thesis using notifyReadIfAvailable_tells [OF k(2) upd [OF k(1)]] k(3) by blast
  qed
qed

text \<open>\<^verbatim>\<open>Send\<close> leaves the receiving half and the window alone.\<close>

definition same_window :: "kcp \<Rightarrow> kcp \<Rightarrow> bool" where
  "same_window k k' \<longleftrightarrow> rcv_queue k' = rcv_queue k \<and> snd_wnd k' = snd_wnd k"

lemma same_window_trans: "same_window k k1 \<Longrightarrow> same_window k1 k2 \<Longrightarrow> same_window k k2"
  by (simp add: same_window_def)

lemma send_frags_window: "send_frags n b k = Some k' \<Longrightarrow> same_window k k'"
proof (induction n b k rule: send_frags.induct)
  case (2 n b k)
  then show ?case by (fastforce simp: Let_def bind_eq_Some_conv pool_Get_def same_window_def split: if_splits)
qed (simp add: same_window_def)

lemma send_split_window: "send_split b k = Some (r, k') \<Longrightarrow> same_window k k'"
  using send_frags_window by (auto simp: send_split_def Let_def same_window_def simp del: send_frags.simps split: if_splits)

lemma send_append_window: "send_append b k = Some (b', k') \<Longrightarrow> same_window k k'"
  by (auto simp: send_append_def Let_def bind_eq_Some_conv same_window_def split: if_splits)

lemma Send_window:
  assumes "Send b k = Some (r, k')"
  shows "same_window k k'"
proof -
  consider "k' = k" | "send_split b k = Some (r, k')"
    | b1 k1 where "send_append b k = Some (b1, k1)" "k' = k1 \<or> send_split b1 k1 = Some (r, k')"
    using assms by (auto simp: Send_def bind_eq_Some_conv split: if_splits)
  then show ?thesis
  proof cases
    case 1
    then show ?thesis by (simp add: same_window_def)
  next
    case 3
    then show ?thesis using send_append_window send_split_window same_window_trans by blast
  qed (rule send_split_window)
qed

lemma send_chunks_window:
  assumes "send_chunks b k = Some k'"
  shows "same_window k k'"
proof (rule send_chunks.raw_induct [where P = "\<lambda>b k k'. same_window k k'", OF _ assms])
  fix f b k k'
  assume IH: "\<And>b k k'. f b k = Some k' \<Longrightarrow> same_window k k'"
    and E: "(if length b \<le> unat (mss k) then map_option snd (Send b k)
      else Option.bind (Send (take (unat (mss k)) b) k) (\<lambda>(ret, k). f (drop (unat (mss k)) b) k)) = Some k'"
  show "same_window k k'"
  proof (cases "length b \<le> unat (mss k)")
    case True
    then show ?thesis using E Send_window by auto
  next
    case False
    then obtain r k1 where "Send (take (unat (mss k)) b) k = Some (r, k1)" "f (drop (unat (mss k1)) b) k1 = Some k'"
      using E by (auto simp: bind_eq_Some_conv)
    then show ?thesis using Send_window IH same_window_trans by blast
  qed
qed

lemma send_buffers_window: "send_buffers v k = Some k' \<Longrightarrow> same_window k k'"
proof (induction v arbitrary: k)
  case (Cons b v)
  then obtain k1 where "send_chunks b k = Some k1" "send_buffers v k1 = Some k'" by (auto simp: bind_eq_Some_conv)
  then show ?case using send_chunks_window Cons.IH same_window_trans by blast
qed (simp add: same_window_def)

lemma writeBuffers_cases:
  assumes wf: "sess_wf env s" and env: "env_ok env" and W: "writeBuffers env v s = Some (n, ok, s')"
  obtains (refused) "\<not> writable s" "\<not> ok" "s' = s"
    | (taken) s1 where "writable s" "ok" "s' = sess_count (addBytesSent n) s1" "steady s s1" "rcv_queue (s_kcp s1) = rcv_queue (s_kcp s)"
proof (cases "writable s")
  case True
  obtain L where L: "kcp_wf L (s_kcp s)" "L + head_room s \<le> maxPacketSize" using wf by (auto simp: sess_wf_def kcp_fits_def)
  obtain k where k: "send_buffers v (s_kcp s) = Some k" "kcp_wf L k" "quiet (s_kcp s) k"
    using send_buffers_wf [OF _ L(1), of v] L(2) by auto
  have "sent k = []" using k(3) wf by (simp add: quiet_def sess_wf_def)
  then have w: "sess_wf env (s\<lparr>s_kcp := k\<rparr>)" using wf L(2) k(2) by (intro sess_wf_kcp) (auto simp: kcp_fits_def)
  obtain nu s2 where F: "sess_flush env (s\<lparr>s_kcp := k\<rparr>) = Some (nu, s2)" using sess_flush_wf [OF w env] by blast
  define s1 where "s1 = (if WaitSnd k \<ge> unat (snd_wnd k) \<or> \<not> s_writeDelay s then s2 else s\<lparr>s_kcp := k\<rparr>)"
  have s1: "s1 = s\<lparr>s_kcp := k\<rparr> \<or> sess_flush env (s\<lparr>s_kcp := k\<rparr>) = Some (nu, s1)" by (simp add: s1_def F)
  have s': "ok" "s' = sess_count (addBytesSent n) s1"
    using W True k(1) F by (auto simp: writeBuffers_def writeBuffersLocked_def writable_def Let_def s1_def split: if_splits)
  have f: "steady (s\<lparr>s_kcp := k\<rparr>) s1" "same_flow k (s_kcp s1)" using s1 sess_flush_flow [OF w, of nu s1] by auto
  have "steady s s1" using f(1) by (simp add: steady_def)
  moreover have "rcv_queue (s_kcp s1) = rcv_queue (s_kcp s)"
    using f(2) send_buffers_window [OF k(1)] by (simp add: same_flow_def same_window_def)
  ultimately show thesis using taken s' True by blast
next
  case False
  then have "s' = s" "\<not> ok" using W by (auto simp: writeBuffers_def writeBuffersLocked_def writable_def)
  then show thesis using refused False by blast
qed

lemma writeBuffers_tells:
  assumes wf: "sess_wf env s" and env: "env_ok env" and W: "writeBuffers env v s = Some (n, ok, s')"
  shows "tells_reader s s' \<and> tells_writer s s' \<and> s_die s' = s_die s \<and> (\<not> ok \<longrightarrow> s' = s \<and> \<not> writable s)"
  using assms
proof (cases rule: writeBuffers_cases)
  case (taken s1)
  have "tells_reader s s1" using steady_tells(1) taken(4,5) by blast
  moreover have "tells_writer s s1" using taken(1,4) by (simp add: tells_writer_def steady_def)
  ultimately show ?thesis using taken by (simp add: steady_def)
qed simp

section \<open>The worker\<close>

definition idle :: "UDPSession \<Rightarrow> UDPSession \<Rightarrow> bool" where
  "idle s s' \<longleftrightarrow> steady s s' \<and> s_kcp s' = s_kcp s \<and> s_die s' = s_die s"

lemma idle_refl [simp]: "idle s s"
  by (simp add: idle_def)

lemma idle_trans: "idle s s1 \<Longrightarrow> idle s1 s2 \<Longrightarrow> idle s s2"
  using steady_trans by (auto simp: idle_def)

lemma idle_tells: "idle s s' \<Longrightarrow> tells_reader s s' \<and> tells_writer s s'"
  using steady_both by (simp add: idle_def)

lemma idle_frame [simp]:
  "idle s (s'\<lparr>s_postQueue := q\<rparr>) = idle s s'" "idle s (s'\<lparr>s_ppQueued := n\<rparr>) = idle s s'"
  "idle s (s'\<lparr>s_ppRunning := b\<rparr>) = idle s s'" "idle s (s'\<lparr>s_wire := w\<rparr>) = idle s s'"
  "idle s (s'\<lparr>s_fecEncoder := e\<rparr>) = idle s s'" "idle s (s'\<lparr>s_calls := n\<rparr>) = idle s s'"
  "idle s (s'\<lparr>s_ppClosing := b\<rparr>) = idle s s'"
  by (simp_all add: idle_def steady_def)

lemma fec_stage_idle: "fec_stage env req s = Some (b, ecc, s') \<Longrightarrow> idle s s'"
  by (auto simp: fec_stage_def bind_eq_Some_conv split: option.splits if_splits)

lemma seal_packet_idle: "seal_packet env block b s = Some (b', s') \<Longrightarrow> idle s s'"
  by (auto simp: seal_packet_def Let_def bind_eq_Some_conv split: option.splits BlockCrypt.splits)

lemma seal_packets_idle: "seal_packets env block bs s = Some (bs', s') \<Longrightarrow> idle s s'"
proof (induction bs arbitrary: bs' s)
  case (Cons b bs)
  then obtain b1 s1 bs1 where "seal_packet env block b s = Some (b1, s1)" "seal_packets env block bs s1 = Some (bs1, s')"
    by (auto simp: bind_eq_Some_conv)
  then show ?case using seal_packet_idle Cons.IH idle_trans by blast
qed simp

lemma process_one_idle:
  assumes "process_one env req s = Some (msgs, s')"
  shows "idle s s'"
proof -
  obtain b ecc s1 b2 s2 ecc3 where p: "fec_stage env req s = Some (b, ecc, s1)" "seal_packet env (s_block s1) b s1 = Some (b2, s2)"
      "seal_packets env (s_block s2) ecc s2 = Some (ecc3, s')"
    using assms by (auto simp: process_one_def bind_eq_Some_conv)
  show ?thesis using idle_trans [OF idle_trans [OF fec_stage_idle [OF p(1)] seal_packet_idle [OF p(2)]] seal_packets_idle [OF p(3)]] .
qed

lemma flushTx_idle: "flushTx tx s = (c, s') \<Longrightarrow> idle s s'"
  by (auto simp: flushTx_def sendTx_def split: if_splits)

lemma postProcess_loop_idle: "postProcess_loop env n tx s = Some (m, s') \<Longrightarrow> idle s s'"
proof (induction n arbitrary: tx s)
  case 0
  then show ?case using flushTx_idle by (auto split: if_splits prod.splits)
next
  case (Suc n)
  obtain r q where d: "queue_deq (s_postQueue s) = (r, q)" by fastforce
  show ?case
  proof (cases r)
    case None
    then show ?thesis using Suc.prems d by auto
  next
    case (Some req)
    then obtain msgs s1 where p: "process_one env req (s\<lparr>s_postQueue := q\<rparr>) = Some (msgs, s1)"
      using Suc.prems d by (auto simp: bind_eq_Some_conv)
    have i1: "idle s s1" using process_one_idle [OF p] by (simp add: idle_def steady_def)
    obtain c s2 where f: "flushTx (tx @ msgs) s1 = (c, s2)" by fastforce
    have i2: "idle s s2" using i1 flushTx_idle [OF f] idle_trans by blast
    have "s' = s2 \<or> postProcess_loop env n [] s2 = Some (m, s') \<or> postProcess_loop env n (tx @ msgs) s1 = Some (m, s')"
      using Suc.prems d Some p f by (auto simp: Let_def split: if_splits)
    then show ?thesis using i1 i2 Suc.IH idle_trans by blast
  qed
qed

lemma finishPostProcess_idle: "finishPostProcess s = (again, s') \<Longrightarrow> idle s s'"
  by (auto simp: finishPostProcess_def discardPostProcess_def claimPostProcess_def Let_def split: if_splits)

lemma worker_step_idle:
  assumes "worker_step env s = Some s'"
  shows "idle s s'"
proof -
  let ?s = "s\<lparr>s_ppQueued := s_ppQueued s - 1\<rparr>"
  obtain again sf where f: "finishPostProcess ?s = (again, sf)" by fastforce
  show ?thesis
  proof (cases "s_die s")
    case True
    then have "s' = sf" using assms f by (simp add: worker_step_def)
    then show ?thesis using finishPostProcess_idle [OF f] by (simp add: idle_def steady_def)
  next
    case False
    then obtain m s1 where p: "postProcess env ?s = Some (m, s1)" using assms by (auto simp: worker_step_def bind_eq_Some_conv)
    have i: "idle s s1" using postProcess_loop_idle p unfolding postProcess_def by (fastforce simp: idle_def steady_def)
    obtain ag s2 where g: "finishPostProcess s1 = (ag, s2)" by fastforce
    have "idle s s2" using i finishPostProcess_idle [OF g] idle_trans by blast
    moreover have "s' = s1 \<or> s' = s2 \<or> (\<exists>n. s' = s1\<lparr>s_ppQueued := n\<rparr> \<or> s' = s2\<lparr>s_ppQueued := n\<rparr>)"
      using assms False p g by (auto simp: worker_step_def Let_def split: if_splits)
    ultimately show ?thesis using i by auto
  qed
qed

section \<open>Every operation\<close>

lemma update_tells:
  assumes wf: "sess_wf env s" and U: "update env s = Some (r, s')"
  shows "tells_reader s s' \<and> tells_writer s s' \<and> s_die s' = s_die s"
proof (cases "s_die s")
  case False
  then obtain nu s1 where s1: "sess_flush env s = Some (nu, s1)" "s' = (if writable s1 then notifyWriteEvent s1 else s1)"
    using U by (auto simp: update_def Let_def bind_eq_Some_conv writable_def)
  have f: "steady s s1" "same_flow (s_kcp s) (s_kcp s1)" using sess_flush_flow [OF wf s1(1)] by auto
  have "tells_reader s1 s'" by (simp add: s1(2) tells_reader_def readable_def)
  moreover have "tells_writer s1 s'" by (simp add: s1(2) tells_writer_def writable_def)
  moreover have "s_die s' = s_die s" using f(1) by (simp add: s1(2) steady_def)
  ultimately show ?thesis using steady_both [OF f] tells_reader_trans tells_writer_trans by blast
qed (use U in \<open>simp add: update_def\<close>)

lemma callReadNotify_tells: "tells_reader s (callReadNotify s) \<and> tells_writer s (callReadNotify s)"
  by (simp add: callReadNotify_def tells_reader_def tells_writer_def readable_def writable_def)

lemma Close_tells:
  assumes wf: "sess_wf env s" and C: "sess_Close env s = Some (r, s')"
  shows "tells_reader s s' \<and> tells_writer s s'"
proof (cases "s_die s")
  case False
  then obtain nu s1 where s1: "sess_flush env s = Some (nu, s1)"
      "s' = discardPostProcess (callReadNotify (sess_count decreaseCurrEstab (s1\<lparr>s_die := True, s_ppClosing := True\<rparr>)))"
    using C by (auto simp: sess_Close_def Let_def bind_eq_Some_conv)
  let ?s2 = "sess_count decreaseCurrEstab (s1\<lparr>s_die := True, s_ppClosing := True\<rparr>)"
  have f: "steady s s1" "same_flow (s_kcp s) (s_kcp s1)" using sess_flush_flow [OF wf s1(1)] by auto
  have "tells_reader s ?s2 \<and> tells_writer s ?s2"
    using steady_both [OF f] by (simp add: sess_count_def tells_reader_def tells_writer_def readable_def writable_def)
  moreover have "tells_reader (callReadNotify ?s2) s' \<and> tells_writer (callReadNotify ?s2) s'"
    using steady_both [of "callReadNotify ?s2" s'] by (simp add: s1(2) discardPostProcess_def steady_def)
  ultimately show ?thesis using callReadNotify_tells tells_reader_trans tells_writer_trans by meson
qed (use C in \<open>simp add: sess_Close_def\<close>)

lemma SendOOB_idle: "SendOOB env data s = Some (r, s') \<Longrightarrow> idle s s'"
  using posted_steady [OF post_posted] posted_same [OF post_posted]
  by (auto simp: SendOOB_def Let_def idle_def split: if_splits)

text \<open>A change of the protocol machine that leaves the receive queue and the amount of waiting data alone.\<close>

lemma kcp_tells: "same_flow (s_kcp s) k \<Longrightarrow> tells_reader s (s\<lparr>s_kcp := k\<rparr>) \<and> tells_writer s (s\<lparr>s_kcp := k\<rparr>)"
  using steady_both [of s "s\<lparr>s_kcp := k\<rparr>"] by (simp add: steady_def)

lemma SetMtu_flow: "SetMtu m k = Some (r, k') \<Longrightarrow> same_flow k k'"
  by (auto simp: SetMtu_def same_flow_def WaitSnd_def bind_eq_Some_conv split: if_splits)

lemma ResetRTO_flow:
  assumes "ring_wf (snd_buf k)" "ResetRTO clk k = Some k'"
  shows "same_flow k k'"
proof -
  obtain sb where sb: "ResetRTO clk k = Some (k\<lparr>ticks := Suc (ticks k), snd_buf := sb\<rparr>)"
      "list_all2 (\<lambda>s s'. \<exists>a b. s' = s\<lparr>seg_rto := a, seg_resendts := b\<rparr>) (ring_list (snd_buf k)) (ring_list sb)"
    by (rule ResetRTO_spec [OF assms(1)])
  have "k' = k\<lparr>ticks := Suc (ticks k), snd_buf := sb\<rparr>" using sb(1) assms(2) by simp
  then show ?thesis using list_all2_lengthD [OF sb(2)] by (simp add: same_flow_def WaitSnd_def length_ring_list)
qed

definition keeps_window :: "sess_op \<Rightarrow> bool" where
  "keeps_window x = (case x of S_SetWindowSize _ _ \<Rightarrow> False | _ \<Rightarrow> True)"

text \<open>Every operation announces what it makes readable, and all but \<^verbatim>\<open>SetWindowSize\<close> what they make writable.\<close>

lemma sess_exec_tells:
  assumes wf: "sess_wf env s" and env: "env_ok env" and E: "sess_exec env x s = Some s'" and x: "x \<noteq> S_SetReadNotify"
  shows "tells_reader s s' \<and> (keeps_window x \<longrightarrow> tells_writer s s')"
proof (cases x)
  case (S_packetInput data)
  then show ?thesis using E packetInput_tells by simp
next
  case (S_Read n)
  then show ?thesis using E readLocked_tells [OF wf] by (fastforce simp: sess_read_def bind_eq_Some_conv)
next
  case (S_Write v)
  then show ?thesis using E writeBuffers_tells [OF wf env] by fastforce
next
  case S_update
  then show ?thesis using E update_tells [OF wf] by auto
next
  case (S_SendOOB data)
  then show ?thesis using E idle_tells [OF SendOOB_idle] by auto
next
  case S_worker
  then show ?thesis using E worker_step_idle idle_tells by simp
next
  case (S_SetMtu m)
  then show ?thesis using E SetMtu_flow kcp_tells by (fastforce simp: sess_SetMtu_eq bind_eq_Some_conv)
next
  case S_ResetRTO
  have "ring_wf (snd_buf (s_kcp s))" using sess_kcp_wf [OF wf] by (auto simp: kcp_wf_def snd_wf_def inflight_wf_def)
  then show ?thesis using E S_ResetRTO ResetRTO_flow kcp_tells by (auto simp: sess_ResetRTO_def)
next
  case S_Close
  then show ?thesis using E Close_tells [OF wf] by auto
next
  case (S_SetWindowSize a b)
  have "steady s s'" "rcv_queue (s_kcp s') = rcv_queue (s_kcp s)"
    using E S_SetWindowSize by (auto simp: SetWindowSize_def WndSize_def steady_def Let_def)
  then show ?thesis using steady_tells(1) S_SetWindowSize by (simp add: keeps_window_def)
next
  case (S_SetNoDelay a b c d)
  then show ?thesis using E kcp_tells [of s "NoDelay a b c d (s_kcp s)"] by (simp add: SetNoDelay_def NoDelay_def Let_def same_flow_def WaitSnd_def)
next
  case (S_SetStreamMode b)
  then show ?thesis using E kcp_tells [of s "(s_kcp s)\<lparr>stream := if b then 1 else 0\<rparr>"] by (simp add: SetStreamMode_def same_flow_def WaitSnd_def)
next
  case S_readError
  then show ?thesis using E callReadNotify_tells [of "s\<lparr>s_readError := True\<rparr>"]
    by (auto simp: notifyReadError_def tells_reader_def tells_writer_def readable_def writable_def)
qed (use E x steady_both [of s s'] in \<open>auto simp: SetACKNoDelay_def SetWriteDelay_def SetDUP_def SetOOBHandler_def steady_def split: if_splits\<close>)

text \<open>Only \<^verbatim>\<open>Close\<close> ends a session.\<close>

lemma sess_exec_life:
  assumes wf: "sess_wf env s" and env: "env_ok env" and E: "sess_exec env x s = Some s'" and x: "x \<noteq> S_Close"
  shows "s_die s' = s_die s"
proof (cases x)
  case (S_packetInput data)
  then show ?thesis using E packetInput_tells by simp
next
  case (S_Read n)
  then obtain k bs ok s1 where "readLocked n s = Some (k, bs, ok, s1)" "s' = (if ok then sess_count (addBytesReceived k) s1 else s1)"
    using E by (auto simp: sess_read_def bind_eq_Some_conv)
  then show ?thesis using readLocked_tells [OF wf] by simp
next
  case (S_Write v)
  then show ?thesis using E writeBuffers_tells [OF wf env] by fastforce
next
  case S_update
  then show ?thesis using E update_tells [OF wf] by auto
next
  case (S_SendOOB data)
  then show ?thesis using E SendOOB_idle by (auto simp: idle_def)
next
  case S_worker
  then show ?thesis using E worker_step_idle by (simp add: idle_def)
next
  case (S_SetMtu m)
  then show ?thesis using E by (auto simp: sess_SetMtu_def Let_def bind_eq_Some_conv)
qed (use E x in \<open>auto simp: SetWindowSize_def SetNoDelay_def SetStreamMode_def SetACKNoDelay_def SetWriteDelay_def SetDUP_def
    SetOOBHandler_def SetReadNotify_def notifyReadError_def callReadNotify_def sess_ResetRTO_def split: if_splits\<close>)

end
