(* ===== verification/Session_Properties.thy ===== *)
theory Session_Properties
  imports Session_Safety
begin

text \<open>
  The properties of a session as a whole: no operation panics, on any packet of at most \<^verbatim>\<open>maxPacketSize\<close> bytes and with any
  cipher whose headers leave room for a segment; packets leave in datagrams that fit and arrive as they were, the
  reader sees the byte stream in order, and the writer's loop ends.
\<close>

section \<open>A concrete environment\<close>

definition demo_env :: env where
  "demo_env = \<lparr>e_clock = (\<lambda>_. 0), e_now = (\<lambda>n. int n), e_rand = (\<lambda>i n. replicate n (of_nat i)),
     e_stale = replicate maxPacketSize 7, e_grow = (\<lambda>n. 2 * n), e_crc32 = (\<lambda>b. of_nat (length b)),
     e_salsa20 = (\<lambda>key nonce n. replicate n 1), e_rs_new = (\<lambda>_ _. True),
     e_rs_encode = xor_encode, e_rs_reconstruct = xor_rec\<rparr>"

definition demo_block :: "BlockCrypt option" where
  "demo_block = Some (newBlockCrypt \<lparr>BlockSize = 16, blk_Encrypt = toy_block\<rparr>)"

lemma length_xor_shard: "length (xor_shard a b) = min (length a) (length b)"
  by (simp add: xor_shard_def)

lemma xor_bounded: "rs_bounded xor_rec"
  unfolding rs_bounded_def
  by (auto simp: xor_rec_def length_xor_shard split: list.splits if_splits)

lemma demo_env_ok: "env_ok demo_env"
  by (simp add: env_ok_def demo_env_def rs_accepts_def xor_keeps_length xor_bounded)

lemma demo_block_wf: "block_wf demo_env demo_block"
  using crypt_ok_newBlockCrypt [of "\<lparr>BlockSize = 16, blk_Encrypt = toy_block\<rparr>"] toy_block_ok [of 16]
  by (simp add: demo_block_def newBlockCrypt_def del: crypt_ok.simps)

lemma demo_block_sizes: "cryptHeader demo_block = 20" "cryptTail demo_block = 0"
  by (simp_all add: demo_block_def newBlockCrypt_def cryptHeader_def cryptTail_def sess_consts)

lemma demo_session:
  obtains s where "newUDPSession demo_env c 2 1 l demo_block sn = Some s" "sess_wf demo_env s"
proof -
  have "rs_mds (e_rs_encode demo_env) (e_rs_reconstruct demo_env) (nat 2) (nat 1)"
    using xor_mds by (simp add: demo_env_def)
  then show ?thesis
    using newUDPSession_wf [OF demo_env_ok demo_block_wf, of 2 1 c l sn] that by (auto simp: demo_block_sizes)
qed

section \<open>Safety\<close>

text \<open>A cipher that leaves no room is refused when the session is made, by the panic \<^verbatim>\<open>Overhead too large\<close>.\<close>

lemma overhead_too_large:
  assumes "1376 \<le> cryptHeader block + cryptTail block"
  shows "newUDPSession env c d p l block sn = None"
proof -
  have "SetMtu m k = Some (- 1, k)" if "m \<le> 24" for m k using that by (simp add: SetMtu_def IKCP_OVERHEAD_def)
  moreover have "session_mtu 1400 s \<le> 24" if "s_headerSize s = cryptHeader block + n" "s_block s = block" for s n
    using assms that by (simp add: session_mtu_def maxPacketSize_def)
  ultimately show ?thesis by (simp add: newUDPSession_def sess_SetMtu_eq kcp_consts Let_def)
qed

text \<open>C18. A session of the supported sizes never panics: opened with a cipher whose nonce, checksum and tag take at most
  1367 bytes and with FEC parameters up to 256 shards, after any sequence of packets of at most \<^verbatim>\<open>maxPacketSize\<close>
  arbitrary bytes, reads, writes, out-of-band sends, timer updates, worker runs, settings with any arguments
  and closing, the next operation returns. The packet size is the one all read loops keep to; a \<^verbatim>\<open>PacketPusher\<close> that
  hands over a longer packet can make the session panic. With ciphers of 1376 bytes and more \<^verbatim>\<open>newUDPSession\<close> itself
  panics, as the code means it to.\<close>

theorem session_never_panics:
  assumes "env_ok env" "block_wf env block" "d + p \<le> 256" "cryptHeader block + cryptTail block \<le> 1367"
    and "0 < d \<and> 0 < p \<longrightarrow> rs_mds (e_rs_encode env) (e_rs_reconstruct env) (nat d) (nat p)"
  shows "\<exists>s0. newUDPSession env c d p l block sn = Some s0 \<and>
    (\<forall>s x. sess_reach env s0 s \<longrightarrow> deliverable x \<longrightarrow> (\<exists>s'. sess_exec env x s = Some s'))"
proof -
  obtain s0 where s0: "newUDPSession env c d p l block sn = Some s0" "sess_wf env s0"
    using newUDPSession_wf [OF assms] by blast
  have "\<exists>s'. sess_exec env x s = Some s'" if "sess_reach env s0 s" "deliverable x" for s x
    using sess_exec_wf [OF sess_reach_wf [OF that(1) s0(2) assms(1)] assms(1) that(2)] by blast
  with s0(1) show ?thesis by blast
qed

theorem session_never_panics_witness:
  "\<exists>s0. newUDPSession demo_env 7 2 1 False demo_block newSnmp = Some s0 \<and>
    (\<exists>s'. sess_exec demo_env (S_packetInput (replicate 100 255)) s0 = Some s')"
proof -
  have "rs_mds (e_rs_encode demo_env) (e_rs_reconstruct demo_env) (nat 2) (nat 1)"
    using xor_mds by (simp add: demo_env_def)
  then obtain s0 where s0: "newUDPSession demo_env 7 2 1 False demo_block newSnmp = Some s0"
      "\<forall>s x. sess_reach demo_env s0 s \<longrightarrow> deliverable x \<longrightarrow> (\<exists>s'. sess_exec demo_env x s = Some s')"
    using session_never_panics [OF demo_env_ok demo_block_wf, of 2 1 7 False newSnmp] by (auto simp: demo_block_sizes)
  have "deliverable (S_packetInput (replicate 100 255))" by (simp add: maxPacketSize_def)
  then have "\<exists>s'. sess_exec demo_env (S_packetInput (replicate 100 255)) s0 = Some s'"
    using s0(2) sess_start by blast
  with s0(1) show ?thesis by blast
qed

text \<open>C20. Every datagram fits: in every reachable state, whatever was written and whichever MTUs were set,
  each packet waiting to be sent has its full header space and room for the cipher's tag, and no
  datagram handed to the socket is longer than \<^verbatim>\<open>maxPacketSize\<close>.\<close>

theorem datagrams_fit:
  assumes "env_ok env" "block_wf env block" "d + p \<le> 256" "cryptHeader block + cryptTail block \<le> 1367"
    and "0 < d \<and> 0 < p \<longrightarrow> rs_mds (e_rs_encode env) (e_rs_reconstruct env) (nat d) (nat p)"
    and "newUDPSession env c d p l block sn = Some s0" "sess_reach env s0 s"
  shows "(\<forall>b\<in>set (s_wire s). length b \<le> maxPacketSize) \<and>
    (\<forall>r\<in>set (queue_list (s_postQueue s)). s_headerSize s \<le> length (req_buffer r) \<and>
       length (req_buffer r) + cryptTail (s_block s) \<le> maxPacketSize)"
proof -
  have "sess_wf env s0" using newUDPSession_wf [OF assms(1-5), of c l sn] assms(6) by auto
  from sess_reach_wf [OF assms(7) this assms(1)] show ?thesis
    by (simp add: sess_wf_def queue_ok_def req_ok_def)
qed

theorem datagrams_fit_witness:
  "\<exists>s0. newUDPSession demo_env 7 2 1 False demo_block newSnmp = Some s0 \<and> (\<forall>b\<in>set (s_wire s0). length b \<le> maxPacketSize)"
proof -
  have mds: "0 < (2 :: int) \<and> 0 < (1 :: int) \<longrightarrow> rs_mds (e_rs_encode demo_env) (e_rs_reconstruct demo_env) (nat 2) (nat 1)"
    using xor_mds by (simp add: demo_env_def)
  obtain s0 where s0: "newUDPSession demo_env 7 2 1 False demo_block newSnmp = Some s0" by (rule demo_session)
  from datagrams_fit [OF demo_env_ok demo_block_wf _ _ mds s0 sess_start] s0 show ?thesis
    by (auto simp: demo_block_sizes)
qed

section \<open>The outgoing and the incoming pipeline\<close>

text \<open>What the network packet of a protocol packet carries under the cipher.\<close>

definition fec_wrap :: "fecEncoder option \<Rightarrow> byte list \<Rightarrow> byte list" where
  "fec_wrap e p = (case e of None \<Rightarrow> p
     | Some enc \<Rightarrow> fec_header (fe_next enc) typeData @ PutUint16 (of_nat (length p + 2)) @ p)"

lemma fec_stage_wrap:
  assumes wf: "sess_wf env s" and h: "length h = s_headerSize s" and fits: "length p + head_room s \<le> maxPacketSize"
    and f: "fec_stage env \<lparr>req_buffer = h @ p, req_oob = False\<rparr> s = Some (buf, ecc, s')"
  shows "drop (cryptHeader (s_block s)) buf = fec_wrap (s_fecEncoder s) p"
proof (cases "s_fecEncoder s")
  case None
  then have "s_headerSize s = cryptHeader (s_block s)" using wf by (simp add: sess_wf_def codec_ok_def encoder_ok_def)
  then show ?thesis using None f h by (auto simp: fec_stage_def fec_wrap_def)
next
  case (Some enc)
  let ?ch = "cryptHeader (s_block s)"
  have e: "fe_wf enc" "fe_headerOffset enc = ?ch" "s_headerSize s = ?ch + 8"
      "rs_mds (e_rs_encode env) (e_rs_reconstruct env) (fe_dataShards enc) (fe_parityShards enc)"
    using wf Some by (simp_all add: sess_wf_def codec_ok_def encoder_ok_def)
  have b: "fe_headerOffset enc + 8 \<le> length (h @ p)" "length (h @ p) \<le> maxPacketSize"
    using h fits e(2,3) by (simp_all add: head_room_def)
  have "buf = data_packet ?ch (fe_next enc) (h @ p)"
    using encode_wf [OF e(1) b e(4), of "e_now env (s_calls s)" maxFECEncodeLatency] f Some e(2)
    by (auto simp: fec_stage_def)
  then show ?thesis using Some h e(3) by (simp add: data_packet_def fec_wrap_def)
qed

text \<open>C19. The packet pipeline is transparent: a protocol packet that passes FEC encoding and encryption
  in \<^verbatim>\<open>postProcess\<close> is decrypted and verified by the peer's \<^verbatim>\<open>packetInput\<close> to the same packet, behind
  the FEC header when FEC is on. This holds for AEAD ciphers and for ciphers with a nonce and CRC,
  whatever the reused buffer held in its header space and whatever nonce was drawn.\<close>

theorem pipeline_transparent:
  assumes "sess_wf env s" "env_ok env" "length h = s_headerSize s" "length p + head_room s \<le> maxPacketSize"
  shows "\<exists>m ms s'. process_one env \<lparr>req_buffer = h @ p, req_oob = False\<rparr> s = Some (m # ms, s') \<and>
    open_packet env (s_block s) m = Some (Opened (fec_wrap (s_fecEncoder s) p))"
proof -
  let ?r = "\<lparr>req_buffer = h @ p, req_oob = False\<rparr>"
  have r: "req_ok s ?r" using assms(3,4) by (simp add: req_ok_def head_room_def)
  have bw: "block_wf env (s_block s)" using assms(1) by (simp add: sess_wf_def)
  obtain buf ecc s1 e n where 1: "fec_stage env ?r s = Some (buf, ecc, s1)" "pkt_ok (s_block s) buf"
      "\<forall>e\<in>set ecc. pkt_ok (s_block s) e" "s1 = s\<lparr>s_fecEncoder := e, s_calls := n\<rparr>"
    using fec_stage_wf [OF assms(1) r] by blast
  obtain m n1 where 2: "seal_packet env (s_block s) buf s1 = Some (m, s1\<lparr>s_calls := n1\<rparr>)"
      "open_packet env (s_block s) m = Some (Opened (drop (cryptHeader (s_block s)) buf))"
    using seal_packet_spec [OF bw assms(2) 1(2)] by blast
  obtain bs n2 where 3: "seal_packets env (s_block s) ecc (s1\<lparr>s_calls := n1\<rparr>) = Some (bs, s1\<lparr>s_calls := n1\<rparr>\<lparr>s_calls := n2\<rparr>)"
    using seal_packets_wf [OF bw assms(2) 1(3)] by blast
  have "process_one env ?r s = Some (m # replicate (nat (s_dup s)) m @ bs, s1\<lparr>s_calls := n2\<rparr>)"
    using 1(1,4) 2(1) 3 by (simp add: process_one_def)
  with 2(2) fec_stage_wrap [OF assms(1,3,4) 1(1)] show ?thesis by auto
qed

theorem pipeline_transparent_witness:
  "\<exists>s m ms s'. newUDPSession demo_env 7 2 1 False demo_block newSnmp = Some s \<and>
    process_one demo_env \<lparr>req_buffer = replicate 28 9 @ replicate 24 3, req_oob = False\<rparr> s = Some (m # ms, s') \<and>
    open_packet demo_env demo_block m = Some (Opened (fec_wrap (s_fecEncoder s) (replicate 24 3)))"
proof -
  obtain s where s: "newUDPSession demo_env 7 2 1 False demo_block newSnmp = Some s" "sess_wf demo_env s"
    by (rule demo_session)
  have "s_block s = demo_block" "s_headerSize s = 28"
    using s(1) by (auto simp: newUDPSession_def sess_SetMtu_eq bind_eq_Some_conv sess_count_def newFECEncoder_def
        demo_env_def demo_block_sizes sess_consts Let_def split: if_splits)
  with pipeline_transparent [OF s(2) demo_env_ok, of "replicate 28 9" "replicate 24 3"] s(1) show ?thesis
    by (auto simp: head_room_def demo_block_sizes maxPacketSize_def)
qed

section \<open>Reading and writing\<close>

text \<open>C21. The reader sees the byte stream: a read returns no data only when no complete non-empty message is
  waiting, and then changes nothing; otherwise it returns between one byte and a full buffer, namely the
  next bytes of the stream, and what remains is the rest of the stream followed by segments
  that became deliverable. Nothing is lost, repeated or reordered for any sequence of buffer sizes, and
  the read event is set again while data is left.\<close>

theorem read_in_order:
  assumes "sess_wf env s"
  shows "s_input s = [] \<and> peek_list (ring_list (rcv_queue (s_kcp s))) \<le> 0 \<and> readLocked blen s = Some (0, [], False, s) \<or>
    (\<exists>n bs s' moved. readLocked blen s = Some (n, bs, True, s') \<and> sess_wf env s' \<and> n = length bs \<and> n \<le> blen \<and>
      (0 < blen \<longrightarrow> 0 < n) \<and> read_stream s @ moved = bs @ read_stream s' \<and>
      (s_input s' \<noteq> [] \<or> 0 < peek_list (ring_list (rcv_queue (s_kcp s'))) \<longrightarrow> s_chReadEvent s'))"
  using readLocked_spec [OF assms, of blen] unfolding read_result_def by blast

theorem read_in_order_witness:
  "\<exists>s. newUDPSession demo_env 7 2 1 False demo_block newSnmp = Some s \<and>
    (s_input s = [] \<longrightarrow> peek_list (ring_list (rcv_queue (s_kcp s))) \<le> 0 \<longrightarrow>
      (\<exists>r. readLocked 10 s = Some r))"
proof -
  obtain s where s: "newUDPSession demo_env 7 2 1 False demo_block newSnmp = Some s" "sess_wf demo_env s"
    by (rule demo_session)
  from read_in_order [OF s(2), of 10] s(1) show ?thesis by blast
qed

text \<open>C22. Writing ends: the loop of \<^verbatim>\<open>writeBuffersLocked\<close> that cuts a buffer into segments terminates for every
  list of buffers, because a session's segment size is never zero; the bytes are queued in order behind
  those already there. A write is refused exactly when as many segments wait as the send window
  allows, and then nothing changes; otherwise every byte is accepted.\<close>

theorem write_terminates:
  assumes "sess_wf env s" "env_ok env"
  shows "(\<exists>k. send_buffers v (s_kcp s) = Some k \<and>
      msg_bytes (ring_list (snd_queue k)) = msg_bytes (ring_list (snd_queue (s_kcp s))) @ concat v) \<and>
    (\<exists>s'. sess_wf env s' \<and>
      (if WaitSnd (s_kcp s) < unat (snd_wnd (s_kcp s)) then writeBuffers env v s = Some (length (concat v), True, s')
       else writeBuffers env v s = Some (0, False, s) \<and> s' = s))"
proof -
  obtain L where L: "kcp_wf L (s_kcp s)" "L + head_room s \<le> maxPacketSize"
    using assms(1) by (auto simp: sess_wf_def kcp_fits_def)
  then have "L \<le> maxPacketSize" by simp
  from send_buffers_wf [OF this L(1), of v] writeBuffers_spec [OF assms, of v] show ?thesis by blast
qed

theorem write_terminates_witness:
  "\<exists>s. newUDPSession demo_env 7 2 1 False demo_block newSnmp = Some s \<and>
    (\<exists>k. send_buffers [replicate 5000 1] (s_kcp s) = Some k)"
proof -
  obtain s where s: "newUDPSession demo_env 7 2 1 False demo_block newSnmp = Some s" "sess_wf demo_env s"
    by (rule demo_session)
  from write_terminates [OF s(2) demo_env_ok, of "[replicate 5000 1]"] s(1) show ?thesis by blast
qed

end
