(* ===== verification/Stalled_Reader.thy ===== *)
theory Stalled_Reader
  imports Session_Events Session_Properties
begin

text \<open>
  A message of no bytes. \<^verbatim>\<open>Send\<close> never makes one, but a peer's packet can hold a data segment of length 0, and \<^verbatim>\<open>Input\<close> queues
  it as a message. \<^verbatim>\<open>readLocked\<close> takes a message of size 0 for no message. The lemmas show that no operation of
  a session ever removes it from the head of the queue: everything else only appends to that queue.
\<close>

section \<open>The receive queue only grows\<close>

definition appends :: "kcp \<Rightarrow> kcp \<Rightarrow> bool" where
  "appends k k' \<longleftrightarrow> (\<exists>xs. ring_list (rcv_queue k') = ring_list (rcv_queue k) @ xs)"

lemma appends_refl [simp]: "appends k k"
  by (simp add: appends_def)

lemma appends_trans: "appends k k1 \<Longrightarrow> appends k1 k2 \<Longrightarrow> appends k k2"
  by (fastforce simp: appends_def)

lemma appends_same: "rcv_queue k' = rcv_queue k \<Longrightarrow> appends k k'"
  by (simp add: appends_def)

lemma appends_flow: "same_flow k k' \<Longrightarrow> appends k k'"
  by (simp add: appends_same same_flow_def)

lemma rcv_move_appends: "rcv_wf k \<Longrightarrow> appends k (rcv_move k)"
  using rcv_move_moves [of k] by (auto simp: appends_def elim!: movesE)

lemma parse_data_appends:
  assumes wf: "rcv_wf k" and P: "parse_data s k = Some (r, k')"
  shows "appends k k'"
proof -
  let ?s = "s\<lparr>seg_data := Some (seg_bytes s)\<rparr>"
  let ?k = "k\<lparr>pool_out := pool_out k + 1, rcv_buf := segmentHeap_Push (rcv_buf k) ?s\<rparr>"
  consider "\<not> in_rcv_window k (seg_sn s)"
    | "in_rcv_window k (seg_sn s)" "segmentHeap_Has (rcv_buf k) (seg_sn s)"
    | "in_rcv_window k (seg_sn s)" "\<not> segmentHeap_Has (rcv_buf k) (seg_sn s)" by blast
  then show ?thesis
  proof cases
    case 2
    then show ?thesis using P rcv_move_appends [OF wf] by (simp add: parse_data_repeat)
  next
    case 3
    have "length (seg_bytes s) \<le> maxPacketSize"
      using P 3 by (auto simp: parse_data_def in_rcv_window_def pool_Get_def Let_def split: if_splits)
    then have "k' = rcv_move ?k" using P 3 by (simp add: parse_data_new)
    moreover have "rcv_wf ?k" using wf 3 by (intro rcv_wf_insert) simp_all
    ultimately show ?thesis using rcv_move_appends [of ?k] by (simp add: appends_def)
  qed (use P in \<open>simp add: parse_data_outside\<close>)
qed

lemma input_push_appends:
  assumes "rcv_wf k" "input_push pt h payload k = Some k'"
  shows "appends k k'"
proof -
  have "rcv_wf (ack_push sn ts k)" for sn ts
    by (rule rcv_wf_cong [OF assms(1)]) (simp_all add: ack_push_def)
  then have "appends (ack_push sn ts k) k1" if "parse_data s (ack_push sn ts k) = Some (r, k1)" for sn ts s r k1
    using parse_data_appends that by blast
  then show ?thesis
    using assms(2) by (fastforce simp: input_push_def bind_eq_Some_conv appends_def ack_push_def Let_def count_snmp_def split: if_splits)
qed

lemma ack_effect_appends: "ack_effect k k' \<Longrightarrow> appends k k'"
  by (auto simp: ack_effect_def appends_def)

lemma input_seg_appends:
  assumes wf: "kcp_wf L (in_k st)" and I: "input_seg pt h payload st = Some st'"
  shows "appends (in_k st) (in_k st')"
proof -
  define k where "k = (if pt = IKCP_PACKET_REGULAR then (in_k st)\<lparr>rmt_wnd := ucast (h_wnd h)\<rparr> else in_k st)"
  have k: "kcp_wf L k" "appends (in_k st) k" using wf kcp_wf_rmt_wnd [OF wf] by (simp_all add: k_def appends_def)
  have s: "snd_wf k" using k(1) by (simp add: kcp_wf_def)
  obtain k1 where k1: "parse_una (h_una h) k = Some (una_count (h_una h) k, k1)" "ack_effect k (shrink_buf k1)" "kcp_wf L (shrink_buf k1)"
    using una_shrink_wf [OF s, of "h_una h"] ack_effect_wf [OF k(1)] by blast
  have s1: "snd_wf (shrink_buf k1)" "rcv_wf (shrink_buf k1)" using k1(3) by (simp_all add: kcp_wf_def)
  obtain k2 where k2: "parse_ack (h_sn h) (shrink_buf k1) = Some k2" "ack_effect (shrink_buf k1) k2" "snd_wf k2"
    using parse_ack_wf [OF s1(1)] by blast
  obtain r k3 where k3: "parse_fastack (h_sn h) (h_ts h) k2 = Some (r, k3)" "ack_effect k2 k3"
    using parse_fastack_wf [OF k2(3)] by blast
  have a: "appends (in_k st) (shrink_buf k1)" "appends (in_k st) k3"
    using appends_trans [OF k(2)] ack_effect_appends k1(2) k2(2) k3(2) appends_trans by blast+
  have p: "appends (in_k st) k4" if "input_push pt h payload (shrink_buf k1) = Some k4" for k4
    using appends_trans [OF a(1) input_push_appends [OF s1(2) that]] .
  have "in_k st' = k3 \<or> in_k st' = shrink_buf k1 \<or> in_k st' = (shrink_buf k1)\<lparr>probe := probe (shrink_buf k1) OR IKCP_ASK_TELL\<rparr> \<or>
      input_push pt h payload (shrink_buf k1) = Some (in_k st')"
    using I k1(1) k2(1) k3(1) unfolding input_seg_def Let_def k_def [symmetric]
    by (auto simp: bind_eq_Some_conv split: if_splits)
  then show ?thesis using a p by (auto simp: appends_def)
qed

lemma input_loop_appends:
  "input_loop pt data st = Some r \<Longrightarrow> kcp_wf L (in_k st) \<Longrightarrow> payloads_fit data \<Longrightarrow>
     (case r of Inl (c, k) \<Rightarrow> appends (in_k st) k | Inr st' \<Rightarrow> appends (in_k st) (in_k st'))"
proof (induction pt data st rule: input_loop.induct)
  case (1 pt data st)
  show ?case
  proof (cases "length data < IKCP_OVERHEAD")
    case True
    then show ?thesis using "1.prems"(1) by (auto simp: input_loop.simps [of pt data st])
  next
    case False
    then obtain h where h: "parse_header data = Some h" using parse_header_defined [of data] by auto
    let ?d = "drop IKCP_OVERHEAD data"
    let ?bad = "h_conv h \<noteq> conv (in_k st) \<or> length ?d < unat (h_len h) \<or>
      h_cmd h \<notin> {IKCP_CMD_PUSH, IKCP_CMD_ACK, IKCP_CMD_WASK, IKCP_CMD_WINS}"
    show ?thesis
    proof (cases ?bad)
      case True
      then show ?thesis using "1.prems"(1) False h unfolding input_loop.simps [of pt data st] by (auto simp: Let_def split: if_splits)
    next
      case ok: False
      then obtain st' where st': "input_seg pt h (take (unat (h_len h)) ?d) st = Some st'"
          "input_loop pt (drop (unat (h_len h)) ?d) st' = Some r"
        using "1.prems"(1) False h unfolding input_loop.simps [of pt data st] by (auto simp: Let_def split: option.splits)
      have fit: "h_cmd h = IKCP_CMD_PUSH \<Longrightarrow> length (take (unat (h_len h)) ?d) \<le> maxPacketSize" "payloads_fit (drop (unat (h_len h)) ?d)"
        using "1.prems"(3) False h ok unfolding payloads_fit.simps [of data] by (auto simp: Let_def split: if_splits)
      have "\<exists>x. input_seg pt h (take (unat (h_len h)) ?d) st = Some x \<and> kcp_wf L (in_k x) \<and> quiet (in_k st) (in_k x)"
        by (rule input_seg_wf [OF "1.prems"(2)]) (use fit(1) in simp)
      then have "kcp_wf L (in_k st')" using st'(1) by auto
      then have "case r of Inl (c, k) \<Rightarrow> appends (in_k st') k | Inr st'' \<Rightarrow> appends (in_k st') (in_k st'')"
        by (intro "1.IH" [OF False h refl]) (use ok st' fit(2) in auto)
      then show ?thesis using appends_trans [OF input_seg_appends [OF "1.prems"(2) st'(1)]] by (auto split: sum.splits)
    qed
  qed
qed

lemma input_tail_appends:
  assumes "kcp_wf L (in_k st)" "input_cwnd una (input_rtt clk pt st) = Some k1" "input_flush clk fl nd k1 = Some k'"
  shows "appends (in_k st) k'"
proof -
  have r: "kcp_wf L (input_rtt clk pt st)" using input_rtt_wf [OF assms(1)] by blast
  obtain c i where c: "k1 = (input_rtt clk pt st)\<lparr>cwnd := c, incr := i\<rparr>"
    using input_cwnd_eq [OF kcp_wf_mss(4) [OF r], of una] assms(2) by auto
  have "kcp_wf L k1" using r by (simp add: c)
  then have "same_flow k1 k'" using assms(3) flush_flow [of L k1 clk] by (auto simp: input_flush_def split: if_splits)
  moreover have "rcv_queue k1 = rcv_queue (in_k st)"
    by (auto simp: c input_rtt_def currentMs_def Let_def update_ack_frame)
  ultimately show ?thesis by (simp add: appends_same same_flow_def)
qed

lemma Input_appends:
  assumes wf: "kcp_wf L k" and fit: "payloads_fit d" and I: "Input clk d pt nd k = Some (r, k')"
  shows "appends k k'"
proof (cases "length d < IKCP_OVERHEAD")
  case False
  let ?st = "\<lparr>in_k = k, in_latest = 0, in_updateRTT = False, in_segs = 0, in_flush = False\<rparr>"
  have w: "kcp_wf L (in_k ?st)" using wf by simp
  obtain x where x: "input_loop pt d ?st = Some x" using I False by (auto simp: Input_def split: option.splits)
  note a = input_loop_appends [OF x w fit] and l = input_loop_wf [OF w fit, of pt]
  show ?thesis
  proof (cases x)
    case (Inl y)
    then show ?thesis using a I False x by (cases y) (auto simp: Input_def)
  next
    case (Inr st)
    let ?s = "st\<lparr>in_k := count_snmp (addInSegs (in_segs st)) (in_k st)\<rparr>"
    have "kcp_wf L (in_k st)" "appends k (in_k st)" using a l x Inr by auto
    then have s: "kcp_wf L (in_k ?s)" "appends k (in_k ?s)" by (simp_all add: appends_def) (simp add: count_snmp_def)
    obtain k1 where "input_cwnd (snd_una k) (input_rtt clk pt ?s) = Some k1" "input_flush clk (in_flush ?s) nd k1 = Some k'"
      using I False x Inr by (auto simp: Input_def Let_def bind_eq_Some_conv)
    then show ?thesis using appends_trans [OF s(2) input_tail_appends [OF s(1)]] by blast
  qed
qed (use I in \<open>simp add: Input_def\<close>)

section \<open>Through the session\<close>

text \<open>The bytes a reader can have are those left of a message and those of the queue.\<close>

definition read_grows :: "UDPSession \<Rightarrow> UDPSession \<Rightarrow> bool" where
  "read_grows s s' \<longleftrightarrow> s_input s' = s_input s \<and> appends (s_kcp s) (s_kcp s')"

lemma read_grows_refl [simp]: "read_grows s s"
  by (simp add: read_grows_def)

lemma read_grows_trans: "read_grows s s1 \<Longrightarrow> read_grows s1 s2 \<Longrightarrow> read_grows s s2"
  using appends_trans by (auto simp: read_grows_def)

lemma read_grows_steady: "steady s s' \<Longrightarrow> same_flow (s_kcp s) (s_kcp s') \<Longrightarrow> read_grows s s'"
  using appends_flow by (simp add: read_grows_def steady_def)

lemma read_grows_frame [simp]:
  "read_grows s (sess_count f s') = read_grows s s'" "read_grows (sess_count f s) s' = read_grows s s'"
  "read_grows s (s'\<lparr>s_fecDecoder := d\<rparr>) = read_grows s s'" "read_grows (s\<lparr>s_fecDecoder := d\<rparr>) s' = read_grows s s'"
  "read_grows s (notifyReadEvent s') = read_grows s s'" "read_grows s (notifyWriteEvent s') = read_grows s s'"
  by (simp_all add: read_grows_def sess_count_def)

lemma sess_Input_grows:
  assumes wf: "sess_wf env s" and d: "length data \<le> maxPacketSize" and I: "sess_Input env data pt s = Some (r, s')"
  shows "read_grows s s'"
proof -
  obtain k where k: "Input (e_clock env) data pt (s_ackNoDelay s) (s_kcp s) = Some (r, k)" "set_kcp env k s = Some s'"
    using I by (auto simp: sess_Input_def bind_eq_Some_conv)
  obtain L where "kcp_wf L (s_kcp s)" using sess_kcp_wf [OF wf] by blast
  moreover have "payloads_fit data" using d by (intro payloads_fit_short) simp
  ultimately have "appends (s_kcp s) k" using Input_appends k(1) by blast
  then show ?thesis using set_kcp_steady [OF k(2)] by (simp add: read_grows_def steady_def appends_def)
qed

lemma input_recovered_grows:
  "input_recovered env rs e s = Some (n, s') \<Longrightarrow> sess_wf env s \<Longrightarrow> env_ok env \<Longrightarrow> \<forall>r\<in>set rs. length r \<le> maxPacketSize \<Longrightarrow> read_grows s s'"
proof (induction rs arbitrary: e s)
  case (Cons r rs)
  show ?case
  proof (cases "recovered_payload r")
    case None
    then show ?thesis using Cons by simp
  next
    case (Some p)
    then obtain ret s1 where s1: "sess_Input env p IKCP_PACKET_FEC s = Some (ret, s1)"
        "input_recovered env rs (if ret \<noteq> 0 then Suc e else e) s1 = Some (n, s')"
      using Cons.prems(1) by (auto simp: bind_eq_Some_conv)
    have p: "length p \<le> maxPacketSize" using recovered_payload_length [OF Some] Cons.prems(4) by auto
    have "sess_wf env s1" using sess_Input_wf [OF Cons.prems(2,3) p, of IKCP_PACKET_FEC] s1(1) by auto
    then show ?thesis using read_grows_trans [OF sess_Input_grows [OF Cons.prems(2) p s1(1)]] Cons.IH [OF s1(2)] Cons.prems(3,4) by simp
  qed
qed simp

lemma notify_after_input_grows: "notify_after_input s = Some s' \<Longrightarrow> read_grows s s'"
  by (auto simp: notify_after_input_def Let_def bind_eq_Some_conv split: if_splits)

lemma input_fec_grows:
  assumes wf: "sess_wf env s" and env: "env_ok env" and len: "length data \<le> maxPacketSize" and I: "input_fec env data s = Some s'"
  shows "read_grows s s'"
proof (cases "length data < fecHeaderSizePlus2")
  case False
  then have l6: "6 \<le> length data" by (simp add: sess_consts)
  have rs: "rs_accepts (e_rs_new env)" "rs_keeps_length (e_rs_reconstruct env)" "rs_bounded (e_rs_reconstruct env)"
    using env by (simp_all add: env_ok_def)
  from I False obtain dec flag ret s1 rec dec' errs s2 s3 where
      0: "(case s_fecDecoder s of Some d \<Rightarrow> Some d | None \<Rightarrow> newFECDecoder (e_rs_new env) newSnmp 1 1) = Some dec"
    and 1: "(if flag = typeData then sess_Input env (drop fecHeaderSizePlus2 data) IKCP_PACKET_REGULAR (s\<lparr>s_fecDecoder := Some dec\<rparr>)
           else Some (0, s\<lparr>s_fecDecoder := Some dec\<rparr>)) = Some (ret, s1)"
    and d: "decode (e_rs_new env) (e_rs_reconstruct env) data dec = Some (rec, dec')"
    and 2: "input_recovered env rec (if ret \<noteq> 0 then 1 else 0) (s1\<lparr>s_fecDecoder := Some dec'\<rparr>) = Some (errs, s2)"
    and 3: "notify_after_input s2 = Some s3" "s' = (if errs > 0 then sess_count (addKCPInErrors (of_nat errs)) s3 else s3)"
    unfolding input_fec_def Let_def bind_eq_Some_conv by (simp add: bind_eq_Some_conv) metis
  have dec: "fd_wf dec" using 0 wf newFECDecoder_wf by (fastforce simp: sess_parts decoder_ok_def split: option.splits)
  have w: "sess_wf env (s\<lparr>s_fecDecoder := Some dec\<rparr>)" by (rule sess_wf_decoder [OF wf dec])
  have l8: "length (drop fecHeaderSizePlus2 data) \<le> maxPacketSize" using len by simp
  have s1: "sess_wf env s1" "read_grows s s1"
    using 1 w sess_Input_wf [OF w env l8, of IKCP_PACKET_REGULAR] sess_Input_grows [OF w l8] by (auto split: if_splits)
  have "fd_wf dec'" using decode_wf [OF dec l6 len rs(1,2)] d by auto
  then have w1: "sess_wf env (s1\<lparr>s_fecDecoder := Some dec'\<rparr>)" by (rule sess_wf_decoder [OF s1(1)])
  have "\<forall>x\<in>set rec. length x \<le> maxPacketSize" by (rule decode_bounded [OF dec l6 len rs(3,2) d])
  then have "read_grows s s2" using read_grows_trans [OF s1(2)] input_recovered_grows [OF 2 w1 env] by simp
  then show ?thesis using read_grows_trans notify_after_input_grows [OF 3(1)] 3(2) by auto
qed (use I in \<open>auto simp: input_fec_def\<close>)

lemma kcpInput_grows:
  assumes wf: "sess_wf env s" and env: "env_ok env" and len: "length data \<le> maxPacketSize" and I: "kcpInput env data s = Some s'"
  shows "read_grows s s'"
proof -
  let ?s = "sess_count (addInBytes (length data)) (sess_count increaseInPkts s)"
  have w: "sess_wf env ?s" using wf by simp
  consider (fec) "input_fec env data ?s = Some s'" | (oob) "input_oob data ?s = Some s'" | (plain) "input_plain env data ?s = Some s'"
    using I by (auto simp: kcpInput_def Let_def bind_eq_Some_conv split: if_splits)
  then show ?thesis
  proof cases
    case fec
    then show ?thesis using input_fec_grows [OF w env len] by simp
  next
    case oob
    then show ?thesis
      by (auto simp: input_oob_def Let_def bind_eq_Some_conv read_grows_def sess_count_def split: if_splits)
  next
    case plain
    then obtain ret s1 where s1: "sess_Input env data IKCP_PACKET_REGULAR ?s = Some (ret, s1)"
        "notify_after_input (if ret \<noteq> 0 then sess_count (addKCPInErrors 1) s1 else s1) = Some s'"
      by (auto simp: input_plain_def Let_def bind_eq_Some_conv)
    have "read_grows s (if ret \<noteq> 0 then sess_count (addKCPInErrors 1) s1 else s1)" using sess_Input_grows [OF w len s1(1)] by simp
    then show ?thesis using read_grows_trans notify_after_input_grows [OF s1(2)] by blast
  qed
qed

lemma packetInput_grows:
  assumes wf: "sess_wf env s" and env: "env_ok env" and len: "length data \<le> maxPacketSize" and I: "packetInput env data s = Some s'"
  shows "read_grows s s'"
proof -
  have "block_wf env (s_block s)" using wf by (simp add: sess_wf_def)
  from open_packet_wf [OF this len] obtain r where r: "open_packet env (s_block s) data = Some r"
    "\<forall>d. r = Opened d \<longrightarrow> length d \<le> maxPacketSize" by blast
  then show ?thesis using I kcpInput_grows [OF wf env] by (cases r) (auto simp: packetInput_def split: if_splits)
qed

lemma writeBuffers_grows:
  assumes wf: "sess_wf env s" and env: "env_ok env" and W: "writeBuffers env v s = Some (n, ok, s')"
  shows "read_grows s s'"
  using assms by (cases rule: writeBuffers_cases) (simp_all add: read_grows_def steady_def appends_same sess_count_def)

text \<open>Every operation but a read leaves the queue as it is or appends to it.\<close>

lemma sess_exec_grows:
  assumes wf: "sess_wf env s" and env: "env_ok env" and x: "deliverable x" and E: "sess_exec env x s = Some s'" and r: "\<And>n. x \<noteq> S_Read n"
  shows "read_grows s s'"
proof (cases x)
  case (S_packetInput data)
  then show ?thesis using packetInput_grows [OF wf env] x E by simp
next
  case (S_Read n)
  then show ?thesis using r by blast
next
  case (S_Write v)
  then show ?thesis using E writeBuffers_grows [OF wf env] by auto
next
  case S_update
  show ?thesis
  proof (cases "s_die s")
    case False
    then obtain nu s1 where s1: "sess_flush env s = Some (nu, s1)" "s' = (if writable s1 then notifyWriteEvent s1 else s1)"
      using E S_update by (auto simp: update_def Let_def bind_eq_Some_conv writable_def)
    then show ?thesis using read_grows_steady sess_flush_flow [OF wf s1(1)] by simp
  qed (use E S_update in \<open>simp add: update_def\<close>)
next
  case (S_SendOOB data)
  then show ?thesis using E SendOOB_idle [of env data s] by (auto simp: idle_def intro!: read_grows_steady)
next
  case S_worker
  then show ?thesis using E worker_step_idle [of env s s'] by (auto simp: idle_def intro!: read_grows_steady)
next
  case (S_SetMtu m)
  then show ?thesis using E SetMtu_flow appends_flow by (fastforce simp: sess_SetMtu_eq bind_eq_Some_conv read_grows_def)
next
  case S_ResetRTO
  have "ring_wf (snd_buf (s_kcp s))" using sess_kcp_wf [OF wf] by (auto simp: kcp_wf_def snd_wf_def inflight_wf_def)
  then show ?thesis using E S_ResetRTO ResetRTO_flow appends_flow by (auto simp: sess_ResetRTO_def read_grows_def)
next
  case S_Close
  show ?thesis
  proof (cases "s_die s")
    case False
    then obtain nu s1 where s1: "sess_flush env s = Some (nu, s1)"
        "s' = discardPostProcess (callReadNotify (sess_count decreaseCurrEstab (s1\<lparr>s_die := True, s_ppClosing := True\<rparr>)))"
      using E S_Close by (auto simp: sess_Close_def Let_def bind_eq_Some_conv)
    have "read_grows s s1" using read_grows_steady sess_flush_flow [OF wf s1(1)] by blast
    then show ?thesis by (simp add: s1(2) discardPostProcess_def callReadNotify_def sess_count_def read_grows_def)
  qed (use E S_Close in \<open>simp add: sess_Close_def\<close>)
qed (use E in \<open>auto simp: SetWindowSize_def WndSize_def SetNoDelay_def NoDelay_def SetStreamMode_def SetACKNoDelay_def SetWriteDelay_def SetDUP_def
    SetOOBHandler_def SetReadNotify_def notifyReadError_def callReadNotify_def read_grows_def appends_def Let_def split: if_splits\<close>)

section \<open>The reader\<close>

definition stalled :: "segment \<Rightarrow> UDPSession \<Rightarrow> bool" where
  "stalled m s \<longleftrightarrow> s_input s = [] \<and> (\<exists>rest. ring_list (rcv_queue (s_kcp s)) = m # rest)"

lemma stalled_grows: "read_grows s s' \<Longrightarrow> stalled m s \<Longrightarrow> stalled m s'"
  by (auto simp: read_grows_def stalled_def appends_def)

lemma stalled_read:
  assumes "sess_wf env s" "stalled m s" "seg_frg m = 0" "seg_bytes m = []"
  shows "PeekSize (s_kcp s) = Some 0" "readLocked blen s = Some (0, [], False, s)"
proof -
  show p: "PeekSize (s_kcp s) = Some 0" using sess_PeekSize [OF assms(1)] assms(2-4) by (auto simp: stalled_def peek_list_def)
  then show "readLocked blen s = Some (0, [], False, s)" using assms(2) by (simp add: readLocked_def stalled_def)
qed

lemma stalled_reach:
  assumes "sess_reach env s0 s" "sess_wf env s0" "env_ok env" "stalled m s0" "seg_frg m = 0" "seg_bytes m = []"
  shows "stalled m s"
  using assms
proof (induction rule: sess_reach.induct)
  case (sess_step s x s')
  have wf: "sess_wf env s" using sess_reach_wf [OF sess_step.hyps(1)] sess_step.prems by blast
  have st: "stalled m s" using sess_step by blast
  show ?case
  proof (cases "\<exists>n. x = S_Read n")
    case True
    then have "s' = s" using sess_step.hyps(3) stalled_read(2) [OF wf st] sess_step.prems by (auto simp: sess_read_def)
    then show ?thesis using st by simp
  next
    case False
    then show ?thesis using stalled_grows [OF sess_exec_grows [OF wf _ sess_step.hyps(2,3)] st] sess_step.prems by blast
  qed
qed

text \<open>C33. A message of no bytes stops the reader for good. When the first message that waits for the reader is empty, it stays
  first whatever happens to the session: packets, however many messages they bring, timer updates, writes, settings,
  reads of any size, closing. In every state that follows, a read of any size reports no data and changes
  nothing.\<close>

theorem empty_message_stalls:
  assumes "sess_wf env s0" "env_ok env" "s_input s0 = []"
    and "ring_list (rcv_queue (s_kcp s0)) = m # rest" "seg_frg m = 0" "seg_bytes m = []" "sess_reach env s0 s"
  shows "(\<exists>later. ring_list (rcv_queue (s_kcp s)) = m # later) \<and> PeekSize (s_kcp s) = Some 0 \<and>
    (\<forall>blen. readLocked blen s = Some (0, [], False, s))"
proof -
  have "stalled m s0" using assms(3,4) by (simp add: stalled_def)
  then have "stalled m s" by (rule stalled_reach [OF assms(7,1,2) _ assms(5,6)])
  moreover have "sess_wf env s" by (rule sess_reach_wf [OF assms(7,1,2)])
  ultimately show ?thesis using stalled_read [of env s m] assms(5,6) by (auto simp: stalled_def)
qed

text \<open>One packet brings an empty message to a new session, the next a message of three bytes.\<close>

definition push_frame :: "u32 \<Rightarrow> byte list \<Rightarrow> byte list" where
  "push_frame n b = frame (zero_segment\<lparr>seg_conv := 7, seg_cmd := IKCP_CMD_PUSH, seg_wnd := 32, seg_sn := n, seg_data := Some b\<rparr>)"

definition after_packets :: "byte list list \<Rightarrow> UDPSession option" where
  "after_packets ps = fold (\<lambda>p s. Option.bind s (packetInput demo_env p)) ps (newUDPSession demo_env 7 0 0 False None newSnmp)"

lemma empty_run:
  "map_option (\<lambda>s. (s_input s, map (\<lambda>m. (seg_frg m, seg_bytes m)) (ring_list (rcv_queue (s_kcp s))))) (after_packets [push_frame 0 []]) =
     Some ([], [(0, [])])"
  "map_option (\<lambda>s. map seg_bytes (ring_list (rcv_queue (s_kcp s)))) (after_packets [push_frame 0 [], push_frame 1 [1, 2, 3]]) =
     Some [[], [1, 2, 3]]"
  by code_simp+

theorem empty_message_stalls_witness:
  "\<exists>s1 s2. after_packets [push_frame 0 []] = Some s1 \<and> packetInput demo_env (push_frame 1 [1, 2, 3]) s1 = Some s2 \<and>
     map seg_bytes (ring_list (rcv_queue (s_kcp s2))) = [[], [1, 2, 3]] \<and> readLocked 10 s2 = Some (0, [], False, s2)"
proof -
  obtain s0 where s0: "newUDPSession demo_env 7 0 0 False None newSnmp = Some s0" "sess_wf demo_env s0"
    using newUDPSession_wf [OF demo_env_ok, of None 0 0 7 False newSnmp] by (auto simp: cryptHeader_def cryptTail_def)
  obtain s1 m where s1: "after_packets [push_frame 0 []] = Some s1" "s_input s1 = []" "ring_list (rcv_queue (s_kcp s1)) = [m]"
      "seg_frg m = 0" "seg_bytes m = []"
    using empty_run(1) by auto
  obtain s2 where s2: "packetInput demo_env (push_frame 1 [1, 2, 3]) s1 = Some s2" "map seg_bytes (ring_list (rcv_queue (s_kcp s2))) = [[], [1, 2, 3]]"
    using empty_run(2) s1(1) s0(1) by (auto simp: after_packets_def)
  have small: "length (push_frame n b) \<le> maxPacketSize" if "length b \<le> 3" for n b
    using that by (simp add: push_frame_def seg_bytes_def IKCP_OVERHEAD_def maxPacketSize_def)
  have "packetInput demo_env (push_frame 0 []) s0 = Some s1" using s1(1) s0(1) by (simp add: after_packets_def)
  then have "sess_wf demo_env s1" using packetInput_wf [OF s0(2) demo_env_ok small, of "[]" 0] by simp
  moreover have "sess_exec demo_env (S_packetInput (push_frame 1 [1, 2, 3])) s1 = Some s2" using s2(1) by simp
  then have "sess_reach demo_env s1 s2" using sess_step [OF sess_start, of "S_packetInput (push_frame 1 [1, 2, 3])"] small by simp
  ultimately have "readLocked 10 s2 = Some (0, [], False, s2)" using empty_message_stalls [OF _ demo_env_ok s1(2,3,4,5)] by blast
  with s1(1) s2 show ?thesis by (intro exI conjI)
qed

end
