(* ===== verification/Post_Process.thy ===== *)
theory Post_Process
  imports Session
begin

text \<open>
  The concurrency of \<^verbatim>\<open>postprocess.go\<close>: producers that queue a packet and kick the session, a fixed set of
  workers that take sessions from the shared queue \<^verbatim>\<open>ppQueue\<close>, and \<^verbatim>\<open>Close\<close>. What a worker does to
  a packet is the subject of \<^verbatim>\<open>Session\<close>; here it makes some datagrams of it. Every step is one atomic
  action: a critical section, an atomic load, store or compare-and-swap, a queue operation. The session's
  mutex is held by a producer from its test of \<^verbatim>\<open>die\<close> to the end of its kick, and by \<^verbatim>\<open>Close\<close> when it closes
  \<^verbatim>\<open>die\<close>. A worker that finds the queue empty sleeps on the condition variable until a \<^verbatim>\<open>Signal\<close> wakes it, which comes
  after the queue's mutex is released. The lemmas show that the claim \<^verbatim>\<open>ppRunning\<close> gives one worker at a time a session, that
  no queued packet is forgotten, that the workers never all sleep on a queue that holds a session, and whose
  datagrams leave through which session's socket.
\<close>

section \<open>The queue of sessions\<close>

text \<open>Sessions are numbers; \<open>None\<close> is a cleared entry.\<close>

record ppQueue =
  pq_q :: "nat option list"
  pq_head :: nat

definition ppEnqueue :: "nat \<Rightarrow> ppQueue \<Rightarrow> ppQueue" where
  "ppEnqueue s pq =
     (let pq = (if pq_head pq > length (pq_q pq) div 2
                then pq\<lparr>pq_q := drop (pq_head pq) (pq_q pq), pq_head := 0\<rparr> else pq)
      in pq\<lparr>pq_q := pq_q pq @ [Some s]\<rparr>)"

text \<open>\<open>None\<close>: the queue is empty, and the worker sleeps. An entry that was cleared would be a nil session.\<close>

definition ppDequeue :: "ppQueue \<Rightarrow> (nat option \<times> ppQueue) option" where
  "ppDequeue pq =
     (if pq_head pq = length (pq_q pq) then None
      else let s = pq_q pq ! pq_head pq;
               pq = pq\<lparr>pq_q := (pq_q pq)[pq_head pq := None], pq_head := Suc (pq_head pq)\<rparr>;
               pq = (if pq_head pq = length (pq_q pq) then pq\<lparr>pq_q := [], pq_head := 0\<rparr> else pq)
           in Some (s, pq))"

definition pq_list :: "ppQueue \<Rightarrow> nat option list" where
  "pq_list pq = drop (pq_head pq) (pq_q pq)"

lemma pq_list_enqueue: "pq_head pq \<le> length (pq_q pq) \<Longrightarrow> pq_list (ppEnqueue s pq) = pq_list pq @ [Some s] \<and>
    pq_head (ppEnqueue s pq) \<le> length (pq_q (ppEnqueue s pq))"
  by (simp add: ppEnqueue_def pq_list_def Let_def)

lemma pq_list_dequeue:
  assumes "ppDequeue pq = Some (x, pq')" "pq_head pq \<le> length (pq_q pq)"
  shows "pq_list pq = x # pq_list pq' \<and> pq_head pq' \<le> length (pq_q pq')"
proof -
  have "pq_head pq < length (pq_q pq)" using assms by (auto simp: ppDequeue_def split: if_splits)
  then have "pq_list pq = pq_q pq ! pq_head pq # drop (Suc (pq_head pq)) (pq_q pq)"
    by (simp add: pq_list_def Cons_nth_drop_Suc)
  then show ?thesis
    using assms(1) \<open>pq_head pq < _\<close> by (auto simp: ppDequeue_def pq_list_def Let_def split: if_splits)
qed

section \<open>Sessions, workers, steps\<close>

text \<open>The holder of the session's mutex after its push, and the thread in \<^verbatim>\<open>Close\<close>.\<close>

datatype mu_pc = Unlocked | Kick | Enqueue | Signal
datatype close_pc = Alive | Gate | Drain | Done

record ppSession =
  v_queue :: sendQueue
  v_running :: bool
  v_die :: bool
  v_closing :: bool
  v_mu :: mu_pc
  v_close :: close_pc

definition idle_session :: ppSession where
  "idle_session = \<lparr>v_queue = empty_queue, v_running = False, v_die = False, v_closing = False,
     v_mu = Unlocked, v_close = Alive\<rparr>"

text \<open>Where a worker is, with the session it serves: at the test of the queue; asleep in \<^verbatim>\<open>cond.Wait\<close>; about to signal; testing whether it is closed; at
  the head of the loop of \<^verbatim>\<open>postProcess\<close> with a budget left; after a packet; in \<^verbatim>\<open>flushTx\<close>; in \<^verbatim>\<open>sendTx\<close>; at its final
  test; putting the session back; then the steps of \<^verbatim>\<open>finishPostProcess\<close>.\<close>

datatype worker_pc = Wait | Asleep | Signalling | Check nat | Loop nat nat | Batched nat nat | Flush nat nat | Sending nat nat
  | More nat | Requeue nat | Finish nat | Test nat | Discard nat | Count nat | Claim nat

record worker =
  w_pc :: worker_pc
  w_tx :: "(nat \<times> byte list) list"

record pp =
  pp_queue :: ppQueue
  pp_sess :: "nat \<Rightarrow> ppSession"
  pp_workers :: "worker list"
  pp_wire :: "(nat \<times> nat \<times> byte list) list"

definition start_pp :: "nat \<Rightarrow> pp" where
  "start_pp n = \<lparr>pp_queue = \<lparr>pq_q = [], pq_head = 0\<rparr>, pp_sess = (\<lambda>_. idle_session),
     pp_workers = replicate n \<lparr>w_pc = Wait, w_tx = []\<rparr>, pp_wire = []\<rparr>"

definition on_sess :: "nat \<Rightarrow> (ppSession \<Rightarrow> ppSession) \<Rightarrow> pp \<Rightarrow> pp" where
  "on_sess s f st = st\<lparr>pp_sess := (pp_sess st)(s := f (pp_sess st s))\<rparr>"

text \<open>\<^verbatim>\<open>startPostProcessWorkers\<close>: at least 2 and at most 8 workers.\<close>

definition startPostProcessWorkers :: "int \<Rightarrow> pp" where
  "startPostProcessWorkers numCPU = start_pp (nat (min (max numCPU 2) 8))"

text \<open>A worker moves on, with the batch it now has.\<close>

definition go_to :: "nat \<Rightarrow> worker_pc \<Rightarrow> (nat \<times> byte list) list \<Rightarrow> pp \<Rightarrow> pp" where
  "go_to i pc tx st = st\<lparr>pp_workers := (pp_workers st)[i := \<lparr>w_pc = pc, w_tx = tx\<rparr>]\<rparr>"

text \<open>\<^verbatim>\<open>cond.Signal\<close>: some sleeping worker, here \<open>j\<close>, wakes and tests the queue again; nothing happens when none sleeps.\<close>

definition sleeps :: "worker \<Rightarrow> bool" where
  "sleeps w \<longleftrightarrow> w_pc w = Asleep"

definition cond_Signal :: "nat \<Rightarrow> pp \<Rightarrow> pp option" where
  "cond_Signal j st =
     (if j < length (pp_workers st) \<and> sleeps (pp_workers st ! j)
      then Some (go_to j Wait (w_tx (pp_workers st ! j)) st)
      else if list_ex sleeps (pp_workers st) then None else Some st)"

text \<open>A producer: the test of \<^verbatim>\<open>die\<close> and the push; then \<^verbatim>\<open>kickPostProcess\<close>: the claim, and \<^verbatim>\<open>ppEnqueue\<close> in
  two steps, the queue and the signal.\<close>

definition produce :: "(nat \<Rightarrow> nat) \<Rightarrow> nat \<Rightarrow> sendRequest \<Rightarrow> pp \<Rightarrow> pp option" where
  "produce g s r st =
     (let v = pp_sess st s
      in if v_mu v \<noteq> Unlocked then None
         else if v_die v then Some st
         else let (ok, q) = queue_enq g r (v_queue v)
              in if ok then Some (on_sess s (\<lambda>v. v\<lparr>v_queue := q, v_mu := Kick\<rparr>) st) else Some st)"

definition kick :: "nat \<Rightarrow> pp \<Rightarrow> pp option" where
  "kick s st =
     (case v_mu (pp_sess st s) of
        Unlocked \<Rightarrow> None
      | Kick \<Rightarrow> Some (if v_running (pp_sess st s) then on_sess s (\<lambda>v. v\<lparr>v_mu := Unlocked\<rparr>) st
                      else on_sess s (\<lambda>v. v\<lparr>v_running := True, v_mu := Enqueue\<rparr>) st)
      | Enqueue \<Rightarrow> Some (on_sess s (\<lambda>v. v\<lparr>v_mu := Signal\<rparr>) (st\<lparr>pp_queue := ppEnqueue s (pp_queue st)\<rparr>))
      | Signal \<Rightarrow> None)"

definition kick_signal :: "nat \<Rightarrow> nat \<Rightarrow> pp \<Rightarrow> pp option" where
  "kick_signal s j st =
     (if v_mu (pp_sess st s) = Signal then map_option (on_sess s (\<lambda>v. v\<lparr>v_mu := Unlocked\<rparr>)) (cond_Signal j st) else None)"

text \<open>\<^verbatim>\<open>Close\<close>: \<^verbatim>\<open>die\<close> under the mutex, once; then the gate \<^verbatim>\<open>ppClosing\<close>; then the queue is drained.\<close>

definition close_step :: "nat \<Rightarrow> pp \<Rightarrow> pp option" where
  "close_step s st =
     (let v = pp_sess st s
      in case v_close v of
           Alive \<Rightarrow> if v_mu v \<noteq> Unlocked then None
                    else Some (on_sess s (\<lambda>v. v\<lparr>v_die := True, v_close := Gate\<rparr>) st)
         | Gate \<Rightarrow> Some (on_sess s (\<lambda>v. v\<lparr>v_closing := True, v_close := Drain\<rparr>) st)
         | Drain \<Rightarrow> (case queue_deq (v_queue v) of
              (None, q) \<Rightarrow> Some (on_sess s (\<lambda>v. v\<lparr>v_queue := q, v_close := Done\<rparr>) st)
            | (Some _, q) \<Rightarrow> Some (on_sess s (\<lambda>v. v\<lparr>v_queue := q\<rparr>) st))
         | Done \<Rightarrow> None)"

text \<open>One step of \<^verbatim>\<open>postProcessWorker\<close>. \<open>dgs\<close> are the datagrams made of a packet, the packet's own first.\<close>

fun worker_next :: "nat \<Rightarrow> byte list list \<Rightarrow> worker_pc \<Rightarrow> (nat \<times> byte list) list \<Rightarrow> pp \<Rightarrow> pp option" where
  "worker_next i dgs Wait tx st =
     (case ppDequeue (pp_queue st) of
        None \<Rightarrow> Some (go_to i Asleep tx st)
      | Some (None, _) \<Rightarrow> None
      | Some (Some s, pq) \<Rightarrow> Some (go_to i (Check s) tx (st\<lparr>pp_queue := pq\<rparr>)))"
| "worker_next i dgs Asleep tx st = None"
| "worker_next i dgs Signalling tx st = None"
| "worker_next i dgs (Check s) tx st =
     Some (go_to i (if v_die (pp_sess st s) then Finish s else Loop s ppBudget) tx st)"
| "worker_next i dgs (Loop s 0) tx st = Some (go_to i (if tx \<noteq> [] then Flush s 0 else More s) tx st)"
| "worker_next i dgs (Loop s (Suc n)) tx st =
     (case queue_deq (v_queue (pp_sess st s)) of
        (None, q) \<Rightarrow> Some (go_to i (Finish s) tx (on_sess s (\<lambda>v. v\<lparr>v_queue := q\<rparr>) st))
      | (Some r, q) \<Rightarrow>
          if dgs = [] then None
          else Some (go_to i (Batched s n) (tx @ map (Pair s) dgs) (on_sess s (\<lambda>v. v\<lparr>v_queue := q\<rparr>) st)))"
| "worker_next i dgs (Batched s n) tx st =
     Some (go_to i (if queue_len (v_queue (pp_sess st s)) = 0 \<or> length tx \<ge> maxBatchSize
                    then Flush s n else Loop s n) tx st)"
| "worker_next i dgs (Flush s n) tx st =
     Some (if v_die (pp_sess st s) then go_to i (Requeue s) [] st else go_to i (Sending s n) tx st)"
| "worker_next i dgs (Sending s n) tx st =
     Some (go_to i (Loop s n) []
       (if v_closing (pp_sess st s) then st else st\<lparr>pp_wire := pp_wire st @ map (Pair s) tx\<rparr>))"
| "worker_next i dgs (More s) tx st =
     Some (go_to i (if queue_len (v_queue (pp_sess st s)) > 0 then Requeue s else Finish s) tx st)"
| "worker_next i dgs (Requeue s) tx st = Some (go_to i Signalling tx (st\<lparr>pp_queue := ppEnqueue s (pp_queue st)\<rparr>))"
| "worker_next i dgs (Finish s) tx st = Some (go_to i (Test s) tx (on_sess s (\<lambda>v. v\<lparr>v_running := False\<rparr>) st))"
| "worker_next i dgs (Test s) tx st =
     Some (go_to i (if v_die (pp_sess st s) then Discard s else Count s) tx st)"
| "worker_next i dgs (Discard s) tx st =
     (case queue_deq (v_queue (pp_sess st s)) of
        (None, q) \<Rightarrow> Some (go_to i Wait tx (on_sess s (\<lambda>v. v\<lparr>v_queue := q\<rparr>) st))
      | (Some _, q) \<Rightarrow> Some (go_to i (Discard s) tx (on_sess s (\<lambda>v. v\<lparr>v_queue := q\<rparr>) st)))"
| "worker_next i dgs (Count s) tx st =
     Some (go_to i (if queue_len (v_queue (pp_sess st s)) > 0 then Claim s else Wait) tx st)"
| "worker_next i dgs (Claim s) tx st =
     Some (if v_running (pp_sess st s) then go_to i Wait tx st
           else go_to i (Requeue s) tx (on_sess s (\<lambda>v. v\<lparr>v_running := True\<rparr>) st))"

text \<open>The signal of a worker that put its session back.\<close>

definition worker_signal :: "nat \<Rightarrow> nat \<Rightarrow> pp \<Rightarrow> pp option" where
  "worker_signal i j st =
     (if i < length (pp_workers st) \<and> w_pc (pp_workers st ! i) = Signalling
      then map_option (go_to i Wait (w_tx (pp_workers st ! i))) (cond_Signal j st) else None)"

datatype pp_event = Produce nat sendRequest | Kicked nat | KickSignal nat nat | Shut nat | Worker nat "byte list list" | WorkerSignal nat nat

fun pp_next :: "(nat \<Rightarrow> nat) \<Rightarrow> pp_event \<Rightarrow> pp \<Rightarrow> pp option" where
  "pp_next g (Produce s r) st = produce g s r st"
| "pp_next g (Kicked s) st = kick s st"
| "pp_next g (KickSignal s j) st = kick_signal s j st"
| "pp_next g (Shut s) st = close_step s st"
| "pp_next g (WorkerSignal i j) st = worker_signal i j st"
| "pp_next g (Worker i dgs) st =
     (if i < length (pp_workers st)
      then worker_next i dgs (w_pc (pp_workers st ! i)) (w_tx (pp_workers st ! i)) st else None)"

inductive pp_reach :: "(nat \<Rightarrow> nat) \<Rightarrow> pp \<Rightarrow> pp \<Rightarrow> bool" for g start where
  pp_start: "pp_reach g start start"
| pp_step: "pp_reach g start st \<Longrightarrow> pp_next g e st = Some st' \<Longrightarrow> pp_reach g start st'"

section \<open>The invariant\<close>

text \<open>The workers that hold the claim of \<open>s\<close>, and those that have given it up and will look again.\<close>

fun holds :: "nat \<Rightarrow> worker_pc \<Rightarrow> int" where
  "holds s (Check t) = of_bool (t = s)"
| "holds s (Loop t _) = of_bool (t = s)"
| "holds s (Batched t _) = of_bool (t = s)"
| "holds s (Flush t _) = of_bool (t = s)"
| "holds s (Sending t _) = of_bool (t = s)"
| "holds s (More t) = of_bool (t = s)"
| "holds s (Requeue t) = of_bool (t = s)"
| "holds s (Finish t) = of_bool (t = s)"
| "holds s _ = 0"

fun probes :: "nat \<Rightarrow> worker_pc \<Rightarrow> int" where
  "probes s (Test t) = of_bool (t = s)"
| "probes s (Count t) = of_bool (t = s)"
| "probes s (Claim t) = of_bool (t = s)"
| "probes s _ = 0"

definition tally :: "(worker_pc \<Rightarrow> int) \<Rightarrow> worker list \<Rightarrow> int" where
  "tally f ws = (\<Sum>w\<leftarrow>ws. f (w_pc w))"

text \<open>One claim, in the shared queue or with a thread, exactly when \<^verbatim>\<open>ppRunning\<close> is set.\<close>

definition claim_inv :: "pp \<Rightarrow> nat \<Rightarrow> bool" where
  "claim_inv st s \<longleftrightarrow>
     int (count_list (pq_list (pp_queue st)) (Some s)) + tally (holds s) (pp_workers st) + of_bool (v_mu (pp_sess st s) = Enqueue)
     = of_bool (v_running (pp_sess st s))"

definition wake_inv :: "pp \<Rightarrow> nat \<Rightarrow> bool" where
  "wake_inv st s \<longleftrightarrow> (\<not> v_die (pp_sess st s) \<longrightarrow> queue_list (v_queue (pp_sess st s)) \<noteq> [] \<longrightarrow>
     v_running (pp_sess st s) \<or> v_mu (pp_sess st s) = Kick \<or> 0 < tally (probes s) (pp_workers st))"

definition close_inv :: "ppSession \<Rightarrow> bool" where
  "close_inv v \<longleftrightarrow> queue_wf (v_queue v) \<and> (v_close v = Alive \<longleftrightarrow> \<not> v_die v) \<and>
     (v_die v \<longrightarrow> v_mu v = Unlocked) \<and> (v_close v = Done \<longrightarrow> queue_list (v_queue v) = [])"

text \<open>A worker's batch holds datagrams of the session it serves, or of closed sessions. At the head of the loop
  the session's own datagrams wait for a packet that is still queued. Only closed sessions are drained.\<close>

fun serves :: "worker_pc \<Rightarrow> nat option" where
  "serves (Loop s _) = Some s"
| "serves (Batched s _) = Some s"
| "serves (Flush s _) = Some s"
| "serves (Sending s _) = Some s"
| "serves _ = None"

definition batch_inv :: "(nat \<Rightarrow> ppSession) \<Rightarrow> worker \<Rightarrow> bool" where
  "batch_inv sess w \<longleftrightarrow> (\<forall>s\<in>fst ` set (w_tx w). v_die (sess s) \<or> serves (w_pc w) = Some s \<and>
     (\<forall>n. w_pc w = Loop s (Suc n) \<longrightarrow> queue_list (v_queue (sess s)) \<noteq> [])) \<and>
     (\<forall>s. w_pc w = Discard s \<longrightarrow> v_die (sess s))"

definition wire_inv :: "pp \<Rightarrow> bool" where
  "wire_inv st \<longleftrightarrow> (\<forall>c s d. (c, s, d) \<in> set (pp_wire st) \<longrightarrow> s = c \<or> v_die (pp_sess st s))"

definition pp_inv :: "pp \<Rightarrow> bool" where
  "pp_inv st \<longleftrightarrow> pq_head (pp_queue st) \<le> length (pq_q (pp_queue st)) \<and> None \<notin> set (pq_list (pp_queue st)) \<and>
     (\<forall>s. claim_inv st s) \<and> (\<forall>s. wake_inv st s) \<and> (\<forall>s. close_inv (pp_sess st s)) \<and>
     (\<forall>w\<in>set (pp_workers st). batch_inv (pp_sess st) w) \<and> wire_inv st"

lemma tally_nonneg: "(\<And>pc. 0 \<le> f pc) \<Longrightarrow> 0 \<le> tally f ws"
  by (auto simp: tally_def intro!: sum_list_nonneg)

lemma holds_nonneg [simp]: "0 \<le> holds s pc"
  by (cases pc) simp_all

lemma probes_nonneg [simp]: "0 \<le> probes s pc"
  by (cases pc) simp_all

lemma tally_update:
  "i < length ws \<Longrightarrow> tally f (ws[i := w]) = tally f ws + f (w_pc w) - f (w_pc (ws ! i))"
proof (induction ws arbitrary: i)
  case (Cons a ws)
  then show ?case by (cases i) (simp_all add: tally_def)
qed simp

lemma tally_ge: "(\<And>pc. 0 \<le> f pc) \<Longrightarrow> i < length ws \<Longrightarrow> f (w_pc (ws ! i)) \<le> tally f ws"
  unfolding tally_def by (rule member_le_sum_list) auto

lemma tally_idle: "\<forall>w\<in>set ws. w_pc w \<in> {Wait, Asleep} \<Longrightarrow> f Wait = 0 \<Longrightarrow> f Asleep = 0 \<Longrightarrow> tally f ws = 0"
  by (induction ws) (auto simp: tally_def)

lemma tally_ge2:
  assumes "\<And>pc. 0 \<le> f pc" "f Wait = 0" "i < length ws" "j < length ws" "i \<noteq> j"
  shows "f (w_pc (ws ! i)) + f (w_pc (ws ! j)) \<le> tally f ws"
  using tally_ge [of f i "ws[j := \<lparr>w_pc = Wait, w_tx = []\<rparr>]"] assms by (simp add: tally_update)

section \<open>Every step keeps it\<close>

lemmas step_defs = go_to_def on_sess_def

lemma pp_sess_go_to [simp]: "pp_sess (go_to i pc tx st) = pp_sess st"
  by (simp add: go_to_def)

lemma pp_queue_go_to [simp]: "pp_queue (go_to i pc tx st) = pp_queue st"
  by (simp add: go_to_def)

lemma pp_wire_go_to [simp]: "pp_wire (go_to i pc tx st) = pp_wire st"
  by (simp add: go_to_def)

lemma on_sess_fields [simp]:
  "pp_queue (on_sess s f st) = pp_queue st" "pp_workers (on_sess s f st) = pp_workers st" "pp_wire (on_sess s f st) = pp_wire st"
  by (simp_all add: on_sess_def)

lemma tally_go_to [simp]:
  "i < length (pp_workers st) \<Longrightarrow>
     tally f (pp_workers (go_to i pc tx st)) = tally f (pp_workers st) + f pc - f (w_pc (pp_workers st ! i))"
  by (simp add: go_to_def tally_update)

lemma pp_inv_claim: "pp_inv st \<Longrightarrow> claim_inv st s"
  by (simp add: pp_inv_def)

lemma claim_exclusive:
  assumes "claim_inv st s" "i < length (pp_workers st)" "holds s (w_pc (pp_workers st ! i)) = 1"
  shows "v_running (pp_sess st s)" "v_mu (pp_sess st s) \<noteq> Enqueue" "Some s \<notin> set (pq_list (pp_queue st))"
    "j < length (pp_workers st) \<Longrightarrow> holds s (w_pc (pp_workers st ! j)) = 1 \<Longrightarrow> j = i"
proof -
  have "1 \<le> tally (holds s) (pp_workers st)" using tally_ge [of "holds s" i] assms by fastforce
  then have "v_running (pp_sess st s)" "v_mu (pp_sess st s) \<noteq> Enqueue" "count_list (pq_list (pp_queue st)) (Some s) = 0"
    using assms(1) by (auto simp: claim_inv_def of_bool_def split: if_splits)
  then show "v_running (pp_sess st s)" "v_mu (pp_sess st s) \<noteq> Enqueue" "Some s \<notin> set (pq_list (pp_queue st))"
    by (simp_all add: count_list_0_iff)
  show "j = i" if "j < length (pp_workers st)" "holds s (w_pc (pp_workers st ! j)) = 1"
  proof (rule ccontr)
    assume "j \<noteq> i"
    then have "2 \<le> tally (holds s) (pp_workers st)"
      using tally_ge2 [of "holds s" i "pp_workers st" j] assms(2,3) that by simp
    then show False using assms(1) by (simp add: claim_inv_def of_bool_def split: if_splits)
  qed
qed

lemma worker_sess:
  assumes "worker_next i dgs pc tx st = Some st'"
  shows "v_die (pp_sess st' t) = v_die (pp_sess st t) \<and> v_mu (pp_sess st' t) = v_mu (pp_sess st t) \<and>
    v_close (pp_sess st' t) = v_close (pp_sess st t) \<and>
    (v_queue (pp_sess st' t) = v_queue (pp_sess st t) \<or>
     v_queue (pp_sess st' t) = snd (queue_deq (v_queue (pp_sess st t))) \<and> (pc = Discard t \<or> (\<exists>n. pc = Loop t (Suc n))))"
  using assms
  by (cases "(i, dgs, pc, tx, st)" rule: worker_next.cases)
    (auto simp: on_sess_def split: option.splits prod.splits if_splits)

lemma worker_close:
  assumes inv: "pp_inv st" and nxt: "worker_next i dgs pc tx st = Some st'"
  shows "close_inv (pp_sess st' s)"
proof -
  have c: "close_inv (pp_sess st s)" and q: "queue_wf (v_queue (pp_sess st s))"
    using inv by (simp_all add: pp_inv_def close_inv_def)
  show ?thesis
    using worker_sess [OF nxt, of s] c queue_deq_spec(3,4) [OF q] by (auto simp: close_inv_def)
qed

lemma worker_claim:
  assumes inv: "pp_inv st" and i: "i < length (pp_workers st)" and pc: "w_pc (pp_workers st ! i) = pc"
    and nxt: "worker_next i dgs pc tx st = Some st'"
  shows "claim_inv st' s"
proof -
  have c: "claim_inv st s" using inv by (simp add: pp_inv_def)
  have h: "pq_head (pp_queue st) \<le> length (pq_q (pp_queue st))" using inv by (simp add: pp_inv_def)
  note ex = claim_exclusive [OF c i, unfolded pc]
  note eq = c [unfolded claim_inv_def]
  show ?thesis
  proof (cases pc)
    case Wait
    then show ?thesis using nxt eq i pc pq_list_dequeue [OF _ h]
      by (auto simp: claim_inv_def split: option.splits)
  next
    case (Requeue t)
    then show ?thesis using nxt eq i pc pq_list_enqueue [OF h, of t]
      by (cases "t = s") (auto simp: claim_inv_def)
  next
    case (Finish t)
    then show ?thesis using nxt eq i pc ex(1,2)
      by (cases "t = s") (auto simp: claim_inv_def on_sess_def)
  next
    case (Claim t)
    then show ?thesis using nxt eq i pc
      by (cases "t = s") (auto simp: claim_inv_def on_sess_def split: if_splits)
  next
    case (Loop t n)
    then show ?thesis using nxt eq i pc
      by (cases n; cases "t = s") (auto simp: claim_inv_def on_sess_def split: option.splits prod.splits if_splits)
  next
    case (Discard t)
    then show ?thesis using nxt eq i pc
      by (cases "t = s") (auto simp: claim_inv_def on_sess_def split: option.splits prod.splits)
  qed (use nxt eq i pc in \<open>auto simp: claim_inv_def split: if_splits\<close>)
qed

lemma worker_wake:
  assumes inv: "pp_inv st" and i: "i < length (pp_workers st)" and pc: "w_pc (pp_workers st ! i) = pc"
    and nxt: "worker_next i dgs pc tx st = Some st'"
  shows "wake_inv st' s"
proof -
  have w: "wake_inv st s" and q: "queue_wf (v_queue (pp_sess st s))"
    using inv by (simp_all add: pp_inv_def close_inv_def)
  have tl: "snd (queue_deq (v_queue (pp_sess st s))) = q' \<Longrightarrow> queue_list q' = tl (queue_list (v_queue (pp_sess st s)))" for q'
    using queue_deq_spec(3) [OF q] by blast
  have n: "0 \<le> tally (probes s) (pp_workers st)" "probes s pc \<le> tally (probes s) (pp_workers st)"
    using tally_ge [of "probes s" i "pp_workers st"] i pc by (simp_all add: tally_nonneg)
  note eq = w [unfolded wake_inv_def]
  show ?thesis
  proof (cases pc)
    case (Loop t n)
    then show ?thesis using nxt eq i pc tl
      by (cases n; cases "t = s") (auto simp: wake_inv_def on_sess_def split: option.splits prod.splits if_splits)
  next
    case (Discard t)
    then show ?thesis using nxt eq i pc tl
      by (cases "t = s") (auto simp: wake_inv_def on_sess_def split: option.splits prod.splits)
  next
    case (Test t)
    then show ?thesis using nxt eq i pc by (cases "t = s") (auto simp: wake_inv_def split: if_splits)
  next
    case (Count t)
    then show ?thesis using nxt eq i pc by (cases "t = s") (auto simp: wake_inv_def queue_len_list split: if_splits)
  next
    case (Claim t)
    then show ?thesis using nxt eq i pc by (cases "t = s") (auto simp: wake_inv_def on_sess_def split: if_splits)
  qed (use nxt eq n i pc in \<open>auto simp: wake_inv_def on_sess_def queue_len_list split: if_splits option.splits\<close>)
qed

lemma worker_queue:
  assumes inv: "pp_inv st" and nxt: "worker_next i dgs pc tx st = Some st'"
  shows "pq_head (pp_queue st') \<le> length (pq_q (pp_queue st')) \<and> None \<notin> set (pq_list (pp_queue st'))"
proof -
  have h: "pq_head (pp_queue st) \<le> length (pq_q (pp_queue st))" "None \<notin> set (pq_list (pp_queue st))"
    using inv by (simp_all add: pp_inv_def)
  show ?thesis
    using nxt h pq_list_dequeue [OF _ h(1)] pq_list_enqueue [OF h(1)]
    by (cases "(i, dgs, pc, tx, st)" rule: worker_next.cases)
      (fastforce simp: on_sess_def split: option.splits prod.splits if_splits)+
qed

lemma worker_wire_step:
  assumes "worker_next i dgs pc tx st = Some st'"
  shows "pp_wire st' = pp_wire st \<or> (\<exists>s n. pc = Sending s n \<and> pp_wire st' = pp_wire st @ map (Pair s) tx)"
  using assms
  by (cases "(i, dgs, pc, tx, st)" rule: worker_next.cases)
    (auto split: option.splits prod.splits if_splits)

lemma worker_wire:
  assumes inv: "pp_inv st" and i: "i < length (pp_workers st)" and w: "pp_workers st ! i = \<lparr>w_pc = pc, w_tx = tx\<rparr>"
    and nxt: "worker_next i dgs pc tx st = Some st'"
  shows "wire_inv st'"
  unfolding wire_inv_def
proof (intro allI impI)
  fix c s d assume m: "(c, s, d) \<in> set (pp_wire st')"
  have die: "v_die (pp_sess st' s) = v_die (pp_sess st s)" using worker_sess [OF nxt] by blast
  have "wire_inv st" "batch_inv (pp_sess st) \<lparr>w_pc = pc, w_tx = tx\<rparr>"
    using inv i by (auto simp: pp_inv_def simp flip: w)
  then have old: "(c, s, d) \<in> set (pp_wire st) \<Longrightarrow> s = c \<or> v_die (pp_sess st s)"
    and b: "(s, d) \<in> set tx \<Longrightarrow> v_die (pp_sess st s) \<or> serves pc = Some s"
    unfolding wire_inv_def batch_inv_def by (blast, force)
  from worker_wire_step [OF nxt] m consider "(c, s, d) \<in> set (pp_wire st)"
    | n where "pc = Sending c n" "(s, d) \<in> set tx" by auto
  then show "s = c \<or> v_die (pp_sess st' s)"
    using old b die by cases auto
qed

text \<open>The batch of the worker that moves, and those of the others: only the holder of the claim, or a thread that
  drains a closed session, takes packets from its queue.\<close>

lemma worker_batch_own:
  assumes b: "batch_inv (pp_sess st) \<lparr>w_pc = pc, w_tx = tx\<rparr>" and i: "i < length (pp_workers st)"
    and q: "\<forall>s. queue_wf (v_queue (pp_sess st s))"
    and nxt: "worker_next i dgs pc tx st = Some st'"
  shows "batch_inv (pp_sess st) (pp_workers st' ! i)"
proof (cases pc)
  case (Loop t n)
  have emp: "queue_deq (v_queue (pp_sess st t)) = (None, q') \<Longrightarrow> queue_list (v_queue (pp_sess st t)) = []" for q'
    using queue_deq_spec(2) [OF q [rule_format], of t] by fastforce
  show ?thesis
  proof (cases n)
    case 0
    then have "pp_workers st' ! i = \<lparr>w_pc = (if tx \<noteq> [] then Flush t 0 else More t), w_tx = tx\<rparr>"
      using Loop nxt i by (auto simp: go_to_def)
    then show ?thesis using Loop 0 b by (simp add: batch_inv_def)
  next
    case (Suc m)
    show ?thesis
    proof (cases "fst (queue_deq (v_queue (pp_sess st t)))")
      case None
      then obtain q' where "queue_deq (v_queue (pp_sess st t)) = (None, q')" by (metis prod.collapse)
      then show ?thesis using emp b nxt i Loop Suc by (fastforce simp: batch_inv_def go_to_def)
    next
      case (Some r)
      then obtain q' where "queue_deq (v_queue (pp_sess st t)) = (Some r, q')" by (metis prod.collapse)
      then show ?thesis using b nxt i Loop Suc by (fastforce simp: batch_inv_def go_to_def split: if_splits)
    qed
  qed
next
  case (Batched t n)
  then show ?thesis using b nxt i by (auto simp: batch_inv_def go_to_def queue_len_list split: if_splits)
next
  case (Discard t)
  then show ?thesis using b nxt i by (auto simp: batch_inv_def go_to_def split: option.splits prod.splits)
next
  case Wait
  then show ?thesis using b nxt i by (fastforce simp: batch_inv_def go_to_def split: option.splits)
qed (use b nxt i in \<open>auto simp: batch_inv_def go_to_def split: option.splits if_splits\<close>)

lemma worker_others:
  assumes "worker_next i dgs pc tx st = Some st'"
  shows "length (pp_workers st') = length (pp_workers st) \<and> (\<forall>j. j \<noteq> i \<longrightarrow> pp_workers st' ! j = pp_workers st ! j)"
  using assms
  by (cases "(i, dgs, pc, tx, st)" rule: worker_next.cases)
    (auto simp: go_to_def split: option.splits prod.splits if_splits)

lemma worker_batch:
  assumes inv: "pp_inv st" and i: "i < length (pp_workers st)" and w: "pp_workers st ! i = \<lparr>w_pc = pc, w_tx = tx\<rparr>"
    and nxt: "worker_next i dgs pc tx st = Some st'" and j: "j < length (pp_workers st')"
  shows "batch_inv (pp_sess st') (pp_workers st' ! j)"
proof -
  let ?w = "pp_workers st' ! j"
  have b: "batch_inv (pp_sess st) (pp_workers st ! k)" if "k < length (pp_workers st)" for k
    using inv that by (simp add: pp_inv_def)
  have len: "length (pp_workers st') = length (pp_workers st)" and same: "j \<noteq> i \<Longrightarrow> ?w = pp_workers st ! j"
    using worker_others [OF nxt] by auto
  have q: "queue_wf (v_queue (pp_sess st s))" for s using inv by (simp add: pp_inv_def close_inv_def)
  have old: "batch_inv (pp_sess st) ?w"
  proof (cases "j = i")
    case True
    then show ?thesis using worker_batch_own [OF _ i _ nxt] b [OF i] w q by simp
  qed (use same j len b in simp)
  have keep: "v_queue (pp_sess st' s) = v_queue (pp_sess st s) \<or> v_die (pp_sess st s)"
    if l: "w_pc ?w = Loop s (Suc n)" for s n
  proof (rule ccontr)
    assume no: "\<not> ?thesis"
    then have "pc = Discard s \<or> (\<exists>n. pc = Loop s (Suc n))" using worker_sess [OF nxt, of s] by blast
    with b [OF i] w no obtain m where pc: "pc = Loop s (Suc m)" by (auto simp: batch_inv_def)
    have "j \<noteq> i" using l nxt i unfolding pc by (auto simp: go_to_def split: option.splits prod.splits if_splits)
    with same l w pc i j len pp_inv_claim [OF inv, of s] show False
      using claim_exclusive(4) [of st s i j] by simp
  qed
  have die: "v_die (pp_sess st' s) = v_die (pp_sess st s)" for s using worker_sess [OF nxt] by blast
  show ?thesis
    using old keep unfolding batch_inv_def die by metis
qed

lemma worker_inv:
  assumes inv: "pp_inv st" and i: "i < length (pp_workers st)"
    and nxt: "worker_next i dgs (w_pc (pp_workers st ! i)) (w_tx (pp_workers st ! i)) st = Some st'"
  shows "pp_inv st'"
  unfolding pp_inv_def
proof (intro conjI allI ballI)
  show "pq_head (pp_queue st') \<le> length (pq_q (pp_queue st'))" "None \<notin> set (pq_list (pp_queue st'))"
    using worker_queue [OF inv nxt] by auto
  show "batch_inv (pp_sess st') w" if "w \<in> set (pp_workers st')" for w
    using that worker_batch [OF inv i _ nxt] by (auto simp: in_set_conv_nth)
  show "wire_inv st'" using worker_wire [OF inv i _ nxt] by simp
qed (use worker_claim [OF inv i refl nxt] worker_wake [OF inv i refl nxt] worker_close [OF inv nxt] in auto)

lemma start_inv: "pp_inv (start_pp n)"
  by (simp add: pp_inv_def start_pp_def pq_list_def claim_inv_def wake_inv_def close_inv_def batch_inv_def wire_inv_def
      idle_session_def tally_def sum_list_replicate empty_queue_def queue_wf_def queue_list_def)

text \<open>Steps of producers and of \<^verbatim>\<open>Close\<close> change one session, and the shared queue at most by that session. They only
  add packets to its queue while it is open.\<close>

lemma sess_step_inv:
  assumes inv: "pp_inv st"
    and st': "st' = on_sess s f (st\<lparr>pp_queue := pq\<rparr>)" and close: "close_inv (f (pp_sess st s))"
    and pq: "pq = pp_queue st \<or> pq = ppEnqueue s (pp_queue st)"
    and die: "v_die (pp_sess st s) \<Longrightarrow> v_die (f (pp_sess st s))"
    and queue: "\<not> v_die (f (pp_sess st s)) \<Longrightarrow> queue_list (v_queue (pp_sess st s)) \<noteq> [] \<Longrightarrow>
      queue_list (v_queue (f (pp_sess st s))) \<noteq> []"
    and claim: "claim_inv st' s" and wake: "wake_inv st' s"
  shows "pp_inv st'"
proof -
  have h: "pq_head (pp_queue st) \<le> length (pq_q (pp_queue st))" "None \<notin> set (pq_list (pp_queue st))"
    and c: "claim_inv st t" and wk: "wake_inv st t" and cl: "close_inv (pp_sess st t)" for t
    using inv by (simp_all add: pp_inv_def)
  have e: "pq_list (ppEnqueue s (pp_queue st)) = pq_list (pp_queue st) @ [Some s]"
      "pq_head (ppEnqueue s (pp_queue st)) \<le> length (pq_q (ppEnqueue s (pp_queue st)))"
    using pq_list_enqueue [OF h(1)] by simp_all
  have other: "pp_sess st' t = pp_sess st t" if "t \<noteq> s" for t using that by (simp add: st' on_sess_def)
  have own: "pp_sess st' s = f (pp_sess st s)" by (simp add: st' on_sess_def)
  have die': "v_die (pp_sess st t) \<Longrightarrow> v_die (pp_sess st' t)" for t
    using die other own by (cases "t = s") simp_all
  have queue': "\<not> v_die (pp_sess st' t) \<Longrightarrow> queue_list (v_queue (pp_sess st t)) \<noteq> [] \<Longrightarrow>
      queue_list (v_queue (pp_sess st' t)) \<noteq> []" for t
    using queue other own by (cases "t = s") simp_all
  show ?thesis
    unfolding pp_inv_def
  proof (intro conjI allI ballI)
    show "pq_head (pp_queue st') \<le> length (pq_q (pp_queue st'))" "None \<notin> set (pq_list (pp_queue st'))"
      using pq h e by (auto simp: st')
    show "claim_inv st' t" for t
      using claim c [of t] pq e other by (cases "t = s") (auto simp: claim_inv_def st')
    show "wake_inv st' t" for t
      using wake wk [of t] other by (cases "t = s") (auto simp: wake_inv_def st')
    show "close_inv (pp_sess st' t)" for t
      using close cl other own by (cases "t = s") simp_all
    show "batch_inv (pp_sess st') w" if "w \<in> set (pp_workers st')" for w
    proof -
      have "batch_inv (pp_sess st) w" using inv that by (simp add: pp_inv_def st')
      then show ?thesis unfolding batch_inv_def using die' queue' by metis
    qed
    show "wire_inv st'" using inv die' unfolding pp_inv_def wire_inv_def by (simp add: st') blast
  qed
qed

lemma produce_inv:
  assumes inv: "pp_inv st" and nxt: "produce g s r st = Some st'"
  shows "pp_inv st'"
proof -
  let ?v = "pp_sess st s"
  have c: "close_inv ?v" "claim_inv st s" using inv by (simp_all add: pp_inv_def)
  obtain ok q where q: "queue_enq g r (v_queue ?v) = (ok, q)" by fastforce
  have e: "queue_wf q" "queue_list q = queue_list (v_queue ?v) @ (if ok then [r] else [])"
    using queue_enq_spec(2,3) [of "v_queue ?v" g r] c(1) q by (simp_all add: close_inv_def)
  show ?thesis
  proof (cases "v_die ?v \<or> \<not> ok")
    case True
    then show ?thesis using inv nxt q by (auto simp: produce_def Let_def split: if_splits)
  next
    case False
    then have mu: "v_mu ?v = Unlocked" and st': "st' = on_sess s (\<lambda>v. v\<lparr>v_queue := q, v_mu := Kick\<rparr>) (st\<lparr>pp_queue := pp_queue st\<rparr>)"
      using nxt q by (auto simp: produce_def Let_def split: if_splits)
    show ?thesis
      using False c e mu
      by (intro sess_step_inv [OF inv st']) (auto simp: close_inv_def claim_inv_def wake_inv_def st' on_sess_def)
  qed
qed

lemma kick_inv:
  assumes inv: "pp_inv st" and nxt: "kick s st = Some st'"
  shows "pp_inv st'"
proof -
  let ?v = "pp_sess st s"
  have c: "close_inv ?v" "claim_inv st s" using inv by (simp_all add: pp_inv_def)
  have h: "pq_head (pp_queue st) \<le> length (pq_q (pp_queue st))" using inv by (simp add: pp_inv_def)
  show ?thesis
  proof (cases "v_mu ?v")
    case Unlocked
    then show ?thesis using nxt by (simp add: kick_def)
  next
    case Kick
    show ?thesis
    proof (cases "v_running ?v")
      case True
      then have st': "st' = on_sess s (\<lambda>v. v\<lparr>v_mu := Unlocked\<rparr>) (st\<lparr>pp_queue := pp_queue st\<rparr>)"
        using nxt Kick by (simp add: kick_def)
      show ?thesis using c Kick True
        by (intro sess_step_inv [OF inv st']) (auto simp: close_inv_def claim_inv_def wake_inv_def st' on_sess_def)
    next
      case False
      then have st': "st' = on_sess s (\<lambda>v. v\<lparr>v_running := True, v_mu := Enqueue\<rparr>) (st\<lparr>pp_queue := pp_queue st\<rparr>)"
        using nxt Kick by (simp add: kick_def)
      show ?thesis using c Kick False
        by (intro sess_step_inv [OF inv st']) (auto simp: close_inv_def claim_inv_def wake_inv_def st' on_sess_def)
    qed
  next
    case Signal
    then show ?thesis using nxt by (simp add: kick_def)
  next
    case Enqueue
    then have st': "st' = on_sess s (\<lambda>v. v\<lparr>v_mu := Signal\<rparr>) (st\<lparr>pp_queue := ppEnqueue s (pp_queue st)\<rparr>)"
      using nxt by (simp add: kick_def)
    have run: "v_running ?v"
      using c(2) Enqueue tally_nonneg [of "holds s" "pp_workers st"] by (auto simp: claim_inv_def of_bool_def split: if_splits)
    show ?thesis using c Enqueue run pq_list_enqueue [OF h, of s]
      by (intro sess_step_inv [OF inv st']) (auto simp: close_inv_def claim_inv_def wake_inv_def st' on_sess_def)
  qed
qed

lemma close_step_inv:
  assumes inv: "pp_inv st" and nxt: "close_step s st = Some st'"
  shows "pp_inv st'"
proof -
  let ?v = "pp_sess st s"
  have c: "close_inv ?v" "claim_inv st s" using inv by (simp_all add: pp_inv_def)
  have q: "queue_wf (v_queue ?v)" using c(1) by (simp add: close_inv_def)
  obtain x q' where d: "queue_deq (v_queue ?v) = (x, q')" by fastforce
  have e: "queue_wf q'" "queue_list q' = tl (queue_list (v_queue ?v))" "x = None \<Longrightarrow> queue_list (v_queue ?v) = []"
    using queue_deq_spec(2-4) [OF q] d by auto
  obtain f where st': "st' = on_sess s f (st\<lparr>pp_queue := pp_queue st\<rparr>)" and
      f: "close_inv (f ?v)" "v_die (f ?v)" "v_running (f ?v) = v_running ?v" "v_mu (f ?v) = v_mu ?v"
  proof (cases "v_close ?v")
    case Alive
    then show thesis using nxt c(1) that [of "\<lambda>v. v\<lparr>v_die := True, v_close := Gate\<rparr>"]
      by (auto simp: close_step_def close_inv_def split: if_splits)
  next
    case Gate
    then show thesis using nxt c(1) that [of "\<lambda>v. v\<lparr>v_closing := True, v_close := Drain\<rparr>"]
      by (auto simp: close_step_def close_inv_def)
  next
    case Drain
    then show thesis using nxt c(1) d e that [of "\<lambda>v. v\<lparr>v_queue := q'\<rparr>"] that [of "\<lambda>v. v\<lparr>v_queue := q', v_close := Done\<rparr>"]
      by (cases x) (auto simp: close_step_def close_inv_def)
  next
    case Done
    then show thesis using nxt by (simp add: close_step_def)
  qed
  show ?thesis
    using c(2) f by (intro sess_step_inv [OF inv st']) (auto simp: claim_inv_def wake_inv_def st' on_sess_def)
qed

text \<open>A signal moves one worker from its sleep to the test of the queue.\<close>

lemma cond_Signal_cases:
  assumes "cond_Signal j st = Some st'"
  obtains (none) "st' = st" "\<forall>w\<in>set (pp_workers st). w_pc w \<noteq> Asleep"
    | (one) "j < length (pp_workers st)" "w_pc (pp_workers st ! j) = Asleep" "st' = go_to j Wait (w_tx (pp_workers st ! j)) st"
proof (cases "j < length (pp_workers st) \<and> sleeps (pp_workers st ! j)")
  case True
  then have "st' = go_to j Wait (w_tx (pp_workers st ! j)) st" using assms by (simp add: cond_Signal_def)
  then show thesis using one True by (simp add: sleeps_def)
next
  case False
  then show thesis using assms none by (auto simp: cond_Signal_def list_ex_iff sleeps_def split: if_splits)
qed

lemma cond_Signal_total: "\<exists>j st'. cond_Signal j st = Some st'"
proof (cases "list_ex sleeps (pp_workers st)")
  case True
  then obtain j where "j < length (pp_workers st)" "sleeps (pp_workers st ! j)" by (auto simp: list_ex_iff in_set_conv_nth)
  then show ?thesis by (intro exI [of _ j]) (simp add: cond_Signal_def)
qed (simp add: cond_Signal_def)

text \<open>A worker that moves between points where it serves no session.\<close>

lemma go_to_idle_inv:
  assumes inv: "pp_inv st" and j: "j < length (pp_workers st)" "w_pc (pp_workers st ! j) \<in> {Wait, Asleep, Signalling}" and pc: "pc \<in> {Wait, Asleep, Signalling}"
  shows "pp_inv (go_to j pc (w_tx (pp_workers st ! j)) st)"
proof -
  let ?w = "pp_workers st ! j" and ?st = "go_to j pc (w_tx (pp_workers st ! j)) st"
  have t: "tally (holds s) (pp_workers ?st) = tally (holds s) (pp_workers st)"
    "tally (probes s) (pp_workers ?st) = tally (probes s) (pp_workers st)" for s
    using j pc by auto
  have "claim_inv ?st s" "wake_inv ?st s" for s
    using inv unfolding pp_inv_def claim_inv_def wake_inv_def t by simp_all
  moreover have "batch_inv (pp_sess st) w" if "w \<in> set (pp_workers ?st)" for w
  proof -
    have b: "batch_inv (pp_sess st) w" if "w \<in> set (pp_workers st)" for w using inv that by (simp add: pp_inv_def)
    have "batch_inv (pp_sess st) \<lparr>w_pc = pc, w_tx = w_tx ?w\<rparr>"
      using b [OF nth_mem [OF j(1)]] j(2) pc by (auto simp: batch_inv_def)
    moreover have "w = \<lparr>w_pc = pc, w_tx = w_tx ?w\<rparr> \<or> w \<in> set (pp_workers st)"
      using that set_update_subset_insert [of "pp_workers st" j] by (auto simp: go_to_def)
    ultimately show ?thesis using b by blast
  qed
  moreover have "wire_inv ?st" using inv by (simp add: pp_inv_def wire_inv_def)
  ultimately show ?thesis using inv unfolding pp_inv_def by auto
qed

lemma cond_Signal_inv: "pp_inv st \<Longrightarrow> cond_Signal j st = Some st' \<Longrightarrow> pp_inv st'"
  by (erule cond_Signal_cases) (auto intro!: go_to_idle_inv)

lemma kick_signal_inv:
  assumes inv: "pp_inv st" and nxt: "kick_signal s j st = Some st'"
  shows "pp_inv st'"
proof -
  obtain st1 where s1: "v_mu (pp_sess st s) = Signal" "cond_Signal j st = Some st1" "st' = on_sess s (\<lambda>v. v\<lparr>v_mu := Unlocked\<rparr>) st1"
    using nxt by (auto simp: kick_signal_def split: if_splits)
  have i1: "pp_inv st1" using cond_Signal_inv [OF inv s1(2)] .
  have mu: "v_mu (pp_sess st1 s) = Signal" using s1(1,2) by (auto elim!: cond_Signal_cases)
  have st': "st' = on_sess s (\<lambda>v. v\<lparr>v_mu := Unlocked\<rparr>) (st1\<lparr>pp_queue := pp_queue st1\<rparr>)" using s1(3) by simp
  have "close_inv (pp_sess st1 s)" "claim_inv st1 s" "wake_inv st1 s" using i1 by (simp_all add: pp_inv_def)
  then show ?thesis using mu
    by (intro sess_step_inv [OF i1 st']) (auto simp: close_inv_def claim_inv_def wake_inv_def st' on_sess_def)
qed

lemma worker_signal_inv:
  assumes inv: "pp_inv st" and nxt: "worker_signal i j st = Some st'"
  shows "pp_inv st'"
proof -
  obtain st1 where s1: "i < length (pp_workers st)" "w_pc (pp_workers st ! i) = Signalling" "cond_Signal j st = Some st1"
      "st' = go_to i Wait (w_tx (pp_workers st ! i)) st1"
    using nxt by (auto simp: worker_signal_def split: if_splits)
  have "length (pp_workers st1) = length (pp_workers st)" "pp_workers st1 ! i = pp_workers st ! i"
    using s1(2,3) by (auto elim!: cond_Signal_cases simp: go_to_def nth_list_update)
  then show ?thesis using go_to_idle_inv [OF cond_Signal_inv [OF inv s1(3)], of i Wait] s1 by simp
qed

lemma pp_next_inv: "pp_inv st \<Longrightarrow> pp_next g e st = Some st' \<Longrightarrow> pp_inv st'"
  by (cases e) (auto intro: produce_inv kick_inv kick_signal_inv close_step_inv worker_inv worker_signal_inv split: if_splits)

lemma pp_reach_inv: "pp_reach g start st \<Longrightarrow> pp_inv start \<Longrightarrow> pp_inv st"
  by (induction rule: pp_reach.induct) (auto intro: pp_next_inv)

section \<open>The condition variable\<close>

text \<open>There is a worker, and while the queue holds a session one is awake, or a signal is on its way.\<close>

definition awake_inv :: "pp \<Rightarrow> bool" where
  "awake_inv st \<longleftrightarrow> pp_workers st \<noteq> [] \<and>
     (pq_list (pp_queue st) = [] \<or> (\<exists>w\<in>set (pp_workers st). w_pc w \<noteq> Asleep) \<or> (\<exists>s. v_mu (pp_sess st s) = Signal))"

lemma awake_go_to:
  assumes "i < length (pp_workers st)" "pc \<noteq> Asleep"
  shows "awake_inv (go_to i pc tx st)"
proof -
  have "\<lparr>w_pc = pc, w_tx = tx\<rparr> \<in> set (pp_workers (go_to i pc tx st))" using assms(1) by (simp add: go_to_def set_update_memI)
  then show ?thesis using assms(2) unfolding awake_inv_def by force
qed

lemma awake_cong: "awake_inv st \<Longrightarrow> pp_workers st' = pp_workers st \<Longrightarrow> pp_queue st' = pp_queue st \<Longrightarrow>
    (\<And>s. v_mu (pp_sess st s) = Signal \<Longrightarrow> v_mu (pp_sess st' s) = Signal) \<Longrightarrow> awake_inv st'"
  unfolding awake_inv_def by metis

lemma worker_awake:
  assumes inv: "awake_inv st" and i: "i < length (pp_workers st)" and nxt: "worker_next i dgs pc tx st = Some st'"
  shows "awake_inv st'"
proof -
  have "ppDequeue (pp_queue st) = None \<and> st' = go_to i Asleep tx st \<or>
      (\<exists>pc' tx' st1. st' = go_to i pc' tx' st1 \<and> pc' \<noteq> Asleep \<and> length (pp_workers st1) = length (pp_workers st))"
    using nxt by (cases "(i, dgs, pc, tx, st)" rule: worker_next.cases) (fastforce split: option.splits prod.splits if_splits)+
  moreover have "awake_inv (go_to i Asleep tx st)" if "ppDequeue (pp_queue st) = None"
  proof -
    have "pq_list (pp_queue st) = []" using that by (auto simp: ppDequeue_def pq_list_def Let_def split: if_splits)
    then show ?thesis using inv by (simp add: awake_inv_def) (simp add: go_to_def)
  qed
  ultimately show ?thesis using awake_go_to i by fastforce
qed

lemma cond_Signal_awake:
  assumes inv: "awake_inv st" and S: "cond_Signal j st = Some st'"
  shows "\<exists>w\<in>set (pp_workers st'). w_pc w \<noteq> Asleep" "pp_sess st' = pp_sess st"
proof -
  show "\<exists>w\<in>set (pp_workers st'). w_pc w \<noteq> Asleep"
    using S
  proof (cases rule: cond_Signal_cases)
    case none
    then show ?thesis using inv by (cases "pp_workers st") (auto simp: awake_inv_def)
  next
    case one
    then have "\<lparr>w_pc = Wait, w_tx = w_tx (pp_workers st ! j)\<rparr> \<in> set (pp_workers st')" by (simp add: go_to_def set_update_memI)
    then show ?thesis by force
  qed
  show "pp_sess st' = pp_sess st" using S by (auto elim!: cond_Signal_cases)
qed

lemma pp_next_awake:
  assumes inv: "awake_inv st" and N: "pp_next g e st = Some st'"
  shows "awake_inv st'"
proof (cases e)
  case (Produce s q)
  then show ?thesis using N inv
    by (auto simp: produce_def Let_def on_sess_def split: if_splits prod.splits intro!: awake_cong [OF inv])
next
  case (Kicked s)
  show ?thesis
  proof (cases "v_mu (pp_sess st s) = Enqueue")
    case True
    then have "v_mu (pp_sess st' s) = Signal" "pp_workers st' = pp_workers st" using N Kicked by (auto simp: kick_def on_sess_def)
    then show ?thesis using inv by (auto simp: awake_inv_def)
  next
    case False
    then show ?thesis using N Kicked inv
      by (auto simp: kick_def on_sess_def split: mu_pc.splits if_splits intro!: awake_cong [OF inv])
  qed
next
  case (KickSignal s j)
  then obtain st1 where s1: "cond_Signal j st = Some st1" "st' = on_sess s (\<lambda>v. v\<lparr>v_mu := Unlocked\<rparr>) st1"
    using N by (auto simp: kick_signal_def split: if_splits)
  then show ?thesis using cond_Signal_awake [OF inv s1(1)] by (auto simp: awake_inv_def)
next
  case (Shut s)
  then show ?thesis using N inv
    by (auto simp: close_step_def Let_def on_sess_def split: close_pc.splits if_splits prod.splits option.splits intro!: awake_cong [OF inv])
next
  case (Worker i dgs)
  then show ?thesis using N worker_awake [OF inv] by (auto split: if_splits)
next
  case (WorkerSignal i j)
  then obtain st1 where s1: "i < length (pp_workers st)" "cond_Signal j st = Some st1" "st' = go_to i Wait (w_tx (pp_workers st ! i)) st1"
    using N by (auto simp: worker_signal_def split: if_splits)
  have "length (pp_workers st1) = length (pp_workers st)" using s1(2) by (auto elim!: cond_Signal_cases simp: go_to_def)
  then show ?thesis using awake_go_to [of i st1 Wait] s1(1,3) by simp
qed

lemma reach_awake: "pp_reach g (startPostProcessWorkers n) st \<Longrightarrow> awake_inv st"
proof (induction rule: pp_reach.induct)
  case pp_start
  show ?case by (auto simp: awake_inv_def startPostProcessWorkers_def start_pp_def pq_list_def)
qed (rule pp_next_awake)

section \<open>Properties\<close>

lemma reach_inv: "pp_reach g (startPostProcessWorkers n) st \<Longrightarrow> pp_inv st"
  unfolding startPostProcessWorkers_def using pp_reach_inv start_inv by blast

lemma worker_not_stuck:
  assumes "pp_inv st" "pc \<noteq> Asleep" "pc \<noteq> Signalling"
  shows "\<exists>st'. worker_next i [d] pc tx st = Some st'"
proof (cases pc)
  case Wait
  show ?thesis
  proof (cases "ppDequeue (pp_queue st)")
    case (Some y)
    then obtain x pq where d: "ppDequeue (pp_queue st) = Some (x, pq)" by (cases y) simp
    have "x \<noteq> None" using pq_list_dequeue [OF d] assms(1) unfolding pp_inv_def by (metis list.set_intros(1))
    then show ?thesis using Wait d by auto
  qed (use Wait in simp)
next
  case (Loop s n)
  then show ?thesis by (cases n) (auto split: option.splits prod.splits)
qed (use assms(2,3) in \<open>auto split: option.splits prod.splits\<close>)


text \<open>C34. No queued packet is forgotten. When producers and workers have come to rest, a session that is open and has
  packets queued is in the queue of the workers, exactly once, and a worker is awake that can take it, unless a
  producer is just about to signal. While the queue holds a session the workers never all sleep unless such a
  signal is on its way; a signal never blocks. A session whose \<^verbatim>\<open>Close\<close> has returned has no packet queued, so all
  its buffers went back to the pool. A worker that is not asleep can always go on.\<close>

theorem pp_no_lost_wakeup:
  assumes "pp_reach g (startPostProcessWorkers n) st" "i < length (pp_workers st)"
  shows "(w_pc (pp_workers st ! i) \<noteq> Asleep \<longrightarrow>
      pp_next g (Worker i [d]) st \<noteq> None \<or> (\<exists>j. pp_next g (WorkerSignal i j) st \<noteq> None)) \<and>
    (v_mu (pp_sess st s) = Signal \<longrightarrow> (\<exists>j. pp_next g (KickSignal s j) st \<noteq> None)) \<and>
    (v_close (pp_sess st s) = Done \<longrightarrow> queue_list (v_queue (pp_sess st s)) = []) \<and>
    (pq_list (pp_queue st) \<noteq> [] \<longrightarrow> (\<exists>w\<in>set (pp_workers st). w_pc w \<noteq> Asleep) \<or> (\<exists>t. v_mu (pp_sess st t) = Signal)) \<and>
    ((\<forall>w\<in>set (pp_workers st). w_pc w \<in> {Wait, Asleep}) \<longrightarrow> v_mu (pp_sess st s) = Unlocked \<longrightarrow> \<not> v_die (pp_sess st s) \<longrightarrow>
       queue_list (v_queue (pp_sess st s)) \<noteq> [] \<longrightarrow>
       count_list (pq_list (pp_queue st)) (Some s) = 1 \<and>
       ((\<exists>t. v_mu (pp_sess st t) = Signal) \<or>
        (\<exists>j. j < length (pp_workers st) \<and> w_pc (pp_workers st ! j) = Wait \<and> pp_next g (Worker j [d]) st \<noteq> None)))"
proof -
  have inv: "pp_inv st" and awake: "awake_inv st" using reach_inv [OF assms(1)] reach_awake [OF assms(1)] .
  then have c: "claim_inv st s" "wake_inv st s" "close_inv (pp_sess st s)" by (simp_all add: pp_inv_def)
  have go: "pp_next g (Worker j [d]) st \<noteq> None" if "j < length (pp_workers st)" "w_pc (pp_workers st ! j) \<notin> {Asleep, Signalling}" for j
    using worker_not_stuck [OF inv, of "w_pc (pp_workers st ! j)"] that by auto
  have sig: "\<exists>j. pp_next g (WorkerSignal i j) st \<noteq> None" if "w_pc (pp_workers st ! i) = Signalling"
    using cond_Signal_total [of st] assms(2) that by (auto simp: worker_signal_def)
  have rest: "count_list (pq_list (pp_queue st)) (Some s) = 1"
    if idle: "\<forall>w\<in>set (pp_workers st). w_pc w \<in> {Wait, Asleep}" and s: "v_mu (pp_sess st s) = Unlocked" "\<not> v_die (pp_sess st s)"
      "queue_list (v_queue (pp_sess st s)) \<noteq> []"
  proof -
    have "tally (holds s) (pp_workers st) = 0" "tally (probes s) (pp_workers st) = 0"
      by (rule tally_idle [OF idle]; simp)+
    then show ?thesis using c(1,2) s by (simp add: claim_inv_def wake_inv_def)
  qed
  have up: "(\<exists>t. v_mu (pp_sess st t) = Signal) \<or> (\<exists>j. j < length (pp_workers st) \<and> w_pc (pp_workers st ! j) = Wait \<and> pp_next g (Worker j [d]) st \<noteq> None)"
    if "\<forall>w\<in>set (pp_workers st). w_pc w \<in> {Wait, Asleep}" "count_list (pq_list (pp_queue st)) (Some s) = 1"
  proof -
    have "pq_list (pp_queue st) \<noteq> []" using that(2) by auto
    then consider "\<exists>t. v_mu (pp_sess st t) = Signal" | w where "w \<in> set (pp_workers st)" "w_pc w \<noteq> Asleep" using awake by (auto simp: awake_inv_def)
    then show ?thesis
    proof cases
      case (2 w)
      then have "w_pc w = Wait" using that(1) by blast
      then obtain j where "j < length (pp_workers st)" "w_pc (pp_workers st ! j) = Wait" using 2(1) by (auto simp: in_set_conv_nth)
      then show ?thesis using go [of j] by auto
    qed blast
  qed
  have "\<exists>j. pp_next g (KickSignal s j) st \<noteq> None" if "v_mu (pp_sess st s) = Signal"
    using cond_Signal_total [of st] that by (auto simp: kick_signal_def)
  moreover have "v_close (pp_sess st s) = Done \<longrightarrow> queue_list (v_queue (pp_sess st s)) = []" using c(3) by (simp add: close_inv_def)
  moreover have "pq_list (pp_queue st) \<noteq> [] \<longrightarrow> (\<exists>w\<in>set (pp_workers st). w_pc w \<noteq> Asleep) \<or> (\<exists>t. v_mu (pp_sess st t) = Signal)"
    using awake by (auto simp: awake_inv_def)
  ultimately show ?thesis using go [OF assms(2)] sig rest up by blast
qed

fun pp_run :: "(nat \<Rightarrow> nat) \<Rightarrow> pp_event list \<Rightarrow> pp \<Rightarrow> pp option" where
  "pp_run g [] st = Some st"
| "pp_run g (e # es) st = (case pp_next g e st of None \<Rightarrow> None | Some st' \<Rightarrow> pp_run g es st')"

lemma pp_run_reach: "pp_run g es st = Some st' \<Longrightarrow> pp_reach g start st \<Longrightarrow> pp_reach g start st'"
  by (induction es arbitrary: st) (auto split: option.splits intro: pp_step)

definition demo_request :: sendRequest where
  "demo_request = \<lparr>req_buffer = [7], req_oob = False\<rparr>"

text \<open>Session 1 has two packets; a worker has batched the first when \<^verbatim>\<open>Close\<close> drains the second.\<close>

definition close_race :: "pp_event list" where
  "close_race = [Produce 1 demo_request, Kicked 1, Kicked 1, KickSignal 1 0, Produce 1 demo_request, Kicked 1,
     Worker 0 [], Worker 0 [], Worker 0 [[1]], Worker 0 [], Shut 1, Shut 1, Shut 1, Shut 1,
     Worker 0 [], Worker 0 [], Worker 0 [], Worker 0 []]"

text \<open>Then the same worker sends a packet of session 0.\<close>

definition close_race_after :: "pp_event list" where
  "close_race_after = [Produce 0 demo_request, Kicked 0, Kicked 0, KickSignal 0 0, Worker 0 [], Worker 0 [], Worker 0 [[2]],
     Worker 0 [], Worker 0 [], Worker 0 []]"

definition raced :: pp where
  "raced = the (pp_run (\<lambda>n. 2 * n) (close_race @ close_race_after) (startPostProcessWorkers 2))"

lemma raced_wire:
  "pp_run (\<lambda>n. 2 * n) (close_race @ close_race_after) (startPostProcessWorkers 2) \<noteq> None \<and> pp_wire raced = [(0, 1, [1]), (0, 0, [2])]"
  by code_simp

text \<open>C40. A batch can outlive its session. When \<^verbatim>\<open>Close\<close> drains the queue between two packets of a worker, the loop of
  \<^verbatim>\<open>postProcess\<close> finds the queue empty and returns without sending or recycling the batch. The worker keeps it
  and sends it with the first batch of another session, through that session's connection, after \<^verbatim>\<open>Close\<close> of
  the first has returned.\<close>

theorem closed_batch_leaks:
  "\<exists>st c s d. pp_reach (\<lambda>n. 2 * n) (startPostProcessWorkers 2) st \<and> (c, s, d) \<in> set (pp_wire st) \<and> s \<noteq> c \<and>
     v_close (pp_sess st s) = Done"
proof -
  obtain st where r: "pp_run (\<lambda>n. 2 * n) (close_race @ close_race_after) (startPostProcessWorkers 2) = Some st" "raced = st"
    using raced_wire by (auto simp: raced_def)
  have "v_close (pp_sess raced 1) = Done" by code_simp
  then show ?thesis
    using raced_wire pp_run_reach [OF r(1) pp_start] r(2) by (intro exI [of _ raced] exI [of _ 0] exI [of _ 1] exI [of _ "[1]"]) simp
qed


text \<open>Both workers fall asleep; a packet comes, and the signal wakes the first of them.\<close>

definition wake_up :: "pp_event list" where
  "wake_up = [Worker 0 [], Worker 1 [], Produce 1 demo_request, Kicked 1, Kicked 1, KickSignal 1 0]"

definition busy :: pp where
  "busy = the (pp_run (\<lambda>n. 2 * n) wake_up (startPostProcessWorkers 2))"

lemma busy_rest:
  "pp_run (\<lambda>n. 2 * n) wake_up (startPostProcessWorkers 2) \<noteq> None \<and> map w_pc (pp_workers busy) = [Wait, Asleep] \<and>
   v_mu (pp_sess busy 1) = Unlocked \<and> \<not> v_die (pp_sess busy 1) \<and> queue_list (v_queue (pp_sess busy 1)) = [demo_request]"
  by code_simp

theorem pp_no_lost_wakeup_witness:
  "map w_pc (pp_workers busy) = [Wait, Asleep] \<and> count_list (pq_list (pp_queue busy)) (Some 1) = 1 \<and>
   pp_next (\<lambda>n. 2 * n) (Worker 0 [[1]]) busy \<noteq> None"
proof -
  obtain st where r: "pp_run (\<lambda>n. 2 * n) wake_up (startPostProcessWorkers 2) = Some st" "busy = st"
    using busy_rest by (auto simp: busy_def)
  have pcs: "w_pc (pp_workers busy ! 0) = Wait" "0 < length (pp_workers busy)" "\<forall>w\<in>set (pp_workers busy). w_pc w \<in> {Wait, Asleep}"
    using busy_rest by (auto simp: map_eq_Cons_conv)
  have reach: "pp_reach (\<lambda>n. 2 * n) (startPostProcessWorkers 2) busy" using pp_run_reach [OF r(1) pp_start] r(2) by simp
  note p = pp_no_lost_wakeup [OF reach pcs(2), of "[1]" 1]
  have "queue_list (v_queue (pp_sess busy 1)) \<noteq> []" using busy_rest by simp
  then have "count_list (pq_list (pp_queue busy)) (Some 1) = 1" using p pcs(3) busy_rest by blast
  moreover have "pp_next (\<lambda>n. 2 * n) (WorkerSignal 0 j) busy = None" for j using pcs(1) by (simp add: worker_signal_def)
  then have "pp_next (\<lambda>n. 2 * n) (Worker 0 [[1]]) busy \<noteq> None" using p pcs(1) by (metis worker_pc.distinct(1))
  ultimately show ?thesis using busy_rest by blast
qed

end
