(* ===== verification/Timed_Sched.thy ===== *)
theory Timed_Sched
  imports Binary_Heap
begin

text \<open>
  The scheduler of \<^verbatim>\<open>timedsched.go\<close> that drives the periodic updates of all sessions: a heap of
  deadlines per shard, the shard goroutine \<^verbatim>\<open>run\<close> and \<^verbatim>\<open>Put\<close>, which wakes the goroutine only when the
  new task is due before everything queued. A time is its nanoseconds since the zero time, a task
  function is a number. Goroutines interleave between their critical sections: a shard is its shared
  fields and the place its goroutine has reached, with the calls of \<^verbatim>\<open>Put\<close> that have released the
  lock and still have to send to \<^verbatim>\<open>wake\<close>. The lemmas show the typed heap equal to the library heap of
  \<open>Binary_Heap\<close>, and that no task is lost, run twice, run early or slept through.
\<close>

section \<open>The heap of deadlines\<close>

record timedFunc =
  tf_execute :: nat
  tf_ts :: int

abbreviation ts_before :: "timedFunc \<Rightarrow> timedFunc \<Rightarrow> bool" where
  "ts_before f g \<equiv> tf_ts f < tf_ts g"

function timed_up :: "nat \<Rightarrow> timedFunc list \<Rightarrow> timedFunc list" where
  "timed_up i s =
     (if i = 0 then s
      else let p = (i - 1) div 2
           in if \<not> ts_before (s ! i) (s ! p) then s else timed_up p (heap_swap i p s))"
  by pat_completeness auto
termination
  by (relation "measure fst") auto

definition timed_push :: "timedFunc \<Rightarrow> timedFunc list \<Rightarrow> timedFunc list" where
  "timed_push f h = timed_up (length h) (h @ [f])"

function timed_down :: "nat \<Rightarrow> timedFunc list \<Rightarrow> timedFunc list" where
  "timed_down i s =
     (let n = length s; l = 2 * i + 1;
          m = (if l < n \<and> ts_before (s ! l) (s ! i) then l else i);
          r = l + 1;
          m = (if r < n \<and> ts_before (s ! r) (s ! m) then r else m)
      in if m = i then s else timed_down m (heap_swap i m s))"
  by pat_completeness auto
termination
  by (relation "measure (\<lambda>(i, s). length s - i)") (auto simp: Let_def split: if_splits)

declare timed_up.simps [simp del] timed_down.simps [simp del]

text \<open>On an empty heap \<^verbatim>\<open>s[0]\<close> panics.\<close>

definition timed_pop :: "timedFunc list \<Rightarrow> (timedFunc \<times> timedFunc list) option" where
  "timed_pop h =
     (if h = [] then None
      else let n = length h - 1; top = h ! 0; s = take n (h[0 := h ! n])
           in Some (top, timed_down 0 s))"

section \<open>The heap is the library heap\<close>

lemma heap_swap_commute: "heap_swap i j h = heap_swap j i h"
  by (cases "i = j") (simp_all add: heap_swap_def list_update_swap)

lemma timed_up_eq: "timed_up i s = heap_up ts_before i s"
proof (induction i s rule: timed_up.induct)
  case (1 i s)
  show ?case
  proof (cases "i = 0 \<or> \<not> ts_before (s ! i) (s ! ((i - 1) div 2))")
    case True
    then show ?thesis by (subst timed_up.simps, subst heap_up.simps) (auto simp: Let_def)
  next
    case False
    then have "(i - 1) div 2 \<noteq> i" by auto
    with False 1 show ?thesis
      by (subst timed_up.simps, subst heap_up.simps) (simp add: Let_def heap_swap_commute [of i])
  qed
qed

lemma timed_push_eq: "timed_push f h = heap_Push ts_before h f"
  by (simp add: timed_push_def heap_Push_def timed_up_eq)

lemma take_heap_swap: "i < n \<Longrightarrow> j < n \<Longrightarrow> n \<le> length h \<Longrightarrow> take n (heap_swap i j h) = heap_swap i j (take n h)"
  by (simp add: heap_swap_def take_update_swap)

lemma timed_down_eq:
  "n \<le> length h \<Longrightarrow> i < n \<Longrightarrow> timed_down i (take n h) = take n (heap_down ts_before i n h)"
proof (induction "n - i" arbitrary: i h rule: less_induct)
  case less
  define j where "j = (if 2 * i + 2 < n \<and> ts_before (h ! (2 * i + 2)) (h ! (2 * i + 1))
    then 2 * i + 2 else 2 * i + 1)"
  show ?case
  proof (cases "2 * i + 1 < n \<and> ts_before (h ! j) (h ! i)")
    case False
    then show ?thesis
      using less.prems by (subst timed_down.simps, subst heap_down.simps) (auto simp: Let_def j_def)
  next
    case True
    then have j: "j < n" "i < j" by (auto simp: j_def)
    have "timed_down i (take n h) = timed_down j (heap_swap i j (take n h))"
      using True less.prems by (subst timed_down.simps) (auto simp: Let_def j_def)
    also have "\<dots> = timed_down j (take n (heap_swap i j h))"
      using j less.prems by (simp add: take_heap_swap)
    also have "\<dots> = take n (heap_down ts_before j n (heap_swap i j h))"
      using j less.prems by (intro less.hyps) auto
    also have "heap_down ts_before j n (heap_swap i j h) = heap_down ts_before i n h"
      using True by (subst (2) heap_down.simps) (auto simp: Let_def j_def)
    finally show ?thesis .
  qed
qed

lemma timed_pop_eq: "timed_pop h = heap_Pop ts_before h"
proof (cases "length h \<le> 1")
  case True
  then consider "h = []" | x where "h = [x]" by (cases h) auto
  then show ?thesis
    by cases (auto simp: timed_pop_def heap_Pop_def Let_def timed_down.simps heap_down.simps heap_swap_def)
next
  case False
  let ?n = "length h - 1" and ?s = "heap_swap 0 (length h - 1) h"
  let ?d = "heap_down ts_before 0 ?n ?s"
  have ne: "h \<noteq> []" "0 < ?n" using False by auto
  then have "?d \<noteq> []" by (simp flip: length_greater_0_conv)
  then have "last ?d = ?d ! ?n" by (simp add: last_conv_nth)
  also have "\<dots> = h ! 0" using ne by (simp add: heap_down_outside heap_swap_nth)
  finally have l: "last ?d = h ! 0" .
  have "take ?n (h[0 := h ! ?n]) = take ?n ?s" by (simp add: heap_swap_def)
  then have "timed_down 0 (take ?n (h[0 := h ! ?n])) = take ?n ?d"
    using ne by (simp add: timed_down_eq)
  then show ?thesis using ne l by (simp add: timed_pop_def heap_Pop_def Let_def butlast_conv_take)
qed

interpretation dl: heap_order ts_before tf_ts "\<lambda>_. True"
  by unfold_locales simp

lemma all_ok_deadlines [simp]: "dl.all_ok h"
  by (simp add: dl.all_ok_def)

lemma timed_push_heap: "dl.is_heap h \<Longrightarrow> dl.is_heap (timed_push f h)"
  by (simp add: timed_push_eq dl.is_heap_Push)

lemma mset_timed_push [simp]: "mset (timed_push f h) = add_mset f (mset h)"
  by (simp add: timed_push_eq mset_heap_Push)

lemma set_timed_push [simp]: "set (timed_push f h) = insert f (set h)"
  by (metis mset_timed_push set_mset_add_mset_insert set_mset_mset)

lemma timed_push_nonempty [simp]: "timed_push f h \<noteq> []"
  by (metis insert_not_empty set_empty set_timed_push)

lemma heap_head_least: "dl.is_heap h \<Longrightarrow> f \<in> set h \<Longrightarrow> tf_ts (h ! 0) \<le> tf_ts f"
  by (metis dl.heap_top_least in_set_conv_nth)

section \<open>A shard\<close>

definition schedSlack :: int where "schedSlack = 5000000"

text \<open>Where the goroutine of a shard is: before its critical section, running the tasks it has taken,
  about to reset its timer (with the time to wait if tasks are pending), in the final \<^verbatim>\<open>select\<close> (with the
  time its timer fires, if it is set), or returned.\<close>

datatype shard_pc = Collect | Execute "timedFunc list" | Arm "int option" | Sleep "int option" | Stopped

text \<open>\<open>sd_armed\<close> is 0 for the zero time, \<open>sd_wake\<close> is the one-place channel, \<open>sd_signals\<close> counts the calls of
  \<^verbatim>\<open>Put\<close> that decided to wake the shard and have not sent yet. The last four fields only record: the tasks
  put, those run with the time of their run, the clock reading behind the time to wait, and the time
  from that reading to the reset of the timer.\<close>

record tsShard =
  sd_tasks :: "timedFunc list"
  sd_armed :: int
  sd_wake :: bool
  sd_signals :: nat
  sd_pc :: shard_pc
  sd_put :: "timedFunc list"
  sd_ran :: "(timedFunc \<times> int) list"
  sd_read :: int
  sd_lag :: int

definition new_shard :: tsShard where
  "new_shard = \<lparr>sd_tasks = [], sd_armed = 0, sd_wake = False, sd_signals = 0, sd_pc = Collect,
     sd_put = [], sd_ran = [], sd_read = 0, sd_lag = 0\<rparr>"

function collect_due :: "int \<Rightarrow> timedFunc list \<Rightarrow> timedFunc list \<times> timedFunc list" where
  "collect_due limit tasks =
     (if tasks \<noteq> [] \<and> \<not> limit < tf_ts (tasks ! 0) then
        case timed_pop tasks of
          None \<Rightarrow> ([], tasks)
        | Some (f, rest) \<Rightarrow> (let (due, tasks) = collect_due limit rest in (f # due, tasks))
      else ([], tasks))"
  by pat_completeness auto
termination
proof (relation "measure (\<lambda>(limit, tasks). length tasks)")
  fix limit tasks x f rest
  assume "timed_pop tasks = Some x" "(f, rest) = x"
  then have "mset tasks = add_mset f (mset rest)"
    by (metis mset_heap_Pop timed_pop_eq)
  then show "((limit, rest), limit, tasks) \<in> measure (\<lambda>(limit, tasks). length tasks)"
    by (metis case_prod_conv in_measure lessI size_add_mset size_mset)
qed simp

declare collect_due.simps [simp del]

text \<open>The critical section of \<^verbatim>\<open>run\<close>. The clock is read twice, \<open>d\<close> apart.\<close>

definition shard_collect :: "int \<Rightarrow> int \<Rightarrow> tsShard \<Rightarrow> tsShard" where
  "shard_collect now d sh =
     (let limit = now + schedSlack;
          (due, tasks) = collect_due limit (sd_tasks sh);
          sh = sh\<lparr>sd_tasks := tasks, sd_armed := 0\<rparr>
      in if due \<noteq> [] then sh\<lparr>sd_pc := Execute due\<rparr>
         else if tasks \<noteq> [] then
           sh\<lparr>sd_armed := tf_ts (tasks ! 0), sd_pc := Arm (Some (tf_ts (tasks ! 0) - (now + d))), sd_read := now + d\<rparr>
         else sh\<lparr>sd_pc := Arm None\<rparr>)"

definition shard_execute :: "int \<Rightarrow> tsShard \<Rightarrow> tsShard option" where
  "shard_execute now sh =
     (case sd_pc sh of
        Execute (f # due) \<Rightarrow> Some (sh\<lparr>sd_pc := Execute due, sd_ran := sd_ran sh @ [(f, now)]\<rparr>)
      | Execute [] \<Rightarrow> Some (sh\<lparr>sd_pc := Collect\<rparr>)
      | _ \<Rightarrow> None)"

definition shard_reset :: "int \<Rightarrow> tsShard \<Rightarrow> tsShard option" where
  "shard_reset now sh =
     (case sd_pc sh of
        Arm (Some wait) \<Rightarrow> Some (sh\<lparr>sd_pc := Sleep (Some (now + max wait 0)), sd_lag := now - sd_read sh\<rparr>)
      | Arm None \<Rightarrow> Some (sh\<lparr>sd_pc := Sleep None\<rparr>)
      | _ \<Rightarrow> None)"

text \<open>The three branches of the final \<^verbatim>\<open>select\<close>. Whichever is taken, the timer is stopped and its channel empty
  afterwards.\<close>

definition shard_fire :: "int \<Rightarrow> tsShard \<Rightarrow> tsShard option" where
  "shard_fire now sh =
     (case sd_pc sh of Sleep (Some t) \<Rightarrow> if t \<le> now then Some (sh\<lparr>sd_pc := Collect\<rparr>) else None | _ \<Rightarrow> None)"

definition shard_wake :: "tsShard \<Rightarrow> tsShard option" where
  "shard_wake sh =
     (case sd_pc sh of Sleep _ \<Rightarrow> if sd_wake sh then Some (sh\<lparr>sd_wake := False, sd_pc := Collect\<rparr>) else None | _ \<Rightarrow> None)"

definition shard_die :: "bool \<Rightarrow> tsShard \<Rightarrow> tsShard option" where
  "shard_die die sh = (case sd_pc sh of Sleep _ \<Rightarrow> if die then Some (sh\<lparr>sd_pc := Stopped\<rparr>) else None | _ \<Rightarrow> None)"

text \<open>\<^verbatim>\<open>Put\<close> up to the release of the lock, and its non-blocking send.\<close>

definition shard_put :: "timedFunc \<Rightarrow> tsShard \<Rightarrow> tsShard" where
  "shard_put f sh =
     (let tasks = timed_push f (sd_tasks sh);
          wake = (tf_ts (tasks ! 0) = tf_ts f \<and> (sd_armed sh = 0 \<or> tf_ts f < sd_armed sh))
      in sh\<lparr>sd_tasks := tasks, sd_signals := sd_signals sh + (if wake then 1 else 0), sd_put := sd_put sh @ [f]\<rparr>)"

definition shard_signal :: "tsShard \<Rightarrow> tsShard option" where
  "shard_signal sh =
     (if sd_signals sh = 0 then None else Some (sh\<lparr>sd_signals := sd_signals sh - 1, sd_wake := True\<rparr>))"

section \<open>The scheduler\<close>

record TimedSched =
  ts_shards :: "tsShard list"
  ts_next :: u32
  ts_die :: bool
  ts_now :: int

definition NewTimedSched :: "int \<Rightarrow> int \<Rightarrow> TimedSched" where
  "NewTimedSched now parallel =
     \<lparr>ts_shards = replicate (nat (max parallel 1)) new_shard, ts_next = 0, ts_die = False, ts_now = now\<rparr>"

text \<open>\<^verbatim>\<open>Put\<close> counts in 32 bits and indexes with the count modulo the number of shards; \<open>None\<close> is the panic
  of an index out of range or of a division by zero.\<close>

definition sched_Put :: "timedFunc \<Rightarrow> TimedSched \<Rightarrow> TimedSched option" where
  "sched_Put f ts =
     (let n = ts_next ts + 1; len = (of_nat (length (ts_shards ts)) :: u32); i = unat (n mod len)
      in if len = 0 \<or> length (ts_shards ts) \<le> i then None
         else Some (ts\<lparr>ts_next := n, ts_shards := (ts_shards ts)[i := shard_put f (ts_shards ts ! i)]\<rparr>))"

definition sched_Close :: "TimedSched \<Rightarrow> TimedSched" where
  "sched_Close ts = ts\<lparr>ts_die := True\<rparr>"

datatype shard_event = Take nat | Run | Reset | Fire | Wake | Die | Signal

fun shard_next :: "int \<Rightarrow> bool \<Rightarrow> shard_event \<Rightarrow> tsShard \<Rightarrow> tsShard option" where
  "shard_next now die (Take d) sh = (if sd_pc sh = Collect then Some (shard_collect now (int d) sh) else None)"
| "shard_next now die Run sh = shard_execute now sh"
| "shard_next now die Reset sh = shard_reset now sh"
| "shard_next now die Fire sh = shard_fire now sh"
| "shard_next now die Wake sh = shard_wake sh"
| "shard_next now die Die sh = shard_die die sh"
| "shard_next now die Signal sh = shard_signal sh"

text \<open>What can happen: time passes, a task is put, the scheduler is closed, or a shard advances. A shard that
  reads the clock twice lets that time pass.\<close>

datatype sched_event = Tick nat | Put timedFunc | Shut | At nat shard_event

fun elapsed :: "shard_event \<Rightarrow> int" where
  "elapsed (Take d) = int d"
| "elapsed _ = 0"

fun sched_next :: "sched_event \<Rightarrow> TimedSched \<Rightarrow> TimedSched option" where
  "sched_next (Tick d) ts = Some (ts\<lparr>ts_now := ts_now ts + int d\<rparr>)"
| "sched_next (Put f) ts = sched_Put f ts"
| "sched_next Shut ts = Some (sched_Close ts)"
| "sched_next (At i e) ts =
     (if i < length (ts_shards ts) then
        map_option (\<lambda>sh. ts\<lparr>ts_shards := (ts_shards ts)[i := sh], ts_now := ts_now ts + elapsed e\<rparr>)
          (shard_next (ts_now ts) (ts_die ts) e (ts_shards ts ! i))
      else None)"

inductive sched_reach :: "TimedSched \<Rightarrow> TimedSched \<Rightarrow> bool" for start where
  sched_start: "sched_reach start start"
| sched_step: "sched_reach start ts \<Longrightarrow> sched_next e ts = Some ts' \<Longrightarrow> sched_reach start ts'"

section \<open>The invariant of a shard\<close>

fun taken :: "shard_pc \<Rightarrow> timedFunc list" where
  "taken (Execute due) = due"
| "taken _ = []"

definition alerted :: "tsShard \<Rightarrow> bool" where
  "alerted sh \<longleftrightarrow> sd_wake sh \<or> 0 < sd_signals sh"

text \<open>A shard that goes to sleep, with a timer or without, is woken or has its timer set for its earliest task.\<close>

definition guarded :: "bool \<Rightarrow> tsShard \<Rightarrow> bool" where
  "guarded timer sh \<longleftrightarrow> (timer \<longleftrightarrow> sd_armed sh \<noteq> 0) \<and>
     (\<forall>f\<in>set (sd_tasks sh). alerted sh \<or> timer \<and> sd_armed sh \<le> tf_ts f)"

fun covered :: "int \<Rightarrow> shard_pc \<Rightarrow> tsShard \<Rightarrow> bool" where
  "covered now (Arm w) sh \<longleftrightarrow> guarded (w \<noteq> None) sh \<and>
     (\<forall>x. w = Some x \<longrightarrow> x = sd_armed sh - sd_read sh \<and> sd_read sh \<le> now)"
| "covered now (Sleep t) sh \<longleftrightarrow> guarded (t \<noteq> None) sh \<and>
     (\<forall>u. t = Some u \<longrightarrow> u = max (sd_armed sh) (sd_read sh) + sd_lag sh \<and> sd_read sh + sd_lag sh \<le> now \<and> 0 \<le> sd_lag sh)"
| "covered now _ sh \<longleftrightarrow> True"

definition punctual :: "int \<Rightarrow> tsShard \<Rightarrow> bool" where
  "punctual now sh \<longleftrightarrow> (\<forall>f\<in>set (taken (sd_pc sh)). tf_ts f \<le> now + schedSlack) \<and>
     (\<forall>(f, t)\<in>set (sd_ran sh). tf_ts f \<le> t + schedSlack \<and> t \<le> now)"

definition once :: "tsShard \<Rightarrow> bool" where
  "once sh \<longleftrightarrow> mset (sd_put sh) = mset (sd_tasks sh) + mset (taken (sd_pc sh)) + mset (map fst (sd_ran sh))"

definition sched_shard_ok :: "int \<Rightarrow> tsShard \<Rightarrow> bool" where
  "sched_shard_ok now sh \<longleftrightarrow> 0 \<le> now \<and> dl.is_heap (sd_tasks sh) \<and> once sh \<and> punctual now sh \<and> covered now (sd_pc sh) sh"

lemmas shard_ok_defs = sched_shard_ok_def once_def punctual_def guarded_def alerted_def

lemma collect_due_spec:
  "dl.is_heap tasks \<Longrightarrow> collect_due limit tasks = (due, rest) \<Longrightarrow>
     mset tasks = mset due + mset rest \<and> dl.is_heap rest \<and> (\<forall>f\<in>set due. tf_ts f \<le> limit) \<and> (\<forall>f\<in>set rest. limit < tf_ts f)"
proof (induction limit tasks arbitrary: due rule: collect_due.induct)
  case (1 limit tasks)
  show ?case
  proof (cases "tasks \<noteq> [] \<and> \<not> limit < tf_ts (tasks ! 0)")
    case False
    then have "due = []" "rest = tasks" using 1(3) by (auto simp: collect_due.simps)
    moreover have "limit < tf_ts f" if "f \<in> set tasks" for f
      using False that heap_head_least [OF 1(2) that] by force
    ultimately show ?thesis using 1(2) by simp
  next
    case True
    then obtain f h where p: "timed_pop tasks = Some (f, h)" by (auto simp: timed_pop_def Let_def)
    then have hp: "heap_Pop ts_before tasks = Some (f, h)" by (simp add: timed_pop_eq)
    obtain due' where d: "collect_due limit h = (due', rest)" "due = f # due'"
      using 1(3) True p by (subst (asm) collect_due.simps) (auto split: prod.splits)
    have "mset h = mset due' + mset rest \<and> dl.is_heap rest \<and> (\<forall>f\<in>set due'. tf_ts f \<le> limit) \<and> (\<forall>f\<in>set rest. limit < tf_ts f)"
      using 1(1) [OF True p refl _ d(1)] dl.is_heap_Pop(1) [OF 1(2) _ hp] by simp
    moreover have "f = tasks ! 0" using dl.is_heap_Pop(2) [OF 1(2) _ hp] by simp
    ultimately show ?thesis using True d(2) mset_heap_Pop [OF hp] by auto
  qed
qed

lemma new_shard_ok: "0 \<le> now \<Longrightarrow> sched_shard_ok now new_shard"
  by (simp add: shard_ok_defs new_shard_def)

lemma covered_later: "covered now pc sh \<Longrightarrow> 0 \<le> d \<Longrightarrow> covered (now + d) pc sh"
  by (cases pc) force+

lemma shard_ok_later: "sched_shard_ok now sh \<Longrightarrow> 0 \<le> d \<Longrightarrow> sched_shard_ok (now + d) sh"
  by (auto simp: sched_shard_ok_def punctual_def covered_later)

lemma shard_collect_ok:
  assumes ok: "sched_shard_ok now sh" and pc: "sd_pc sh = Collect" and d: "0 \<le> d"
  shows "sched_shard_ok (now + d) (shard_collect now d sh)"
proof -
  obtain due rest where c: "collect_due (now + schedSlack) (sd_tasks sh) = (due, rest)" by fastforce
  have r: "mset (sd_tasks sh) = mset due + mset rest" "dl.is_heap rest" "\<forall>f\<in>set due. tf_ts f \<le> now + schedSlack"
      "\<forall>f\<in>set rest. now + schedSlack < tf_ts f"
    using collect_due_spec [OF _ c] ok by (simp_all add: sched_shard_ok_def)
  have head: "rest \<noteq> [] \<Longrightarrow> tf_ts (rest ! 0) \<noteq> 0"
  proof -
    assume "rest \<noteq> []"
    then have "rest ! 0 \<in> set rest" by simp
    with r(4) have "now + schedSlack < tf_ts (rest ! 0)" by blast
    then show ?thesis using ok by (simp add: sched_shard_ok_def schedSlack_def)
  qed
  note later = shard_ok_later [OF ok d]
  show ?thesis
    using later pc c r head heap_head_least [OF r(2)] d
    by (auto simp: shard_collect_def shard_ok_defs Let_def)
qed

lemma shard_put_ok:
  assumes ok: "sched_shard_ok now sh"
  shows "sched_shard_ok now (shard_put f sh)"
proof -
  let ?h = "timed_push f (sd_tasks sh)"
  have heap: "dl.is_heap ?h" using ok by (simp add: sched_shard_ok_def timed_push_heap)
  then have least: "tf_ts (?h ! 0) \<le> tf_ts g" if "g \<in> set ?h" for g
    using that heap_head_least by blast
  have "?h ! 0 \<in> set ?h" by (simp add: nth_mem del: set_timed_push)
  then have "?h ! 0 = f \<or> ?h ! 0 \<in> set (sd_tasks sh)" by simp
  then have g: "guarded timer (shard_put f sh)" if "guarded timer sh" for timer
    using that least [of f] by (auto simp: guarded_def alerted_def shard_put_def Let_def)
  have "covered now (sd_pc sh) (shard_put f sh)"
    using ok g by (cases "sd_pc sh") (auto simp: sched_shard_ok_def shard_put_def Let_def)
  then show ?thesis
    using ok heap by (auto simp: sched_shard_ok_def once_def punctual_def shard_put_def Let_def)
qed

lemma shard_next_ok:
  assumes ok: "sched_shard_ok now sh" and nxt: "shard_next now die e sh = Some sh'"
  shows "sched_shard_ok (now + elapsed e) sh'"
proof (cases e)
  case (Take d)
  then show ?thesis using shard_collect_ok [OF ok] assms by (auto split: if_splits)
next
  case Reset
  then show ?thesis using assms
    by (auto simp: shard_reset_def shard_ok_defs max_def split: shard_pc.splits option.splits)
next
  case Signal
  then show ?thesis using assms
    by (cases "sd_pc sh") (auto simp: shard_signal_def shard_ok_defs split: if_splits)
qed (use assms in \<open>auto simp: shard_execute_def shard_fire_def shard_wake_def shard_die_def shard_ok_defs
      split: shard_pc.splits list.splits option.splits if_splits\<close>)

section \<open>The scheduler keeps every task\<close>

definition sched_ok :: "TimedSched \<Rightarrow> bool" where
  "sched_ok ts \<longleftrightarrow> (\<forall>sh\<in>set (ts_shards ts). sched_shard_ok (ts_now ts) sh) \<and>
     0 < length (ts_shards ts) \<and> length (ts_shards ts) < 2 ^ 32"

lemma NewTimedSched_ok: "0 \<le> now \<Longrightarrow> parallel < 2 ^ 32 \<Longrightarrow> sched_ok (NewTimedSched now parallel)"
  by (auto simp: sched_ok_def NewTimedSched_def new_shard_ok)

lemma sched_Put_ok:
  assumes "sched_ok ts"
  shows "\<exists>ts'. sched_Put f ts = Some ts' \<and> sched_ok ts'"
proof -
  let ?n = "length (ts_shards ts)" and ?i = "unat ((ts_next ts + 1) mod (of_nat (length (ts_shards ts)) :: u32))"
  have n: "unat (of_nat ?n :: u32) = ?n" "0 < ?n" using assms by (simp_all add: sched_ok_def)
  then have "(of_nat ?n :: u32) \<noteq> 0" by (metis less_irrefl unat_0)
  moreover have "?i < ?n" using n by (simp add: unat_mod)
  moreover have "sched_shard_ok (ts_now ts) (shard_put f (ts_shards ts ! ?i))"
    using assms \<open>?i < ?n\<close> by (simp add: sched_ok_def shard_put_ok)
  ultimately show ?thesis
    using assms by (auto simp: sched_Put_def sched_ok_def Let_def dest!: set_update_subset_insert [THEN subsetD])
qed

lemma sched_next_ok:
  assumes ok: "sched_ok ts" and nxt: "sched_next e ts = Some ts'"
  shows "sched_ok ts'"
proof (cases e)
  case (Tick d)
  then show ?thesis using assms by (auto simp: sched_ok_def shard_ok_later)
next
  case (Put f)
  then show ?thesis using sched_Put_ok [OF ok, of f] nxt by auto
next
  case Shut
  then show ?thesis using assms by (auto simp: sched_ok_def sched_Close_def)
next
  case (At i e')
  then obtain sh where sh: "shard_next (ts_now ts) (ts_die ts) e' (ts_shards ts ! i) = Some sh" "i < length (ts_shards ts)"
      "ts' = ts\<lparr>ts_shards := (ts_shards ts)[i := sh], ts_now := ts_now ts + elapsed e'\<rparr>"
    using nxt by (auto split: if_splits)
  have "sched_shard_ok (ts_now ts + elapsed e') sh" using shard_next_ok [OF _ sh(1)] ok sh(2) by (simp add: sched_ok_def)
  moreover have "0 \<le> elapsed e'" by (cases e') simp_all
  ultimately show ?thesis
    using ok sh(3) by (auto simp: sched_ok_def shard_ok_later dest!: set_update_subset_insert [THEN subsetD])
qed

lemma sched_reach_ok: "sched_reach start ts \<Longrightarrow> sched_ok start \<Longrightarrow> sched_ok ts"
  by (induction rule: sched_reach.induct) (auto intro: sched_next_ok)

text \<open>C36. The scheduler sleeps through no task. However calls of \<^verbatim>\<open>Put\<close>, the passing of time and the shard
  goroutines interleave: \<^verbatim>\<open>Put\<close> never panics; of every shard, the tasks put are those still queued, those
  taken and those run, each once; a task runs at most \<^verbatim>\<open>schedSlack\<close> before its deadline; and while the
  goroutine sleeps, for every queued task it has a wake-up in its channel, or one on its way, or a timer
  that fires at the deadline of that task at the latest (at once when the deadline passed while arming),
  late only by the time between reading the clock and setting the timer.\<close>

theorem sched_no_lost_wakeup:
  assumes "sched_reach (NewTimedSched now parallel) ts" "0 \<le> now" "parallel < 2 ^ 32" "sh \<in> set (ts_shards ts)"
  shows "sched_Put f ts \<noteq> None \<and>
    mset (sd_put sh) = mset (sd_tasks sh) + mset (taken (sd_pc sh)) + mset (map fst (sd_ran sh)) \<and>
    (\<forall>(g, t)\<in>set (sd_ran sh). tf_ts g \<le> t + schedSlack) \<and>
    (\<forall>timer g. sd_pc sh = Sleep timer \<longrightarrow> g \<in> set (sd_tasks sh) \<longrightarrow>
       sd_wake sh \<or> 0 < sd_signals sh \<or>
       (\<exists>u. timer = Some u \<and> u \<le> max (tf_ts g) (sd_read sh) + sd_lag sh \<and> sd_read sh + sd_lag sh \<le> ts_now ts))"
proof -
  have ok: "sched_ok ts" using sched_reach_ok [OF assms(1)] NewTimedSched_ok assms(2,3) by blast
  then have sh: "sched_shard_ok (ts_now ts) sh" using assms(4) by (simp add: sched_ok_def)
  have sleep: "sd_wake sh \<or> 0 < sd_signals sh \<or>
      (\<exists>u. timer = Some u \<and> u \<le> max (tf_ts g) (sd_read sh) + sd_lag sh \<and> sd_read sh + sd_lag sh \<le> ts_now ts)"
    if "sd_pc sh = Sleep timer" "g \<in> set (sd_tasks sh)" for timer g
    using sh that by (cases timer) (auto simp: shard_ok_defs)
  show ?thesis
    using sched_Put_ok [OF ok, of f] sh sleep by (fastforce simp: sched_shard_ok_def once_def punctual_def)
qed

fun sched_run :: "sched_event list \<Rightarrow> TimedSched \<Rightarrow> TimedSched option" where
  "sched_run [] ts = Some ts"
| "sched_run (e # es) ts = (case sched_next e ts of None \<Rightarrow> None | Some ts' \<Rightarrow> sched_run es ts')"

lemma sched_run_reach: "sched_run es ts = Some ts' \<Longrightarrow> sched_reach start ts \<Longrightarrow> sched_reach start ts'"
  by (induction es arbitrary: ts) (auto split: option.splits intro: sched_step)

definition demo_task :: timedFunc where
  "demo_task = \<lparr>tf_execute = 1, tf_ts = 90000000\<rparr>"

text \<open>The shard sleeps without a timer; a task wakes it; it sleeps again, now with a timer.\<close>

definition demo_events :: "sched_event list" where
  "demo_events = [At 0 (Take 1), At 0 Reset, Put demo_task, At 0 Signal, At 0 Wake, At 0 (Take 1), Tick 3, At 0 Reset]"

definition demo_sched :: TimedSched where
  "demo_sched = the (sched_run demo_events (NewTimedSched 1000 1))"

lemma demo_sched_run: "sched_run demo_events (NewTimedSched 1000 1) \<noteq> None \<and> length (ts_shards demo_sched) = 1 \<and>
   sd_pc (hd (ts_shards demo_sched)) = Sleep (Some 90000003) \<and> sd_tasks (hd (ts_shards demo_sched)) = [demo_task]"
  by code_simp

theorem sched_no_lost_wakeup_witness:
  "\<exists>sh\<in>set (ts_shards demo_sched). sd_pc sh = Sleep (Some 90000003) \<and> demo_task \<in> set (sd_tasks sh) \<and>
     (sd_wake sh \<or> 0 < sd_signals sh \<or> 90000003 \<le> max (tf_ts demo_task) (sd_read sh) + sd_lag sh)"
proof -
  have r: "sched_reach (NewTimedSched 1000 1) demo_sched"
    using demo_sched_run by (auto simp: demo_sched_def intro: sched_run_reach sched_start)
  have m: "hd (ts_shards demo_sched) \<in> set (ts_shards demo_sched)"
    using demo_sched_run by (intro hd_in_set) auto
  show ?thesis
    using sched_no_lost_wakeup [OF r _ _ m] demo_sched_run m by fastforce
qed

end
