(* ===== verification/Entropy.thy ===== *)
theory Entropy
  imports Prelude
begin

text \<open>
  The random sources of \<^verbatim>\<open>entropy.go\<close> behind the nonces of outgoing packets: a generator that chains a block
  cipher over its own output, one that uses a ChaCha8 stream, both reseeded from the operating system after
  \<^verbatim>\<open>reseedInterval\<close> reads, and \<^verbatim>\<open>fillRand\<close>. The operating system's bytes are \<open>crand\<close>, a function of the
  number of the draw and the bytes asked for; the cipher and the stream are parameters. The lemmas show
  that a nonce is always filled completely and that reseeding never fails.
\<close>

definition reseedInterval :: "64 word" where "reseedInterval = push_bit 24 1"

section \<open>The block cipher generator\<close>

record rngAES =
  ra_block :: "byte list \<Rightarrow> byte list"
  ra_seed :: "byte list"
  ra_count :: "64 word"
  ra_draws :: nat

type_synonym crand = "nat \<Rightarrow> nat \<Rightarrow> byte list"
type_synonym newCipher = "byte list \<Rightarrow> (byte list \<Rightarrow> byte list) option"

text \<open>\<open>None\<close> is the panic when \<^verbatim>\<open>aes.NewCipher\<close> refuses the key.\<close>

definition NewEntropyAES :: "crand \<Rightarrow> newCipher \<Rightarrow> rngAES option" where
  "NewEntropyAES crand newCipher =
     map_option (\<lambda>block. \<lparr>ra_block = block, ra_seed = crand 1 16, ra_count = 0, ra_draws = 2\<rparr>) (newCipher (crand 0 16))"

definition aes_updateSeed :: "crand \<Rightarrow> newCipher \<Rightarrow> rngAES \<Rightarrow> rngAES option" where
  "aes_updateSeed crand newCipher r =
     (if ra_count r < reseedInterval then Some (r\<lparr>ra_count := ra_count r + 1\<rparr>)
      else map_option (\<lambda>block. r\<lparr>ra_block := block, ra_seed := crand (ra_draws r + 1) 16, ra_count := 0, ra_draws := ra_draws r + 2\<rparr>)
             (newCipher (crand (ra_draws r) 16)))"

text \<open>\<open>n\<close> is the length of the buffer; the bytes are those written to its front.\<close>

definition aes_Read :: "crand \<Rightarrow> newCipher \<Rightarrow> nat \<Rightarrow> rngAES \<Rightarrow> (byte list \<times> rngAES) option" where
  "aes_Read crand newCipher n r =
     (if n = 0 then Some ([], r)
      else map_option (\<lambda>r. let seed = ra_block r (ra_seed r) in (take (min n 16) seed, r\<lparr>ra_seed := seed\<rparr>))
             (aes_updateSeed crand newCipher r))"

text \<open>\<^verbatim>\<open>io.ReadFull\<close> on this reader: each read returns as many bytes as fit, at most 16.\<close>

function aes_fill :: "crand \<Rightarrow> newCipher \<Rightarrow> nat \<Rightarrow> rngAES \<Rightarrow> (byte list \<times> rngAES) option" where
  "aes_fill crand newCipher n r =
     (if n = 0 then Some ([], r)
      else case aes_Read crand newCipher n r of
        None \<Rightarrow> None
      | Some (bs, r) \<Rightarrow> map_option (\<lambda>(rest, r). (bs @ rest, r)) (aes_fill crand newCipher (n - min n 16) r))"
  by pat_completeness auto
termination
  by (relation "measure (\<lambda>(crand, newCipher, n, r). n)") auto

declare aes_fill.simps [simp del]

section \<open>The stream generator\<close>

record 's rngChacha8 =
  rc_rand :: 's
  rc_count :: "64 word"
  rc_draws :: nat

record 's chacha =
  ch_New :: "byte list \<Rightarrow> 's"
  ch_Read :: "nat \<Rightarrow> 's \<Rightarrow> byte list \<times> 's"

definition NewEntropyChacha8 :: "crand \<Rightarrow> 's chacha \<Rightarrow> 's rngChacha8" where
  "NewEntropyChacha8 crand ch = \<lparr>rc_rand = ch_New ch (crand 0 32), rc_count = 0, rc_draws = 1\<rparr>"

definition chacha_updateSeed :: "crand \<Rightarrow> 's chacha \<Rightarrow> 's rngChacha8 \<Rightarrow> 's rngChacha8" where
  "chacha_updateSeed crand ch r =
     (if rc_count r < reseedInterval then r\<lparr>rc_count := rc_count r + 1\<rparr>
      else r\<lparr>rc_rand := ch_New ch (crand (rc_draws r) 32), rc_count := 0, rc_draws := Suc (rc_draws r)\<rparr>)"

definition chacha_Read :: "crand \<Rightarrow> 's chacha \<Rightarrow> nat \<Rightarrow> 's rngChacha8 \<Rightarrow> byte list \<times> 's rngChacha8" where
  "chacha_Read crand ch n r =
     (if n = 0 then ([], r)
      else let r = chacha_updateSeed crand ch r; (bs, g) = ch_Read ch n (rc_rand r) in (bs, r\<lparr>rc_rand := g\<rparr>))"

section \<open>The global source\<close>

datatype 's reader = AES rngAES | Chacha8 "'s rngChacha8"

definition NewEntropy :: "bool \<Rightarrow> crand \<Rightarrow> newCipher \<Rightarrow> 's chacha \<Rightarrow> 's reader option" where
  "NewEntropy hasAESHardwareSupport crand newCipher ch =
     (if hasAESHardwareSupport then map_option AES (NewEntropyAES crand newCipher)
      else Some (Chacha8 (NewEntropyChacha8 crand ch)))"

text \<open>A \<^verbatim>\<open>Read\<close> of the ChaCha8 stream fills the whole buffer, so \<^verbatim>\<open>io.ReadFull\<close> reads once.\<close>

definition fillRand :: "crand \<Rightarrow> newCipher \<Rightarrow> 's chacha \<Rightarrow> nat \<Rightarrow> 's reader \<Rightarrow> (byte list \<times> 's reader) option" where
  "fillRand crand newCipher ch n r =
     (if n = 0 then Some ([], r)
      else case r of
        AES g \<Rightarrow> map_option (\<lambda>(bs, g). (bs, AES g)) (aes_fill crand newCipher n g)
      | Chacha8 g \<Rightarrow> (let (bs, g) = chacha_Read crand ch n g in Some (bs, Chacha8 g)))"

section \<open>Buffers are filled\<close>

text \<open>What the packages document: the operating system fills the buffer it is given, AES accepts a key of 16 bytes
  and maps blocks of 16 bytes to blocks of 16 bytes, the stream fills the buffer it is given.\<close>

definition sources_ok :: "crand \<Rightarrow> newCipher \<Rightarrow> 's chacha \<Rightarrow> bool" where
  "sources_ok crand newCipher ch \<longleftrightarrow> (\<forall>i n. length (crand i n) = n) \<and>
     (\<forall>key. length key = 16 \<longrightarrow> (\<exists>E. newCipher key = Some E \<and> (\<forall>x. length x = 16 \<longrightarrow> length (E x) = 16))) \<and>
     (\<forall>n g. length (fst (ch_Read ch n g)) = n)"

definition aes_wf :: "rngAES \<Rightarrow> bool" where
  "aes_wf r \<longleftrightarrow> length (ra_seed r) = 16 \<and> (\<forall>x. length x = 16 \<longrightarrow> length (ra_block r x) = 16) \<and> ra_count r \<le> reseedInterval"

fun reader_wf :: "'s reader \<Rightarrow> bool" where
  "reader_wf (AES r) \<longleftrightarrow> aes_wf r"
| "reader_wf (Chacha8 r) \<longleftrightarrow> rc_count r \<le> reseedInterval"

lemma count_step: "c < reseedInterval \<Longrightarrow> c + 1 \<le> reseedInterval"
  by (metis inc_le)

lemma NewEntropy_wf:
  assumes "sources_ok crand newCipher ch"
  shows "\<exists>r. NewEntropy hw crand newCipher ch = Some r \<and> reader_wf r"
proof -
  obtain E where "newCipher (crand 0 16) = Some E" "\<forall>x. length x = 16 \<longrightarrow> length (E x) = 16"
    using assms unfolding sources_ok_def by blast
  then show ?thesis
    using assms by (auto simp: NewEntropy_def NewEntropyAES_def NewEntropyChacha8_def sources_ok_def aes_wf_def)
qed

lemma aes_Read_wf:
  assumes ok: "sources_ok crand newCipher ch" and wf: "aes_wf r" and n: "0 < n"
  shows "\<exists>bs r'. aes_Read crand newCipher n r = Some (bs, r') \<and> length bs = min n 16 \<and> aes_wf r'"
proof -
  obtain E where E: "newCipher (crand (ra_draws r) 16) = Some E" "\<forall>x. length x = 16 \<longrightarrow> length (E x) = 16"
    using ok unfolding sources_ok_def by blast
  have "length (crand (ra_draws r + 1) 16) = 16" using ok by (simp add: sources_ok_def)
  with E wf n show ?thesis
    by (auto simp: aes_Read_def aes_updateSeed_def aes_wf_def Let_def count_step)
qed

lemma aes_fill_wf:
  assumes ok: "sources_ok crand newCipher ch"
  shows "aes_wf r \<Longrightarrow> \<exists>bs r'. aes_fill crand newCipher n r = Some (bs, r') \<and> length bs = n \<and> aes_wf r'"
proof (induction n arbitrary: r rule: less_induct)
  case (less n)
  show ?case
  proof (cases "n = 0")
    case True
    then show ?thesis using less.prems by (simp add: aes_fill.simps)
  next
    case False
    then obtain bs r' where r: "aes_Read crand newCipher n r = Some (bs, r')" "length bs = min n 16" "aes_wf r'"
      using aes_Read_wf [OF ok less.prems, of n] by blast
    then obtain rest r'' where "aes_fill crand newCipher (n - min n 16) r' = Some (rest, r'')" "length rest = n - min n 16" "aes_wf r''"
      using less.IH [OF _ r(3), of "n - min n 16"] False by force
    then show ?thesis using r False by (subst aes_fill.simps) auto
  qed
qed

text \<open>A nonce is always filled completely, with neither panic nor endless loop, and no key or stream serves more than
  \<^verbatim>\<open>reseedInterval\<close> reads beyond its first.\<close>

theorem fillRand_fills:
  assumes "sources_ok crand newCipher ch" "reader_wf r"
  shows "\<exists>bs r'. fillRand crand newCipher ch n r = Some (bs, r') \<and> length bs = n \<and> reader_wf r'"
proof (cases r)
  case (AES g)
  then show ?thesis using aes_fill_wf [OF assms(1), of g n] assms(2) by (auto simp: fillRand_def)
next
  case (Chacha8 g)
  have "length (fst (ch_Read ch n x)) = n" for x using assms(1) by (simp add: sources_ok_def)
  then show ?thesis
    using Chacha8 assms(2)
    by (auto simp: fillRand_def chacha_Read_def chacha_updateSeed_def Let_def count_step split: prod.splits) (metis fst_conv)+
qed

end
