(* ===== verification/Blocking.thy ===== *)
theory Blocking
  imports Session_Events Session_Properties
begin

text \<open>
  The waiting calls of \<^verbatim>\<open>sess.go\<close>: any number of goroutines in \<^verbatim>\<open>Read\<close> and in \<^verbatim>\<open>WriteBuffers\<close> on one session, beside
  the network, the timer, the worker and \<^verbatim>\<open>Close\<close>. Between two points where a goroutine can be suspended a call is one
  step: an attempt under the session's lock, a \<^verbatim>\<open>select\<close>, taking or returning the write gate. A \<^verbatim>\<open>select\<close> with several
  ready channels picks any of them, so a step carries the choice. Deadlines and rate limits are other packages:
  a deadline is the state of its \<^verbatim>\<open>Done\<close> channel, which the environment may close, and pacing ends some time later.
  \<open>None\<close> is a panic, or the return of a gate that is already there, which would block for good.
\<close>

section \<open>State\<close>

datatype reader_pc = R_idle | R_read nat | R_wait nat | R_done "io_error + byte list"

datatype writer_pc =
    W_idle
  | W_start "byte list list"
  | W_waitGate "byte list list"
  | W_check "byte list list"
  | W_write "byte list list"
  | W_wait "byte list list"
  | W_pace nat
  | W_done "io_error + nat"

record conn =
  c_sess :: UDPSession
  c_writeGate :: bool
  c_readers :: "reader_pc list"
  c_writers :: "writer_pc list"
  c_readDeadline :: bool
  c_writeDeadline :: bool
  c_writeError :: bool
  c_bucket :: bool

definition new_conn :: "UDPSession \<Rightarrow> nat \<Rightarrow> nat \<Rightarrow> conn" where
  "new_conn s readers writers =
     \<lparr>c_sess = s, c_writeGate = True, c_readers = replicate readers R_idle, c_writers = replicate writers W_idle,
      c_readDeadline = False, c_writeDeadline = False, c_writeError = False, c_bucket = False\<rparr>"

definition set_reader :: "nat \<Rightarrow> reader_pc \<Rightarrow> conn \<Rightarrow> conn" where
  "set_reader i r c = c\<lparr>c_readers := (c_readers c)[i := r]\<rparr>"

definition set_writer :: "nat \<Rightarrow> writer_pc \<Rightarrow> conn \<Rightarrow> conn" where
  "set_writer i w c = c\<lparr>c_writers := (c_writers c)[i := w]\<rparr>"

text \<open>The cases of the \<^verbatim>\<open>select\<close> statements.\<close>

datatype wake = Wake_event | Wake_gate | Wake_deadline | Wake_error | Wake_die

fun read_ready :: "wake \<Rightarrow> conn \<Rightarrow> bool" where
  "read_ready Wake_event c = s_chReadEvent (c_sess c)"
| "read_ready Wake_gate c = False"
| "read_ready Wake_deadline c = c_readDeadline c"
| "read_ready Wake_error c = s_readError (c_sess c)"
| "read_ready Wake_die c = s_die (c_sess c)"

fun write_ready :: "wake \<Rightarrow> conn \<Rightarrow> bool" where
  "write_ready Wake_event c = s_chWriteEvent (c_sess c)"
| "write_ready Wake_gate c = c_writeGate c"
| "write_ready Wake_deadline c = c_writeDeadline c"
| "write_ready Wake_error c = c_writeError c"
| "write_ready Wake_die c = s_die (c_sess c)"

fun wake_error :: "wake \<Rightarrow> io_error option" where
  "wake_error Wake_event = None"
| "wake_error Wake_gate = None"
| "wake_error Wake_deadline = Some errTimeout"
| "wake_error Wake_error = Some errSocket"
| "wake_error Wake_die = Some errClosedPipe"

section \<open>Read\<close>

definition Read_attempt :: "nat \<Rightarrow> nat \<Rightarrow> conn \<Rightarrow> conn option" where
  "Read_attempt i n c = do {
     (k, bs, ok, s) \<leftarrow> sess_read n (c_sess c);
     Some (set_reader i (if ok then R_done (Inr bs) else R_wait n) (c\<lparr>c_sess := s\<rparr>)) }"

definition Read_select :: "wake \<Rightarrow> nat \<Rightarrow> nat \<Rightarrow> conn \<Rightarrow> conn" where
  "Read_select w i n c =
     (if \<not> read_ready w c then c
      else case wake_error w of
          None \<Rightarrow> set_reader i (R_read n) (c\<lparr>c_sess := (c_sess c)\<lparr>s_chReadEvent := False\<rparr>\<rparr>)
        | Some e \<Rightarrow> set_reader i (R_done (Inl e)) c)"

definition reader_step :: "wake \<Rightarrow> nat \<Rightarrow> conn \<Rightarrow> conn option" where
  "reader_step w i c =
     (if i < length (c_readers c) then
        (case c_readers c ! i of
           R_read n \<Rightarrow> Read_attempt i n c
         | R_wait n \<Rightarrow> Some (Read_select w i n c)
         | _ \<Rightarrow> Some c)
      else Some c)"

section \<open>Write\<close>

definition releaseWriteGate :: "conn \<Rightarrow> conn option" where
  "releaseWriteGate c = (if c_writeGate c then None else Some (c\<lparr>c_writeGate := True\<rparr>))"

text \<open>A return after the gate was taken: the deferred call gives it back.\<close>

definition Write_return :: "nat \<Rightarrow> io_error + nat \<Rightarrow> conn \<Rightarrow> conn option" where
  "Write_return i r c = releaseWriteGate (set_writer i (W_done r) c)"

text \<open>A write of no bytes only reports the state of the connection.\<close>

definition Write_empty :: "wake \<Rightarrow> nat \<Rightarrow> conn \<Rightarrow> conn" where
  "Write_empty w i c =
     (if w \<in> {Wake_error, Wake_die} \<and> write_ready w c then set_writer i (W_done (Inl (the (wake_error w)))) c
      else if write_ready Wake_error c \<or> write_ready Wake_die c then c
      else set_writer i (W_done (Inr 0)) c)"

definition acquireWriteGate :: "nat \<Rightarrow> byte list list \<Rightarrow> conn \<Rightarrow> conn" where
  "acquireWriteGate i v c =
     (if c_writeGate c then set_writer i (W_check v) (c\<lparr>c_writeGate := False\<rparr>) else set_writer i (W_waitGate v) c)"

definition waitWriteGate :: "wake \<Rightarrow> nat \<Rightarrow> byte list list \<Rightarrow> conn \<Rightarrow> conn" where
  "waitWriteGate w i v c =
     (if \<not> write_ready w c then c
      else if w = Wake_event then c\<lparr>c_sess := (c_sess c)\<lparr>s_chWriteEvent := False\<rparr>\<rparr>
      else if w = Wake_gate then set_writer i (W_check v) (c\<lparr>c_writeGate := False\<rparr>)
      else set_writer i (W_done (Inl (the (wake_error w)))) c)"

definition Write_check :: "wake \<Rightarrow> nat \<Rightarrow> byte list list \<Rightarrow> conn \<Rightarrow> conn option" where
  "Write_check w i v c =
     (if w \<in> {Wake_deadline, Wake_error, Wake_die} \<and> write_ready w c then Write_return i (Inl (the (wake_error w))) c
      else if write_ready Wake_deadline c \<or> write_ready Wake_error c \<or> write_ready Wake_die c then Some c
      else Some (set_writer i (W_write v) c))"

text \<open>After the bytes are queued a rate limit makes the writer wait; then the call returns.\<close>

definition writeWait :: "nat \<Rightarrow> nat \<Rightarrow> conn \<Rightarrow> conn option" where
  "writeWait i n c = (if c_bucket c then Some (set_writer i (W_pace n) c) else Write_return i (Inr n) c)"

definition Write_attempt :: "env \<Rightarrow> nat \<Rightarrow> byte list list \<Rightarrow> conn \<Rightarrow> conn option" where
  "Write_attempt env i v c = do {
     (n, ok, s) \<leftarrow> writeBuffers env v (c_sess c);
     let c = c\<lparr>c_sess := s\<rparr>;
     if \<not> ok then Some (set_writer i (W_wait v) c) else writeWait i n c }"

definition Write_select :: "wake \<Rightarrow> nat \<Rightarrow> byte list list \<Rightarrow> conn \<Rightarrow> conn option" where
  "Write_select w i v c =
     (if w = Wake_gate \<or> \<not> write_ready w c then Some c
      else if w = Wake_event then Some (set_writer i (W_check v) (c\<lparr>c_sess := (c_sess c)\<lparr>s_chWriteEvent := False\<rparr>\<rparr>))
      else Write_return i (Inl (the (wake_error w))) c)"

definition writer_step :: "env \<Rightarrow> wake \<Rightarrow> nat \<Rightarrow> conn \<Rightarrow> conn option" where
  "writer_step env w i c =
     (if i < length (c_writers c) then
        (case c_writers c ! i of
           W_start v \<Rightarrow> Some (if buffersEmpty v then Write_empty w i c else acquireWriteGate i v c)
         | W_waitGate v \<Rightarrow> Some (waitWriteGate w i v c)
         | W_check v \<Rightarrow> Write_check w i v c
         | W_write v \<Rightarrow> Write_attempt env i v c
         | W_wait v \<Rightarrow> Write_select w i v c
         | W_pace n \<Rightarrow> Write_return i (Inr n) c
         | _ \<Rightarrow> Some c)
      else Some c)"

section \<open>The session with its callers\<close>

datatype conn_op =
    C_Read nat nat
  | C_Write nat "byte list list"
  | C_reader wake nat
  | C_writer wake nat
  | C_session sess_op
  | C_SetReadDeadline bool
  | C_SetWriteDeadline bool
  | C_SetDeadline bool
  | C_readExpires
  | C_writeExpires
  | C_writeError
  | C_SetRateLimit u32
  | C_SetBucket bool

text \<open>A goroutine calls again only after it returned.\<close>

definition start_read :: "nat \<Rightarrow> nat \<Rightarrow> conn \<Rightarrow> conn" where
  "start_read i n c =
     (if i < length (c_readers c) then
        (case c_readers c ! i of R_read _ \<Rightarrow> c | R_wait _ \<Rightarrow> c | _ \<Rightarrow> set_reader i (R_read n) c)
      else c)"

definition start_write :: "nat \<Rightarrow> byte list list \<Rightarrow> conn \<Rightarrow> conn" where
  "start_write i v c =
     (if i < length (c_writers c) then
        (case c_writers c ! i of W_idle \<Rightarrow> set_writer i (W_start v) c | W_done _ \<Rightarrow> set_writer i (W_start v) c | _ \<Rightarrow> c)
      else c)"

definition SetReadDeadline :: "bool \<Rightarrow> conn \<Rightarrow> conn" where
  "SetReadDeadline passed c = c\<lparr>c_readDeadline := passed\<rparr>"

definition SetWriteDeadline :: "bool \<Rightarrow> conn \<Rightarrow> conn" where
  "SetWriteDeadline passed c = c\<lparr>c_writeDeadline := passed\<rparr>"

definition SetDeadline :: "bool \<Rightarrow> conn \<Rightarrow> conn" where
  "SetDeadline passed c = SetWriteDeadline passed (SetReadDeadline passed c)"

definition notifyWriteError :: "conn \<Rightarrow> conn" where
  "notifyWriteError c = c\<lparr>c_writeError := True\<rparr>"

definition SetRateLimit :: "u32 \<Rightarrow> conn \<Rightarrow> conn" where
  "SetRateLimit bps c = c\<lparr>c_bucket := (bps > 0)\<rparr>"

definition SetBucket :: "bool \<Rightarrow> conn \<Rightarrow> conn" where
  "SetBucket bucket c = c\<lparr>c_bucket := bucket\<rparr>"

fun conn_exec :: "env \<Rightarrow> conn_op \<Rightarrow> conn \<Rightarrow> conn option" where
  "conn_exec env (C_Read i n) c = Some (start_read i n c)"
| "conn_exec env (C_Write i v) c = Some (start_write i v c)"
| "conn_exec env (C_reader w i) c = reader_step w i c"
| "conn_exec env (C_writer w i) c = writer_step env w i c"
| "conn_exec env (C_session x) c = map_option (\<lambda>s. c\<lparr>c_sess := s\<rparr>) (sess_exec env x (c_sess c))"
| "conn_exec env (C_SetReadDeadline passed) c = Some (SetReadDeadline passed c)"
| "conn_exec env (C_SetWriteDeadline passed) c = Some (SetWriteDeadline passed c)"
| "conn_exec env C_readExpires c = Some (c\<lparr>c_readDeadline := True\<rparr>)"
| "conn_exec env C_writeExpires c = Some (c\<lparr>c_writeDeadline := True\<rparr>)"
| "conn_exec env C_writeError c = Some (notifyWriteError c)"
| "conn_exec env (C_SetRateLimit bps) c = Some (SetRateLimit bps c)"
| "conn_exec env (C_SetDeadline passed) c = Some (SetDeadline passed c)"
| "conn_exec env (C_SetBucket bucket) c = Some (SetBucket bucket c)"

text \<open>Bytes are written by the writers only.\<close>

fun conn_allowed :: "conn_op \<Rightarrow> bool" where
  "conn_allowed (C_session x) \<longleftrightarrow> deliverable x \<and> (case x of S_Write _ \<Rightarrow> False | _ \<Rightarrow> True)"
| "conn_allowed _ \<longleftrightarrow> True"

inductive conn_reach :: "env \<Rightarrow> conn \<Rightarrow> conn \<Rightarrow> bool" for env c0 where
  conn_start: "conn_reach env c0 c0"
| conn_step: "conn_reach env c0 c \<Longrightarrow> conn_allowed x \<Longrightarrow> conn_exec env x c = Some c' \<Longrightarrow> conn_reach env c0 c'"

section \<open>The gate\<close>

fun holds_gate :: "writer_pc \<Rightarrow> bool" where
  "holds_gate (W_check v) \<longleftrightarrow> True"
| "holds_gate (W_write v) \<longleftrightarrow> True"
| "holds_gate (W_wait v) \<longleftrightarrow> True"
| "holds_gate (W_pace n) \<longleftrightarrow> True"
| "holds_gate _ \<longleftrightarrow> False"

text \<open>The gate is there, or exactly one writer has it.\<close>

definition gate_tokens :: "conn \<Rightarrow> nat" where
  "gate_tokens c = length (filter holds_gate (c_writers c)) + (if c_writeGate c then 1 else 0)"

lemma filter_update:
  "i < length xs \<Longrightarrow> length (filter P (xs[i := x])) + (if P (xs ! i) then 1 else 0) = length (filter P xs) + (if P x then 1 else 0)"
proof (induction xs arbitrary: i)
  case (Cons y ys)
  then show ?case by (cases i) auto
qed simp

lemma set_writer_fields [simp]:
  "c_sess (set_writer i w c) = c_sess c" "c_readers (set_writer i w c) = c_readers c" "c_writeGate (set_writer i w c) = c_writeGate c"
  "c_writers (set_writer i w c) = (c_writers c)[i := w]"
  by (simp_all add: set_writer_def)

lemma set_reader_fields [simp]:
  "c_sess (set_reader i r c) = c_sess c" "c_writers (set_reader i r c) = c_writers c" "c_writeGate (set_reader i r c) = c_writeGate c"
  "c_readers (set_reader i r c) = (c_readers c)[i := r]"
  by (simp_all add: set_reader_def)

lemma gate_tokens_move:
  assumes "i < length (c_writers c)" "holds_gate w = holds_gate (c_writers c ! i)"
  shows "gate_tokens (set_writer i w c) = gate_tokens c"
  using filter_update [OF assms(1), of holds_gate w] assms(2) by (simp add: gate_tokens_def split: if_splits)

lemma gate_tokens_take:
  assumes "i < length (c_writers c)" "\<not> holds_gate (c_writers c ! i)" "holds_gate w" "c_writeGate c"
  shows "gate_tokens (set_writer i w (c\<lparr>c_writeGate := False\<rparr>)) = gate_tokens c"
  using filter_update [OF assms(1), of holds_gate w] assms(2-4) by (simp add: gate_tokens_def)

lemma Write_return_gate:
  assumes "i < length (c_writers c)" "holds_gate (c_writers c ! i)" "gate_tokens c = 1"
  shows "\<exists>c'. Write_return i r c = Some c' \<and> c' = set_writer i (W_done r) (c\<lparr>c_writeGate := True\<rparr>) \<and> gate_tokens c' = 1"
proof -
  have f: "length (filter holds_gate ((c_writers c)[i := W_done r])) + 1 = length (filter holds_gate (c_writers c))"
    using filter_update [OF assms(1), of holds_gate "W_done r"] assms(2) by simp
  then have "\<not> c_writeGate c" using assms(3) by (simp add: gate_tokens_def split: if_splits)
  then show ?thesis using f assms(3) by (simp add: Write_return_def releaseWriteGate_def gate_tokens_def set_writer_def)
qed

section \<open>Readers\<close>

text \<open>While a reader waits and there is data, a token is there or another reader is about to look.\<close>

definition readers_told :: "conn \<Rightarrow> bool" where
  "readers_told c \<longleftrightarrow> ((\<exists>n. R_wait n \<in> set (c_readers c)) \<and> readable (c_sess c) \<longrightarrow>
     s_chReadEvent (c_sess c) \<or> (\<exists>n. R_read n \<in> set (c_readers c)))"

lemma readers_told_sess:
  assumes "readers_told c" "tells_reader (c_sess c) (c_sess c')" "c_readers c' = c_readers c"
  shows "readers_told c'"
  using assms by (auto simp: readers_told_def tells_reader_def)

lemma readers_told_same: "readers_told c \<Longrightarrow> c_sess c' = c_sess c \<Longrightarrow> c_readers c' = c_readers c \<Longrightarrow> readers_told c'"
  by (simp add: readers_told_def)

lemma readable_events [simp]:
  "readable (s\<lparr>s_chReadEvent := b\<rparr>) = readable s" "readable (s\<lparr>s_chWriteEvent := b\<rparr>) = readable s" "readable (sess_count f s) = readable s"
  by (simp_all add: readable_def sess_count_def)

lemma sess_count_fields [simp]:
  "s_chReadEvent (sess_count f s) = s_chReadEvent s" "s_chWriteEvent (sess_count f s) = s_chWriteEvent s" "s_die (sess_count f s) = s_die s"
  by (simp_all add: sess_count_def)

text \<open>Replacing a reader that is not about to look.\<close>

lemma set_reader_read:
  assumes "i < length rs" "R_read n \<in> set rs" "rs ! i \<noteq> R_read n"
  shows "R_read n \<in> set (rs[i := r])"
proof -
  obtain j where "j < length rs" "rs ! j = R_read n" using assms(2) by (auto simp: in_set_conv_nth)
  then show ?thesis using assms(3) by (metis length_list_update nth_list_update_neq nth_mem)
qed

lemma told_looking: "i < length (c_readers c) \<Longrightarrow> readers_told (set_reader i (R_read n) c)"
  unfolding readers_told_def using set_update_memI [of i "c_readers c" "R_read n"] by auto

lemma reader_step_told:
  assumes wf: "sess_wf env (c_sess c)" and T: "readers_told c"
  shows "\<exists>c'. reader_step w i c = Some c' \<and> sess_wf env (c_sess c') \<and> readers_told c' \<and>
    c_writers c' = c_writers c \<and> c_writeGate c' = c_writeGate c \<and> tells_writer (c_sess c) (c_sess c')"
proof (cases "i < length (c_readers c)")
  case i: True
  let ?rs = "c_readers c"
  show ?thesis
  proof (cases "?rs ! i")
    case (R_read n)
    obtain k bs ok s where R: "sess_read n (c_sess c) = Some (k, bs, ok, s)" "sess_wf env s" using sess_read_wf [OF wf] by blast
    then obtain s0 where s0: "readLocked n (c_sess c) = Some (k, bs, ok, s0)" "s = (if ok then sess_count (addBytesReceived k) s0 else s0)"
      by (auto simp: sess_read_def bind_eq_Some_conv)
    have r: "\<not> ok \<longrightarrow> \<not> readable s" "ok \<longrightarrow> readable s \<longrightarrow> s_chReadEvent s" "tells_writer (c_sess c) s"
      using readLocked_tells [OF wf s0(1)] s0(2) by (auto split: if_splits)
    let ?c = "set_reader i (if ok then R_done (Inr bs) else R_wait n) (c\<lparr>c_sess := s\<rparr>)"
    have "readers_told ?c" using r by (cases ok) (auto simp: readers_told_def)
    then show ?thesis using i R_read R r(3) by (simp add: reader_step_def Read_attempt_def)
  next
    case (R_wait n)
    let ?c1 = "set_reader i (R_read n) (c\<lparr>c_sess := (c_sess c)\<lparr>s_chReadEvent := False\<rparr>\<rparr>)"
    have 1: "readers_told ?c1" using i by (intro told_looking) simp
    have 2: "readers_told (set_reader i (R_done r) c)" for r
    proof -
      have "R_wait m \<in> set ?rs" if "R_wait m \<in> set (?rs[i := R_done r])" for m
        using that set_update_subset_insert [of ?rs i "R_done r"] by auto
      then show ?thesis using T set_reader_read [OF i, of _ "R_done r"] R_wait by (fastforce simp: readers_told_def)
    qed
    have "reader_step w i c = Some (Read_select w i n c)" using i R_wait by (simp add: reader_step_def)
    moreover have "Read_select w i n c = c \<or> Read_select w i n c = ?c1 \<or> (\<exists>r. Read_select w i n c = set_reader i (R_done r) c)"
      by (cases w) (auto simp: Read_select_def)
    moreover have "tells_writer (c_sess c) (c_sess ?c1)" by (simp add: tells_writer_def writable_def)
    ultimately show ?thesis using 1 2 T wf by auto
  qed (use i T wf in \<open>simp_all add: reader_step_def\<close>)
qed (use T wf in \<open>simp add: reader_step_def\<close>)

section \<open>Writers\<close>

definition conn_inv :: "env \<Rightarrow> conn \<Rightarrow> bool" where
  "conn_inv env c \<longleftrightarrow> sess_wf env (c_sess c) \<and> gate_tokens c = 1 \<and> readers_told c"

lemma conn_inv_frame:
  assumes "conn_inv env c" "sess_wf env (c_sess c')" "tells_reader (c_sess c) (c_sess c')" "c_readers c' = c_readers c" "gate_tokens c' = 1"
  shows "conn_inv env c'"
  using assms readers_told_sess by (auto simp: conn_inv_def)

lemma drop_event_wf [simp]: "tells_reader s (s\<lparr>s_chWriteEvent := b\<rparr>)"
  by (simp add: tells_reader_def)

lemma Write_return_inv:
  assumes "conn_inv env c" "i < length (c_writers c)" "holds_gate (c_writers c ! i)"
  shows "\<exists>c'. Write_return i r c = Some c' \<and> conn_inv env c'"
proof -
  obtain c' where c': "Write_return i r c = Some c'" "c' = set_writer i (W_done r) (c\<lparr>c_writeGate := True\<rparr>)" "gate_tokens c' = 1"
    using Write_return_gate [OF assms(2,3)] assms(1) by (auto simp: conn_inv_def)
  then have "conn_inv env c'" using assms(1) by (intro conn_inv_frame [OF assms(1)]) (simp_all add: conn_inv_def)
  then show ?thesis using c'(1) by blast
qed

lemma set_writer_inv:
  assumes "conn_inv env c" "i < length (c_writers c)" "holds_gate w = holds_gate (c_writers c ! i)"
  shows "conn_inv env (set_writer i w c)"
  using assms gate_tokens_move [OF assms(2,3)] by (intro conn_inv_frame [OF assms(1)]) (simp_all add: conn_inv_def)

lemma take_gate_inv:
  assumes "conn_inv env c" "i < length (c_writers c)" "\<not> holds_gate (c_writers c ! i)" "c_writeGate c"
  shows "conn_inv env (set_writer i (W_check v) (c\<lparr>c_writeGate := False\<rparr>))"
  using assms gate_tokens_take [OF assms(2,3), of "W_check v"] by (intro conn_inv_frame [OF assms(1)]) (simp_all add: conn_inv_def)

lemma set_sess_inv:
  assumes "conn_inv env c" "sess_wf env s" "tells_reader (c_sess c) s"
  shows "conn_inv env (c\<lparr>c_sess := s\<rparr>)"
  using assms by (intro conn_inv_frame [OF assms(1)]) (simp_all add: conn_inv_def gate_tokens_def)

lemma Write_attempt_inv:
  assumes inv: "conn_inv env c" and env: "env_ok env" and i: "i < length (c_writers c)" "c_writers c ! i = W_write v"
  shows "\<exists>c'. Write_attempt env i v c = Some c' \<and> conn_inv env c'"
proof -
  have wf: "sess_wf env (c_sess c)" using inv by (simp add: conn_inv_def)
  obtain n ok s where W: "writeBuffers env v (c_sess c) = Some (n, ok, s)" "sess_wf env s"
    using writeBuffers_spec [OF wf env, of v] by (auto split: if_splits)
  have c1: "conn_inv env (c\<lparr>c_sess := s\<rparr>)" using set_sess_inv [OF inv W(2)] writeBuffers_tells [OF wf env W(1)] by blast
  have "conn_inv env (set_writer i (W_wait v) (c\<lparr>c_sess := s\<rparr>))" "conn_inv env (set_writer i (W_pace n) (c\<lparr>c_sess := s\<rparr>))"
    by (rule set_writer_inv [OF c1]; use i in simp)+
  moreover have "\<exists>c'. Write_return i (Inr n) (c\<lparr>c_sess := s\<rparr>) = Some c' \<and> conn_inv env c'"
    by (rule Write_return_inv [OF c1]) (use i in simp_all)
  ultimately show ?thesis using W(1) by (simp add: Write_attempt_def writeWait_def Let_def)
qed

lemma writer_step_inv:
  assumes inv: "conn_inv env c" and env: "env_ok env"
  shows "\<exists>c'. writer_step env w i c = Some c' \<and> conn_inv env c'"
proof (cases "i < length (c_writers c)")
  case i: True
  have ret: "\<exists>c'. Write_return i r c = Some c' \<and> conn_inv env c'" if "holds_gate (c_writers c ! i)" for r
    using Write_return_inv [OF inv i that] .
  have drop: "conn_inv env (c\<lparr>c_sess := (c_sess c)\<lparr>s_chWriteEvent := False\<rparr>\<rparr>)"
    using inv by (intro set_sess_inv [OF inv]) (simp_all add: conn_inv_def)
  note mv = set_writer_inv [OF inv i] and take = take_gate_inv [OF inv i]
  show ?thesis
  proof (cases "c_writers c ! i")
    case (W_start v)
    have "conn_inv env (Write_empty w i c)" using inv mv W_start by (simp add: Write_empty_def)
    moreover have "conn_inv env (acquireWriteGate i v c)" using mv take W_start by (simp add: acquireWriteGate_def)
    ultimately show ?thesis using i W_start by (simp add: writer_step_def)
  next
    case (W_waitGate v)
    have "conn_inv env (waitWriteGate w i v c)" using inv mv take drop W_waitGate by (simp add: waitWriteGate_def)
    then show ?thesis using i W_waitGate by (simp add: writer_step_def)
  next
    case (W_check v)
    have "\<exists>c'. Write_check w i v c = Some c' \<and> conn_inv env c'" using inv mv ret W_check by (simp add: Write_check_def)
    then show ?thesis using i W_check by (simp add: writer_step_def)
  next
    case (W_write v)
    then show ?thesis using i Write_attempt_inv [OF inv env i W_write] by (simp add: writer_step_def)
  next
    case (W_wait v)
    have "conn_inv env (set_writer i (W_check v) (c\<lparr>c_sess := (c_sess c)\<lparr>s_chWriteEvent := False\<rparr>\<rparr>))"
      by (rule set_writer_inv [OF drop]) (use i W_wait in simp_all)
    then have "\<exists>c'. Write_select w i v c = Some c' \<and> conn_inv env c'" using inv ret W_wait by (simp add: Write_select_def)
    then show ?thesis using i W_wait by (simp add: writer_step_def)
  next
    case (W_pace n)
    then show ?thesis using i ret by (simp add: writer_step_def)
  qed (use i inv in \<open>simp_all add: writer_step_def\<close>)
qed (use inv in \<open>simp add: writer_step_def\<close>)

section \<open>Every step\<close>

lemma start_read_inv: "conn_inv env c \<Longrightarrow> conn_inv env (start_read i n c)"
  using told_looking [of i c n] by (auto simp: start_read_def conn_inv_def gate_tokens_def split: reader_pc.splits)

lemma start_write_inv: "conn_inv env c \<Longrightarrow> conn_inv env (start_write i v c)"
  using set_writer_inv [of env c i "W_start v"] by (auto simp: start_write_def split: writer_pc.splits)

lemma sess_op_inv:
  assumes inv: "conn_inv env c" and env: "env_ok env" and x: "deliverable x"
  shows "\<exists>c'. conn_exec env (C_session x) c = Some c' \<and> conn_inv env c'"
proof -
  have wf: "sess_wf env (c_sess c)" using inv by (simp add: conn_inv_def)
  obtain s where s: "sess_exec env x (c_sess c) = Some s" "sess_wf env s" using sess_exec_wf [OF wf env x] by blast
  have "conn_inv env (c\<lparr>c_sess := s\<rparr>)"
  proof (cases "x = S_SetReadNotify")
    case True
    then have "readable s = readable (c_sess c)" "s_chReadEvent s = s_chReadEvent (c_sess c)"
      using s(1) by (auto simp: SetReadNotify_def readable_def)
    then show ?thesis using inv s(2) by (simp add: conn_inv_def readers_told_def gate_tokens_def)
  next
    case False
    then show ?thesis using set_sess_inv [OF inv s(2)] sess_exec_tells [OF wf env s(1)] by blast
  qed
  then show ?thesis using s(1) by simp
qed

lemma conn_exec_inv:
  assumes inv: "conn_inv env c" and env: "env_ok env" and x: "conn_allowed x"
  shows "\<exists>c'. conn_exec env x c = Some c' \<and> conn_inv env c'"
proof (cases x)
  case (C_reader w i)
  have "sess_wf env (c_sess c)" "readers_told c" using inv by (simp_all add: conn_inv_def)
  from reader_step_told [OF this] show ?thesis using C_reader inv by (fastforce simp: conn_inv_def gate_tokens_def)
next
  case (C_writer w i)
  then show ?thesis using writer_step_inv [OF inv env] by simp
next
  case (C_session y)
  then show ?thesis using sess_op_inv [OF inv env] x by simp
next
  case (C_Read i n)
  then show ?thesis using start_read_inv [OF inv] by simp
next
  case (C_Write i v)
  then show ?thesis using start_write_inv [OF inv] by simp
qed (use inv in \<open>simp_all add: SetDeadline_def SetReadDeadline_def SetWriteDeadline_def notifyWriteError_def SetRateLimit_def SetBucket_def
    conn_inv_def readers_told_def gate_tokens_def\<close>)

lemma new_conn_inv: "sess_wf env s \<Longrightarrow> conn_inv env (new_conn s r w)"
  by (simp add: conn_inv_def readers_told_def gate_tokens_def new_conn_def)

lemma conn_reach_inv:
  assumes "conn_reach env c0 c" "conn_inv env c0" "env_ok env"
  shows "conn_inv env c"
  using assms
proof (induction rule: conn_reach.induct)
  case (conn_step c x c')
  then show ?case using conn_exec_inv [of env c x] by auto
qed

text \<open>C24. No reader is forgotten. With any number of goroutines in \<^verbatim>\<open>Read\<close> and in \<^verbatim>\<open>Write\<close> on a session, and whatever the
  network, the timer, the workers and \<^verbatim>\<open>Close\<close> do between their steps, a reader never sleeps while data is ready: a
  token waits in \<^verbatim>\<open>chReadEvent\<close>, or another reader is about to look. When the session is closed, its socket failed or the
  deadline has passed, a sleeping reader's next step returns the error.\<close>

theorem reader_not_forgotten:
  assumes "sess_wf env s" "env_ok env" "conn_reach env (new_conn s r w) c"
    and "i < length (c_readers c)" "c_readers c ! i = R_wait n"
  shows "(readable (c_sess c) \<longrightarrow> read_ready Wake_event c \<or> (\<exists>m. R_read m \<in> set (c_readers c))) \<and>
    (\<forall>k e. read_ready k c \<and> wake_error k = Some e \<longrightarrow> (\<exists>c'. conn_exec env (C_reader k i) c = Some c' \<and> c_readers c' ! i = R_done (Inl e)))"
proof -
  have "readers_told c" using conn_reach_inv [OF assms(3) new_conn_inv [OF assms(1)] assms(2)] by (simp add: conn_inv_def)
  moreover have "R_wait n \<in> set (c_readers c)" using assms(4,5) by (metis nth_mem)
  ultimately show ?thesis using assms(4,5) by (auto simp: readers_told_def reader_step_def Read_select_def)
qed

lemma Write_return_writers: "Write_return i r c = Some c' \<Longrightarrow> c_writers c' = (c_writers c)[i := W_done r]"
  by (auto simp: Write_return_def releaseWriteGate_def split: if_splits)

lemma sleeping_writer_error:
  assumes "i < length (c_writers c)" "c_writers c ! i \<in> {W_wait v, W_waitGate v}" "write_ready k c" "wake_error k = Some e"
    and "conn_exec env (C_writer k i) c = Some c'"
  shows "c_writers c' ! i = W_done (Inl e)"
proof -
  have k: "k \<noteq> Wake_event" "k \<noteq> Wake_gate" using assms(4) by auto
  show ?thesis
    using assms k Write_return_writers [of i "Inl e" c c'] by (auto simp: writer_step_def Write_select_def waitWriteGate_def)
qed

text \<open>A writer that is paced by the rate limit has its bytes queued already. It looks at nothing while it waits.\<close>

lemma paced_writer_step:
  assumes "i < length (c_writers c)" "c_writers c ! i = W_pace n" "conn_exec env (C_writer k i) c = Some c'"
  shows "c_writers c' ! i = W_done (Inr n)"
  using assms Write_return_writers [of i "Inr n" c c'] by (simp add: writer_step_def)

text \<open>C25. Writers take turns and none gets stuck. In every reachable state the write gate is there or exactly one
  writer has it, \<^verbatim>\<open>releaseWriteGate\<close> never blocks, and no step of any goroutine panics. When the session is closed, its
  socket failed or the deadline has passed, a writer that waits for the gate or for room returns the error in its
  next step. A writer that waits in \<^verbatim>\<open>writeWait\<close> for the rate limit is not interrupted by any of these: whatever
  happened meanwhile, its next step is the end of the pause, and it returns the number of bytes written.\<close>

theorem write_gate_exclusive:
  assumes "sess_wf env s" "env_ok env" "conn_reach env (new_conn s r w) c"
  shows "length (filter holds_gate (c_writers c)) = (if c_writeGate c then 0 else 1) \<and>
    (\<forall>x. conn_allowed x \<longrightarrow> (\<exists>c'. conn_exec env x c = Some c')) \<and>
    (\<forall>i v k e. i < length (c_writers c) \<and> c_writers c ! i \<in> {W_wait v, W_waitGate v} \<and> write_ready k c \<and> wake_error k = Some e \<longrightarrow>
       (\<exists>c'. conn_exec env (C_writer k i) c = Some c' \<and> c_writers c' ! i = W_done (Inl e))) \<and>
    (\<forall>i n k. i < length (c_writers c) \<and> c_writers c ! i = W_pace n \<longrightarrow>
       (\<exists>c'. conn_exec env (C_writer k i) c = Some c' \<and> c_writers c' ! i = W_done (Inr n)))"
proof -
  have inv: "conn_inv env c" using conn_reach_inv [OF assms(3) new_conn_inv [OF assms(1)] assms(2)] .
  then have "length (filter holds_gate (c_writers c)) = (if c_writeGate c then 0 else 1)"
    by (simp add: conn_inv_def gate_tokens_def split: if_splits)
  moreover have step: "\<exists>c'. conn_exec env x c = Some c'" if "conn_allowed x" for x using conn_exec_inv [OF inv assms(2) that] by blast
  moreover have "\<exists>c'. conn_exec env (C_writer k i) c = Some c' \<and> c_writers c' ! i = W_done (Inl e)"
    if "i < length (c_writers c)" "c_writers c ! i \<in> {W_wait v, W_waitGate v}" "write_ready k c" "wake_error k = Some e" for i v k e
    using step [of "C_writer k i"] sleeping_writer_error [OF that] by (metis conn_allowed.simps(5))
  moreover have "\<exists>c'. conn_exec env (C_writer k i) c = Some c' \<and> c_writers c' ! i = W_done (Inr n)"
    if "i < length (c_writers c)" "c_writers c ! i = W_pace n" for i n k
    using step [of "C_writer k i"] paced_writer_step [OF that] by (metis conn_allowed.simps(5))
  ultimately show ?thesis by blast
qed

section \<open>One writer\<close>

fun conn_run :: "env \<Rightarrow> conn_op list \<Rightarrow> conn \<Rightarrow> conn option" where
  "conn_run env [] c = Some c"
| "conn_run env (x # xs) c = Option.bind (conn_exec env x c) (conn_run env xs)"

lemma conn_run_reach:
  "\<forall>x\<in>set xs. conn_allowed x \<Longrightarrow> conn_run env xs c = Some c' \<Longrightarrow> conn_reach env c0 c \<Longrightarrow> conn_reach env c0 c'"
proof (induction xs arbitrary: c)
  case (Cons x xs)
  then obtain c1 where c1: "conn_exec env x c = Some c1" "conn_run env xs c1 = Some c'" by (auto simp: bind_eq_Some_conv)
  then have "conn_reach env c0 c1" using conn_step [OF Cons.prems(3) _ c1(1)] Cons.prems(1) by simp
  then show ?case using Cons.IH [OF _ c1(2)] Cons.prems(1) by simp
qed simp

definition writer_told :: "conn \<Rightarrow> bool" where
  "writer_told c \<longleftrightarrow> (\<exists>w. c_writers c = [w] \<and> (\<forall>v. w \<noteq> W_waitGate v) \<and>
     ((\<exists>v. w = W_wait v) \<and> writable (c_sess c) \<longrightarrow> s_chWriteEvent (c_sess c)))"

lemma writer_told_sess:
  assumes "writer_told c" "tells_writer (c_sess c) (c_sess c')" "c_writers c' = c_writers c"
  shows "writer_told c'"
  using assms by (auto simp: writer_told_def tells_writer_def)

lemma writer_step_writer_told:
  assumes inv: "conn_inv env c" and env: "env_ok env" and T: "writer_told c" and S: "writer_step env w i c = Some c'"
  shows "writer_told c'"
proof (cases "i = 0")
  case True
  obtain x where x: "c_writers c = [x]" "\<forall>v. x \<noteq> W_waitGate v" using T by (auto simp: writer_told_def)
  have wf: "sess_wf env (c_sess c)" using inv by (simp add: conn_inv_def)
  note S' = S [unfolded writer_step_def, simplified True x(1), simplified]
  show ?thesis
  proof (cases x)
    case (W_start v)
    then have "c_writeGate c" using inv x(1) by (simp add: conn_inv_def gate_tokens_def split: if_splits)
    then show ?thesis using S' W_start x(1) T
      by (auto simp: Write_empty_def acquireWriteGate_def True writer_told_def split: if_splits)
  next
    case (W_check v)
    then show ?thesis using S' x(1) T Write_return_writers [of 0 _ c c']
      by (auto simp: Write_check_def True writer_told_def split: if_splits)
  next
    case (W_write v)
    then obtain n ok s where W: "writeBuffers env v (c_sess c) = Some (n, ok, s)"
        "c' = set_writer 0 (W_wait v) (c\<lparr>c_sess := s\<rparr>) \<and> \<not> ok \<or> c' = set_writer 0 (W_pace n) (c\<lparr>c_sess := s\<rparr>) \<or>
         Write_return 0 (Inr n) (c\<lparr>c_sess := s\<rparr>) = Some c'"
      using S' by (auto simp: Write_attempt_def writeWait_def Let_def bind_eq_Some_conv True split: if_splits)
    have "\<not> ok \<longrightarrow> \<not> writable s" using writeBuffers_tells [OF wf env W(1)] by auto
    then show ?thesis using W(2) x(1) Write_return_writers [of 0 "Inr n" "c\<lparr>c_sess := s\<rparr>" c']
      by (auto simp: writer_told_def)
  next
    case (W_wait v)
    then show ?thesis using S' x(1) T Write_return_writers [of 0 _ c c']
      by (auto simp: Write_select_def True writer_told_def split: if_splits)
  next
    case (W_pace n)
    then show ?thesis using S' x(1) Write_return_writers [of 0 "Inr n" c c'] True by (auto simp: writer_told_def)
  qed (use S' x T in auto)
next
  case False
  then show ?thesis using S T by (auto simp: writer_step_def writer_told_def)
qed

fun fixed_window :: "conn_op \<Rightarrow> bool" where
  "fixed_window (C_session x) = keeps_window x"
| "fixed_window _ = True"

lemma conn_exec_writer_told:
  assumes inv: "conn_inv env c" and env: "env_ok env" and T: "writer_told c" and x: "fixed_window x" and E: "conn_exec env x c = Some c'"
  shows "writer_told c'"
proof (cases x)
  case (C_reader w i)
  have "sess_wf env (c_sess c)" "readers_told c" using inv by (simp_all add: conn_inv_def)
  from reader_step_told [OF this, of w i] show ?thesis using C_reader E writer_told_sess [OF T, of c'] by auto
next
  case (C_writer w i)
  then show ?thesis using writer_step_writer_told [OF inv env T] E by simp
next
  case (C_session y)
  then obtain s where s: "sess_exec env y (c_sess c) = Some s" "c' = c\<lparr>c_sess := s\<rparr>" using E by auto
  have "tells_writer (c_sess c) s"
  proof (cases "y = S_SetReadNotify")
    case True
    then show ?thesis using s(1) by (auto simp: SetReadNotify_def tells_writer_def writable_def)
  next
    case False
    then show ?thesis using sess_exec_tells [OF _ env s(1)] inv x C_session by (simp add: conn_inv_def)
  qed
  then show ?thesis using writer_told_sess [OF T, of c'] s(2) by simp
next
  case (C_Read i n)
  then show ?thesis using E T by (auto simp: writer_told_def start_read_def split: reader_pc.splits if_splits)
next
  case (C_Write i v)
  obtain w where w: "c_writers c = [w]" using T by (auto simp: writer_told_def)
  then show ?thesis using E C_Write T by (auto simp: start_write_def writer_told_def split: writer_pc.splits if_splits)
qed (use E T in \<open>auto simp: SetDeadline_def SetReadDeadline_def SetWriteDeadline_def notifyWriteError_def SetRateLimit_def SetBucket_def writer_told_def\<close>)

lemma conn_run_writer_told:
  "conn_inv env c \<Longrightarrow> writer_told c \<Longrightarrow> \<forall>x\<in>set xs. conn_allowed x \<and> fixed_window x \<Longrightarrow> conn_run env xs c = Some c' \<Longrightarrow> env_ok env \<Longrightarrow>
     conn_inv env c' \<and> writer_told c'"
proof (induction xs arbitrary: c)
  case (Cons x xs)
  then obtain c1 where c1: "conn_exec env x c = Some c1" "conn_run env xs c1 = Some c'" by (auto simp: bind_eq_Some_conv)
  have "conn_inv env c1" using conn_exec_inv [OF Cons.prems(1,5), of x] c1(1) Cons.prems(3) by auto
  moreover have "writer_told c1" using conn_exec_writer_told [OF Cons.prems(1,5,2) _ c1(1)] Cons.prems(3) by simp
  ultimately show ?case using Cons.IH [OF _ _ _ c1(2) Cons.prems(5)] Cons.prems(3) by simp
qed simp

lemma update_told:
  assumes "sess_wf env s" and "sess_exec env S_update s = Some s'" "\<not> s_die s" "writable s'"
  shows "s_chWriteEvent s'"
proof -
  obtain nu s1 where "s' = (if writable s1 then notifyWriteEvent s1 else s1)"
    using assms(2,3) by (auto simp: update_def Let_def bind_eq_Some_conv writable_def)
  then show ?thesis using assms(4) by (auto split: if_splits)
qed

text \<open>C26. One writer is not forgotten. When a single goroutine writes to the session and no call of \<^verbatim>\<open>SetWindowSize\<close> changes
  its windows, a writer that sleeps while the send window has room always has a token in \<^verbatim>\<open>chWriteEvent\<close>, and its next
  step tries again. With such calls allowed, it has one after the next timer update, for as many writers as
  there are, as long as the session is open.\<close>

theorem single_writer_not_forgotten:
  assumes "sess_wf env s" "env_ok env" "\<forall>x\<in>set xs. conn_allowed x" "conn_run env xs (new_conn s r n) = Some c"
    and "i < length (c_writers c)" "c_writers c ! i = W_wait v"
  shows "(n = 1 \<and> (\<forall>x\<in>set xs. fixed_window x) \<and> writable (c_sess c) \<longrightarrow>
      write_ready Wake_event c \<and> (\<exists>c'. conn_exec env (C_writer Wake_event i) c = Some c' \<and> c_writers c' ! i = W_check v)) \<and>
    (\<not> s_die (c_sess c) \<longrightarrow> (\<exists>c'. conn_exec env (C_session S_update) c = Some c' \<and> c_writers c' ! i = W_wait v \<and>
      (writable (c_sess c') \<longrightarrow> write_ready Wake_event c' \<and>
        (\<exists>c''. conn_exec env (C_writer Wake_event i) c' = Some c'' \<and> c_writers c'' ! i = W_check v))))"
proof -
  have inv: "conn_inv env c"
    using conn_reach_inv [OF conn_run_reach [OF assms(3,4) conn_start] new_conn_inv [OF assms(1)] assms(2)] .
  have tries: "\<exists>c''. conn_exec env (C_writer Wake_event i) x = Some c'' \<and> c_writers c'' ! i = W_check v"
    if "write_ready Wake_event x" "c_writers x = c_writers c" for x
    using assms(5,6) that by (simp add: writer_step_def Write_select_def)
  have one: "write_ready Wake_event c" if "n = 1" "\<forall>x\<in>set xs. fixed_window x" "writable (c_sess c)"
  proof -
    have "writer_told (new_conn s r 1)" by (simp add: writer_told_def new_conn_def)
    then have "writer_told c" using conn_run_writer_told [OF new_conn_inv [OF assms(1)] _ _ _ assms(2)] assms(3,4) that(1,2) by blast
    then show ?thesis using assms(5,6) that(3) by (auto simp: writer_told_def)
  qed
  have timer: "\<exists>c'. conn_exec env (C_session S_update) c = Some c' \<and> c_writers c' = c_writers c \<and>
      (writable (c_sess c') \<longrightarrow> write_ready Wake_event c')" if "\<not> s_die (c_sess c)"
  proof -
    have wf: "sess_wf env (c_sess c)" using inv by (simp add: conn_inv_def)
    then obtain s' where "sess_exec env S_update (c_sess c) = Some s'" using sess_exec_wf [OF _ assms(2), of _ S_update] by fastforce
    then show ?thesis using update_told [OF wf _ that] by auto
  qed
  show ?thesis using one timer tries assms(6) by (metis (no_types, lifting))
qed

section \<open>Runs\<close>

definition demo_conn :: "nat \<Rightarrow> nat \<Rightarrow> conn_op list \<Rightarrow> conn option" where
  "demo_conn r w xs = Option.bind (newUDPSession demo_env 7 0 0 False None newSnmp) (\<lambda>s. conn_run demo_env xs (new_conn s r w))"

lemma demo_conn_run:
  assumes "map_option f (demo_conn r w xs) = Some y" "list_all conn_allowed xs"
  obtains s c where "newUDPSession demo_env 7 0 0 False None newSnmp = Some s" "sess_wf demo_env s"
    "conn_run demo_env xs (new_conn s r w) = Some c" "conn_reach demo_env (new_conn s r w) c" "f c = y"
proof -
  obtain s where s: "newUDPSession demo_env 7 0 0 False None newSnmp = Some s" "sess_wf demo_env s"
    using newUDPSession_wf [OF demo_env_ok, of None 0 0 7 False newSnmp] by (auto simp: cryptHeader_def cryptTail_def)
  then obtain c where c: "conn_run demo_env xs (new_conn s r w) = Some c" "f c = y"
    using assms(1) by (auto simp: demo_conn_def)
  then have "conn_reach demo_env (new_conn s r w) c"
    using conn_run_reach [OF _ c(1) conn_start] assms(2) by (simp add: list_all_iff)
  then show thesis using that s c by blast
qed

definition idle_ops :: "conn_op list" where
  "idle_ops = [C_Read 0 5, C_reader Wake_event 0, C_session S_Close]"

lemma idle_run:
  "map_option (\<lambda>c. (c_readers c, s_die (c_sess c))) (demo_conn 1 0 idle_ops) = Some ([R_wait 5], True)"
  by code_simp

definition una_frame :: "byte list" where
  "una_frame = segment_encode (zero_segment\<lparr>seg_conv := 7, seg_cmd := IKCP_CMD_ACK, seg_wnd := 32, seg_una := 1\<rparr>)"

text \<open>A window of one segment, filled; the next write waits for room.\<close>

definition full_ops :: "conn_op list" where
  "full_ops =
     [C_session (S_SetWindowSize 1 0), C_session (S_SetNoDelay (- 1) (- 1) (- 1) 1),
      C_Write 0 [[1]], C_writer Wake_event 0, C_writer Wake_event 0, C_writer Wake_event 0,
      C_Write 0 [[2]], C_writer Wake_event 0, C_writer Wake_event 0, C_writer Wake_event 0]"

definition steal_ops :: "conn_op list" where
  "steal_ops = full_ops @ [C_Write 1 [[3]], C_writer Wake_event 1, C_session (S_packetInput una_frame), C_writer Wake_event 1]"

definition all_wakes :: "wake list" where
  "all_wakes = [Wake_event, Wake_gate, Wake_deadline, Wake_error, Wake_die]"

lemma all_wakes_all: "k \<in> set all_wakes"
  by (cases k) (simp_all add: all_wakes_def)

lemma steal_run:
  "map_option (\<lambda>c. (c_writers c, filter (\<lambda>k. write_ready k c) all_wakes, writable (c_sess c))) (demo_conn 0 2 steal_ops) =
     Some ([W_wait [[2]], W_waitGate [[3]]], [], True)"
  by code_simp

lemma runs_allowed: "list_all conn_allowed idle_ops" "list_all conn_allowed steal_ops"
  by code_simp+

text \<open>The window is set before the callers start, so the run keeps it.\<close>

definition narrow :: "UDPSession \<Rightarrow> UDPSession" where
  "narrow s = SetNoDelay (- 1) (- 1) (- 1) 1 (SetWindowSize 1 0 s)"

definition room_ops :: "conn_op list" where
  "room_ops = drop 2 full_ops @ [C_session (S_packetInput una_frame)]"

lemma room_run:
  "map_option (\<lambda>c. (c_writers c, writable (c_sess c)))
     (Option.bind (newUDPSession demo_env 7 0 0 False None newSnmp) (\<lambda>s. conn_run demo_env room_ops (new_conn (narrow s) 0 1))) =
     Some ([W_wait [[2]]], True)"
  by code_simp

lemma room_allowed: "list_all (\<lambda>x. conn_allowed x \<and> fixed_window x) room_ops"
  by code_simp

theorem reader_not_forgotten_witness:
  "\<exists>s c. newUDPSession demo_env 7 0 0 False None newSnmp = Some s \<and> conn_run demo_env idle_ops (new_conn s 1 0) = Some c \<and>
     (\<exists>c'. conn_exec demo_env (C_reader Wake_die 0) c = Some c' \<and> c_readers c' ! 0 = R_done (Inl errClosedPipe))"
proof -
  obtain s c where r: "newUDPSession demo_env 7 0 0 False None newSnmp = Some s" "sess_wf demo_env s"
      "conn_run demo_env idle_ops (new_conn s 1 0) = Some c" "conn_reach demo_env (new_conn s 1 0) c"
      "(c_readers c, s_die (c_sess c)) = ([R_wait 5], True)"
    by (rule demo_conn_run [OF idle_run runs_allowed(1)])
  then show ?thesis using reader_not_forgotten [OF r(2) demo_env_ok r(4), of 0 5] by simp
qed

theorem write_gate_exclusive_witness:
  "\<exists>s c. newUDPSession demo_env 7 0 0 False None newSnmp = Some s \<and> conn_run demo_env steal_ops (new_conn s 0 2) = Some c \<and>
     length (filter holds_gate (c_writers c)) = 1 \<and> (\<exists>c'. conn_exec demo_env (C_writer Wake_gate 1) c = Some c')"
proof -
  obtain s c where r: "newUDPSession demo_env 7 0 0 False None newSnmp = Some s" "sess_wf demo_env s"
      "conn_run demo_env steal_ops (new_conn s 0 2) = Some c" "conn_reach demo_env (new_conn s 0 2) c"
      "(c_writers c, filter (\<lambda>k. write_ready k c) all_wakes, writable (c_sess c)) = ([W_wait [[2]], W_waitGate [[3]]], [], True)"
    by (rule demo_conn_run [OF steal_run runs_allowed(2)])
  have "conn_allowed (C_writer Wake_gate 1)" by simp
  with write_gate_exclusive [OF r(2) demo_env_ok r(4)]
  have "\<exists>c'. conn_exec demo_env (C_writer Wake_gate 1) c = Some c'" by blast
  then show ?thesis using r by auto
qed

theorem single_writer_not_forgotten_witness:
  "\<exists>s c. newUDPSession demo_env 7 0 0 False None newSnmp = Some s \<and> conn_run demo_env room_ops (new_conn (narrow s) 0 1) = Some c \<and>
     s_chWriteEvent (c_sess c) \<and> (\<exists>c'. conn_exec demo_env (C_writer Wake_event 0) c = Some c' \<and> c_writers c' ! 0 = W_check [[2]])"
proof -
  obtain s where s: "newUDPSession demo_env 7 0 0 False None newSnmp = Some s" "sess_wf demo_env s"
    by (rule demo_conn_run [OF idle_run runs_allowed(1)])
  have "\<exists>s'. sess_exec demo_env (S_SetWindowSize 1 0) s = Some s' \<and> sess_wf demo_env s'"
    using sess_exec_wf [OF s(2) demo_env_ok, of "S_SetWindowSize 1 0"] by simp
  then have "sess_wf demo_env (SetWindowSize 1 0 s)" by simp
  from sess_exec_wf [OF this demo_env_ok, of "S_SetNoDelay (- 1) (- 1) (- 1) 1"]
  have w: "sess_wf demo_env (narrow s)" by (simp add: narrow_def)
  obtain c where c: "conn_run demo_env room_ops (new_conn (narrow s) 0 1) = Some c" "c_writers c = [W_wait [[2]]]" "writable (c_sess c)"
    using room_run s(1) by auto
  have a: "\<forall>x\<in>set room_ops. conn_allowed x" "\<forall>x\<in>set room_ops. fixed_window x" using room_allowed by (auto simp: list_all_iff)
  have "0 < length (c_writers c)" "c_writers c ! 0 = W_wait [[2]]" using c(2) by simp_all
  with single_writer_not_forgotten [OF w demo_env_ok a(1) c(1)] a(2) c(3)
  have "write_ready Wake_event c \<and> (\<exists>c'. conn_exec demo_env (C_writer Wake_event 0) c = Some c' \<and> c_writers c' ! 0 = W_check [[2]])"
    by blast
  then show ?thesis using c(1) s(1) by auto
qed

text \<open>C39. Two writers can lose a wake-up: a goroutine that waits for the write gate takes the token of \<^verbatim>\<open>chWriteEvent\<close> and
  goes back to sleep, and the writer that has the gate sleeps on although the window has room. An acknowledgement has
  come, both goroutines sleep, and no case of either \<^verbatim>\<open>select\<close> is ready.\<close>

theorem stolen_write_event:
  "\<exists>s c. newUDPSession demo_env 7 0 0 False None newSnmp = Some s \<and> conn_reach demo_env (new_conn s 0 2) c \<and>
     c_writers c = [W_wait [[2]], W_waitGate [[3]]] \<and> writable (c_sess c) \<and> (\<forall>i k. conn_exec demo_env (C_writer k i) c = Some c)"
proof -
  obtain s c where r: "newUDPSession demo_env 7 0 0 False None newSnmp = Some s" "sess_wf demo_env s"
      "conn_run demo_env steal_ops (new_conn s 0 2) = Some c" "conn_reach demo_env (new_conn s 0 2) c"
      "(c_writers c, filter (\<lambda>k. write_ready k c) all_wakes, writable (c_sess c)) = ([W_wait [[2]], W_waitGate [[3]]], [], True)"
    by (rule demo_conn_run [OF steal_run runs_allowed(2)])
  have "\<not> write_ready k c" for k using r(5) all_wakes_all [of k] by (auto simp: filter_empty_conv)
  then have "conn_exec demo_env (C_writer k i) c = Some c" for i k
    using r(5) by (cases "i = 0"; cases "i = 1") (auto simp: writer_step_def Write_select_def waitWriteGate_def)
  then show ?thesis using r by blast
qed

section \<open>A larger window\<close>

text \<open>The writer sleeps on a full window of one segment; then the application enlarges it.\<close>

definition widen_ops :: "conn_op list" where
  "widen_ops = full_ops @ [C_session (S_SetWindowSize 32 0)]"

lemma widen_run:
  "map_option (\<lambda>c. (c_writers c, filter (\<lambda>k. write_ready k c) all_wakes, writable (c_sess c))) (demo_conn 0 1 widen_ops) =
     Some ([W_wait [[2]]], [], True)" "list_all conn_allowed widen_ops"
  by code_simp+

theorem window_growth_untold:
  "\<exists>s c. newUDPSession demo_env 7 0 0 False None newSnmp = Some s \<and> conn_reach demo_env (new_conn s 0 1) c \<and>
     c_writers c = [W_wait [[2]]] \<and> writable (c_sess c) \<and> (\<forall>k. conn_exec demo_env (C_writer k 0) c = Some c)"
proof -
  obtain s c where r: "newUDPSession demo_env 7 0 0 False None newSnmp = Some s" "sess_wf demo_env s"
      "conn_run demo_env widen_ops (new_conn s 0 1) = Some c" "conn_reach demo_env (new_conn s 0 1) c"
      "(c_writers c, filter (\<lambda>k. write_ready k c) all_wakes, writable (c_sess c)) = ([W_wait [[2]]], [], True)"
    by (rule demo_conn_run [OF widen_run])
  have "\<not> write_ready k c" for k using r(5) all_wakes_all [of k] by (auto simp: filter_empty_conv)
  then have "conn_exec demo_env (C_writer k 0) c = Some c" for k using r(5) by (auto simp: writer_step_def Write_select_def)
  then show ?thesis using r by blast
qed

end
