(* ===== verification/Socket_Tx.thy ===== *)
theory Socket_Tx
  imports Blocking
begin

text \<open>
  Sending a batch of datagrams, \<^verbatim>\<open>tx.go\<close>, \<^verbatim>\<open>tx_generic.go\<close> and \<^verbatim>\<open>tx_linux.go\<close>: \<^verbatim>\<open>defaultTx\<close> writes one datagram per call,
  the Linux \<^verbatim>\<open>tx\<close> as many as the kernel takes at once. A message has a buffer and the address it goes to. The socket is a
  parameter: \<open>W\<close> is its \<^verbatim>\<open>WriteTo\<close>, \<open>WB\<close> the
  \<^verbatim>\<open>WriteBatch\<close> of a batch connection, on a state of the socket; \<open>None\<close> is their error. A batch call that
  reports more datagrams than it was given panics the loop, and one that never takes any keeps it running for good: both
  are \<open>None\<close>. The lemmas show that both ways send the same datagrams to the same addresses, in order, and count and
  report the same.
\<close>

section \<open>One by one\<close>

text \<open>An \<^verbatim>\<open>ipv4.Message\<close>: its one buffer and the printed form of its address.\<close>

record message =
  m_Buffer :: "byte list"
  m_Addr :: string

definition msg_len :: "message \<Rightarrow> nat" where
  "msg_len m = length (m_Buffer m)"

fun write_each :: "(byte list \<Rightarrow> string \<Rightarrow> 'k \<Rightarrow> nat option \<times> 'k) \<Rightarrow> message list \<Rightarrow> nat \<Rightarrow> nat \<Rightarrow> 'k \<Rightarrow> nat \<times> nat \<times> bool \<times> 'k" where
  "write_each W [] nbytes npkts k = (nbytes, npkts, False, k)"
| "write_each W (b # txqueue) nbytes npkts k =
     (case W (m_Buffer b) (m_Addr b) k of
        (None, k) \<Rightarrow> (nbytes, npkts, True, k)
      | (Some n, k) \<Rightarrow> write_each W txqueue (nbytes + n) (npkts + 1) k)"

text \<open>The end of both functions: the error, and the counters.\<close>

fun tx_done :: "nat \<times> nat \<times> bool \<times> 'k \<Rightarrow> conn \<Rightarrow> conn \<times> 'k" where
  "tx_done (nbytes, npkts, failed, k) c =
     (let c = (if failed then notifyWriteError c else c)
      in (c\<lparr>c_sess := sess_count (addOutBytes nbytes) (sess_count (addOutPkts npkts) (c_sess c))\<rparr>, k))"

definition defaultTx :: "(byte list \<Rightarrow> string \<Rightarrow> 'k \<Rightarrow> nat option \<times> 'k) \<Rightarrow> message list \<Rightarrow> conn \<Rightarrow> 'k \<Rightarrow> conn \<times> 'k" where
  "defaultTx W txqueue c k = tx_done (write_each W txqueue 0 0 k) c"

section \<open>In batches\<close>

partial_function (option) write_batches ::
    "(message list \<Rightarrow> 'k \<Rightarrow> nat option \<times> 'k) \<Rightarrow> message list \<Rightarrow> nat \<Rightarrow> nat \<Rightarrow> 'k \<Rightarrow> (nat \<times> nat \<times> bool \<times> 'k) option" where
  "write_batches WB txqueue nbytes npkts k =
     (if txqueue = [] then Some (nbytes, npkts, False, k)
      else case WB txqueue k of
          (None, k) \<Rightarrow> Some (nbytes, npkts, True, k)
        | (Some n, k) \<Rightarrow>
            if n > length txqueue then None
            else write_batches WB (drop n txqueue) (nbytes + sum_list (map msg_len (take n txqueue))) (npkts + n) k)"

declare write_batches.simps [code]

text \<open>\<open>batchConn\<close> is the platform's batch connection, if the conn has one.\<close>

definition tx :: "(message list \<Rightarrow> 'k \<Rightarrow> nat option \<times> 'k) option \<Rightarrow> (byte list \<Rightarrow> string \<Rightarrow> 'k \<Rightarrow> nat option \<times> 'k) \<Rightarrow>
    message list \<Rightarrow> conn \<Rightarrow> 'k \<Rightarrow> (conn \<times> 'k) option" where
  "tx batchConn W txqueue c k =
     (case batchConn of
        None \<Rightarrow> Some (defaultTx W txqueue c k)
      | Some WB \<Rightarrow> map_option (\<lambda>r. tx_done r c) (write_batches WB txqueue 0 0 k))"

section \<open>What a socket does\<close>

text \<open>Datagrams that the socket takes one after the other, each whole.\<close>

fun write_all :: "(byte list \<Rightarrow> string \<Rightarrow> 'k \<Rightarrow> nat option \<times> 'k) \<Rightarrow> message list \<Rightarrow> 'k \<Rightarrow> 'k option" where
  "write_all W [] k = Some k"
| "write_all W (b # bs) k = (case W (m_Buffer b) (m_Addr b) k of (None, _) \<Rightarrow> None | (Some n, k) \<Rightarrow> if n = msg_len b then write_all W bs k else None)"

text \<open>A datagram is written whole or not at all. \<^verbatim>\<open>sendmmsg\<close> sends some of the messages, at least one, as single calls
  would, and reports an error only for the first.\<close>

definition whole_datagrams :: "(byte list \<Rightarrow> string \<Rightarrow> 'k \<Rightarrow> nat option \<times> 'k) \<Rightarrow> bool" where
  "whole_datagrams W \<longleftrightarrow> (\<forall>b a k n k'. W b a k = (Some n, k') \<longrightarrow> n = length b)"

definition sends_batches :: "(byte list \<Rightarrow> string \<Rightarrow> 'k \<Rightarrow> nat option \<times> 'k) \<Rightarrow> (message list \<Rightarrow> 'k \<Rightarrow> nat option \<times> 'k) \<Rightarrow> bool" where
  "sends_batches W WB \<longleftrightarrow> (\<forall>b bs k.
     (case WB (b # bs) k of
        (None, k') \<Rightarrow> W (m_Buffer b) (m_Addr b) k = (None, k')
      | (Some n, k') \<Rightarrow> 0 < n \<and> n \<le> length (b # bs) \<and> write_all W (take n (b # bs)) k = Some k'))"

lemma write_each_all:
  "write_all W bs k = Some k' \<Longrightarrow>
     write_each W (bs @ cs) nb np k = write_each W cs (nb + sum_list (map msg_len bs)) (np + length bs) k'"
proof (induction bs arbitrary: nb np k)
  case (Cons b bs)
  then obtain k1 where "W (m_Buffer b) (m_Addr b) k = (Some (msg_len b), k1)" "write_all W bs k1 = Some k'" by (auto split: prod.splits option.splits if_splits)
  then show ?case using Cons.IH [of k1 "nb + msg_len b" "np + 1"] by (simp add: add.assoc)
qed simp

text \<open>The batch loop ends, with the result of the other.\<close>

lemma write_batches_each:
  assumes "sends_batches W WB"
  shows "write_batches WB txqueue nb np k = Some (write_each W txqueue nb np k)"
proof (induction "length txqueue" arbitrary: txqueue nb np k rule: less_induct)
  case less
  show ?case
  proof (cases txqueue)
    case (Cons b bs)
    obtain r k1 where r: "WB (b # bs) k = (r, k1)" by fastforce
    have sb: "case r of None \<Rightarrow> W (m_Buffer b) (m_Addr b) k = (None, k1)
        | Some n \<Rightarrow> 0 < n \<and> n \<le> length (b # bs) \<and> write_all W (take n (b # bs)) k = Some k1"
      using assms [unfolded sends_batches_def, rule_format, where b = b and bs = bs and k = k] unfolding r by simp
    show ?thesis
    proof (cases r)
      case None
      then have "W (m_Buffer b) (m_Addr b) k = (None, k1)" using sb by simp
      then show ?thesis using Cons r None by (simp add: write_batches.simps [of WB "b # bs"])
    next
      case (Some n)
      then have n: "0 < n" "n \<le> length (b # bs)" "write_all W (take n (b # bs)) k = Some k1"
        using sb by simp_all
      let ?rest = "drop n (b # bs)" and ?nb = "nb + sum_list (map msg_len (take n (b # bs)))"
      have "write_batches WB (b # bs) nb np k = write_batches WB ?rest ?nb (np + n) k1"
        using r Some n(2) by (subst write_batches.simps) simp
      also have "\<dots> = Some (write_each W ?rest ?nb (np + n) k1)" using less [of ?rest] n(1) Cons by simp
      also have "write_each W ?rest ?nb (np + n) k1 = write_each W (b # bs) nb np k"
        using write_each_all [OF n(3), of ?rest nb np] n(2) by simp
      finally show ?thesis by (simp add: Cons)
    qed
  qed (simp add: write_batches.simps)
qed

lemma write_each_prefix:
  assumes "whole_datagrams W"
  shows "\<exists>m k1 k'. m \<le> length q \<and> write_all W (take m q) k = Some k1 \<and>
    write_each W q nb np k = (nb + sum_list (map msg_len (take m q)), np + m, m < length q, k') \<and>
    (if m < length q then W (m_Buffer (q ! m)) (m_Addr (q ! m)) k1 = (None, k') else k' = k1)"
proof (induction q arbitrary: nb np k)
  case (Cons b q)
  obtain r k1 where r: "W (m_Buffer b) (m_Addr b) k = (r, k1)" by fastforce
  show ?case
  proof (cases r)
    case None
    then show ?thesis using r by (intro exI [of _ 0]) simp
  next
    case (Some n)
    then have n: "n = msg_len b" using assms r unfolding whole_datagrams_def msg_len_def by blast
    obtain m k2 k' where "m \<le> length q" "write_all W (take m q) k1 = Some k2"
        "write_each W q (nb + msg_len b) (np + 1) k1 = (nb + msg_len b + sum_list (map msg_len (take m q)), np + 1 + m, m < length q, k')"
        "if m < length q then W (m_Buffer (q ! m)) (m_Addr (q ! m)) k2 = (None, k') else k' = k2"
      using Cons.IH [of k1 "nb + msg_len b" "np + 1"] by blast
    then show ?thesis using r Some n by (intro exI [of _ "Suc m"] exI [of _ k2] exI [of _ k']) (simp add: add.assoc)
  qed
qed simp

section \<open>Properties\<close>

text \<open>C29. A batch is sent in order, once, up to the first error. On a socket whose batch call sends what single calls would,
  the Linux \<^verbatim>\<open>tx\<close> returns and does exactly what \<^verbatim>\<open>defaultTx\<close> does: the datagrams that leave are a prefix of the queue, each
  whole and to its own address; the whole queue unless a write fails, and then the session knows of the error; the packets and bytes that
  left are counted.\<close>

theorem tx_sends_prefix:
  assumes "whole_datagrams W" "sends_batches W WB"
  shows "tx (Some WB) W txqueue c k = tx None W txqueue c k \<and>
    (\<exists>m k1 c' k'. tx None W txqueue c k = Some (c', k') \<and> m \<le> length txqueue \<and> write_all W (take m txqueue) k = Some k1 \<and>
       (if m < length txqueue then W (m_Buffer (txqueue ! m)) (m_Addr (txqueue ! m)) k1 = (None, k') \<and> c_writeError c'
        else k' = k1 \<and> c_writeError c' = c_writeError c) \<and>
       OutPkts (s_snmp (c_sess c')) = OutPkts (s_snmp (c_sess c)) + of_nat m \<and>
       OutBytes (s_snmp (c_sess c')) = OutBytes (s_snmp (c_sess c)) + of_nat (sum_list (map msg_len (take m txqueue))))"
proof -
  obtain m k1 k' where m: "m \<le> length txqueue" "write_all W (take m txqueue) k = Some k1"
      "write_each W txqueue 0 0 k = (sum_list (map msg_len (take m txqueue)), m, m < length txqueue, k')"
      "if m < length txqueue then W (m_Buffer (txqueue ! m)) (m_Addr (txqueue ! m)) k1 = (None, k') else k' = k1"
    using write_each_prefix [OF assms(1), of txqueue k 0 0] by auto
  let ?c = "fst (defaultTx W txqueue c k)"
  have "tx None W txqueue c k = Some (?c, k')" using m(3) by (simp add: tx_def defaultTx_def Let_def)
  moreover have "c_writeError ?c = (c_writeError c \<or> m < length txqueue)"
      "OutPkts (s_snmp (c_sess ?c)) = OutPkts (s_snmp (c_sess c)) + of_nat m"
      "OutBytes (s_snmp (c_sess ?c)) = OutBytes (s_snmp (c_sess c)) + of_nat (sum_list (map msg_len (take m txqueue)))"
    using m(3) by (simp_all add: defaultTx_def Let_def notifyWriteError_def sess_count_def addOutPkts_def addOutBytes_def)
  moreover have "tx (Some WB) W txqueue c k = tx None W txqueue c k"
    by (simp add: tx_def defaultTx_def write_batches_each [OF assms(2)])
  ultimately show ?thesis using m(1,2,4) by (intro conjI exI [of _ m] exI [of _ k1] exI [of _ ?c] exI [of _ k']) (simp_all split: if_splits)
qed

text \<open>A socket that takes two datagrams per call and has room for \<open>k\<close>.\<close>

definition demo_WriteTo :: "byte list \<Rightarrow> string \<Rightarrow> nat \<Rightarrow> nat option \<times> nat" where
  "demo_WriteTo b a k = (case k of 0 \<Rightarrow> (None, 0) | Suc n \<Rightarrow> (Some (length b), n))"

definition demo_WriteBatch :: "message list \<Rightarrow> nat \<Rightarrow> nat option \<times> nat" where
  "demo_WriteBatch bs k = (if k = 0 then (None, 0) else let n = min 2 (min k (length bs)) in (Some n, k - n))"

lemma demo_socket: "whole_datagrams demo_WriteTo" "sends_batches demo_WriteTo demo_WriteBatch"
proof -
  show "whole_datagrams demo_WriteTo" by (auto simp: whole_datagrams_def demo_WriteTo_def split: nat.splits)
  have all: "write_all demo_WriteTo bs k = Some (k - length bs)" if "length bs \<le> k" for bs k
    using that by (induction bs arbitrary: k) (auto simp: demo_WriteTo_def msg_len_def split: nat.splits)
  show "sends_batches demo_WriteTo demo_WriteBatch"
    using all by (auto simp: sends_batches_def demo_WriteBatch_def demo_WriteTo_def msg_len_def Let_def split: nat.splits)
qed

definition demo_queue :: "message list" where
  "demo_queue = map (\<lambda>b. \<lparr>m_Buffer = b, m_Addr = ''10.0.0.1:4000''\<rparr>) [[1], [2], [3, 3], [4]]"

theorem tx_sends_prefix_witness:
  "\<exists>s c'. newUDPSession demo_env 7 0 0 False None newSnmp = Some s \<and>
     tx (Some demo_WriteBatch) demo_WriteTo demo_queue (new_conn s 0 1) 3 = Some (c', 0) \<and>
     tx None demo_WriteTo demo_queue (new_conn s 0 1) 3 = Some (c', 0)"
proof -
  obtain s where s: "newUDPSession demo_env 7 0 0 False None newSnmp = Some s" by (rule demo_conn_run [OF idle_run runs_allowed(1)])
  have w: "write_each demo_WriteTo demo_queue 0 0 3 = (4, 3, True, 0)" by code_simp
  have "tx None demo_WriteTo demo_queue (new_conn s 0 1) 3 = Some (tx_done (4, 3, True, 0) (new_conn s 0 1))"
    unfolding tx_def defaultTx_def w by simp
  then show ?thesis
    using tx_sends_prefix [OF demo_socket, of "demo_queue" "new_conn s 0 1" 3] s by (simp add: Let_def)
qed

end
