(* ===== verification/Buffer_Pool.thy ===== *)
theory Buffer_Pool
  imports Prelude "HOL-Library.Multiset"
begin

text \<open>
  The pool of packet buffers, \<^verbatim>\<open>bufferpool.go\<close>. A buffer is a slice: an array with an offset, a length and a capacity. The
  pool is a \<^verbatim>\<open>sync.Pool\<close>: \<^verbatim>\<open>Get\<close> hands out any buffer it has, or a new one, so a choice is an argument; the runtime may
  drop buffers from it at any time. The lemmas show that every buffer handed out is whole, whatever slices are put back,
  and that no two users hold the same array as long as they put back only what they hold and then let go of it. The
  pool does not check that: a buffer put back twice is handed out twice.
\<close>

section \<open>Slices\<close>

record buffer =
  buf_array :: nat
  buf_off :: nat
  buf_len :: nat
  buf_cap :: nat

text \<open>\<^verbatim>\<open>buf[:n]\<close> and \<^verbatim>\<open>buf[n:]\<close>; \<open>None\<close> is the panic.\<close>

definition slice_to :: "nat \<Rightarrow> buffer \<Rightarrow> buffer option" where
  "slice_to n b = (if n \<le> buf_cap b then Some (b\<lparr>buf_len := n\<rparr>) else None)"

definition slice_from :: "nat \<Rightarrow> buffer \<Rightarrow> buffer option" where
  "slice_from n b =
     (if n \<le> buf_len b then Some (b\<lparr>buf_off := buf_off b + n, buf_len := buf_len b - n, buf_cap := buf_cap b - n\<rparr>) else None)"

section \<open>The pool\<close>

text \<open>\<open>bp_fresh\<close> numbers the arrays that \<^verbatim>\<open>make\<close> allocates.\<close>

record bufferPool =
  bp_size :: nat
  bp_xmitBuf :: "buffer list"
  bp_fresh :: nat

definition newBufferPool :: "nat \<Rightarrow> bufferPool" where
  "newBufferPool sz = \<lparr>bp_size = sz, bp_xmitBuf = [], bp_fresh = 0\<rparr>"

text \<open>\<^verbatim>\<open>Get\<close>: the pooled buffer at position \<open>pick\<close>, or a new one.\<close>

definition bp_Get :: "nat \<Rightarrow> bufferPool \<Rightarrow> buffer \<times> bufferPool" where
  "bp_Get pick bp =
     (if pick < length (bp_xmitBuf bp)
      then (bp_xmitBuf bp ! pick, bp\<lparr>bp_xmitBuf := take pick (bp_xmitBuf bp) @ drop (Suc pick) (bp_xmitBuf bp)\<rparr>)
      else (\<lparr>buf_array = bp_fresh bp, buf_off = 0, buf_len = bp_size bp, buf_cap = bp_size bp\<rparr>, bp\<lparr>bp_fresh := Suc (bp_fresh bp)\<rparr>))"

text \<open>\<^verbatim>\<open>Put\<close>: \<open>False\<close> is \<^verbatim>\<open>errBufferSizeMismatch\<close>.\<close>

definition bp_Put :: "buffer \<Rightarrow> bufferPool \<Rightarrow> bool \<times> bufferPool" where
  "bp_Put buf bp =
     (if buf_cap buf \<noteq> maxPacketSize then (False, bp)
      else (True, bp\<lparr>bp_xmitBuf := bp_xmitBuf bp @ [buf\<lparr>buf_len := buf_cap buf\<rparr>]\<rparr>))"

fun bp_Puts :: "buffer list \<Rightarrow> bufferPool \<Rightarrow> bufferPool" where
  "bp_Puts [] bp = bp"
| "bp_Puts (buf # buffers) bp = bp_Puts buffers (snd (bp_Put buf bp))"

text \<open>\<^verbatim>\<open>PutPkts\<close>: the same loop over FEC packets, which are slices too.\<close>

fun bp_PutPkts :: "buffer list \<Rightarrow> bufferPool \<Rightarrow> bufferPool" where
  "bp_PutPkts [] bp = bp"
| "bp_PutPkts (buf # buffers) bp = bp_PutPkts buffers (snd (bp_Put buf bp))"

section \<open>The pool and its users\<close>

text \<open>
  The users together hold some buffers. They take one, cut it at either end, or give some back and let go of them. A
  stray \<^verbatim>\<open>Put\<close> is any other: of a slice its user goes on holding, of one put back before, or of a foreign one.
\<close>

record pool_users =
  pu_pool :: bufferPool
  pu_held :: "buffer list"

datatype pool_op = Get_op nat | To_op nat nat | From_op nat nat | Put_op nat | Puts_op nat | Drop_op nat | Stray_op buffer

fun pool_exec :: "pool_op \<Rightarrow> pool_users \<Rightarrow> pool_users option" where
  "pool_exec (Get_op pick) u =
     (let (b, bp) = bp_Get pick (pu_pool u) in Some (u\<lparr>pu_pool := bp, pu_held := b # pu_held u\<rparr>))"
| "pool_exec (To_op i n) u =
     (if i < length (pu_held u) then map_option (\<lambda>b. u\<lparr>pu_held := (pu_held u)[i := b]\<rparr>) (slice_to n (pu_held u ! i)) else Some u)"
| "pool_exec (From_op i n) u =
     (if i < length (pu_held u) then map_option (\<lambda>b. u\<lparr>pu_held := (pu_held u)[i := b]\<rparr>) (slice_from n (pu_held u ! i)) else Some u)"
| "pool_exec (Put_op i) u =
     (if i < length (pu_held u)
      then Some (u\<lparr>pu_pool := snd (bp_Put (pu_held u ! i) (pu_pool u)), pu_held := take i (pu_held u) @ drop (Suc i) (pu_held u)\<rparr>)
      else Some u)"
| "pool_exec (Puts_op n) u = Some (u\<lparr>pu_pool := bp_Puts (take n (pu_held u)) (pu_pool u), pu_held := drop n (pu_held u)\<rparr>)"
| "pool_exec (Drop_op i) u =
     Some (u\<lparr>pu_pool := (pu_pool u)\<lparr>bp_xmitBuf := take i (bp_xmitBuf (pu_pool u)) @ drop (Suc i) (bp_xmitBuf (pu_pool u))\<rparr>\<rparr>)"
| "pool_exec (Stray_op b) u = Some (u\<lparr>pu_pool := snd (bp_Put b (pu_pool u))\<rparr>)"

fun lets_go :: "pool_op \<Rightarrow> bool" where
  "lets_go (Stray_op b) \<longleftrightarrow> False"
| "lets_go _ \<longleftrightarrow> True"

text \<open>\<open>careful\<close>: no stray \<^verbatim>\<open>Put\<close>.\<close>

inductive pool_reach :: "bool \<Rightarrow> pool_users \<Rightarrow> bool" for careful where
  pool_start: "pool_reach careful \<lparr>pu_pool = newBufferPool maxPacketSize, pu_held = []\<rparr>"
| pool_step: "pool_reach careful u \<Longrightarrow> (careful \<longrightarrow> lets_go x) \<Longrightarrow> pool_exec x u = Some u' \<Longrightarrow> pool_reach careful u'"

section \<open>Invariant\<close>

definition whole :: "buffer \<Rightarrow> bool" where
  "whole b \<longleftrightarrow> buf_len b = maxPacketSize \<and> buf_cap b = maxPacketSize"

definition arrays :: "pool_users \<Rightarrow> nat list" where
  "arrays u = map buf_array (bp_xmitBuf (pu_pool u) @ pu_held u)"

definition pool_whole :: "bufferPool \<Rightarrow> bool" where
  "pool_whole bp \<longleftrightarrow> bp_size bp = maxPacketSize \<and> (\<forall>b\<in>set (bp_xmitBuf bp). whole b)"

definition pool_inv :: "pool_users \<Rightarrow> bool" where
  "pool_inv u \<longleftrightarrow> bp_size (pu_pool u) = maxPacketSize \<and> (\<forall>b\<in>set (bp_xmitBuf (pu_pool u)). whole b) \<and>
     distinct (arrays u) \<and> (\<forall>a\<in>set (arrays u). a < bp_fresh (pu_pool u))"

lemma PutPkts_Puts: "bp_PutPkts bs bp = bp_Puts bs bp"
  by (induction bs arbitrary: bp) simp_all

lemma without_mset: "i < length xs \<Longrightarrow> mset xs = add_mset (xs ! i) (mset (take i xs @ drop (Suc i) xs))"
  using id_take_nth_drop [of i xs] by (metis mset_append mset.simps(2) union_mset_add_mset_right)

lemma without_map: "i < length xs \<Longrightarrow> mset (map f xs) = add_mset (f (xs ! i)) (mset (map f (take i xs @ drop (Suc i) xs)))"
  using without_mset [of i "map f xs"] by (simp add: take_map drop_map)

lemma without_subset: "mset (take i xs @ drop (Suc i) xs) \<subseteq># mset xs"
proof (cases "i < length xs")
  case True
  then show ?thesis by (simp add: without_mset [OF True])
qed simp

lemma distinct_count_le: "distinct xs \<longleftrightarrow> (\<forall>a. count (mset xs) a \<le> 1)"
proof (induction xs)
  case (Cons x xs)
  have "x \<notin> set xs \<longleftrightarrow> count (mset xs) x = 0" by (simp add: count_eq_zero_iff)
  then show ?case using Cons by (auto simp: le_Suc_eq)
qed simp

lemma distinct_subset: "distinct xs \<Longrightarrow> mset ys \<subseteq># mset xs \<Longrightarrow> distinct ys"
  unfolding distinct_count_le by (meson mset_subset_eq_count order_trans)

text \<open>Steps that give out no new array keep the invariant.\<close>

lemma pool_inv_fewer:
  assumes "pool_inv u" "mset (arrays u') \<subseteq># mset (arrays u)" "\<forall>b\<in>set (bp_xmitBuf (pu_pool u')). whole b"
    "bp_size (pu_pool u') = bp_size (pu_pool u)" "bp_fresh (pu_pool u') = bp_fresh (pu_pool u)"
  shows "pool_inv u'"
proof -
  have "set (arrays u') \<subseteq> set (arrays u)" using set_mset_mono [OF assms(2)] by simp
  then show ?thesis using assms distinct_subset unfolding pool_inv_def by auto
qed

lemma Put_fields:
  "bp_size (snd (bp_Put b bp)) = bp_size bp" "bp_fresh (snd (bp_Put b bp)) = bp_fresh bp"
  "mset (map buf_array (bp_xmitBuf (snd (bp_Put b bp)))) \<subseteq># add_mset (buf_array b) (mset (map buf_array (bp_xmitBuf bp)))"
  "\<forall>x\<in>set (bp_xmitBuf bp). whole x \<Longrightarrow> \<forall>x\<in>set (bp_xmitBuf (snd (bp_Put b bp))). whole x"
  by (auto simp: bp_Put_def whole_def)

lemma Puts_fields:
  "bp_size (bp_Puts bs bp) = bp_size bp \<and> bp_fresh (bp_Puts bs bp) = bp_fresh bp \<and>
   mset (map buf_array (bp_xmitBuf (bp_Puts bs bp))) \<subseteq># mset (map buf_array bs) + mset (map buf_array (bp_xmitBuf bp)) \<and>
   ((\<forall>x\<in>set (bp_xmitBuf bp). whole x) \<longrightarrow> (\<forall>x\<in>set (bp_xmitBuf (bp_Puts bs bp)). whole x))"
proof (induction bs arbitrary: bp)
  case (Cons b bs)
  let ?p = "snd (bp_Put b bp)"
  have "mset (map buf_array (bp_xmitBuf (bp_Puts bs ?p))) \<subseteq># mset (map buf_array bs) + mset (map buf_array (bp_xmitBuf ?p))"
    using Cons.IH by blast
  also have "\<dots> \<subseteq># mset (map buf_array bs) + add_mset (buf_array b) (mset (map buf_array (bp_xmitBuf bp)))"
    using Put_fields(3) by (simp only: subset_mset.add_left_mono)
  finally show ?case using Cons.IH [of ?p] Put_fields [where b = b and bp = bp] by simp
qed simp

lemma Get_inv:
  assumes inv: "pool_inv u" and G: "bp_Get pick (pu_pool u) = (b, bp)"
  shows "whole b \<and> pool_inv (u\<lparr>pu_pool := bp, pu_held := b # pu_held u\<rparr>)"
proof (cases "pick < length (bp_xmitBuf (pu_pool u))")
  case True
  let ?xs = "bp_xmitBuf (pu_pool u)"
  have b: "b = ?xs ! pick" "bp = (pu_pool u)\<lparr>bp_xmitBuf := take pick ?xs @ drop (Suc pick) ?xs\<rparr>"
    using G True by (auto simp: bp_Get_def)
  have w: "whole b" using inv True by (simp add: b(1) pool_inv_def)
  have "mset (arrays (u\<lparr>pu_pool := bp, pu_held := b # pu_held u\<rparr>)) = mset (arrays u)"
    using without_map [OF True, of buf_array] by (simp add: arrays_def b)
  moreover have "\<forall>x\<in>set (take pick ?xs @ drop (Suc pick) ?xs). whole x"
    using inv by (auto simp: pool_inv_def dest: in_set_takeD in_set_dropD)
  ultimately show ?thesis using w by (intro conjI pool_inv_fewer [OF inv]) (simp_all add: b(2))
next
  case False
  let ?a = "bp_fresh (pu_pool u)" and ?n = "bp_size (pu_pool u)"
  have b: "b = \<lparr>buf_array = ?a, buf_off = 0, buf_len = ?n, buf_cap = ?n\<rparr>" "bp = (pu_pool u)\<lparr>bp_fresh := Suc ?a\<rparr>"
    using G False by (auto simp: bp_Get_def)
  have "mset (arrays (u\<lparr>pu_pool := bp, pu_held := b # pu_held u\<rparr>)) = mset (?a # arrays u)" by (simp add: arrays_def b)
  then have "distinct (arrays (u\<lparr>pu_pool := bp, pu_held := b # pu_held u\<rparr>)) = distinct (?a # arrays u)"
      "set (arrays (u\<lparr>pu_pool := bp, pu_held := b # pu_held u\<rparr>)) = set (?a # arrays u)"
    by (rule mset_eq_imp_distinct_iff, rule mset_eq_setD)
  moreover have "distinct (?a # arrays u)" "whole b" using inv by (auto simp: pool_inv_def whole_def b(1))
  ultimately show ?thesis using inv by (auto simp: pool_inv_def b(2) less_Suc_eq)
qed

lemma pool_exec_inv:
  assumes inv: "pool_inv u" and E: "pool_exec x u = Some u'" and x: "lets_go x"
  shows "pool_inv u'"
proof (cases x)
  case (Get_op pick)
  then show ?thesis using E Get_inv [OF inv] by (auto split: prod.splits)
next
  case (To_op i n)
  have "arrays u' = arrays u" "pu_pool u' = pu_pool u"
    using E To_op by (auto simp: slice_to_def arrays_def map_update list_update_same_conv split: if_splits)
  then show ?thesis using inv by (simp add: pool_inv_def)
next
  case (From_op i n)
  have "arrays u' = arrays u" "pu_pool u' = pu_pool u"
    using E From_op by (auto simp: slice_from_def arrays_def map_update list_update_same_conv split: if_splits)
  then show ?thesis using inv by (simp add: pool_inv_def)
next
  case (Put_op i)
  show ?thesis
  proof (cases "i < length (pu_held u)")
    case True
    let ?b = "pu_held u ! i"
    have u': "u' = u\<lparr>pu_pool := snd (bp_Put ?b (pu_pool u)), pu_held := take i (pu_held u) @ drop (Suc i) (pu_held u)\<rparr>"
      using E Put_op True by simp
    have "mset (arrays u') \<subseteq># add_mset (buf_array ?b) (mset (map buf_array (bp_xmitBuf (pu_pool u)))) +
        mset (map buf_array (take i (pu_held u) @ drop (Suc i) (pu_held u)))"
      using Put_fields(3) [where b = ?b and bp = "pu_pool u"] by (simp add: u' arrays_def)
    also have "\<dots> = mset (arrays u)" using without_map [OF True, of buf_array] by (simp add: arrays_def)
    finally show ?thesis using pool_inv_fewer [OF inv] inv Put_fields [where b = ?b and bp = "pu_pool u"] by (simp add: u' pool_inv_def)
  qed (use E Put_op inv in simp)
next
  case (Puts_op n)
  note f = Puts_fields [of "take n (pu_held u)" "pu_pool u"]
  have u': "u' = u\<lparr>pu_pool := bp_Puts (take n (pu_held u)) (pu_pool u), pu_held := drop n (pu_held u)\<rparr>" using E Puts_op by simp
  have "mset (arrays u') \<subseteq># mset (map buf_array (take n (pu_held u))) + mset (map buf_array (bp_xmitBuf (pu_pool u))) +
      mset (map buf_array (drop n (pu_held u)))"
    using f by (simp add: u' arrays_def)
  also have "\<dots> = mset (arrays u)"
    by (simp add: arrays_def) (metis append_take_drop_id image_mset_union mset_append union_ac(3) add.commute)
  finally show ?thesis using pool_inv_fewer [OF inv] inv f by (simp add: u' pool_inv_def)
next
  case (Drop_op i)
  let ?xs = "bp_xmitBuf (pu_pool u)"
  have u': "u' = u\<lparr>pu_pool := (pu_pool u)\<lparr>bp_xmitBuf := take i ?xs @ drop (Suc i) ?xs\<rparr>\<rparr>" using E Drop_op by simp
  have "mset (arrays u') \<subseteq># mset (arrays u)"
    using image_mset_subseteq_mono [OF without_subset [of i ?xs], of buf_array] by (simp add: u' arrays_def)
  moreover have "\<forall>x\<in>set (take i ?xs @ drop (Suc i) ?xs). whole x"
    using inv by (auto simp: pool_inv_def dest: in_set_takeD in_set_dropD)
  ultimately show ?thesis using pool_inv_fewer [OF inv] by (simp add: u')
qed (use x in simp)

lemma pool_reach_inv: "pool_reach careful u \<Longrightarrow> careful \<Longrightarrow> pool_inv u"
proof (induction rule: pool_reach.induct)
  case pool_start
  then show ?case by (simp add: pool_inv_def newBufferPool_def arrays_def)
qed (use pool_exec_inv in blast)

text \<open>The buffers in the pool are whole in any case.\<close>

lemma without_whole: "\<forall>x\<in>set xs. whole x \<Longrightarrow> \<forall>x\<in>set (take i xs @ drop j xs). whole x"
  using set_take_subset [of i xs] set_drop_subset [of j xs] by auto

lemma Get_whole:
  assumes "pool_whole bp" "bp_Get pick bp = (b, bp')"
  shows "whole b \<and> pool_whole bp'"
proof (cases "pick < length (bp_xmitBuf bp)")
  case True
  then show ?thesis using assms without_whole [of "bp_xmitBuf bp" pick "Suc pick"] by (auto simp: pool_whole_def bp_Get_def)
next
  case False
  then show ?thesis using assms by (auto simp: pool_whole_def bp_Get_def whole_def)
qed

lemma pool_exec_whole:
  assumes w: "pool_whole (pu_pool u)" and E: "pool_exec x u = Some u'"
  shows "pool_whole (pu_pool u')"
proof (cases x)
  case (Get_op pick)
  then show ?thesis using E Get_whole [OF w] by (auto split: prod.splits)
next
  case (Puts_op n)
  then show ?thesis using E w Puts_fields [of "take n (pu_held u)" "pu_pool u"] by (auto simp: pool_whole_def)
next
  case (Drop_op i)
  then show ?thesis using E w without_whole [of "bp_xmitBuf (pu_pool u)" i "Suc i"] by (auto simp: pool_whole_def)
qed (use E w Put_fields in \<open>auto simp: pool_whole_def slice_to_def slice_from_def split: if_splits\<close>)

lemma pool_reach_whole: "pool_reach careful u \<Longrightarrow> pool_whole (pu_pool u)"
proof (induction rule: pool_reach.induct)
  case pool_start
  then show ?case by (simp add: pool_whole_def newBufferPool_def)
qed (use pool_exec_whole in blast)

section \<open>Properties\<close>

text \<open>C30. Every buffer of the pool is whole. Whatever slices anyone puts back, cut, put back before or foreign, and
  whatever the runtime drops, \<^verbatim>\<open>Get\<close> returns a slice whose length and capacity are \<^verbatim>\<open>maxPacketSize\<close>, so that \<^verbatim>\<open>Get()[:n]\<close> does
  not panic for any \<open>n\<close> up to it. As long as users put back only what they hold, and let go of it, a buffer is held
  by one user at a time: the arrays in the pool and in use are all different, also after the next \<^verbatim>\<open>Get\<close>.\<close>

theorem pool_buffers_whole:
  assumes "pool_reach careful u" "bp_Get pick (pu_pool u) = (b, bp)" "n \<le> maxPacketSize"
  shows "buf_len b = maxPacketSize \<and> buf_cap b = maxPacketSize \<and> slice_to n b = Some (b\<lparr>buf_len := n\<rparr>) \<and>
    (careful \<longrightarrow> distinct (map buf_array (bp_xmitBuf bp @ b # pu_held u)))"
proof -
  have "whole b" using Get_whole [OF pool_reach_whole [OF assms(1)] assms(2)] by blast
  moreover have "distinct (arrays (u\<lparr>pu_pool := bp, pu_held := b # pu_held u\<rparr>))" if careful
    using Get_inv [OF pool_reach_inv [OF assms(1) that] assms(2)] by (simp add: pool_inv_def)
  ultimately show ?thesis using assms(3) by (simp add: whole_def slice_to_def arrays_def)
qed

definition pool_run :: "pool_op list \<Rightarrow> pool_users option" where
  "pool_run xs = fold (\<lambda>x u. Option.bind u (pool_exec x)) xs (Some \<lparr>pu_pool = newBufferPool maxPacketSize, pu_held = []\<rparr>)"

lemma pool_run_reach:
  "fold (\<lambda>x u. Option.bind u (pool_exec x)) xs (Some u) = Some u' \<Longrightarrow> pool_reach careful u \<Longrightarrow>
     (careful \<longrightarrow> list_all lets_go xs) \<Longrightarrow> pool_reach careful u'"
proof (induction xs arbitrary: u)
  case (Cons x xs)
  show ?case
  proof (cases "pool_exec x u")
    case None
    have "fold (\<lambda>x u. Option.bind u (pool_exec x)) xs None = None" by (induction xs) simp_all
    then show ?thesis using Cons.prems(1) None by simp
  next
    case (Some u1)
    then have "pool_reach careful u1" by (intro pool_step [OF Cons.prems(2)]) (use Cons.prems(3) in simp_all)
    then show ?thesis using Cons.IH [of u1] Cons.prems(1,3) Some by simp
  qed
qed simp

text \<open>Two buffers taken, one cut and returned, the other spoiled and refused; then the first comes back whole. And a
  buffer put back twice, which two users then hold at a time.\<close>

definition tidy_ops :: "pool_op list" where
  "tidy_ops = [Get_op 0, To_op 0 24, Get_op 0, From_op 0 8, Put_op 1, Put_op 0]"

definition double_put :: "pool_op list" where
  "double_put = [Get_op 0, Stray_op \<lparr>buf_array = 0, buf_off = 0, buf_len = 24, buf_cap = maxPacketSize\<rparr>, Get_op 0]"

lemma pool_runs:
  "map_option (\<lambda>u. (map buf_array (bp_xmitBuf (pu_pool u)), pu_held u)) (pool_run tidy_ops) = Some ([0], [])"
  "list_all lets_go tidy_ops" "map_option (\<lambda>u. map buf_array (pu_held u)) (pool_run double_put) = Some [0, 0]"
  by code_simp+

theorem pool_buffers_whole_witness:
  "\<exists>u b bp. pool_run tidy_ops = Some u \<and> bp_Get 0 (pu_pool u) = (b, bp) \<and> buf_array b = 0 \<and> buf_len b = maxPacketSize \<and>
     distinct (map buf_array (bp_xmitBuf bp @ b # pu_held u))"
proof -
  obtain u where u: "pool_run tidy_ops = Some u" "map buf_array (bp_xmitBuf (pu_pool u)) = [0]" using pool_runs(1) by auto
  have r: "pool_reach True u" using pool_run_reach [OF u(1) [unfolded pool_run_def] pool_start, of True] pool_runs(2) by blast
  obtain b bp where g: "bp_Get 0 (pu_pool u) = (b, bp)" by fastforce
  have "buf_array b = 0" using g u(2) by (auto simp: bp_Get_def split: if_splits)
  then show ?thesis using pool_buffers_whole [OF r g, of 0] u(1) g by auto
qed

text \<open>The pool does not notice the second \<^verbatim>\<open>Put\<close>.\<close>

theorem double_put_shares:
  "\<exists>u. pool_reach False u \<and> \<not> distinct (map buf_array (pu_held u)) \<and> (\<forall>b\<in>set (bp_xmitBuf (pu_pool u)). whole b)"
proof -
  obtain u where u: "pool_run double_put = Some u" "map buf_array (pu_held u) = [0, 0]" using pool_runs(3) by auto
  have "pool_reach False u" using pool_run_reach [OF u(1) [unfolded pool_run_def] pool_start, of False] by blast
  then show ?thesis using u(2) pool_reach_whole by (auto simp: pool_whole_def)
qed

end
