(* ===== verification/Batch_Buffers.thy ===== *)
theory Batch_Buffers
  imports Buffer_Pool
begin

text \<open>
  The batch of a worker, the type \<^verbatim>\<open>ppWorker\<close> of \<^verbatim>\<open>postprocess.go\<close>. Each message of \<^verbatim>\<open>txqueue\<close> needs a slice of one buffer; \<^verbatim>\<open>oneBuf\<close>
  cuts it out of the worker's own slice \<^verbatim>\<open>bufs\<close>, which \<^verbatim>\<open>append\<close> may move to a new array at any time, while earlier
  messages still point into the old one. Arrays live in a heap, so the aliasing is explicit; a slot holds a buffer
  or \<^verbatim>\<open>nil\<close>. The lemmas show that every message keeps the buffer it was made for, and that \<^verbatim>\<open>recycle\<close> returns each
  once and leaves no reference behind.
\<close>

section \<open>State\<close>

type_synonym array_heap = "nat \<Rightarrow> buffer option list"

text \<open>A view is the one-element slice \<^verbatim>\<open>bufs[i : i+1 : i+1]\<close>: an array and an index. \<open>pw_next\<close> numbers new arrays.\<close>

record ppWorker =
  pw_heap :: array_heap
  pw_next :: nat
  pw_array :: nat
  pw_len :: nat
  pw_txqueue :: "(nat \<times> nat) list"

definition pw_cap :: "ppWorker \<Rightarrow> nat" where
  "pw_cap w = length (pw_heap w (pw_array w))"

text \<open>What \<^verbatim>\<open>ppWorkers.New\<close> makes, with room for \<open>n\<close> buffers.\<close>

definition new_ppWorker :: "nat \<Rightarrow> ppWorker" where
  "new_ppWorker n = \<lparr>pw_heap = (\<lambda>_. [])(0 := replicate n None), pw_next = 1, pw_array = 0, pw_len = 0, pw_txqueue = []\<rparr>"

text \<open>The buffer a message points to.\<close>

definition deref :: "ppWorker \<Rightarrow> nat \<times> nat \<Rightarrow> buffer option" where
  "deref w v = (case v of (a, i) \<Rightarrow> if i < length (pw_heap w a) then pw_heap w a ! i else None)"

section \<open>Operations\<close>

text \<open>\<^verbatim>\<open>append(w.bufs, b)\<close>: in place while there is room, else in a new array; \<open>grow\<close> is the runtime's choice of room.\<close>

definition append_buf :: "(nat \<Rightarrow> nat) \<Rightarrow> buffer \<Rightarrow> ppWorker \<Rightarrow> ppWorker" where
  "append_buf grow b w =
     (if pw_len w < pw_cap w then
        w\<lparr>pw_heap := (pw_heap w)(pw_array w := (pw_heap w (pw_array w))[pw_len w := Some b]), pw_len := pw_len w + 1\<rparr>
      else
        w\<lparr>pw_heap := (pw_heap w)(pw_next w :=
             take (pw_len w) (pw_heap w (pw_array w)) @ [Some b] @ replicate (grow (pw_len w)) None),
          pw_array := pw_next w, pw_next := pw_next w + 1, pw_len := pw_len w + 1\<rparr>)"

definition oneBuf :: "(nat \<Rightarrow> nat) \<Rightarrow> buffer \<Rightarrow> ppWorker \<Rightarrow> (nat \<times> nat) \<times> ppWorker" where
  "oneBuf grow b w = (let w = append_buf grow b w in ((pw_array w, pw_len w - 1), w))"

text \<open>\<^verbatim>\<open>postProcess\<close> adds a message for each datagram.\<close>

definition add_message :: "(nat \<Rightarrow> nat) \<Rightarrow> buffer \<Rightarrow> ppWorker \<Rightarrow> ppWorker" where
  "add_message grow b w = (let (v, w) = oneBuf grow b w in w\<lparr>pw_txqueue := pw_txqueue w @ [v]\<rparr>)"

text \<open>\<^verbatim>\<open>recycle\<close>; a nil slice has capacity 0, so the pool refuses it.\<close>

definition nil_buffer :: buffer where
  "nil_buffer = \<lparr>buf_array = 0, buf_off = 0, buf_len = 0, buf_cap = 0\<rparr>"

definition recycle :: "ppWorker \<times> bufferPool \<Rightarrow> ppWorker \<times> bufferPool" where
  "recycle x = (case x of (w, bp) \<Rightarrow>
     (w\<lparr>pw_txqueue := [],
        pw_heap := (pw_heap w)(pw_array w := replicate (pw_len w) None @ drop (pw_len w) (pw_heap w (pw_array w))),
        pw_len := 0\<rparr>,
      bp_Puts (map (\<lambda>v. case deref w v of None \<Rightarrow> nil_buffer | Some b \<Rightarrow> b) (pw_txqueue w)) bp))"

section \<open>Invariant\<close>

text \<open>The messages point to the buffers \<open>bs\<close>, and slots beyond the length are nil.\<close>

definition batch_inv :: "ppWorker \<Rightarrow> buffer list \<Rightarrow> bool" where
  "batch_inv w bs \<longleftrightarrow> map (deref w) (pw_txqueue w) = map Some bs \<and> pw_len w \<le> pw_cap w \<and> pw_array w < pw_next w \<and>
     (\<forall>(a, i)\<in>set (pw_txqueue w). a < pw_next w \<and> (a = pw_array w \<longrightarrow> i < pw_len w)) \<and>
     set (drop (pw_len w) (pw_heap w (pw_array w))) \<subseteq> {None}"

lemma Puts_append: "bp_Puts (xs @ ys) q = bp_Puts ys (bp_Puts xs q)"
  by (induction xs arbitrary: q) simp_all

lemma new_ppWorker_inv: "batch_inv (new_ppWorker n) []"
  by (auto simp: batch_inv_def new_ppWorker_def pw_cap_def)

lemma deref_kept:
  assumes "a = pw_array w \<Longrightarrow> i < pw_len w" "a < pw_next w"
  shows "deref (append_buf grow b w) (a, i) = deref w (a, i)"
  using assms by (auto simp: append_buf_def deref_def)

lemma oneBuf_view:
  assumes "pw_len w \<le> pw_cap w" "oneBuf grow b w = (v, w')"
  shows "deref w' v = Some b" and "w' = append_buf grow b w" and "v = (pw_array w', pw_len w)" and "pw_len w' = pw_len w + 1"
  using assms by (auto simp: oneBuf_def append_buf_def deref_def pw_cap_def Let_def nth_append)

lemma append_buf_shape:
  assumes "pw_array w < pw_next w" "pw_len w \<le> pw_cap w" "set (drop (pw_len w) (pw_heap w (pw_array w))) \<subseteq> {None}"
  shows "pw_array (append_buf grow b w) < pw_next (append_buf grow b w)"
    "pw_len (append_buf grow b w) \<le> pw_cap (append_buf grow b w)"
    "set (drop (pw_len (append_buf grow b w)) (pw_heap (append_buf grow b w) (pw_array (append_buf grow b w)))) \<subseteq> {None}"
proof -
  have "set (drop (Suc n) xs) \<subseteq> set (drop n xs)" for n and xs :: "buffer option list"
    by (metis drop_Suc drop_tl list.set_sel(2) subsetI tl_Nil)
  then have "set (drop (Suc (pw_len w)) (pw_heap w (pw_array w))) \<subseteq> {None}" using assms(3) by blast
  then show "set (drop (pw_len (append_buf grow b w)) (pw_heap (append_buf grow b w) (pw_array (append_buf grow b w)))) \<subseteq> {None}"
    using assms(2) by (auto simp: append_buf_def pw_cap_def)
qed (use assms in \<open>auto simp: append_buf_def pw_cap_def\<close>)

lemma add_message_inv:
  assumes inv: "batch_inv w bs"
  shows "batch_inv (add_message grow b w) (bs @ [b])"
proof -
  obtain v w1 where o: "oneBuf grow b w = (v, w1)" by fastforce
  have le: "pw_len w \<le> pw_cap w" using inv by (simp add: batch_inv_def)
  note v = oneBuf_view [OF le o]
  have w': "add_message grow b w = w1\<lparr>pw_txqueue := pw_txqueue w1 @ [v]\<rparr>" using o by (simp add: add_message_def)
  have q: "pw_txqueue w1 = pw_txqueue w" by (simp add: v(2) append_buf_def)
  have d: "deref (w1\<lparr>pw_txqueue := x\<rparr>) = deref w1" for x by (simp add: deref_def fun_eq_iff)
  have keep: "deref w1 u = deref w u" if "u \<in> set (pw_txqueue w)" for u
    using deref_kept [of "fst u" w "snd u"] inv that by (auto simp: v(2) batch_inv_def)
  have fresh: "pw_array w1 < pw_next w1" "pw_len w1 \<le> pw_cap w1" "set (drop (pw_len w1) (pw_heap w1 (pw_array w1))) \<subseteq> {None}"
    using append_buf_shape [of w grow b] inv unfolding v(2) by (simp_all add: batch_inv_def)
  have old: "a < pw_next w1 \<and> (a = pw_array w1 \<longrightarrow> i < pw_len w1)" if "(a, i) \<in> set (pw_txqueue w)" for a i
    using inv that by (auto simp: v(2) batch_inv_def append_buf_def split: if_splits)
  have "map (deref w1) (pw_txqueue w) = map Some bs" using inv keep by (simp add: batch_inv_def cong: map_cong)
  then show ?thesis
    using fresh old v(1,3,4) unfolding w' batch_inv_def d by (auto simp: q pw_cap_def)
qed

lemma recycle_inv:
  assumes "batch_inv w bs" "recycle (w, bp) = (w', bp')"
  shows "batch_inv w' [] \<and> bp' = bp_Puts bs bp \<and> set (pw_heap w' (pw_array w')) \<subseteq> {None}"
proof -
  have "map (\<lambda>v. case deref w v of None \<Rightarrow> nil_buffer | Some b \<Rightarrow> b) (pw_txqueue w) = map (case_option nil_buffer id) (map (deref w) (pw_txqueue w))"
    by (simp add: id_def)
  also have "\<dots> = bs" using assms(1) by (simp add: batch_inv_def comp_def)
  finally show ?thesis using assms by (auto simp: recycle_def batch_inv_def pw_cap_def)
qed

text \<open>A batch of messages sent and recycled, any number of times.\<close>

fun batches :: "(nat \<Rightarrow> nat) \<Rightarrow> buffer list list \<Rightarrow> ppWorker \<times> bufferPool \<Rightarrow> ppWorker \<times> bufferPool" where
  "batches grow [] x = x"
| "batches grow (bs # bss) (w, bp) = batches grow bss (recycle (fold (add_message grow) bs w, bp))"

lemma add_messages_inv: "batch_inv w bs \<Longrightarrow> batch_inv (fold (add_message grow) cs w) (bs @ cs)"
proof (induction cs arbitrary: w bs)
  case (Cons c cs)
  then show ?case using Cons.IH [OF add_message_inv] by simp
qed simp

lemma batches_inv:
  "batch_inv w [] \<Longrightarrow> batches grow bss (w, bp) = (w', bp') \<Longrightarrow> batch_inv w' [] \<and> bp' = bp_Puts (concat bss) bp"
proof (induction bss arbitrary: w bp)
  case (Cons bs bss)
  obtain w1 bp1 where r: "recycle (fold (add_message grow) bs w, bp) = (w1, bp1)" by fastforce
  have "batch_inv w1 []" "bp1 = bp_Puts bs bp"
    using recycle_inv [OF add_messages_inv [OF Cons.prems(1)] r] by simp_all
  then show ?case using Cons.IH [of w1 bp1] Cons.prems(2) r by (simp add: Puts_append)
qed simp

section \<open>Property\<close>

text \<open>A worker's messages never lose their buffers. However often \<^verbatim>\<open>append\<close> moves the worker's slice, each message
  of a batch points to the buffer it was made for, after any number of earlier batches; recycling returns the buffers
  of every batch to the pool, each once and in order, and leaves no reference in the storage that is used again.\<close>

theorem batch_buffers_kept:
  fixes bs :: "buffer list"
  assumes "batches grow bss (new_ppWorker n, bp) = (w, bp')"
  defines "w' \<equiv> fold (add_message grow) bs w"
  shows "bp' = bp_Puts (concat bss) bp \<and> map (deref w') (pw_txqueue w') = map Some bs \<and>
    snd (recycle (w', bp')) = bp_Puts (concat bss @ bs) bp \<and>
    set (pw_heap (fst (recycle (w', bp'))) (pw_array (fst (recycle (w', bp'))))) \<subseteq> {None}"
proof -
  have i: "batch_inv w [] \<and> bp' = bp_Puts (concat bss) bp" by (rule batches_inv [OF new_ppWorker_inv assms(1)])
  then have j: "batch_inv w' bs" using add_messages_inv [of w "[]" grow bs] by (simp add: w'_def)
  obtain w2 bp2 where r: "recycle (w', bp') = (w2, bp2)" by fastforce
  show ?thesis using i j recycle_inv [OF j r] r by (simp add: batch_inv_def Puts_append)
qed

end
