(* ===== verification/Listener.thy ===== *)
theory Listener
  imports Session_Properties Session_Events
begin

text \<open>
  The server side of \<^verbatim>\<open>sess.go\<close>: a \<^verbatim>\<open>Listener\<close> decrypts each datagram, finds the session of its address,
  and opens, feeds or replaces sessions. Sessions are objects shared between the address map, the
  accept queue and the application, so they live in a store and the listener keeps
  references. A conn that pushes packets (\<^verbatim>\<open>PacketPusher\<close>) calls the listener's receiver; other conns are read by
  \<^verbatim>\<open>monitor\<close>. The lemmas show that the listener never panics, that a datagram reaches only the
  session of its own address, how a session is replaced, when the receiver is removed, and whom a socket error
  reaches.
\<close>

section \<open>State\<close>

record Listener =
  l_block :: "BlockCrypt option"
  l_dataShards :: int
  l_parityShards :: int
  l_sessions :: "string \<rightharpoonup> nat"
  l_accepts :: "nat list"
  l_die :: bool
  l_store :: "nat \<rightharpoonup> string \<times> UDPSession"
  l_next :: nat
  l_snmp :: Snmp
  l_ownConn :: bool
  l_connClosed :: bool
  l_pusher :: bool
  l_receiver :: bool
  l_readError :: bool
  l_deadline :: bool

definition acceptBacklog :: nat where "acceptBacklog = 128"

text \<open>\<open>pusher\<close> tells whether the conn is a \<^verbatim>\<open>PacketPusher\<close>; \<open>l_receiver\<close>, whether it has the listener's callback.\<close>

definition serveConn :: "BlockCrypt option \<Rightarrow> int \<Rightarrow> int \<Rightarrow> bool \<Rightarrow> bool \<Rightarrow> Listener" where
  "serveConn block dataShards parityShards ownConn pusher =
     \<lparr>l_block = block, l_dataShards = dataShards, l_parityShards = parityShards,
      l_sessions = Map.empty, l_accepts = [], l_die = False,
      l_store = Map.empty, l_next = 0, l_snmp = newSnmp,
      l_ownConn = ownConn, l_connClosed = False, l_pusher = pusher, l_receiver = pusher,
      l_readError = False, l_deadline = False\<rparr>"

section \<open>Operations\<close>

text \<open>The conversation and sequence number of a packet, if it carries them.\<close>

datatype packet_ids = TooShort | NoConv | Conv u32 u32

definition packet_id :: "byte list \<Rightarrow> packet_ids option" where
  "packet_id data = do {
     fecFlag \<leftarrow> Uint16 (drop 4 data);
     if fecFlag = typeData then
       (if length data < fecHeaderSizePlus2 + IKCP_OVERHEAD then Some NoConv
        else do {
          c \<leftarrow> Uint32 (drop fecHeaderSizePlus2 data);
          sn \<leftarrow> Uint32 (drop (fecHeaderSizePlus2 + IKCP_SN_OFFSET) data);
          Some (Conv c sn) })
     else if fecFlag = typeParity then Some NoConv
     else if fecFlag = typeOOB then do {
       c \<leftarrow> Uint32 (drop fecHeaderSizePlus2 data);
       Some (Conv c 0) }
     else if length data < IKCP_OVERHEAD then Some TooShort
     else do {
       c \<leftarrow> Uint32 data;
       sn \<leftarrow> Uint32 (drop IKCP_SN_OFFSET data);
       Some (Conv c sn) } }"

definition releasePusherLocked :: "Listener \<Rightarrow> bool" where
  "releasePusherLocked l \<longleftrightarrow> l_die l \<and> l_sessions l = Map.empty \<and> l_pusher l"

text \<open>Unregistering the receiver, when \<^verbatim>\<open>releasePusherLocked\<close> returned the pusher.\<close>

definition release :: "Listener \<Rightarrow> Listener" where
  "release l = (if releasePusherLocked l then l\<lparr>l_receiver := False\<rparr> else l)"

definition closeSession :: "string \<Rightarrow> Listener \<Rightarrow> bool \<times> Listener" where
  "closeSession remote l =
     (if l_sessions l remote \<noteq> None then (True, release (l\<lparr>l_sessions := (l_sessions l)(remote := None)\<rparr>)) else (False, l))"

text \<open>\<^verbatim>\<open>UDPSession.Close\<close> of a session of this listener.\<close>

definition close_ref :: "env \<Rightarrow> nat \<Rightarrow> Listener \<Rightarrow> Listener option" where
  "close_ref env i l = do {
     (remote, s) \<leftarrow> l_store l i;
     (first, s) \<leftarrow> sess_Close env s;
     let l = l\<lparr>l_store := (l_store l)(i \<mapsto> (remote, s))\<rparr>;
     Some (if first then snd (closeSession remote l) else l) }"

definition feed_ref :: "env \<Rightarrow> nat \<Rightarrow> byte list \<Rightarrow> Listener \<Rightarrow> Listener option" where
  "feed_ref env i data l = do {
     (remote, s) \<leftarrow> l_store l i;
     s \<leftarrow> kcpInput env data s;
     Some (l\<lparr>l_store := (l_store l)(i \<mapsto> (remote, s))\<rparr>) }"

text \<open>A new session for a conversation, unless the accept queue is full.\<close>

definition open_session :: "env \<Rightarrow> u32 \<Rightarrow> byte list \<Rightarrow> string \<Rightarrow> Listener \<Rightarrow> Listener option" where
  "open_session env c data addr l =
     (if length (l_accepts l) \<ge> acceptBacklog then Some l
      else do {
        s \<leftarrow> newUDPSession env c (l_dataShards l) (l_parityShards l) True (l_block l) newSnmp;
        s \<leftarrow> kcpInput env data s;
        let i = l_next l;
        let l = l\<lparr>l_store := (l_store l)(i \<mapsto> (addr, s)), l_next := Suc i\<rparr>;
        if l_die l then close_ref env i l
        else Some (l\<lparr>l_sessions := (l_sessions l)(addr \<mapsto> i), l_accepts := l_accepts l @ [i]\<rparr>) })"

text \<open>Dispatch of a decrypted packet.\<close>

definition dispatch :: "env \<Rightarrow> byte list \<Rightarrow> string \<Rightarrow> Listener \<Rightarrow> Listener option" where
  "dispatch env data addr l = do {
     ids \<leftarrow> packet_id data;
     (case l_sessions l addr of
        Some i \<Rightarrow>
          (case ids of
             TooShort \<Rightarrow> Some l
           | NoConv \<Rightarrow> feed_ref env i data l
           | Conv c sn \<Rightarrow> do {
               (_, s) \<leftarrow> l_store l i;
               if c = conv (s_kcp s) then feed_ref env i data l
               else if sn \<noteq> 0 then Some l
               else do {
                 l \<leftarrow> close_ref env i l;
                 open_session env c data addr l } })
      | None \<Rightarrow>
          (case ids of
             TooShort \<Rightarrow> Some l
           | NoConv \<Rightarrow> Some l
           | Conv c sn \<Rightarrow> open_session env c data addr l)) }"

definition listener_packetInput :: "env \<Rightarrow> byte list \<Rightarrow> string \<Rightarrow> Listener \<Rightarrow> Listener option" where
  "listener_packetInput env data addr l = do {
     r \<leftarrow> open_packet env (l_block l) data;
     (case r of
        Dropped \<Rightarrow> Some l
      | CsumError \<Rightarrow> Some (l\<lparr>l_snmp := increaseInCsumErrors (l_snmp l)\<rparr>)
      | Opened data \<Rightarrow>
          if length data < min IKCP_OVERHEAD (fecHeaderSizePlus2 + convSize) then Some l
          else dispatch env data addr l) }"

text \<open>A read error is kept once and passed to every registered session; a session is registered under its own address.\<close>

definition listener_notifyReadError :: "Listener \<Rightarrow> Listener" where
  "listener_notifyReadError l =
     (if l_readError l then l
      else l\<lparr>l_readError := True,
             l_store := (\<lambda>i. map_option (\<lambda>(r, s). (r, if l_sessions l r = Some i then notifyReadError s else s)) (l_store l i))\<rparr>)"

text \<open>The cases of the \<^verbatim>\<open>select\<close> in \<^verbatim>\<open>AcceptKCP\<close>; \<open>None\<close> means that the case is not ready.\<close>

datatype accept_case = Accept_deadline | Accept_session | Accept_error | Accept_die

fun AcceptKCP :: "accept_case \<Rightarrow> Listener \<Rightarrow> ((io_error + nat) \<times> Listener) option" where
  "AcceptKCP Accept_deadline l = (if l_deadline l then Some (Inl errTimeout, l) else None)"
| "AcceptKCP Accept_session l = (case l_accepts l of [] \<Rightarrow> None | i # is \<Rightarrow> Some (Inr i, l\<lparr>l_accepts := is\<rparr>))"
| "AcceptKCP Accept_error l = (if l_readError l then Some (Inl errSocket, l) else None)"
| "AcceptKCP Accept_die l = (if l_die l then Some (Inl errClosedPipe, l) else None)"

definition listener_SetReadDeadline :: "bool \<Rightarrow> Listener \<Rightarrow> Listener" where
  "listener_SetReadDeadline passed l = l\<lparr>l_deadline := passed\<rparr>"

definition listener_SetDeadline :: "bool \<Rightarrow> Listener \<Rightarrow> Listener" where
  "listener_SetDeadline passed l = listener_SetReadDeadline passed l"

text \<open>\<^verbatim>\<open>Listener.Close\<close>: \<open>False\<close> is the error of a second call.\<close>

definition listener_Close :: "Listener \<Rightarrow> bool \<times> Listener" where
  "listener_Close l =
     (if l_die l then (False, l)
      else let l = release (l\<lparr>l_die := True\<rparr>)
           in (True, if l_ownConn l then l\<lparr>l_connClosed := True\<rparr> else l))"

section \<open>Invariant\<close>

text \<open>
  Every reference is valid, a session is registered under its own address only, every session in
  the store is well-formed and uses the listener's cipher.
\<close>

definition listener_config :: "env \<Rightarrow> Listener \<Rightarrow> bool" where
  "listener_config env l \<longleftrightarrow> block_wf env (l_block l) \<and> l_dataShards l + l_parityShards l \<le> 256 \<and>
     cryptHeader (l_block l) + cryptTail (l_block l) \<le> 1367 \<and>
     (0 < l_dataShards l \<and> 0 < l_parityShards l \<longrightarrow>
        rs_mds (e_rs_encode env) (e_rs_reconstruct env) (nat (l_dataShards l)) (nat (l_parityShards l)))"

definition listener_wf :: "env \<Rightarrow> Listener \<Rightarrow> bool" where
  "listener_wf env l \<longleftrightarrow>
     (\<forall>i r s. l_store l i = Some (r, s) \<longrightarrow> i < l_next l \<and> sess_wf env s) \<and>
     (\<forall>a i. l_sessions l a = Some i \<longrightarrow> (\<exists>s. l_store l i = Some (a, s))) \<and>
     (\<forall>i\<in>set (l_accepts l). l_store l i \<noteq> None) \<and> listener_config env l"

lemma packet_id_total:
  assumes "12 \<le> length data"
  shows "packet_id data \<noteq> None"
proof -
  have u: "\<exists>x. Uint32 (drop n data) = Some x" if "n + 4 \<le> length data" for n
    using Uint32_defined [of "drop n data"] that by auto
  have f: "\<exists>x. Uint16 (drop 4 data) = Some x" using Uint16_defined [of "drop 4 data"] assms by auto
  show ?thesis
    using f u [of 0] u [of 8] u [of 20] u [of 12] assms
    by (auto simp: packet_id_def sess_consts IKCP_SN_OFFSET_def)
qed

lemma release_fields [simp]:
  "l_sessions (release l) = l_sessions l" "l_store (release l) = l_store l" "l_accepts (release l) = l_accepts l"
  "l_next (release l) = l_next l" "l_die (release l) = l_die l" "l_block (release l) = l_block l"
  "l_pusher (release l) = l_pusher l" "l_ownConn (release l) = l_ownConn l" "l_connClosed (release l) = l_connClosed l"
  "l_dataShards (release l) = l_dataShards l" "l_parityShards (release l) = l_parityShards l"
  "l_readError (release l) = l_readError l"
  by (simp_all add: release_def)

lemma release_config [simp]: "listener_config env (release l) = listener_config env l"
  by (simp add: listener_config_def)

lemma closeSession_wf: "listener_wf env l \<Longrightarrow> listener_wf env (snd (closeSession r l))"
  by (auto simp: closeSession_def listener_wf_def listener_config_def)

lemma store_update_wf:
  assumes "listener_wf env l" "l_store l i = Some (r, s)" "sess_wf env s'"
  shows "listener_wf env (l\<lparr>l_store := (l_store l)(i \<mapsto> (r, s'))\<rparr>)"
  using assms unfolding listener_wf_def listener_config_def by (simp add: fun_upd_apply) fastforce

lemma close_ref_wf:
  assumes wf: "listener_wf env l" and env: "env_ok env" and i: "l_store l i = Some (r, s)"
  shows "\<exists>l' s'. close_ref env i l = Some l' \<and> listener_wf env l' \<and> l_store l' = (l_store l)(i \<mapsto> (r, s')) \<and> s_die s' \<and>
    (\<forall>a. a \<noteq> r \<longrightarrow> l_sessions l' a = l_sessions l a) \<and> (\<not> s_die s \<longrightarrow> l_sessions l' r = None) \<and>
    l_accepts l' = l_accepts l \<and> l_die l' = l_die l \<and> l_next l' = l_next l \<and> l_block l' = l_block l"
proof -
  have "sess_wf env s" using wf i by (auto simp: listener_wf_def)
  then obtain b s' where c: "sess_Close env s = Some (b, s')" "sess_wf env s'" "s_die s'"
    using sess_Close_wf [OF _ env] by blast
  have b: "b \<longleftrightarrow> \<not> s_die s" using c(1) by (auto simp: sess_Close_def bind_eq_Some_conv Let_def split: if_splits)
  let ?l = "l\<lparr>l_store := (l_store l)(i \<mapsto> (r, s'))\<rparr>"
  have w: "listener_wf env ?l" by (rule store_update_wf [OF wf i c(2)])
  let ?l' = "if b then snd (closeSession r ?l) else ?l"
  have "close_ref env i l = Some ?l'" using i c(1) by (simp add: close_ref_def Let_def)
  moreover have "listener_wf env ?l'" using w closeSession_wf [OF w] by simp
  ultimately show ?thesis
    using c(3) b by (intro exI [of _ ?l'] exI [of _ s']) (auto simp: closeSession_def)
qed

lemma feed_ref_wf:
  assumes wf: "listener_wf env l" and env: "env_ok env" and i: "l_store l i = Some (r, s)"
    and len: "12 \<le> length data" "length data \<le> maxPacketSize"
  shows "\<exists>s'. feed_ref env i data l = Some (l\<lparr>l_store := (l_store l)(i \<mapsto> (r, s'))\<rparr>) \<and> kcpInput env data s = Some s' \<and>
    listener_wf env (l\<lparr>l_store := (l_store l)(i \<mapsto> (r, s'))\<rparr>)"
proof -
  have "sess_wf env s" using wf i by (auto simp: listener_wf_def)
  then obtain s' where "kcpInput env data s = Some s'" "sess_wf env s'" using kcpInput_wf [OF _ env len] by blast
  then show ?thesis using i store_update_wf [OF wf i] by (simp add: feed_ref_def)
qed

text \<open>What an operation for one address leaves alone.\<close>

definition others_kept :: "string \<Rightarrow> Listener \<Rightarrow> Listener \<Rightarrow> bool" where
  "others_kept addr l l' \<longleftrightarrow>
     (\<forall>a. a \<noteq> addr \<longrightarrow> l_sessions l' a = l_sessions l a) \<and>
     (\<forall>i a s. l_store l i = Some (a, s) \<longrightarrow> a \<noteq> addr \<longrightarrow> l_store l' i = Some (a, s))"

lemma others_kept_refl [simp]: "others_kept addr l l"
  by (simp add: others_kept_def)

lemma others_kept_trans: "others_kept addr l l' \<Longrightarrow> others_kept addr l' l'' \<Longrightarrow> others_kept addr l l''"
  by (simp add: others_kept_def)

lemma new_session_wf:
  assumes wf: "listener_wf env l" and env: "env_ok env" and len: "12 \<le> length data" "length data \<le> maxPacketSize"
  shows "\<exists>s0 s. newUDPSession env c (l_dataShards l) (l_parityShards l) True (l_block l) newSnmp = Some s0 \<and>
    kcpInput env data s0 = Some s \<and> sess_wf env s"
proof -
  have "listener_config env l" using wf by (simp add: listener_wf_def)
  then obtain s0 where "newUDPSession env c (l_dataShards l) (l_parityShards l) True (l_block l) newSnmp = Some s0" "sess_wf env s0"
    using newUDPSession_wf [OF env, of "l_block l" "l_dataShards l" "l_parityShards l" c True newSnmp]
    by (auto simp: listener_config_def)
  with kcpInput_wf [OF _ env len] show ?thesis by blast
qed

lemma open_session_wf:
  assumes wf: "listener_wf env l" and env: "env_ok env" and len: "12 \<le> length data" "length data \<le> maxPacketSize"
  shows "\<exists>l'. open_session env c data addr l = Some l' \<and> listener_wf env l' \<and> others_kept addr l l' \<and>
    (\<forall>i x. l_store l i = Some x \<longrightarrow> l_store l' i = Some x) \<and>
    (l_sessions l' addr = l_sessions l addr \<or> l_sessions l' addr = None \<or> l_sessions l' addr = Some (l_next l))"
proof (cases "length (l_accepts l) \<ge> acceptBacklog")
  case True
  then show ?thesis using wf by (simp add: open_session_def)
next
  case False
  obtain s0 s where s: "newUDPSession env c (l_dataShards l) (l_parityShards l) True (l_block l) newSnmp = Some s0"
      "kcpInput env data s0 = Some s" "sess_wf env s"
    using new_session_wf [OF wf env len] by blast
  let ?i = "l_next l" let ?l = "l\<lparr>l_store := (l_store l)(?i \<mapsto> (addr, s)), l_next := Suc ?i\<rparr>"
  have fresh: "l_store l i = Some x \<Longrightarrow> i \<noteq> ?i" for i x using wf by (cases x) (auto simp: listener_wf_def)
  have w: "listener_wf env ?l"
    using wf s(3) fresh unfolding listener_wf_def listener_config_def by (simp add: fun_upd_apply) (metis less_Suc_eq)
  show ?thesis
  proof (cases "l_die l")
    case True
    obtain l' s' where c: "close_ref env ?i ?l = Some l'" "listener_wf env l'" "l_store l' = (l_store ?l)(?i \<mapsto> (addr, s'))"
        "\<forall>a. a \<noteq> addr \<longrightarrow> l_sessions l' a = l_sessions ?l a"
      using close_ref_wf [OF w env, of ?i addr s] by auto
    have "l_sessions l' addr = l_sessions l addr \<or> l_sessions l' addr = None"
      using c(1) by (auto simp: close_ref_def closeSession_def bind_eq_Some_conv Let_def split: if_splits)
    moreover have "open_session env c data addr l = Some l'"
      using False True s(1,2) c(1) by (simp add: open_session_def Let_def)
    ultimately show ?thesis using c(2-4) fresh by (auto simp: others_kept_def)
  next
    case notdie: False
    let ?l' = "?l\<lparr>l_sessions := (l_sessions l)(addr \<mapsto> ?i), l_accepts := l_accepts l @ [?i]\<rparr>"
    have "open_session env c data addr l = Some ?l'"
      using False notdie s(1,2) by (simp add: open_session_def Let_def)
    moreover have "listener_wf env ?l'" using w unfolding listener_wf_def listener_config_def by (auto simp: fun_upd_apply)
    ultimately show ?thesis using fresh by (auto simp: others_kept_def)
  qed
qed

lemma dispatch_wf:
  assumes wf: "listener_wf env l" and env: "env_ok env" and len: "12 \<le> length data" "length data \<le> maxPacketSize"
  shows "\<exists>l'. dispatch env data addr l = Some l' \<and> listener_wf env l' \<and> others_kept addr l l'"
proof -
  obtain ids where ids: "packet_id data = Some ids" using packet_id_total [OF len(1)] by auto
  have new: "\<exists>l'. open_session env c data addr l1 = Some l' \<and> listener_wf env l' \<and> others_kept addr l1 l'"
    if "listener_wf env l1" for c l1
    using open_session_wf [OF that env len] by blast
  show ?thesis
  proof (cases "l_sessions l addr")
    case None
    then show ?thesis using ids new [OF wf] wf by (cases ids) (simp_all add: dispatch_def)
  next
    case (Some i)
    obtain s where i: "l_store l i = Some (addr, s)" using wf Some unfolding listener_wf_def by blast
    obtain s' where f: "feed_ref env i data l = Some (l\<lparr>l_store := (l_store l)(i \<mapsto> (addr, s'))\<rparr>)"
        "listener_wf env (l\<lparr>l_store := (l_store l)(i \<mapsto> (addr, s'))\<rparr>)"
      using feed_ref_wf [OF wf env i len] by blast
    have kept: "others_kept addr l (l\<lparr>l_store := (l_store l)(i \<mapsto> (addr, x))\<rparr>)" for x
      using i by (auto simp: others_kept_def)
    obtain l1 x where c: "close_ref env i l = Some l1" "listener_wf env l1" "l_store l1 = (l_store l)(i \<mapsto> (addr, x))"
        "\<forall>a. a \<noteq> addr \<longrightarrow> l_sessions l1 a = l_sessions l a"
      using close_ref_wf [OF wf env i] by blast
    have "others_kept addr l l1" using i c(3,4) by (auto simp: others_kept_def)
    then have "\<exists>l'. open_session env cv data addr l1 = Some l' \<and> listener_wf env l' \<and> others_kept addr l l'" for cv
      using new [OF c(2), of cv] others_kept_trans by blast
    then show ?thesis using ids Some i f kept wf c(1) by (cases ids) (auto simp: dispatch_def)
  qed
qed

lemma listener_packetInput_wf:
  assumes wf: "listener_wf env l" and env: "env_ok env" and len: "length data \<le> maxPacketSize"
  shows "\<exists>l'. listener_packetInput env data addr l = Some l' \<and> listener_wf env l' \<and> others_kept addr l l'"
proof -
  have "block_wf env (l_block l)" using wf by (simp add: listener_wf_def listener_config_def)
  from open_packet_wf [OF this len] obtain r where r: "open_packet env (l_block l) data = Some r"
    "\<forall>d. r = Opened d \<longrightarrow> length d \<le> maxPacketSize" by blast
  have "listener_wf env (l\<lparr>l_snmp := f\<rparr>) = listener_wf env l" for f by (simp add: listener_wf_def listener_config_def)
  moreover have "others_kept addr l (l\<lparr>l_snmp := f\<rparr>)" for f by (simp add: others_kept_def)
  ultimately show ?thesis
    using r wf dispatch_wf [OF wf env]
    by (cases r) (auto simp: listener_packetInput_def sess_consts not_less)
qed

section \<open>A listener as a state machine\<close>

datatype listener_op =
    L_packet "byte list" string
  | L_Accept accept_case
  | L_Close
  | L_SetReadDeadline bool
  | L_expires
  | L_readError
  | L_session nat sess_op

text \<open>Operations of the application on a session it holds; closing one also unregisters it.\<close>

definition session_op :: "env \<Rightarrow> nat \<Rightarrow> sess_op \<Rightarrow> Listener \<Rightarrow> Listener option" where
  "session_op env i x l =
     (case l_store l i of
        None \<Rightarrow> Some l
      | Some (r, s) \<Rightarrow>
          if x = S_Close then close_ref env i l
          else map_option (\<lambda>s. l\<lparr>l_store := (l_store l)(i \<mapsto> (r, s))\<rparr>) (sess_exec env x s))"

fun listener_exec :: "env \<Rightarrow> listener_op \<Rightarrow> Listener \<Rightarrow> Listener option" where
  "listener_exec env (L_packet data addr) l = listener_packetInput env data addr l"
| "listener_exec env (L_Accept k) l = Some (case AcceptKCP k l of None \<Rightarrow> l | Some (_, l') \<Rightarrow> l')"
| "listener_exec env (L_SetReadDeadline passed) l = Some (listener_SetReadDeadline passed l)"
| "listener_exec env L_expires l = Some (l\<lparr>l_deadline := True\<rparr>)"
| "listener_exec env L_readError l = Some (listener_notifyReadError l)"
| "listener_exec env L_Close l = Some (snd (listener_Close l))"
| "listener_exec env (L_session i x) l = session_op env i x l"

text \<open>As for sessions, packets are at most \<^verbatim>\<open>maxPacketSize\<close> bytes long.\<close>

fun l_deliverable :: "listener_op \<Rightarrow> bool" where
  "l_deliverable (L_packet data addr) \<longleftrightarrow> length data \<le> maxPacketSize"
| "l_deliverable (L_session i x) \<longleftrightarrow> deliverable x"
| "l_deliverable _ \<longleftrightarrow> True"

inductive listener_reach :: "env \<Rightarrow> Listener \<Rightarrow> Listener \<Rightarrow> bool" for env l0 where
  listener_start: "listener_reach env l0 l0"
| listener_step: "listener_reach env l0 l \<Longrightarrow> l_deliverable x \<Longrightarrow> listener_exec env x l = Some l' \<Longrightarrow> listener_reach env l0 l'"

lemma AcceptKCP_wf: "listener_wf env l \<Longrightarrow> AcceptKCP k l = Some (r, l') \<Longrightarrow> listener_wf env l'"
  by (cases k) (auto simp: listener_wf_def listener_config_def split: list.splits if_splits)

lemma listener_notifyReadError_wf:
  assumes "listener_wf env l" "env_ok env"
  shows "listener_wf env (listener_notifyReadError l)"
proof -
  have "sess_wf env (notifyReadError s)" if "sess_wf env s" for s using sess_exec_wf [OF that assms(2), of S_readError] by simp
  then show ?thesis using assms(1)
    by (auto simp: listener_notifyReadError_def listener_wf_def listener_config_def)
qed

lemma listener_exec_wf:
  assumes wf: "listener_wf env l" and env: "env_ok env" and x: "l_deliverable x"
  shows "\<exists>l'. listener_exec env x l = Some l' \<and> listener_wf env l'"
proof (cases x)
  case (L_packet data addr)
  then show ?thesis using listener_packetInput_wf [OF wf env, of data addr] x by auto
next
  case (L_session i y)
  show ?thesis
  proof (cases "l_store l i")
    case (Some v)
    obtain r s where v: "v = (r, s)" by fastforce
    have s: "sess_wf env s" using wf Some v by (auto simp: listener_wf_def)
    then obtain s' where "sess_exec env y s = Some s'" "sess_wf env s'" using sess_exec_wf [OF _ env, of s y] x L_session by auto
    then show ?thesis
      using L_session Some v store_update_wf [OF wf Some [unfolded v]] close_ref_wf [OF wf env Some [unfolded v]]
      by (auto simp: session_op_def)
  qed (use L_session wf in \<open>simp add: session_op_def\<close>)
next
  case (L_Accept k)
  then show ?thesis using wf AcceptKCP_wf by (auto split: option.splits)
next
  case L_Close
  then show ?thesis using wf by (auto simp: listener_Close_def listener_wf_def listener_config_def Let_def)
qed (use wf listener_notifyReadError_wf [OF wf env] in
    \<open>auto simp: listener_SetReadDeadline_def listener_wf_def listener_config_def\<close>)

lemma listener_reach_wf:
  assumes "listener_reach env l0 l" "listener_wf env l0" "env_ok env"
  shows "listener_wf env l"
  using assms
proof (induction rule: listener_reach.induct)
  case (listener_step l x l')
  then show ?case using listener_exec_wf [of env l x] by auto
qed

lemma serveConn_wf:
  "listener_config env (serveConn block d p own pu) \<Longrightarrow> listener_wf env (serveConn block d p own pu)"
  by (simp add: listener_wf_def serveConn_def)

section \<open>Properties\<close>

text \<open>C23. A listener isolates its peers: served with a cipher of at most 1367 bytes of overhead and FEC parameters up to
  256 shards, after any sequence of datagrams, accepts, closes and operations on its sessions, every datagram of at
  most \<^verbatim>\<open>maxPacketSize\<close> arbitrary bytes, as the monitors read them, from any address is processed without panic, and
  it changes neither the registration nor the state of a session of another address. A pusher that calls
  \<^verbatim>\<open>Listener.pushedPacket\<close> with a longer datagram is outside this claim.\<close>

theorem listener_isolates:
  assumes "env_ok env" "listener_config env (serveConn block d p own pu)" "listener_reach env (serveConn block d p own pu) l"
    and "length data \<le> maxPacketSize"
  shows "\<exists>l'. listener_packetInput env data addr l = Some l' \<and>
    (\<forall>a. a \<noteq> addr \<longrightarrow> l_sessions l' a = l_sessions l a) \<and>
    (\<forall>i a s. l_store l i = Some (a, s) \<longrightarrow> a \<noteq> addr \<longrightarrow> l_store l' i = Some (a, s))"
  using listener_packetInput_wf [OF listener_reach_wf [OF assms(3) serveConn_wf [OF assms(2)] assms(1)] assms(1,4), of addr]
  unfolding others_kept_def by blast

lemma demo_listener: "listener_config demo_env (serveConn demo_block 2 1 False False)"
  using demo_block_wf xor_mds by (simp add: listener_config_def serveConn_def demo_block_sizes) (simp add: demo_env_def)

theorem listener_isolates_witness:
  "\<exists>l'. listener_packetInput demo_env (replicate 60 1) ''10.0.0.1:4000'' (serveConn demo_block 2 1 False False) = Some l'"
  using listener_isolates [OF demo_env_ok demo_listener listener_start, of "replicate 60 1" "''10.0.0.1:4000''"]
  by (auto simp: maxPacketSize_def)

text \<open>C32. An out-of-band packet with another conversation number closes the session of its address, which is then
  replaced: \<^verbatim>\<open>packetInput\<close> gives out-of-band packets the sequence number 0, and so takes them for the reset
  packet that alone may replace a session. The old session is dead afterwards and no longer registered.\<close>

theorem oob_packet_resets_session:
  assumes "listener_wf env l" "env_ok env" "12 \<le> length data" "length data \<le> maxPacketSize"
    and "Uint16 (drop 4 data) = Some typeOOB" "Uint32 (drop 8 data) = Some c"
    and "l_sessions l addr = Some i" "l_store l i = Some (addr, s)" "c \<noteq> conv (s_kcp s)" "\<not> s_die s"
  shows "\<exists>l' s'. dispatch env data addr l = Some l' \<and> l_store l' i = Some (addr, s') \<and> s_die s' \<and> l_sessions l' addr \<noteq> Some i"
proof -
  obtain l1 s' where c: "close_ref env i l = Some l1" "listener_wf env l1" "l_store l1 = (l_store l)(i \<mapsto> (addr, s'))" "s_die s'"
      "l_sessions l1 addr = None" "l_next l1 = l_next l"
    using close_ref_wf [OF assms(1,2,8)] assms(10) by blast
  obtain l2 where o: "open_session env c data addr l1 = Some l2" "\<forall>j x. l_store l1 j = Some x \<longrightarrow> l_store l2 j = Some x"
      "l_sessions l2 addr = l_sessions l1 addr \<or> l_sessions l2 addr = None \<or> l_sessions l2 addr = Some (l_next l1)"
    using open_session_wf [OF c(2) assms(2-4), of c addr] by blast
  have id: "packet_id data = Some (Conv c 0)"
    using assms(5,6) by (simp add: packet_id_def sess_consts typeOOB_def typeData_def typeParity_def)
  have "dispatch env data addr l = Some l2" using id assms(7,8,9) c(1) o(1) by (simp add: dispatch_def)
  moreover have "i < l_next l" using assms(1,8) unfolding listener_wf_def by blast
  then have "l_sessions l2 addr \<noteq> Some i" using o(3) c(5,6) by auto
  moreover have "l_store l2 i = Some (addr, s')" using o(2) c(3) by simp
  ultimately show ?thesis using c(4) by blast
qed

theorem oob_packet_resets_session_witness:
  "\<exists>s0 l' s'. newUDPSession demo_env 7 2 1 True demo_block newSnmp = Some s0 \<and>
    dispatch demo_env (fec_header 0xffffffff typeOOB @ [0, 0] @ PutUint32 9) ''a''
      ((serveConn demo_block 2 1 False False)\<lparr>l_sessions := [''a'' \<mapsto> 0], l_store := [0 \<mapsto> (''a'', s0)], l_next := 1\<rparr>) = Some l' \<and>
    l_store l' 0 = Some (''a'', s') \<and> s_die s'"
proof -
  obtain s0 where s0: "newUDPSession demo_env 7 2 1 True demo_block newSnmp = Some s0" "sess_wf demo_env s0"
    by (rule demo_session)
  have "conv k' = conv k" if "SetMtu m k = Some (r, k')" for m k r k'
    using that by (auto simp: SetMtu_def bind_eq_Some_conv split: if_splits)
  then have k: "conv (s_kcp s0) = 7" "\<not> s_die s0"
    using s0(1) by (auto simp: newUDPSession_def sess_SetMtu_eq bind_eq_Some_conv sess_count_def NewKCP_def Let_def
        split: if_splits)
  let ?l = "(serveConn demo_block 2 1 False False)\<lparr>l_sessions := [''a'' \<mapsto> 0], l_store := [0 \<mapsto> (''a'', s0)], l_next := 1\<rparr>"
  let ?d = "fec_header 0xffffffff typeOOB @ [0, 0] @ PutUint32 9"
  have w: "listener_wf demo_env ?l"
    using demo_listener s0(2) by (auto simp: listener_wf_def listener_config_def serveConn_def)
  have d: "12 \<le> length ?d" "length ?d \<le> maxPacketSize" "Uint16 (drop 4 ?d) = Some typeOOB" "Uint32 (drop 8 ?d) = Some 9"
    using Uint16_PutUint16 [of typeOOB "[0, 0] @ PutUint32 9"] Uint32_PutUint32 [of 9 "[]"]
    by (simp_all add: maxPacketSize_def fec_header_def)
  from oob_packet_resets_session [OF w demo_env_ok d, of "''a''" 0 s0] k s0(1) show ?thesis by auto
qed

end
