(* ===== verification/Read_Loop.thy ===== *)
theory Read_Loop
  imports Listener
begin

text \<open>
  The ways packets are received, \<^verbatim>\<open>readloop.go\<close> and \<^verbatim>\<open>readloop_linux.go\<close>. A client session is fed by \<^verbatim>\<open>defaultReadLoop\<close>,
  which reads the socket packet by packet, by the batches of the Linux \<^verbatim>\<open>readLoop\<close>, or by the callback \<^verbatim>\<open>pushedPacket\<close> of
  a \<^verbatim>\<open>PacketPusher\<close>; a listener by \<^verbatim>\<open>defaultMonitor\<close>, the batches of \<^verbatim>\<open>monitor\<close>, or its own callback. A session takes
  packets of one peer only, the remote address or else the sender of the first packet. An address of
  another type than \<^verbatim>\<open>net.UDPAddr\<close> is known by its \<^verbatim>\<open>String()\<close> only; \<open>str\<close> stands for that method. What the socket
  returns is an argument. The lemmas show that all ways feed the same packets. The read loops have buffers of
  \<^verbatim>\<open>maxPacketSize\<close> bytes; the callbacks take packets of any length, and a longer one can panic.
\<close>

section \<open>Addresses\<close>

record UDPAddr =
  ua_IP :: "byte list"
  ua_Port :: int
  ua_Zone :: string

datatype addr = UDP UDPAddr | Named string

definition v4InV6Prefix :: "byte list" where
  "v4InV6Prefix = replicate 10 0 @ [255, 255]"

text \<open>\<^verbatim>\<open>net.IP.Equal\<close>: an IPv4 address equals the same address in IPv6 form.\<close>

definition ip_Equal :: "byte list \<Rightarrow> byte list \<Rightarrow> bool" where
  "ip_Equal ip x =
     (if length ip = length x then ip = x
      else if length ip = 4 \<and> length x = 16 then take 12 x = v4InV6Prefix \<and> ip = drop 12 x
      else if length ip = 16 \<and> length x = 4 then take 12 ip = v4InV6Prefix \<and> drop 12 ip = x
      else False)"

definition sameUDPAddr :: "UDPAddr option \<Rightarrow> UDPAddr option \<Rightarrow> bool" where
  "sameUDPAddr a b =
     (case (a, b) of
        (Some a, Some b) \<Rightarrow>
          if ua_Port a \<noteq> ua_Port b \<or> ua_Zone a \<noteq> ua_Zone b then False else ip_Equal (ua_IP a) (ua_IP b)
      | _ \<Rightarrow> False)"

section \<open>The reading goroutine\<close>

text \<open>The variables \<^verbatim>\<open>src\<close> and \<^verbatim>\<open>srcStr\<close>.\<close>

record source =
  src :: "UDPAddr option"
  srcStr :: string

definition pin :: "(addr \<Rightarrow> string) \<Rightarrow> addr \<Rightarrow> source" where
  "pin str a = (case a of UDP u \<Rightarrow> \<lparr>src = Some u, srcStr = []\<rparr> | Named _ \<Rightarrow> \<lparr>src = None, srcStr = str a\<rparr>)"

definition read_start :: "(addr \<Rightarrow> string) \<Rightarrow> addr option \<Rightarrow> source" where
  "read_start str remote = (case remote of None \<Rightarrow> \<lparr>src = None, srcStr = []\<rparr> | Some a \<Rightarrow> pin str a)"

text \<open>What the loop does with a packet: packets of another peer only count as errors.\<close>

definition take_packet ::
    "(addr \<Rightarrow> string) \<Rightarrow> env \<Rightarrow> byte list \<Rightarrow> addr \<Rightarrow> source \<Rightarrow> UDPSession \<Rightarrow> (source \<times> UDPSession) option" where
  "take_packet str env data a v s =
     (if src v = None \<and> srcStr v = [] then map_option (Pair (pin str a)) (packetInput env data s)
      else if src v \<noteq> None then
        (case a of
           UDP u \<Rightarrow> if sameUDPAddr (src v) (Some u) then map_option (Pair v) (packetInput env data s)
                    else Some (v, sess_count increaseInErrs s)
         | Named _ \<Rightarrow> Some (v, sess_count increaseInErrs s))
      else if str a \<noteq> srcStr v then Some (v, sess_count increaseInErrs s)
      else map_option (Pair v) (packetInput env data s))"

text \<open>What \<^verbatim>\<open>ReadFrom\<close> returns, and one round of the loop: whether it goes on, its variables, the session.\<close>

datatype received = Packet "byte list" addr | Failed

definition read_round ::
    "(addr \<Rightarrow> string) \<Rightarrow> env \<Rightarrow> received \<Rightarrow> source \<Rightarrow> UDPSession \<Rightarrow> (bool \<times> source \<times> UDPSession) option" where
  "read_round str env rcv v s =
     (case rcv of
        Failed \<Rightarrow> Some (False, v, notifyReadError s)
      | Packet data a \<Rightarrow> if s_die s then Some (False, v, s) else map_option (Pair True) (take_packet str env data a v s))"

text \<open>The loop on what the socket returns, as far as it comes.\<close>

fun defaultReadLoop ::
    "(addr \<Rightarrow> string) \<Rightarrow> env \<Rightarrow> received list \<Rightarrow> source \<Rightarrow> UDPSession \<Rightarrow> (bool \<times> source \<times> UDPSession) option" where
  "defaultReadLoop str env [] v s = Some (True, v, s)"
| "defaultReadLoop str env (x # xs) v s = do {
     (go, v, s) \<leftarrow> read_round str env x v s;
     if go then defaultReadLoop str env xs v s else Some (False, v, s) }"

text \<open>The loop on Linux: \<^verbatim>\<open>ReadBatch\<close> returns several packets at once, and the session is asked once per batch whether it
  is closed.\<close>

datatype batch = Batch "(byte list \<times> addr) list" | BatchFailed

fun take_packets ::
    "(addr \<Rightarrow> string) \<Rightarrow> env \<Rightarrow> (byte list \<times> addr) list \<Rightarrow> source \<Rightarrow> UDPSession \<Rightarrow> (source \<times> UDPSession) option" where
  "take_packets str env [] v s = Some (v, s)"
| "take_packets str env ((data, a) # ms) v s = do {
     (v, s) \<leftarrow> take_packet str env data a v s;
     take_packets str env ms v s }"

definition batch_round ::
    "(addr \<Rightarrow> string) \<Rightarrow> env \<Rightarrow> batch \<Rightarrow> source \<Rightarrow> UDPSession \<Rightarrow> (bool \<times> source \<times> UDPSession) option" where
  "batch_round str env b v s =
     (case b of
        BatchFailed \<Rightarrow> Some (False, v, notifyReadError s)
      | Batch ms \<Rightarrow> if s_die s then Some (False, v, s) else map_option (Pair True) (take_packets str env ms v s))"

fun readLoop ::
    "(addr \<Rightarrow> string) \<Rightarrow> env \<Rightarrow> batch list \<Rightarrow> source \<Rightarrow> UDPSession \<Rightarrow> (bool \<times> source \<times> UDPSession) option" where
  "readLoop str env [] v s = Some (True, v, s)"
| "readLoop str env (b # bs) v s = do {
     (go, v, s) \<leftarrow> batch_round str env b v s;
     if go then readLoop str env bs v s else Some (False, v, s) }"

section \<open>The callback\<close>

definition accepts_from :: "(addr \<Rightarrow> string) \<Rightarrow> addr \<Rightarrow> addr \<Rightarrow> bool" where
  "accepts_from str from a =
     (case from of
        UDP u \<Rightarrow> (case a of UDP w \<Rightarrow> sameUDPAddr (Some u) (Some w) | Named _ \<Rightarrow> False)
      | Named _ \<Rightarrow> str a = str from)"

text \<open>\<open>pushed\<close> is the field \<^verbatim>\<open>pushedFrom\<close>.\<close>

definition pushedPacket ::
    "(addr \<Rightarrow> string) \<Rightarrow> env \<Rightarrow> addr option \<Rightarrow> received \<Rightarrow> addr option \<Rightarrow> UDPSession \<Rightarrow> (addr option \<times> UDPSession) option" where
  "pushedPacket str env remote rcv pushed s =
     (case rcv of
        Failed \<Rightarrow> Some (pushed, notifyReadError s)
      | Packet data a \<Rightarrow>
          if s_die s then Some (pushed, s)
          else let pushed = (if remote = None \<and> pushed = None then Some a else pushed);
                   from = (case remote of Some r \<Rightarrow> r | None \<Rightarrow> the pushed)
               in if accepts_from str from a then map_option (Pair pushed) (packetInput env data s)
                  else Some (pushed, sess_count increaseInErrs s))"

section \<open>Both paths take the same packets\<close>

text \<open>The loop's variables and the callback's field agree on the peer.\<close>

definition same_peer :: "(addr \<Rightarrow> string) \<Rightarrow> addr option \<Rightarrow> source \<Rightarrow> addr option \<Rightarrow> bool" where
  "same_peer str remote v pushed \<longleftrightarrow> v = read_start str (if remote = None then pushed else remote)"

definition has_name :: "(addr \<Rightarrow> string) \<Rightarrow> addr \<Rightarrow> bool" where
  "has_name str a \<longleftrightarrow> (case a of UDP _ \<Rightarrow> True | Named _ \<Rightarrow> str a \<noteq> [])"

lemma ip_Equal_commute: "ip_Equal a b = ip_Equal b a"
  by (auto simp: ip_Equal_def)

lemma sameUDPAddr_refl: "sameUDPAddr (Some u) (Some u)"
  by (simp add: sameUDPAddr_def ip_Equal_def)

lemma accepts_from_self: "accepts_from str a a"
  by (simp add: accepts_from_def sameUDPAddr_refl split: addr.splits)

lemma pin_known: "has_name str a \<Longrightarrow> \<not> (src (pin str a) = None \<and> srcStr (pin str a) = [])"
  by (auto simp: pin_def has_name_def split: addr.splits)

lemma read_round_known:
  assumes "has_name str from"
  shows "read_round str env (Packet data a) (pin str from) s =
    (if s_die s then Some (False, pin str from, s)
     else if accepts_from str from a then map_option (\<lambda>s. (True, pin str from, s)) (packetInput env data s)
     else Some (True, pin str from, sess_count increaseInErrs s))"
  using assms by (auto simp: read_round_def take_packet_def pin_def accepts_from_def has_name_def option.map_comp comp_def split: addr.splits)

lemma paths_agree:
  assumes "same_peer str remote v pushed" "\<forall>r. remote = Some r \<longrightarrow> has_name str r" "\<forall>p. pushed = Some p \<longrightarrow> has_name str p"
  shows "map_option (\<lambda>(_, _, s). s) (read_round str env rcv v s) = map_option snd (pushedPacket str env remote rcv pushed s) \<and>
    (\<forall>go v' s1 pushed' s2. read_round str env rcv v s = Some (go, v', s1) \<longrightarrow>
       pushedPacket str env remote rcv pushed s = Some (pushed', s2) \<longrightarrow> same_peer str remote v' pushed')"
proof (cases rcv)
  case Failed
  then show ?thesis using assms(1) by (simp add: read_round_def pushedPacket_def)
next
  case (Packet data a)
  show ?thesis
  proof (cases "if remote = None then pushed else remote")
    case None
    then have "remote = None" "pushed = None" "v = \<lparr>src = None, srcStr = []\<rparr>"
      using assms(1) by (auto simp: same_peer_def read_start_def split: if_splits)
    then show ?thesis using Packet
      by (cases "packetInput env data s") (auto simp: read_round_def take_packet_def pushedPacket_def accepts_from_self same_peer_def read_start_def Let_def)
  next
    case (Some p)
    then have v: "v = pin str p" and n: "has_name str p"
      using assms by (auto simp: same_peer_def read_start_def split: if_splits)
    have fr: "(case remote of Some r \<Rightarrow> r | None \<Rightarrow> the pushed) = p" "\<not> (remote = None \<and> pushed = None)"
      using Some by (auto split: option.splits if_splits)
    show ?thesis
      unfolding Packet v read_round_known [OF n]
      using fr Some by (cases "packetInput env data s") (auto simp: pushedPacket_def same_peer_def read_start_def Let_def)
  qed
qed

text \<open>C37. A session takes the same packets whichever way they arrive. With the same peer on both paths, the remote
  address or the sender of the first packet, a round of \<^verbatim>\<open>defaultReadLoop\<close> and a call of \<^verbatim>\<open>pushedPacket\<close> on the same
  packet, of at most \<^verbatim>\<open>maxPacketSize\<close> bytes, or error leave the session in the same state, without panic, and agree on the peer again. IPv4
  addresses in either form are the same peer; packets of any other only count as errors. Addresses that are
  not UDP addresses must have a non-empty name, since the loop takes an empty one for no peer.\<close>

theorem read_paths_agree:
  assumes "same_peer str remote v pushed" "\<forall>r. remote = Some r \<longrightarrow> has_name str r" "\<forall>p. pushed = Some p \<longrightarrow> has_name str p"
    and "sess_wf env s" "env_ok env" "\<forall>data a. rcv = Packet data a \<longrightarrow> length data \<le> maxPacketSize"
  shows "\<exists>go v' pushed' s'. read_round str env rcv v s = Some (go, v', s') \<and>
    pushedPacket str env remote rcv pushed s = Some (pushed', s') \<and> same_peer str remote v' pushed'"
proof -
  have "\<exists>y. read_round str env rcv v s = Some y"
  proof (cases rcv)
    case (Packet data a)
    then obtain s' where "packetInput env data s = Some s'" using packetInput_wf [OF assms(4,5), of data] assms(6) by blast
    then show ?thesis using Packet by (auto simp: read_round_def take_packet_def split: addr.splits)
  qed (simp add: read_round_def ex_bool_eq)
  then show ?thesis
    using paths_agree [OF assms(1-3), of env rcv s] by (cases "pushedPacket str env remote rcv pushed s") auto
qed

definition demo_addr :: "byte list \<Rightarrow> addr" where
  "demo_addr ip = UDP \<lparr>ua_IP = ip, ua_Port = 4000, ua_Zone = []\<rparr>"

theorem read_paths_agree_witness:
  "\<exists>s s'. newUDPSession demo_env 7 2 1 False demo_block newSnmp = Some s \<and>
    pushedPacket (\<lambda>_. []) demo_env None (Packet (replicate 60 1) (demo_addr [10, 0, 0, 1]))
      (Some (demo_addr (v4InV6Prefix @ [10, 0, 0, 1]))) s = Some (Some (demo_addr (v4InV6Prefix @ [10, 0, 0, 1])), s') \<and>
    packetInput demo_env (replicate 60 1) s = Some s'"
proof -
  let ?p = "demo_addr (v4InV6Prefix @ [10, 0, 0, 1])" and ?x = "Packet (replicate 60 1) (demo_addr [10, 0, 0, 1])"
  obtain s where s: "newUDPSession demo_env 7 2 1 False demo_block newSnmp = Some s" "sess_wf demo_env s"
    by (rule demo_session)
  have "\<not> s_die s"
    using s(1) by (auto simp: newUDPSession_def sess_SetMtu_eq bind_eq_Some_conv sess_count_def newFECEncoder_def
        demo_env_def demo_block_sizes sess_consts Let_def split: if_splits)
  moreover obtain pu s' where "pushedPacket (\<lambda>_. []) demo_env None ?x (Some ?p) s = Some (pu, s')"
    using read_paths_agree [OF _ _ _ s(2) demo_env_ok, of "\<lambda>_. []" None "read_start (\<lambda>_. []) (Some ?p)" "Some ?p" ?x]
    by (auto simp: same_peer_def has_name_def demo_addr_def maxPacketSize_def)
  ultimately show ?thesis
    using s(1) by (auto simp: pushedPacket_def accepts_from_def demo_addr_def sameUDPAddr_def ip_Equal_def v4InV6Prefix_def)
qed

section \<open>Packets that are too long\<close>

text \<open>Nothing between \<^verbatim>\<open>pushedPacket\<close> and \<^verbatim>\<open>parse_data\<close> bounds a packet: a data segment longer than a pool buffer panics.\<close>

lemma oversized_packet_panics:
  assumes wf: "sess_wf env s" and plain: "s_block s = None" and m: "seg_cmd m = IKCP_CMD_PUSH" "seg_frg m = 0" "seg_conv m = conv (s_kcp s)"
    and len: "maxPacketSize < length (seg_bytes m)" "length (seg_bytes m) < 2 ^ 32"
    and new: "in_rcv_window (s_kcp s) (seg_sn m)" "\<not> segmentHeap_Has (rcv_buf (s_kcp s)) (seg_sn m)"
  shows "packetInput env (frame m) s = None"
proof -
  let ?s = "sess_count (addInBytes (length (frame m))) (sess_count increaseInPkts s)"
  obtain L where "kcp_wf L (s_kcp s)" using sess_kcp_wf [OF wf] by blast
  then have "Input (e_clock env) (frame m @ []) IKCP_PACKET_REGULAR (s_ackNoDelay s) (s_kcp s) = None"
    using Input_oversized_push [OF _ m(1,3) len new] by blast
  then have "input_plain env (frame m) ?s = None" by (simp add: input_plain_def sess_Input_def sess_count_def)
  moreover have "Uint16 (drop 4 (frame m)) = Some 0x51"
    by (simp add: frame_def segment_encode_def PutUint32_def m(1,2) kcp_consts)
  ultimately have "kcpInput env (frame m) s = None"
    by (simp add: kcpInput_def Let_def typeData_def typeParity_def typeOOB_def)
  moreover have "\<not> length (frame m) < min IKCP_OVERHEAD (fecHeaderSizePlus2 + convSize)" by simp
  ultimately show ?thesis using plain by (simp add: packetInput_def open_packet_def)
qed

theorem pushed_packet_panics:
  "\<exists>s. newUDPSession demo_env 7 0 0 False None newSnmp = Some s \<and>
     (\<forall>b. maxPacketSize < length b \<and> length b < 2 ^ 32 \<longrightarrow>
        pushedPacket str demo_env None (Packet (frame (zero_segment\<lparr>seg_conv := 7, seg_cmd := IKCP_CMD_PUSH, seg_data := Some b\<rparr>)) a) None s = None)"
proof -
  obtain s where s: "newUDPSession demo_env 7 0 0 False None newSnmp = Some s" "sess_wf demo_env s"
    using newUDPSession_wf [OF demo_env_ok, of None 0 0 7 False newSnmp] by (auto simp: cryptHeader_def cryptTail_def)
  have k: "conv k' = conv k \<and> rcv_buf k' = rcv_buf k \<and> rcv_nxt k' = rcv_nxt k \<and> rcv_wnd k' = rcv_wnd k"
    if "SetMtu m k = Some (r, k')" for m k r k'
    using that by (auto simp: SetMtu_def bind_eq_Some_conv split: if_splits)
  obtain m r k' where S: "SetMtu m (NewKCP 7) = Some (r, k')" "s_kcp s = k'" "s_block s = None" "\<not> s_die s"
    using s(1) by (auto simp: newUDPSession_def sess_SetMtu_eq bind_eq_Some_conv sess_count_def Let_def split: if_splits)
  have "conv (s_kcp s) = 7" "in_rcv_window (s_kcp s) 0" "\<not> segmentHeap_Has (rcv_buf (s_kcp s)) 0"
    using k [OF S(1)] by (simp_all add: S(2) in_rcv_window_def itimediff_def NewKCP_def kcp_consts newSegmentHeap_def segmentHeap_Has_def)
  then have "packetInput demo_env (frame (zero_segment\<lparr>seg_conv := 7, seg_cmd := IKCP_CMD_PUSH, seg_data := Some b\<rparr>)) s = None"
    if "maxPacketSize < length b" "length b < 2 ^ 32" for b
    using oversized_packet_panics [OF s(2) S(3)] that by (simp add: zero_segment_def seg_bytes_def)
  moreover have "accepts_from str a a" by (cases a) (simp_all add: accepts_from_def sameUDPAddr_def ip_Equal_def)
  ultimately show ?thesis using s(1) S(4) by (auto simp: pushedPacket_def)
qed

section \<open>The listener's loops\<close>

definition monitor_round :: "(addr \<Rightarrow> string) \<Rightarrow> env \<Rightarrow> received \<Rightarrow> Listener \<Rightarrow> (bool \<times> Listener) option" where
  "monitor_round str env rcv l =
     (case rcv of
        Failed \<Rightarrow> Some (False, listener_notifyReadError l)
      | Packet data a \<Rightarrow> map_option (Pair True) (listener_packetInput env data (str a) l))"

fun defaultMonitor :: "(addr \<Rightarrow> string) \<Rightarrow> env \<Rightarrow> received list \<Rightarrow> Listener \<Rightarrow> (bool \<times> Listener) option" where
  "defaultMonitor str env [] l = Some (True, l)"
| "defaultMonitor str env (x # xs) l = do {
     (go, l) \<leftarrow> monitor_round str env x l;
     if go then defaultMonitor str env xs l else Some (False, l) }"

fun listener_packets :: "(addr \<Rightarrow> string) \<Rightarrow> env \<Rightarrow> (byte list \<times> addr) list \<Rightarrow> Listener \<Rightarrow> Listener option" where
  "listener_packets str env [] l = Some l"
| "listener_packets str env ((data, a) # ms) l = do {
     l \<leftarrow> listener_packetInput env data (str a) l;
     listener_packets str env ms l }"

fun monitor :: "(addr \<Rightarrow> string) \<Rightarrow> env \<Rightarrow> batch list \<Rightarrow> Listener \<Rightarrow> (bool \<times> Listener) option" where
  "monitor str env [] l = Some (True, l)"
| "monitor str env (BatchFailed # bs) l = Some (False, listener_notifyReadError l)"
| "monitor str env (Batch ms # bs) l = do {
     l \<leftarrow> listener_packets str env ms l;
     monitor str env bs l }"

definition listener_pushedPacket :: "(addr \<Rightarrow> string) \<Rightarrow> env \<Rightarrow> received \<Rightarrow> Listener \<Rightarrow> Listener option" where
  "listener_pushedPacket str env rcv l =
     (case rcv of
        Failed \<Rightarrow> Some (listener_notifyReadError l)
      | Packet data a \<Rightarrow> listener_packetInput env data (str a) l)"

section \<open>Batches\<close>

fun unbatch :: "batch \<Rightarrow> received list" where
  "unbatch (Batch ms) = map (\<lambda>(data, a). Packet data a) ms"
| "unbatch BatchFailed = [Failed]"

fun batch_fits :: "batch \<Rightarrow> bool" where
  "batch_fits (Batch ms) \<longleftrightarrow> ms \<noteq> [] \<and> (\<forall>(data, a)\<in>set ms. length data \<le> maxPacketSize)"
| "batch_fits BatchFailed \<longleftrightarrow> True"

lemma take_packet_wf:
  assumes "sess_wf env s" "env_ok env" "length data \<le> maxPacketSize"
  shows "\<exists>v' s'. take_packet str env data a v s = Some (v', s') \<and> sess_wf env s' \<and> s_die s' = s_die s"
proof -
  obtain s' where s': "packetInput env data s = Some s'" "sess_wf env s'" using packetInput_wf [OF assms] by blast
  have "s_die s' = s_die s" using packetInput_tells [OF s'(1)] by blast
  then show ?thesis using s' assms(1) by (auto simp: take_packet_def split: addr.splits)
qed

lemma take_packets_rounds:
  assumes "sess_wf env s" "env_ok env" "\<forall>(data, a)\<in>set ms. length data \<le> maxPacketSize" "\<not> s_die s"
  shows "\<exists>v' s'. take_packets str env ms v s = Some (v', s') \<and> sess_wf env s' \<and> \<not> s_die s' \<and>
    defaultReadLoop str env (unbatch (Batch ms) @ xs) v s = defaultReadLoop str env xs v' s'"
  using assms(1,3,4)
proof (induction ms arbitrary: v s)
  case (Cons m ms)
  obtain data a where m: "m = (data, a)" by fastforce
  obtain v1 s1 where 1: "take_packet str env data a v s = Some (v1, s1)" "sess_wf env s1" "s_die s1 = s_die s"
    using take_packet_wf [OF Cons.prems(1) assms(2), of data str a v] Cons.prems(2) m by auto
  then show ?case using Cons.IH [of s1 v1] Cons.prems(2,3) by (simp add: m read_round_def)
qed simp

lemma readLoop_rounds:
  assumes "sess_wf env s" "env_ok env" "\<forall>b\<in>set bs. batch_fits b"
  shows "\<exists>y. readLoop str env bs v s = Some y \<and> defaultReadLoop str env (concat (map unbatch bs)) v s = Some y"
  using assms(1,3)
proof (induction bs arbitrary: v s)
  case (Cons b bs)
  show ?case
  proof (cases b)
    case BatchFailed
    then show ?thesis by (simp add: batch_round_def read_round_def ex_bool_eq)
  next
    case (Batch ms)
    then have ms: "ms \<noteq> []" "\<forall>(data, a)\<in>set ms. length data \<le> maxPacketSize" using Cons.prems(2) by auto
    show ?thesis
    proof (cases "s_die s")
      case True
      obtain data a ms' where "ms = (data, a) # ms'" using ms(1) by (metis list.exhaust surj_pair)
      then show ?thesis using Batch True by (simp add: batch_round_def read_round_def ex_bool_eq)
    next
      case False
      obtain v' s' where r: "take_packets str env ms v s = Some (v', s')" "sess_wf env s'"
          "defaultReadLoop str env (unbatch (Batch ms) @ concat (map unbatch bs)) v s = defaultReadLoop str env (concat (map unbatch bs)) v' s'"
        using take_packets_rounds [OF Cons.prems(1) assms(2) ms(2) False] by blast
      then show ?thesis using Cons.IH [OF r(2)] Cons.prems(2) Batch False by (simp add: batch_round_def del: unbatch.simps)
    qed
  qed
qed (simp add: ex_bool_eq)

lemma listener_packets_rounds:
  assumes "listener_wf env l" "env_ok env" "\<forall>(data, a)\<in>set ms. length data \<le> maxPacketSize"
  shows "\<exists>l'. listener_packets str env ms l = Some l' \<and> listener_wf env l' \<and>
    defaultMonitor str env (unbatch (Batch ms) @ xs) l = defaultMonitor str env xs l'"
  using assms(1,3)
proof (induction ms arbitrary: l)
  case (Cons m ms)
  obtain data a where m: "m = (data, a)" by fastforce
  obtain l1 where 1: "listener_packetInput env data (str a) l = Some l1" "listener_wf env l1"
    using listener_packetInput_wf [OF Cons.prems(1) assms(2), of data "str a"] Cons.prems(2) m by auto
  then show ?case using Cons.IH [of l1] Cons.prems(2) by (simp add: m monitor_round_def)
qed simp

lemma monitor_rounds:
  assumes "listener_wf env l" "env_ok env" "\<forall>b\<in>set bs. batch_fits b"
  shows "\<exists>y. monitor str env bs l = Some y \<and> defaultMonitor str env (concat (map unbatch bs)) l = Some y"
  using assms(1,3)
proof (induction bs arbitrary: l)
  case (Cons b bs)
  show ?case
  proof (cases b)
    case BatchFailed
    then show ?thesis by (simp add: monitor_round_def ex_bool_eq)
  next
    case (Batch ms)
    then have ms: "\<forall>(data, a)\<in>set ms. length data \<le> maxPacketSize" using Cons.prems(2) by auto
    obtain l' where r: "listener_packets str env ms l = Some l'" "listener_wf env l'"
        "defaultMonitor str env (unbatch (Batch ms) @ concat (map unbatch bs)) l = defaultMonitor str env (concat (map unbatch bs)) l'"
      using listener_packets_rounds [OF Cons.prems(1) assms(2) ms] by blast
    then show ?thesis using Cons.IH [OF r(2)] Cons.prems(2) Batch by (simp del: unbatch.simps)
  qed
qed (simp add: ex_bool_eq)

text \<open>The callback of a listener on a pushing conn, packet by packet.\<close>

lemma pushed_is_monitored: "map_option snd (monitor_round str env rcv l) = listener_pushedPacket str env rcv l"
  by (cases rcv) (simp_all add: monitor_round_def listener_pushedPacket_def option.map_comp comp_def option.map_ident)

text \<open>C38. Reading in batches is reading one by one. However the packets of a socket fall into batches, the loops that use
  \<^verbatim>\<open>ReadBatch\<close> on Linux leave a client session, with its pinned peer, and a listener, with all its sessions, exactly as
  the portable loops do that read one packet at a time; none panics. \<^verbatim>\<open>ReadBatch\<close> returns a packet at least, and
  none longer than its buffer.\<close>

theorem read_batches_agree:
  assumes "sess_wf env s" "listener_wf env l" "env_ok env" "\<forall>b\<in>set bs. batch_fits b"
  shows "(\<exists>y. readLoop str env bs v s = Some y \<and> defaultReadLoop str env (concat (map unbatch bs)) v s = Some y) \<and>
    (\<exists>y. monitor str env bs l = Some y \<and> defaultMonitor str env (concat (map unbatch bs)) l = Some y)"
  using readLoop_rounds [OF assms(1,3,4)] monitor_rounds [OF assms(2,3,4)] by blast

theorem read_batches_agree_witness:
  "\<exists>s y. newUDPSession demo_env 7 2 1 False demo_block newSnmp = Some s \<and>
    readLoop (\<lambda>_. []) demo_env
      [Batch [(replicate 60 1, demo_addr [10, 0, 0, 1]), (replicate 60 2, demo_addr [10, 0, 0, 2])], BatchFailed]
      (read_start (\<lambda>_. []) None) s = Some y \<and>
    defaultReadLoop (\<lambda>_. []) demo_env
      [Packet (replicate 60 1) (demo_addr [10, 0, 0, 1]), Packet (replicate 60 2) (demo_addr [10, 0, 0, 2]), Failed]
      (read_start (\<lambda>_. []) None) s = Some y"
proof -
  obtain s where s: "newUDPSession demo_env 7 2 1 False demo_block newSnmp = Some s" "sess_wf demo_env s"
    by (rule demo_session)
  let ?bs = "[Batch [(replicate 60 1, demo_addr [10, 0, 0, 1]), (replicate 60 2, demo_addr [10, 0, 0, 2])], BatchFailed]"
  have f: "\<forall>b\<in>set ?bs. batch_fits b" by (simp add: maxPacketSize_def)
  have "unbatch (hd ?bs) = [Packet (replicate 60 1) (demo_addr [10, 0, 0, 1]), Packet (replicate 60 2) (demo_addr [10, 0, 0, 2])]"
    by simp
  then show ?thesis
    using read_batches_agree [OF s(2) serveConn_wf [OF demo_listener] demo_env_ok f, of "\<lambda>_. []" "read_start (\<lambda>_. []) None"] s(1)
    by (simp del: readLoop.simps defaultReadLoop.simps)
qed

end
