(* ===== verification/Listener_Life.thy ===== *)
theory Listener_Life
  imports Listener
begin

text \<open>
  The life of a listener and of its sessions. The address map holds exactly the sessions that are not closed, at most
  one per address; the receiver of a pushing conn is installed as long as the listener or one of its sessions lives;
  the socket is closed with the listener if the listener owns it; a socket error reaches every live session.
\<close>

section \<open>Invariant\<close>

definition life :: "Listener \<Rightarrow> nat \<rightharpoonup> string \<times> bool" where
  "life l i = map_option (\<lambda>(r, s). (r, s_die s)) (l_store l i)"

text \<open>Registered means not closed.\<close>

definition registry :: "(nat \<rightharpoonup> string \<times> bool) \<Rightarrow> (string \<rightharpoonup> nat) \<Rightarrow> bool" where
  "registry L S \<longleftrightarrow>
     (\<forall>i r d. L i = Some (r, d) \<longrightarrow> (S r = Some i \<longleftrightarrow> \<not> d)) \<and> (\<forall>a i. S a = Some i \<longrightarrow> (\<exists>d. L i = Some (a, d)))"

lemma registryD:
  assumes "registry L S"
  shows "L i = Some (r, d) \<Longrightarrow> S r = Some i \<longleftrightarrow> \<not> d" and "S a = Some i \<Longrightarrow> \<exists>d. L i = Some (a, d)"
  using assms by (simp_all add: registry_def)

lemma registry_open:
  assumes R: "registry L S" and i: "L i = None" and a: "S a = None"
  shows "registry (L(i \<mapsto> (a, False))) (S(a \<mapsto> i))"
proof -
  have n: "S b \<noteq> Some i" for b using registryD(2) [OF R, of b i] i by auto
  have "d" if "L j = Some (a, d)" for j d using registryD(1) [OF R that] a by simp
  then show ?thesis using R n i a unfolding registry_def by (simp add: fun_upd_apply) metis
qed

lemma registry_dead:
  assumes R: "registry L S" and i: "L i = None"
  shows "registry (L(i \<mapsto> (a, True))) S"
proof -
  have "S b \<noteq> Some i" for b using registryD(2) [OF R, of b i] i by auto
  then show ?thesis using R unfolding registry_def by (simp add: fun_upd_apply)
qed

lemma registry_close:
  assumes R: "registry L S" and r: "S r = Some i"
  shows "registry (L(i \<mapsto> (r, True))) (S(r := None))"
proof -
  obtain d where d: "L i = Some (r, d)" using registryD(2) [OF R r] by blast
  have "\<exists>e. ((L(i \<mapsto> (r, True))) j = Some (a, e))" if "(S(r := None)) a = Some j" for a j
    using that registryD(2) [OF R, of a j] d by (cases "a = r"; cases "j = i") auto
  moreover have "(S(r := None)) a = Some j \<longleftrightarrow> \<not> e" if "(L(i \<mapsto> (r, True))) j = Some (a, e)" for a j e
  proof (cases "j = i")
    case True
    then show ?thesis using that by simp
  next
    case False
    then have "S a = Some j \<longleftrightarrow> \<not> e" using that registryD(1) [OF R, of j a e] by simp
    then show ?thesis using r False by auto
  qed
  ultimately show ?thesis unfolding registry_def by blast
qed

definition listener_live :: "Listener \<Rightarrow> bool" where
  "listener_live l \<longleftrightarrow> registry (life l) (l_sessions l) \<and>
     (l_receiver l \<longleftrightarrow> l_pusher l \<and> \<not> (l_die l \<and> l_sessions l = Map.empty)) \<and>
     (l_connClosed l \<longleftrightarrow> l_die l \<and> l_ownConn l)"

lemma life_store: "l_store l i = Some (r, s) \<Longrightarrow> life l i = Some (r, s_die s)"
  by (simp add: life_def)

lemma live_registry: "listener_live l \<Longrightarrow> registry (life l) (l_sessions l)"
  by (simp add: listener_live_def)

lemma live_registered: "listener_live l \<Longrightarrow> l_store l i = Some (r, s) \<Longrightarrow> l_sessions l r = Some i \<longleftrightarrow> \<not> s_die s"
  using registryD(1) [OF live_registry] life_store by blast

lemma wf_registered: "listener_wf env l \<Longrightarrow> l_sessions l a = Some i \<Longrightarrow> \<exists>s. l_store l i = Some (a, s)"
  by (simp add: listener_wf_def)

lemma listener_live_cong:
  assumes "listener_live l" "life l' = life l" "l_sessions l' = l_sessions l" "l_receiver l' = l_receiver l"
    "l_pusher l' = l_pusher l" "l_die l' = l_die l" "l_connClosed l' = l_connClosed l" "l_ownConn l' = l_ownConn l"
  shows "listener_live l'"
  using assms by (simp add: listener_live_def)

lemma store_update_live:
  assumes "listener_live l" "l_store l i = Some (r, s)" "s_die s' = s_die s"
  shows "listener_live (l\<lparr>l_store := (l_store l)(i \<mapsto> (r, s'))\<rparr>)"
  by (rule listener_live_cong [OF assms(1)]) (use assms(2,3) in \<open>auto simp: life_def fun_eq_iff\<close>)

lemma feed_ref_live:
  assumes L: "listener_live l" and F: "feed_ref env i data l = Some l'"
  shows "listener_live l'"
proof -
  obtain r s s' where s: "l_store l i = Some (r, s)" "kcpInput env data s = Some s'" "l' = l\<lparr>l_store := (l_store l)(i \<mapsto> (r, s'))\<rparr>"
    using F by (auto simp: feed_ref_def bind_eq_Some_conv)
  then show ?thesis using store_update_live [OF L s(1)] kcpInput_tells [OF s(2)] by simp
qed

lemma release_live:
  assumes "listener_live (l\<lparr>l_receiver := (l_pusher l \<and> \<not> (l_die l \<and> l_sessions l = Map.empty))\<rparr>)"
    "l_receiver l \<longleftrightarrow> l_pusher l \<and> (l_receiver l \<or> \<not> (l_die l \<and> l_sessions l = Map.empty))"
    "l_pusher l \<and> \<not> (l_die l \<and> l_sessions l = Map.empty) \<longrightarrow> l_receiver l"
  shows "listener_live (release l)"
  by (rule listener_live_cong [OF assms(1)])
     (use assms(2,3) in \<open>auto simp: release_def releasePusherLocked_def life_def fun_eq_iff\<close>)

text \<open>\<^verbatim>\<open>Close\<close> of a session: it is unregistered, and the receiver goes with the last session of a closed listener.\<close>

lemma close_ref_live:
  assumes L: "listener_live l" and wf: "listener_wf env l" and env: "env_ok env" and C: "close_ref env i l = Some l'"
    and i: "l_store l i = Some (r, s)"
  shows "listener_live l' \<and> (l_sessions l r = Some i \<longrightarrow> l_sessions l' r = None) \<and> (l_sessions l r \<noteq> Some i \<longrightarrow> l_sessions l' = l_sessions l)"
proof -
  have "sess_wf env s" using wf i by (auto simp: listener_wf_def)
  then obtain b s' where c: "sess_Close env s = Some (b, s')" "s_die s'" using sess_Close_wf [OF _ env] by blast
  have b: "b \<longleftrightarrow> \<not> s_die s" "\<not> b \<Longrightarrow> s' = s"
    using c(1) by (auto simp: sess_Close_def bind_eq_Some_conv Let_def split: if_splits)
  have reg: "l_sessions l r = Some i \<longleftrightarrow> \<not> s_die s" using live_registered [OF L i] .
  show ?thesis
  proof (cases b)
    case True
    let ?m = "l\<lparr>l_store := (l_store l)(i \<mapsto> (r, s')), l_sessions := (l_sessions l)(r := None)\<rparr>"
    have l': "l' = release ?m" using C i c(1) True b(1) reg by (simp add: close_ref_def closeSession_def Let_def)
    have lf: "life ?m = (life l)(i \<mapsto> (r, True))" using c(2) by (auto simp: life_def fun_eq_iff)
    have r: "l_sessions l r = Some i" using reg b(1) True by simp
    then have ne: "l_sessions l \<noteq> Map.empty" by auto
    have "life (?m\<lparr>l_receiver := x\<rparr>) = (life l)(i \<mapsto> (r, True))" for x using lf by (simp add: life_def fun_eq_iff)
    then have "listener_live (?m\<lparr>l_receiver := (l_pusher ?m \<and> \<not> (l_die ?m \<and> l_sessions ?m = Map.empty))\<rparr>)"
      using L registry_close [OF live_registry [OF L] r] by (simp add: listener_live_def)
    then have "listener_live (release ?m)" by (rule release_live) (use L ne in \<open>auto simp: listener_live_def\<close>)
    then show ?thesis using l' r by simp
  next
    case False
    then have "l' = l\<lparr>l_store := (l_store l)(i \<mapsto> (r, s))\<rparr>" using C i c(1) b(2) by (simp add: close_ref_def Let_def)
    then show ?thesis using store_update_live [OF L i] reg b(1) False by auto
  qed
qed

section \<open>Every operation\<close>

text \<open>A session opened under an address that has none; if the listener is closed it is closed at once.\<close>

lemma open_session_live:
  assumes L: "listener_live l" and wf: "listener_wf env l" and env: "env_ok env"
    and len: "12 \<le> length data" "length data \<le> maxPacketSize" and free: "l_sessions l addr = None"
    and O: "open_session env c data addr l = Some l'"
  shows "listener_live l'"
proof (cases "length (l_accepts l) \<ge> acceptBacklog")
  case True
  then show ?thesis using O L by (simp add: open_session_def)
next
  case False
  obtain s0 s where s: "newUDPSession env c (l_dataShards l) (l_parityShards l) True (l_block l) newSnmp = Some s0"
      "kcpInput env data s0 = Some s" "sess_wf env s"
    using new_session_wf [OF wf env len] by blast
  have "\<not> s_die s0"
    using s(1) by (auto simp: newUDPSession_def sess_SetMtu_eq bind_eq_Some_conv Let_def split: if_splits)
  then have alive: "\<not> s_die s" using kcpInput_tells [OF s(2)] by simp
  let ?i = "l_next l" let ?l = "l\<lparr>l_store := (l_store l)(?i \<mapsto> (addr, s)), l_next := Suc ?i\<rparr>"
  have fresh: "l_store l ?i = None" using wf unfolding listener_wf_def by (metis less_irrefl not_None_eq surj_pair)
  have lf: "life ?l = (life l)(?i \<mapsto> (addr, False))" using alive by (auto simp: life_def fun_eq_iff)
  have new: "life l ?i = None" using fresh by (simp add: life_def)
  show ?thesis
  proof (cases "l_die l")
    case True
    then have C: "close_ref env ?i ?l = Some l'" using O False s(1,2) by (simp add: open_session_def Let_def)
    obtain b s' where c: "sess_Close env s = Some (b, s')" "s_die s'" using sess_Close_wf [OF s(3) env] by blast
    then have "l' = ?l\<lparr>l_store := (l_store ?l)(?i \<mapsto> (addr, s'))\<rparr>"
      using C free by (auto simp: close_ref_def closeSession_def Let_def)
    then have "life l' = (life l)(?i \<mapsto> (addr, True))" "l_sessions l' = l_sessions l" "l_receiver l' = l_receiver l" "l_pusher l' = l_pusher l"
        "l_die l' = l_die l" "l_connClosed l' = l_connClosed l" "l_ownConn l' = l_ownConn l"
      using c(2) by (auto simp: life_def fun_eq_iff)
    then show ?thesis using L registry_dead [OF live_registry [OF L] new] by (simp add: listener_live_def)
  next
    case notdie: False
    then have l': "l' = ?l\<lparr>l_sessions := (l_sessions l)(addr \<mapsto> ?i), l_accepts := l_accepts l @ [?i]\<rparr>"
      using O False s(1,2) by (simp add: open_session_def Let_def)
    have lf': "life l' = (life l)(?i \<mapsto> (addr, False))" unfolding l' using lf by (simp add: life_def fun_eq_iff)
    show ?thesis using L notdie registry_open [OF live_registry [OF L] new free] unfolding listener_live_def lf' by (simp add: l')
  qed
qed

lemma dispatch_live:
  assumes L: "listener_live l" and wf: "listener_wf env l" and env: "env_ok env"
    and len: "12 \<le> length data" "length data \<le> maxPacketSize" and D: "dispatch env data addr l = Some l'"
  shows "listener_live l'"
proof -
  obtain ids where ids: "packet_id data = Some ids" using packet_id_total [OF len(1)] by auto
  show ?thesis
  proof (cases "l_sessions l addr")
    case None
    then show ?thesis using D ids L open_session_live [OF L wf env len] by (cases ids) (auto simp: dispatch_def)
  next
    case (Some i)
    then obtain s where s: "l_store l i = Some (addr, s)" using wf_registered [OF wf] by blast
    have "listener_live l'" if c: "close_ref env i l = Some l1" "open_session env c data addr l1 = Some l'" for l1 c
    proof -
      have "listener_live l1" "l_sessions l1 addr = None" using close_ref_live [OF L wf env c(1) s] Some by simp_all
      moreover have "listener_wf env l1" using close_ref_wf [OF wf env s] c(1) by auto
      ultimately show ?thesis using open_session_live [OF _ _ env len _ c(2)] by blast
    qed
    then show ?thesis using D ids Some s L feed_ref_live [OF L]
      by (cases ids) (auto simp: dispatch_def bind_eq_Some_conv split: if_splits)
  qed
qed

lemma listener_packetInput_live:
  assumes L: "listener_live l" and wf: "listener_wf env l" and env: "env_ok env" and len: "length data \<le> maxPacketSize"
    and P: "listener_packetInput env data addr l = Some l'"
  shows "listener_live l'"
proof -
  have "block_wf env (l_block l)" using wf by (simp add: listener_wf_def listener_config_def)
  from open_packet_wf [OF this len] obtain r where r: "open_packet env (l_block l) data = Some r"
    "\<forall>d. r = Opened d \<longrightarrow> length d \<le> maxPacketSize" by blast
  have "listener_live (l\<lparr>l_snmp := f\<rparr>)" for f by (rule listener_live_cong [OF L]) (simp_all add: life_def fun_eq_iff)
  then show ?thesis using P r L dispatch_live [OF L wf env, of _ addr l']
    by (cases r) (auto simp: listener_packetInput_def sess_consts not_less split: if_splits)
qed

lemma session_op_live:
  assumes L: "listener_live l" and wf: "listener_wf env l" and env: "env_ok env" and S: "session_op env i x l = Some l'"
  shows "listener_live l'"
proof (cases "l_store l i")
  case (Some v)
  then obtain r s where s: "l_store l i = Some (r, s)" by (cases v) simp
  then have w: "sess_wf env s" using wf unfolding listener_wf_def by blast
  show ?thesis
  proof (cases "x = S_Close")
    case True
    then show ?thesis using S s close_ref_live [OF L wf env _ s] by (simp add: session_op_def)
  next
    case False
    then obtain s' where "sess_exec env x s = Some s'" "l' = l\<lparr>l_store := (l_store l)(i \<mapsto> (r, s'))\<rparr>"
      using S s by (auto simp: session_op_def)
    then show ?thesis using store_update_live [OF L s] sess_exec_life [OF w env _ False] by simp
  qed
qed (use S L in \<open>simp add: session_op_def\<close>)

lemma notifyReadError_die [simp]: "s_die (notifyReadError s) = s_die s"
  by (simp add: notifyReadError_def callReadNotify_def)

lemma listener_notifyReadError_live: "listener_live l \<Longrightarrow> listener_live (listener_notifyReadError l)"
  by (erule listener_live_cong)
     (auto simp: listener_notifyReadError_def life_def fun_eq_iff option.map_comp intro!: option.map_cong)

lemma listener_exec_live:
  assumes L: "listener_live l" and wf: "listener_wf env l" and env: "env_ok env" and x: "l_deliverable x"
    and E: "listener_exec env x l = Some l'"
  shows "listener_live l'"
proof (cases x)
  case (L_packet data addr)
  then show ?thesis using E x listener_packetInput_live [OF L wf env] by simp
next
  case (L_session i y)
  then show ?thesis using E session_op_live [OF L wf env] by simp
next
  case (L_Accept k)
  have "listener_live m" if "AcceptKCP k l = Some (r, m)" for r m
    by (rule listener_live_cong [OF L]) (use that in \<open>cases k; auto simp: life_def fun_eq_iff split: list.splits if_splits\<close>)+
  then show ?thesis using E L_Accept L by (auto split: option.splits)
next
  case L_Close
  show ?thesis
  proof (cases "l_die l")
    case False
    let ?m = "l\<lparr>l_die := True\<rparr>"
    have l': "l' = (if l_ownConn l then (release ?m)\<lparr>l_connClosed := True\<rparr> else release ?m)"
      using E L_Close False by (auto simp: listener_Close_def Let_def)
    have "life l' = life l" by (auto simp: l' life_def fun_eq_iff)
    moreover have "l_sessions l' = l_sessions l" "l_pusher l' = l_pusher l" "l_die l'" "l_ownConn l' = l_ownConn l"
        "l_receiver l' \<longleftrightarrow> l_receiver l \<and> \<not> (l_sessions l = Map.empty \<and> l_pusher l)" "l_connClosed l' \<longleftrightarrow> l_connClosed l \<or> l_ownConn l"
      by (simp_all add: l' release_def releasePusherLocked_def)
    ultimately show ?thesis using L False unfolding listener_live_def by auto
  qed (use E L_Close L in \<open>simp add: listener_Close_def\<close>)
next
  case (L_SetReadDeadline b)
  show ?thesis by (rule listener_live_cong [OF L]) (use E L_SetReadDeadline in \<open>auto simp: listener_SetReadDeadline_def life_def fun_eq_iff\<close>)
next
  case L_expires
  show ?thesis by (rule listener_live_cong [OF L]) (use E L_expires in \<open>auto simp: life_def fun_eq_iff\<close>)
next
  case L_readError
  then show ?thesis using E listener_notifyReadError_live [OF L] by simp
qed

lemma serveConn_live: "listener_live (serveConn block d p own pu)"
  by (simp add: listener_live_def registry_def serveConn_def life_def)

lemma listener_reach_live:
  assumes "listener_reach env l0 l" "listener_live l0" "listener_wf env l0" "env_ok env"
  shows "listener_live l"
  using assms
proof (induction rule: listener_reach.induct)
  case (listener_step l x l')
  then show ?case using listener_exec_live [of l env x l'] listener_reach_wf by blast
qed

text \<open>A listener with one session, opened by a segment of conversation 7.\<close>

definition demo_frame :: "byte list" where
  "demo_frame = segment_encode (zero_segment\<lparr>seg_conv := 7, seg_cmd := IKCP_CMD_PUSH\<rparr>)"

lemma demo_config: "listener_config demo_env (serveConn None 0 0 own pu)"
  by (simp add: listener_config_def serveConn_def cryptHeader_def cryptTail_def)

lemma demo_opened:
  obtains l s where "listener_packetInput demo_env demo_frame ''a'' (serveConn None 0 0 own pu) = Some l"
    "l_store l 0 = Some (''a'', s)" "\<not> s_die s" "\<not> l_readError l" "l_pusher l = pu" "l_ownConn l = own"
proof -
  let ?l = "serveConn None 0 0 own pu"
  have w: "listener_wf demo_env ?l" by (rule serveConn_wf [OF demo_config])
  have len: "12 \<le> length demo_frame" "length demo_frame \<le> maxPacketSize" by (simp_all add: demo_frame_def kcp_consts maxPacketSize_def)
  have id: "packet_id demo_frame = Some (Conv 7 0)" by code_simp
  obtain s0 s where s: "newUDPSession demo_env 7 0 0 True None newSnmp = Some s0" "kcpInput demo_env demo_frame s0 = Some s"
    using new_session_wf [OF w demo_env_ok len, of 7] by (auto simp: serveConn_def)
  have "\<not> s_die s0" using s(1) by (auto simp: newUDPSession_def sess_SetMtu_eq bind_eq_Some_conv Let_def split: if_splits)
  then have alive: "\<not> s_die s" using kcpInput_tells [OF s(2)] by simp
  let ?m = "?l\<lparr>l_store := [0 \<mapsto> (''a'', s)], l_next := Suc 0, l_sessions := [''a'' \<mapsto> 0], l_accepts := [0]\<rparr>"
  have "dispatch demo_env demo_frame ''a'' ?l = Some ?m"
    using id s by (simp add: dispatch_def open_session_def serveConn_def acceptBacklog_def Let_def)
  then have P: "listener_packetInput demo_env demo_frame ''a'' ?l = Some ?m"
    using len by (simp add: listener_packetInput_def serveConn_def open_packet_def sess_consts)
  show thesis by (rule that [OF P, of s]) (simp_all add: alive, simp_all add: serveConn_def)
qed

section \<open>Properties\<close>

text \<open>C27. The life of a listener's sessions and socket. After any sequence of datagrams, accepts, closes, deadlines, socket
  errors and operations on sessions, the address map holds exactly the sessions that are not closed, each under its own
  address, so no address has two live sessions; a pushing conn has the listener's receiver as long as the listener is
  open or has a live session, and no longer; the socket is closed once the listener is, if the listener owns it, and
  never otherwise.\<close>

theorem listener_lifecycle:
  assumes "env_ok env" "listener_config env (serveConn block d p own pu)" "listener_reach env (serveConn block d p own pu) l"
  shows "(\<forall>i r s. l_store l i = Some (r, s) \<longrightarrow> (l_sessions l r = Some i \<longleftrightarrow> \<not> s_die s)) \<and>
    (\<forall>a i. l_sessions l a = Some i \<longrightarrow> (\<exists>s. l_store l i = Some (a, s))) \<and>
    (l_receiver l \<longleftrightarrow> l_pusher l \<and> (\<not> l_die l \<or> (\<exists>i r s. l_store l i = Some (r, s) \<and> \<not> s_die s))) \<and>
    (l_connClosed l \<longleftrightarrow> l_die l \<and> l_ownConn l)"
proof -
  note w = serveConn_wf [OF assms(2)]
  have L: "listener_live l" using listener_reach_live [OF assms(3) serveConn_live w assms(1)] .
  have W: "listener_wf env l" using listener_reach_wf [OF assms(3) w assms(1)] .
  have iff: "l_sessions l r = Some i \<longleftrightarrow> \<not> s_die s" if "l_store l i = Some (r, s)" for i r s
    using live_registered [OF L that] .
  have "l_sessions l \<noteq> Map.empty \<longleftrightarrow> (\<exists>i r s. l_store l i = Some (r, s) \<and> \<not> s_die s)"
  proof
    assume "l_sessions l \<noteq> Map.empty"
    then obtain a i where a: "l_sessions l a = Some i" by (meson not_None_eq ext)
    then obtain s where "l_store l i = Some (a, s)" using wf_registered [OF W] by blast
    then show "\<exists>i r s. l_store l i = Some (r, s) \<and> \<not> s_die s" using iff a by blast
  next
    assume "\<exists>i r s. l_store l i = Some (r, s) \<and> \<not> s_die s"
    then obtain i r s where "l_sessions l r = Some i" using iff by blast
    then show "l_sessions l \<noteq> Map.empty" by auto
  qed
  then show ?thesis using L wf_registered [OF W] iff unfolding listener_live_def by blast
qed

theorem listener_lifecycle_witness:
  "\<exists>l l'. listener_packetInput demo_env demo_frame ''a'' (serveConn None 0 0 True True) = Some l \<and>
    listener_exec demo_env L_Close l = Some l' \<and> l_receiver l' \<and> l_connClosed l'"
proof -
  obtain l s where l: "listener_packetInput demo_env demo_frame ''a'' (serveConn None 0 0 True True) = Some l"
      "l_store l 0 = Some (''a'', s)" "\<not> s_die s" "\<not> l_readError l" "l_pusher l" "l_ownConn l"
    by (rule demo_opened [of True True]) simp
  obtain l' where l': "listener_exec demo_env L_Close l = Some l'" by simp
  have len: "l_deliverable (L_packet demo_frame ''a'')" by (simp add: demo_frame_def kcp_consts maxPacketSize_def)
  have "listener_reach demo_env (serveConn None 0 0 True True) l"
    using listener_step [OF listener_start len] l(1) by simp
  then have r: "listener_reach demo_env (serveConn None 0 0 True True) l'" using listener_step [OF _ _ l'] by simp
  have "l_die l'" "l_store l' = l_store l" "l_pusher l'" "l_ownConn l'"
    using l' l(5,6) by (auto simp: listener_Close_def Let_def)
  then show ?thesis using listener_lifecycle [OF demo_env_ok demo_config r] l(1-3) l' by auto
qed

text \<open>C28. A socket error reaches everyone. When reading the listener's socket fails, every session that is not closed
  learns of it and its callback is called: a read that finds no data returns the error from then on, and so can
  \<^verbatim>\<open>AcceptKCP\<close>. Closed sessions are left alone.\<close>

theorem read_error_reaches_sessions:
  assumes "env_ok env" "listener_config env (serveConn block d p own pu)" "listener_reach env (serveConn block d p own pu) l"
    and "\<not> l_readError l" "l_store l i = Some (r, s)"
  shows "AcceptKCP Accept_error (listener_notifyReadError l) = Some (Inl errSocket, listener_notifyReadError l) \<and>
    (s_die s \<longrightarrow> l_store (listener_notifyReadError l) i = Some (r, s)) \<and>
    (\<not> s_die s \<longrightarrow> (\<exists>s'. l_store (listener_notifyReadError l) i = Some (r, s') \<and> s_readError s' \<and>
       (\<forall>n k s''. sess_read n s' = Some (k, [], False, s'') \<longrightarrow> TryRead pick n s' = Some (Inl errSocket, s''))))"
proof -
  have L: "listener_live l" using listener_reach_live [OF assms(3) serveConn_live serveConn_wf [OF assms(2)] assms(1)] .
  have iff: "l_sessions l r = Some i \<longleftrightarrow> \<not> s_die s" using live_registered [OF L assms(5)] .
  have st: "l_store (listener_notifyReadError l) i = Some (r, if s_die s then s else notifyReadError s)"
    using assms(4,5) iff by (simp add: listener_notifyReadError_def)
  have W: "sess_wf env s" using listener_reach_wf [OF assms(3) serveConn_wf [OF assms(2)] assms(1)] assms(5)
    unfolding listener_wf_def by blast
  have e: "s_readError (notifyReadError s)" by (simp add: notifyReadError_def callReadNotify_def)
  have "TryRead pick n (notifyReadError s) = Some (Inl errSocket, s'')"
    if "sess_read n (notifyReadError s) = Some (k, [], False, s'')" "\<not> s_die s" for n k s''
  proof -
    have w: "sess_wf env (notifyReadError s)" using sess_exec_wf [OF W assms(1), of S_readError] by simp
    have "readLocked n (notifyReadError s) = Some (k, [], False, s'')"
      using that(1) by (auto simp: sess_read_def bind_eq_Some_conv split: if_splits)
    then have "s'' = notifyReadError s" using readLocked_tells [OF w] by blast
    then show ?thesis using that e by (simp add: TryRead_def)
  qed
  moreover have "l_readError (listener_notifyReadError l)" by (simp add: listener_notifyReadError_def)
  ultimately show ?thesis using st e by simp
qed

theorem read_error_reaches_sessions_witness:
  "\<exists>l s'. listener_packetInput demo_env demo_frame ''a'' (serveConn None 0 0 False False) = Some l \<and>
    l_store (listener_notifyReadError l) 0 = Some (''a'', s') \<and> s_readError s'"
proof -
  obtain l s where l: "listener_packetInput demo_env demo_frame ''a'' (serveConn None 0 0 False False) = Some l"
      "l_store l 0 = Some (''a'', s)" "\<not> s_die s" "\<not> l_readError l"
    by (rule demo_opened [of False False]) simp
  have len: "l_deliverable (L_packet demo_frame ''a'')" by (simp add: demo_frame_def kcp_consts maxPacketSize_def)
  have "listener_reach demo_env (serveConn None 0 0 False False) l"
    using listener_step [OF listener_start len] l(1) by simp
  from read_error_reaches_sessions [OF demo_env_ok demo_config this l(4,2)] l(1,3) show ?thesis by blast
qed

end
