(* ===== verification/Endpoints.thy ===== *)
theory Endpoints
  imports Read_Loop Listener_Life
begin

text \<open>
  Opening and closing connections, the end of \<^verbatim>\<open>sess.go\<close> and \<^verbatim>\<open>platform_linux.go\<close>: the functions \<^verbatim>\<open>Dial\<close>, \<^verbatim>\<open>NewConn\<close> and
  \<^verbatim>\<open>Listen\<close> with their errors, a client session together with its packet conn, and the socket options. The package
  \<^verbatim>\<open>net\<close> is a parameter: how names resolve and whether a socket opens. A packet conn is what its type offers: it may push
  packets, be a UDP socket with batch calls, or have setters of its own. The lemmas show who closes which socket.
\<close>

section \<open>Packet conns\<close>

text \<open>The setters return whether they succeeded. \<open>pc_netConn\<close> is \<^verbatim>\<open>SetTOS\<close> and \<^verbatim>\<open>SetTrafficClass\<close> on a conn that is a
  \<^verbatim>\<open>net.Conn\<close>.\<close>

record packet_conn =
  pc_udpConn :: bool
  pc_LocalAddr :: string
  pc_pusher :: bool
  pc_SetReadBuffer :: "(int \<Rightarrow> bool) option"
  pc_SetWriteBuffer :: "(int \<Rightarrow> bool) option"
  pc_SetDSCP :: "(int \<Rightarrow> bool) option"
  pc_netConn :: "((int \<Rightarrow> bool) \<times> (int \<Rightarrow> bool)) option"

record net =
  n_ResolveUDPAddr :: "string \<Rightarrow> UDPAddr option"
  n_ListenUDP :: "string \<Rightarrow> UDPAddr option \<Rightarrow> packet_conn option"

text \<open>\<^verbatim>\<open>net.IP.To4\<close>.\<close>

definition ip_To4 :: "byte list \<Rightarrow> byte list option" where
  "ip_To4 ip =
     (if length ip = 4 then Some ip
      else if length ip = 16 \<and> take 12 ip = v4InV6Prefix then Some (drop 12 ip)
      else None)"

datatype batch_conn = IPv4Conn | IPv6Conn

definition newBatchConn :: "net \<Rightarrow> packet_conn \<Rightarrow> batch_conn option" where
  "newBatchConn net conn =
     (if \<not> pc_udpConn conn then None
      else case n_ResolveUDPAddr net (pc_LocalAddr conn) of
          None \<Rightarrow> None
        | Some a \<Rightarrow> Some (if ip_To4 (ua_IP a) \<noteq> None then IPv4Conn else IPv6Conn))"

section \<open>Client sessions\<close>

text \<open>A session with its conn: the batch connection of \<^verbatim>\<open>initPlatform\<close>, whether the pusher has its receiver, whether a
  goroutine reads the conn, whether the conn was closed.\<close>

record client =
  ep_sess :: UDPSession
  ep_conn :: packet_conn
  ep_ownConn :: bool
  ep_remote :: "addr option"
  ep_platform :: "batch_conn option"
  ep_receiver :: bool
  ep_readLoop :: bool
  ep_connClosed :: bool

definition new_client ::
    "net \<Rightarrow> env \<Rightarrow> u32 \<Rightarrow> int \<Rightarrow> int \<Rightarrow> packet_conn \<Rightarrow> bool \<Rightarrow> addr option \<Rightarrow> BlockCrypt option \<Rightarrow> client option" where
  "new_client net env c dataShards parityShards conn ownConn remote block = do {
     s \<leftarrow> newUDPSession env c dataShards parityShards False block newSnmp;
     Some \<lparr>ep_sess = s, ep_conn = conn, ep_ownConn = ownConn, ep_remote = remote, ep_platform = newBatchConn net conn,
           ep_receiver = pc_pusher conn, ep_readLoop = (\<not> pc_pusher conn), ep_connClosed = False\<rparr> }"

text \<open>\<^verbatim>\<open>UDPSession.Close\<close> of a client: the session, then the receiver, then the socket if it is the session's own. \<open>False\<close> is
  the error of a second call.\<close>

definition client_Close :: "env \<Rightarrow> client \<Rightarrow> (bool \<times> client) option" where
  "client_Close env e = do {
     (first, s) \<leftarrow> sess_Close env (ep_sess e);
     let e = e\<lparr>ep_sess := s\<rparr>;
     if \<not> first then Some (False, e)
     else do {
       let e = (if pc_pusher (ep_conn e) then e\<lparr>ep_receiver := False\<rparr> else e);
       Some (True, if ep_ownConn e then e\<lparr>ep_connClosed := True\<rparr> else e) } }"

datatype dial_error = ErrResolve | ErrListen

definition NewConn4 ::
    "net \<Rightarrow> env \<Rightarrow> u32 \<Rightarrow> addr option \<Rightarrow> BlockCrypt option \<Rightarrow> int \<Rightarrow> int \<Rightarrow> bool \<Rightarrow> packet_conn \<Rightarrow> client option" where
  "NewConn4 net env convid raddr block dataShards parityShards ownConn conn =
     new_client net env convid dataShards parityShards conn ownConn raddr block"

definition NewConn3 ::
    "net \<Rightarrow> env \<Rightarrow> u32 \<Rightarrow> addr option \<Rightarrow> BlockCrypt option \<Rightarrow> int \<Rightarrow> int \<Rightarrow> packet_conn \<Rightarrow> client option" where
  "NewConn3 net env convid raddr block dataShards parityShards conn =
     new_client net env convid dataShards parityShards conn False raddr block"

text \<open>\<open>rnd\<close> are the random bytes of the conversation number.\<close>

definition random_conv :: "byte list \<Rightarrow> u32" where
  "random_conv rnd = (case Uint32 rnd of None \<Rightarrow> 0 | Some c \<Rightarrow> c)"

definition NewConn2 ::
    "net \<Rightarrow> env \<Rightarrow> byte list \<Rightarrow> addr option \<Rightarrow> BlockCrypt option \<Rightarrow> int \<Rightarrow> int \<Rightarrow> packet_conn \<Rightarrow> client option" where
  "NewConn2 net env rnd raddr block dataShards parityShards conn =
     NewConn3 net env (random_conv rnd) raddr block dataShards parityShards conn"

definition NewConn ::
    "net \<Rightarrow> env \<Rightarrow> byte list \<Rightarrow> string \<Rightarrow> BlockCrypt option \<Rightarrow> int \<Rightarrow> int \<Rightarrow> packet_conn \<Rightarrow> (dial_error + client) option" where
  "NewConn net env rnd raddr block dataShards parityShards conn =
     (case n_ResolveUDPAddr net raddr of
        None \<Rightarrow> Some (Inl ErrResolve)
      | Some udpaddr \<Rightarrow> map_option Inr (NewConn2 net env rnd (Some (UDP udpaddr)) block dataShards parityShards conn))"

definition DialWithOptions ::
    "net \<Rightarrow> env \<Rightarrow> byte list \<Rightarrow> string \<Rightarrow> BlockCrypt option \<Rightarrow> int \<Rightarrow> int \<Rightarrow> (dial_error + client) option" where
  "DialWithOptions net env rnd raddr block dataShards parityShards =
     (case n_ResolveUDPAddr net raddr of
        None \<Rightarrow> Some (Inl ErrResolve)
      | Some udpaddr \<Rightarrow>
          let network = (if ip_To4 (ua_IP udpaddr) = None then ''udp'' else ''udp4'')
          in case n_ListenUDP net network None of
               None \<Rightarrow> Some (Inl ErrListen)
             | Some conn \<Rightarrow>
                 map_option Inr (new_client net env (random_conv rnd) dataShards parityShards conn True (Some (UDP udpaddr)) block))"

definition Dial :: "net \<Rightarrow> env \<Rightarrow> byte list \<Rightarrow> string \<Rightarrow> (dial_error + client) option" where
  "Dial net env rnd raddr = DialWithOptions net env rnd raddr None 0 0"

section \<open>Listeners\<close>

definition ServeConn :: "BlockCrypt option \<Rightarrow> int \<Rightarrow> int \<Rightarrow> packet_conn \<Rightarrow> Listener" where
  "ServeConn block dataShards parityShards conn = serveConn block dataShards parityShards False (pc_pusher conn)"

definition ListenWithOptions :: "net \<Rightarrow> string \<Rightarrow> BlockCrypt option \<Rightarrow> int \<Rightarrow> int \<Rightarrow> dial_error + Listener" where
  "ListenWithOptions net laddr block dataShards parityShards =
     (case n_ResolveUDPAddr net laddr of
        None \<Rightarrow> Inl ErrResolve
      | Some udpaddr \<Rightarrow>
          (case n_ListenUDP net ''udp'' (Some udpaddr) of
             None \<Rightarrow> Inl ErrListen
           | Some conn \<Rightarrow> Inr (serveConn block dataShards parityShards True (pc_pusher conn))))"

definition Listen :: "net \<Rightarrow> string \<Rightarrow> dial_error + Listener" where
  "Listen net laddr = ListenWithOptions net laddr None 0 0"

section \<open>Socket options\<close>

text \<open>\<open>None\<close> is success; \<open>connError\<close> is the error of the conn's own setter or of the function given to \<^verbatim>\<open>Control\<close>.\<close>

datatype option_error = errInvalidOperation | errNotOwner | connError

definition from_conn :: "bool \<Rightarrow> option_error option" where
  "from_conn ok = (if ok then None else Some connError)"

definition SetReadBuffer :: "int \<Rightarrow> UDPSession \<Rightarrow> packet_conn \<Rightarrow> option_error option" where
  "SetReadBuffer bytes s conn =
     (if \<not> s_listener s then (case pc_SetReadBuffer conn of Some f \<Rightarrow> from_conn (f bytes) | None \<Rightarrow> Some errInvalidOperation)
      else Some errInvalidOperation)"

definition SetWriteBuffer :: "int \<Rightarrow> UDPSession \<Rightarrow> packet_conn \<Rightarrow> option_error option" where
  "SetWriteBuffer bytes s conn =
     (if \<not> s_listener s then (case pc_SetWriteBuffer conn of Some f \<Rightarrow> from_conn (f bytes) | None \<Rightarrow> Some errInvalidOperation)
      else Some errInvalidOperation)"

text \<open>The 6-bit field is the upper part of the byte; one of the two protocols has to take it.\<close>

definition set_tos :: "int \<Rightarrow> packet_conn \<Rightarrow> option_error option" where
  "set_tos dscp conn =
     (case pc_netConn conn of
        None \<Rightarrow> Some errInvalidOperation
      | Some (SetTOS, SetTrafficClass) \<Rightarrow>
          let val = dscp * 4
          in if SetTOS val \<or> SetTrafficClass val then None else Some errInvalidOperation)"

definition SetDSCP :: "int \<Rightarrow> UDPSession \<Rightarrow> packet_conn \<Rightarrow> option_error option" where
  "SetDSCP dscp s conn =
     (if s_listener s then Some errInvalidOperation
      else case pc_SetDSCP conn of Some f \<Rightarrow> from_conn (f dscp) | None \<Rightarrow> set_tos dscp conn)"

definition listener_SetReadBuffer :: "int \<Rightarrow> packet_conn \<Rightarrow> option_error option" where
  "listener_SetReadBuffer bytes conn =
     (case pc_SetReadBuffer conn of Some f \<Rightarrow> from_conn (f bytes) | None \<Rightarrow> Some errInvalidOperation)"

definition listener_SetWriteBuffer :: "int \<Rightarrow> packet_conn \<Rightarrow> option_error option" where
  "listener_SetWriteBuffer bytes conn =
     (case pc_SetWriteBuffer conn of Some f \<Rightarrow> from_conn (f bytes) | None \<Rightarrow> Some errInvalidOperation)"

definition listener_SetDSCP :: "int \<Rightarrow> packet_conn \<Rightarrow> option_error option" where
  "listener_SetDSCP dscp conn =
     (case pc_SetDSCP conn of Some f \<Rightarrow> from_conn (f dscp) | None \<Rightarrow> set_tos dscp conn)"

definition listener_SetWriteDeadline :: "Listener \<Rightarrow> option_error option" where
  "listener_SetWriteDeadline l = Some errInvalidOperation"

definition Control :: "(packet_conn \<Rightarrow> bool) \<Rightarrow> client \<Rightarrow> option_error option" where
  "Control f e = (if \<not> ep_ownConn e then Some errNotOwner else from_conn (f (ep_conn e)))"

definition listener_Control :: "(packet_conn \<Rightarrow> bool) \<Rightarrow> packet_conn \<Rightarrow> option_error option" where
  "listener_Control f conn = from_conn (f conn)"

section \<open>A client as a state machine\<close>

definition client_exec :: "env \<Rightarrow> sess_op \<Rightarrow> client \<Rightarrow> client option" where
  "client_exec env x e =
     (if x = S_Close then map_option snd (client_Close env e)
      else map_option (\<lambda>s. e\<lparr>ep_sess := s\<rparr>) (sess_exec env x (ep_sess e)))"

inductive client_reach :: "env \<Rightarrow> client \<Rightarrow> client \<Rightarrow> bool" for env e0 where
  client_start: "client_reach env e0 e0"
| client_step: "client_reach env e0 e \<Longrightarrow> deliverable x \<Longrightarrow> client_exec env x e = Some e' \<Longrightarrow> client_reach env e0 e'"

definition client_inv :: "env \<Rightarrow> client \<Rightarrow> client \<Rightarrow> bool" where
  "client_inv env e0 e \<longleftrightarrow> sess_wf env (ep_sess e) \<and> ep_conn e = ep_conn e0 \<and> ep_ownConn e = ep_ownConn e0 \<and>
     (ep_receiver e \<longleftrightarrow> pc_pusher (ep_conn e) \<and> \<not> s_die (ep_sess e)) \<and>
     (ep_connClosed e \<longleftrightarrow> ep_ownConn e \<and> s_die (ep_sess e))"

lemma client_Close_inv:
  assumes inv: "client_inv env e0 e" and env: "env_ok env"
  shows "\<exists>e'. client_Close env e = Some (\<not> s_die (ep_sess e), e') \<and> client_inv env e0 e' \<and> s_die (ep_sess e')"
proof -
  have "sess_wf env (ep_sess e)" using inv by (simp add: client_inv_def)
  then obtain b s where c: "sess_Close env (ep_sess e) = Some (b, s)" "sess_wf env s" "s_die s"
    using sess_Close_wf [OF _ env] by blast
  have b: "b \<longleftrightarrow> \<not> s_die (ep_sess e)" using c(1) by (auto simp: sess_Close_def bind_eq_Some_conv Let_def split: if_splits)
  show ?thesis using inv c b by (auto simp: client_Close_def client_inv_def Let_def)
qed

lemma client_exec_inv:
  assumes inv: "client_inv env e0 e" and env: "env_ok env" and x: "deliverable x"
  shows "\<exists>e'. client_exec env x e = Some e' \<and> client_inv env e0 e'"
proof (cases "x = S_Close")
  case True
  then show ?thesis using client_Close_inv [OF inv env] by (auto simp: client_exec_def)
next
  case False
  have w: "sess_wf env (ep_sess e)" using inv by (simp add: client_inv_def)
  obtain s where s: "sess_exec env x (ep_sess e) = Some s" "sess_wf env s" using sess_exec_wf [OF w env x] by blast
  have "s_die s = s_die (ep_sess e)" using sess_exec_life [OF w env s(1) False] .
  then show ?thesis using inv s False by (simp add: client_exec_def client_inv_def)
qed

lemma client_reach_inv:
  assumes "client_reach env e0 e" "client_inv env e0 e0" "env_ok env"
  shows "client_inv env e0 e"
  using assms
proof (induction rule: client_reach.induct)
  case (client_step e x e')
  then show ?case using client_exec_inv [of env e0 e x] by auto
qed

lemma new_client_inv:
  assumes "env_ok env" "block_wf env block" "d + p \<le> 256" "cryptHeader block + cryptTail block \<le> 1367"
    and "0 < d \<and> 0 < p \<longrightarrow> rs_mds (e_rs_encode env) (e_rs_reconstruct env) (nat d) (nat p)"
  shows "\<exists>e. new_client net env c d p conn own remote block = Some e \<and> client_inv env e e \<and> \<not> s_die (ep_sess e) \<and>
    GetConv (ep_sess e) = c \<and> ep_ownConn e = own \<and> ep_remote e = remote \<and> ep_conn e = conn"
proof -
  obtain s where s: "newUDPSession env c d p False block newSnmp = Some s" "sess_wf env s"
    using newUDPSession_wf [OF assms, of c False newSnmp] by blast
  have "conv k' = conv k" if "SetMtu m k = Some (r, k')" for m k r k'
    using that by (auto simp: SetMtu_def bind_eq_Some_conv split: if_splits)
  then have "conv (s_kcp s) = c" "\<not> s_die s"
    using s(1) by (auto simp: newUDPSession_def sess_SetMtu_eq bind_eq_Some_conv sess_count_def NewKCP_def Let_def split: if_splits)
  then show ?thesis using s by (simp add: new_client_def client_inv_def GetConv_def)
qed

lemma ip_To4_v4: "ip_To4 ip \<noteq> None \<longleftrightarrow> length ip = 4 \<or> (\<exists>b. ip = v4InV6Prefix @ b \<and> length b = 4)"
proof -
  have n: "length v4InV6Prefix = 12" by (simp add: v4InV6Prefix_def)
  have "length ip = 16 \<and> take 12 ip = v4InV6Prefix \<longleftrightarrow> (\<exists>b. ip = v4InV6Prefix @ b \<and> length b = 4)"
  proof
    assume a: "length ip = 16 \<and> take 12 ip = v4InV6Prefix"
    then have "ip = v4InV6Prefix @ drop 12 ip" by (metis append_take_drop_id)
    then show "\<exists>b. ip = v4InV6Prefix @ b \<and> length b = 4" using a by (intro exI [of _ "drop 12 ip"]) simp
  qed (use n in auto)
  then show ?thesis by (auto simp: ip_To4_def)
qed

section \<open>Properties\<close>

text \<open>A client session owns its socket exactly as it was told. Opened over a conn with any flag, after any sequence of
  operations the conn is closed once the session is, if the session owns it, and is never closed otherwise; a pushing conn
  has the session's receiver until \<^verbatim>\<open>Close\<close>, and no longer. The first \<^verbatim>\<open>Close\<close> succeeds, every later one returns the
  error.\<close>

theorem client_lifecycle:
  assumes "env_ok env" "block_wf env block" "d + p \<le> 256" "cryptHeader block + cryptTail block \<le> 1367"
    and "0 < d \<and> 0 < p \<longrightarrow> rs_mds (e_rs_encode env) (e_rs_reconstruct env) (nat d) (nat p)"
    and "NewConn4 net env c raddr block d p own conn = Some e0" "client_reach env e0 e"
  shows "(ep_connClosed e \<longleftrightarrow> own \<and> s_die (ep_sess e)) \<and> (ep_receiver e \<longleftrightarrow> pc_pusher conn \<and> \<not> s_die (ep_sess e)) \<and>
    (\<exists>e'. client_Close env e = Some (\<not> s_die (ep_sess e), e') \<and> s_die (ep_sess e') \<and> \<not> ep_receiver e' \<and> ep_connClosed e' = own)"
proof -
  have e0: "client_inv env e0 e0" "ep_ownConn e0 = own" "ep_conn e0 = conn"
    using new_client_inv [OF assms(1-5), of net c conn own raddr] assms(6) by (auto simp: NewConn4_def)
  have inv: "client_inv env e0 e" by (rule client_reach_inv [OF assms(7) e0(1) assms(1)])
  from client_Close_inv [OF this assms(1)] show ?thesis using inv e0(2,3) by (auto simp: client_inv_def)
qed

text \<open>Dialling never panics and tells its errors apart: it fails exactly when the name does not resolve or no socket of the
  right family opens, IPv4 alone for an IPv4 address in either form. Otherwise it returns an open session with the
  peer's address and the random conversation number, which owns its socket. A listener opened by name owns its socket too, one
  over a given conn does not.\<close>

theorem open_errors:
  assumes "env_ok env" "block_wf env block" "d + p \<le> 256" "cryptHeader block + cryptTail block \<le> 1367"
    and "0 < d \<and> 0 < p \<longrightarrow> rs_mds (e_rs_encode env) (e_rs_reconstruct env) (nat d) (nat p)"
  shows "\<exists>r. DialWithOptions net env rnd raddr block d p = Some r \<and>
    (r = Inl ErrResolve \<longleftrightarrow> n_ResolveUDPAddr net raddr = None) \<and>
    (r = Inl ErrListen \<longleftrightarrow> (\<exists>a. n_ResolveUDPAddr net raddr = Some a \<and>
       n_ListenUDP net (if length (ua_IP a) = 4 \<or> (\<exists>b. ua_IP a = v4InV6Prefix @ b \<and> length b = 4) then ''udp4'' else ''udp'') None = None)) \<and>
    (\<forall>e. r = Inr e \<longrightarrow> \<not> s_die (ep_sess e) \<and> sess_wf env (ep_sess e) \<and> ep_ownConn e \<and> GetConv (ep_sess e) = random_conv rnd \<and>
       ep_remote e = map_option UDP (n_ResolveUDPAddr net raddr)) \<and>
    (\<forall>l. ListenWithOptions net laddr block d p = Inr l \<longrightarrow> l_ownConn l) \<and> \<not> l_ownConn (ServeConn block d p conn)"
proof -
  let ?net = "\<lambda>a. if ip_To4 (ua_IP a) = None then ''udp'' else ''udp4''"
  have net: "(if length (ua_IP a) = 4 \<or> (\<exists>b. ua_IP a = v4InV6Prefix @ b \<and> length b = 4) then ''udp4'' else ''udp'') = ?net a" for a
    using ip_To4_v4 [of "ua_IP a"] by simp
  have l: "\<forall>l. ListenWithOptions net laddr block d p = Inr l \<longrightarrow> l_ownConn l" "\<not> l_ownConn (ServeConn block d p conn)"
    by (auto simp: ListenWithOptions_def ServeConn_def serveConn_def split: option.splits)
  show ?thesis
  proof (cases "n_ResolveUDPAddr net raddr")
    case None
    then show ?thesis using l by (simp add: DialWithOptions_def)
  next
    case (Some a)
    show ?thesis
    proof (cases "n_ListenUDP net (?net a) None")
      case None
      then have "DialWithOptions net env rnd raddr block d p = Some (Inl ErrListen)"
        using Some by (simp add: DialWithOptions_def Let_def)
      then show ?thesis using Some None l unfolding net by simp
    next
      case (Some conn')
      obtain e where e: "new_client net env (random_conv rnd) d p conn' True (Some (UDP a)) block = Some e"
          "client_inv env e e" "\<not> s_die (ep_sess e)" "GetConv (ep_sess e) = random_conv rnd" "ep_ownConn e" "ep_remote e = Some (UDP a)"
        using new_client_inv [OF assms, of net "random_conv rnd" conn' True "Some (UDP a)"] by blast
      have "DialWithOptions net env rnd raddr block d p = Some (Inr e)"
        using Some e(1) \<open>n_ResolveUDPAddr net raddr = Some a\<close> by (simp add: DialWithOptions_def Let_def)
      then show ?thesis
        using \<open>n_ResolveUDPAddr net raddr = Some a\<close> Some e(2-6) l unfolding net by (simp add: client_inv_def)
    qed
  qed
qed

definition demo_conn_of :: "bool \<Rightarrow> packet_conn" where
  "demo_conn_of pusher = \<lparr>pc_udpConn = True, pc_LocalAddr = ''0.0.0.0:0'', pc_pusher = pusher, pc_SetReadBuffer = None,
     pc_SetWriteBuffer = None, pc_SetDSCP = None, pc_netConn = None\<rparr>"

definition demo_net :: net where
  "demo_net = \<lparr>n_ResolveUDPAddr = (\<lambda>x. if x = [] then None else Some \<lparr>ua_IP = [10, 0, 0, 1], ua_Port = 4000, ua_Zone = []\<rparr>),
     n_ListenUDP = (\<lambda>network a. if network = ''udp4'' then Some (demo_conn_of False) else None)\<rparr>"

lemma demo_limits: "block_wf demo_env None" "cryptHeader None + cryptTail None \<le> 1367"
  by (simp_all add: cryptHeader_def cryptTail_def)

theorem client_lifecycle_witness:
  "\<exists>e e'. NewConn4 demo_net demo_env 7 None None 0 0 True (demo_conn_of True) = Some e \<and> ep_receiver e \<and>
     client_Close demo_env e = Some (True, e') \<and> \<not> ep_receiver e' \<and> ep_connClosed e'"
proof -
  obtain e where e: "NewConn4 demo_net demo_env 7 None None 0 0 True (demo_conn_of True) = Some e" "\<not> s_die (ep_sess e)"
    using new_client_inv [OF demo_env_ok demo_limits(1) _ demo_limits(2), of 0 0 demo_net 7 "demo_conn_of True" True None]
    by (auto simp: NewConn4_def)
  have "pc_pusher (demo_conn_of True)" by (simp add: demo_conn_of_def)
  then show ?thesis
    using client_lifecycle [OF demo_env_ok demo_limits(1) _ demo_limits(2) _ e(1) client_start] e by auto
qed

theorem open_errors_witness:
  "DialWithOptions demo_net demo_env [7, 0, 0, 0] [] None 0 0 = Some (Inl ErrResolve) \<and>
   (\<exists>e. DialWithOptions demo_net demo_env [7, 0, 0, 0] ''a'' None 0 0 = Some (Inr e) \<and> ep_ownConn e)"
proof -
  note o = open_errors [OF demo_env_ok demo_limits(1) _ demo_limits(2), of 0 0 demo_net "[7, 0, 0, 0]"]
  have n: "n_ResolveUDPAddr demo_net ''a'' = Some \<lparr>ua_IP = [10, 0, 0, 1], ua_Port = 4000, ua_Zone = []\<rparr>"
      "n_ListenUDP demo_net ''udp4'' None = Some (demo_conn_of False)"
    by (simp_all add: demo_net_def)
  have "DialWithOptions demo_net demo_env [7, 0, 0, 0] [] None 0 0 = Some (Inl ErrResolve)"
    using o [of "[]"] by (auto simp: demo_net_def)
  moreover obtain r where r: "DialWithOptions demo_net demo_env [7, 0, 0, 0] ''a'' None 0 0 = Some r" "\<forall>e. r = Inr e \<longrightarrow> ep_ownConn e"
      "r \<noteq> Inl ErrResolve" "r \<noteq> Inl ErrListen"
    using o [of "''a''" "[]" "demo_conn_of False"] n by auto
  moreover obtain e where "r = Inr e" using r(3,4) by (cases r) (metis dial_error.exhaust)+
  ultimately show ?thesis by auto
qed

end
