(* ===== verification/Spec2Isabelle.thy ===== *)
theory Spec2Isabelle
  imports Kcp_Properties Reliability Stalled_Reader Post_Process Timed_Sched Entropy Socket_Tx Batch_Buffers Endpoints
begin

text \<open>
  A verification of kcp-go, a reliable ordered transport over UDP.

  \<^bold>\<open>The program.\<close> A session (\<^verbatim>\<open>sess.go\<close>, \<^verbatim>\<open>UDPSession\<close>) owns a protocol machine (\<^verbatim>\<open>kcp.go\<close>, \<^verbatim>\<open>KCP\<close>). The
  application's \<^verbatim>\<open>Write\<close> hands bytes to \<^verbatim>\<open>KCP.Send\<close>, which cuts them into segments; \<^verbatim>\<open>KCP.flush\<close>, driven by the timer
  (\<^verbatim>\<open>timedsched.go\<close>) and by arriving packets, packs segments and acknowledgements into packets and calls the output
  callback, which puts them into the session's send queue (\<^verbatim>\<open>sendqueue.go\<close>). Workers (\<^verbatim>\<open>postprocess.go\<close>) take
  them from there, add forward error correction (\<^verbatim>\<open>fec.go\<close>), encrypt (\<^verbatim>\<open>crypt.go\<close>, with nonces from \<^verbatim>\<open>entropy.go\<close>) and
  send. In the other direction a packet is read (\<^verbatim>\<open>readloop.go\<close>), or dispatched by a \<^verbatim>\<open>Listener\<close> to the session of
  its address, decrypted, passed through the FEC decoder, which adjusts its parameters to the
  peer's (\<^verbatim>\<open>autotune.go\<close>), and given to \<^verbatim>\<open>KCP.Input\<close>; \<^verbatim>\<open>Read\<close> takes the messages from \<^verbatim>\<open>KCP.Recv\<close>. Counters are
  kept in \<^verbatim>\<open>snmp.go\<close>, queues in \<^verbatim>\<open>ringbuffer.go\<close>.

  \<^bold>\<open>Theories and sources.\<close>
  \<^item> \<open>Prelude\<close>: word types for Go's integers, \<^verbatim>\<open>_itimediff\<close>, byte order, copying, option chains.
  \<^item> \<open>Ring_Buffer\<close> (\<^verbatim>\<open>ringbuffer.go\<close>): every operation of the ring; the locale \<open>fifo\<close>, interpreted for it.
  \<^item> \<open>Binary_Heap\<close>: the heap of \<^verbatim>\<open>container/heap\<close>; the locale \<open>heap_order\<close> gives its lemmas to every comparison that is
    an order on the elements present. It is interpreted for sequence numbers (\<open>Segment\<close>) and for deadlines (\<open>Timed_Sched\<close>).
  \<^item> \<open>Snmp\<close> (\<^verbatim>\<open>snmp.go\<close>, \<^verbatim>\<open>snmp_on.go\<close>): counters, update methods, printing.
  \<^item> \<open>Segment\<close>, \<open>Kcp_State\<close>, \<open>Kcp_Receive\<close>, \<open>Kcp_Send\<close>, \<open>Kcp_Flush\<close>, \<open>Kcp_Input\<close> (\<^verbatim>\<open>kcp.go\<close>): the wire format, the
    struct \<^verbatim>\<open>KCP\<close> as a record, and its methods in the order of the file.
  \<^item> \<open>Kcp_Machine\<close>, \<open>Kcp_Properties\<close>: all operations as one state machine, its invariant, and the properties.
  \<^item> \<open>End_To_End\<close>, \<open>Reliability\<close>: two protocol machines joined by a network that drops, repeats and reorders packets.
  \<^item> \<open>Auto_Tune\<close>, \<open>Fec_Decoder\<close>, \<open>Fec_Encoder\<close>, \<open>Fec_Recovery\<close> (\<^verbatim>\<open>autotune.go\<close>, \<^verbatim>\<open>fec.go\<close>): both ends of the error
    correction and the two together.
  \<^item> \<open>Crypt\<close> (\<^verbatim>\<open>crypt.go\<close>), \<open>Entropy\<close> (\<^verbatim>\<open>entropy.go\<close>): the unrolled cipher loops, the ciphers, the nonces.
  \<^item> \<open>Send_Queue\<close> (\<^verbatim>\<open>sendqueue.go\<close>): the queue with compaction; the locale \<open>bounded_fifo\<close>, interpreted for it.
  \<^item> \<open>Session\<close>, \<open>Session_Safety\<close>, \<open>Session_Properties\<close> (\<^verbatim>\<open>sess.go\<close>, \<^verbatim>\<open>postprocess.go\<close>): the struct \<^verbatim>\<open>UDPSession\<close>, its methods,
    the invariant every method keeps, and the properties of a session.
  \<^item> \<open>Session_Events\<close>, \<open>Blocking\<close> (\<^verbatim>\<open>sess.go\<close>): what each method tells waiting readers and writers, and the waiting \<^verbatim>\<open>Read\<close> and
    \<^verbatim>\<open>WriteBuffers\<close> of any number of goroutines, with the write gate, deadlines and errors, as interleaved steps.
    \<open>Stalled_Reader\<close>: what an empty message at the head of the receive queue does to every later read.
  \<^item> \<open>Listener\<close>, \<open>Listener_Life\<close> (\<^verbatim>\<open>sess.go\<close>): the server side over a store of sessions; the life of sessions and socket.
  \<^item> \<open>Read_Loop\<close> (\<^verbatim>\<open>readloop.go\<close>, \<^verbatim>\<open>readloop_linux.go\<close>): the loops and callbacks that feed sessions and listeners.
  \<^item> \<open>Socket_Tx\<close> (\<^verbatim>\<open>tx.go\<close>, \<^verbatim>\<open>tx_linux.go\<close>): sending a batch. \<open>Buffer_Pool\<close> (\<^verbatim>\<open>bufferpool.go\<close>), \<open>Batch_Buffers\<close> (\<^verbatim>\<open>postprocess.go\<close>): the
    packet buffers as slices, and the views a worker's batch has of them. Messages carry their address. The users of the
    pool are any that take, hold and put back buffers; \<open>careful\<close> ones put back what they hold, and once.
  \<^item> \<open>Endpoints\<close> (\<^verbatim>\<open>sess.go\<close>, \<^verbatim>\<open>platform_linux.go\<close>): \<^verbatim>\<open>Dial\<close>, \<^verbatim>\<open>NewConn\<close>, \<^verbatim>\<open>Listen\<close>, client sessions with their conn, socket options.
  \<^item> \<open>Post_Process\<close> (\<^verbatim>\<open>postprocess.go\<close>), \<open>Timed_Sched\<close> (\<^verbatim>\<open>timedsched.go\<close>): the two pieces of lock-free signalling, as
    machines whose steps are atomic actions of interleaved goroutines, \<^verbatim>\<open>Wait\<close> and \<^verbatim>\<open>Signal\<close> of the condition variable
    among them.

  \<^bold>\<open>How code becomes definitions.\<close> Fixed-width integers are words and wrap. A method is a function on the record of
  its receiver; \<open>None\<close> is a panic (slice bounds, index, division by zero, nil), and errors are values. Slices that share
  storage are modelled where the code depends on it: buffers with stale content (\<open>e_stale\<close>), the in-place flag of the
  ciphers, the capacity of the send queue. Buffers of the pool are counted. Loops are recursive functions with
  a termination proof. \<^verbatim>\<open>flush_move\<close> and the other loops with a fuel argument get the length of the queue they consume
  plus one, so that running out of fuel, which is \<open>None\<close>, is excluded by the same theorems that exclude panics. The loop
  that splits a write (\<open>send_chunks\<close>) does not end for a segment size of zero, the one that sends batches
  (\<open>write_batches\<close>) not on a socket that takes nothing; both are partial functions and their termination is proved. Loops
  over a socket are functions of the list of what the socket returns. The budget of a worker, 256 packets, is the code's own bound.

  \<^bold>\<open>What is not code of the repository\<close> is a parameter: clocks, random bytes, CRC-32, block ciphers and AEADs, the Salsa20
  key stream, the Reed-Solomon codec, \<^verbatim>\<open>append\<close>'s growth, addresses' \<^verbatim>\<open>String\<close>, name resolution, socket calls. Theorems assume of it what its documentation says:
  a codec reconstructs from any \<open>d\<close> of \<open>d + p\<close> shards (\<open>rs_mds\<close>) and accepts up to 256 shards, a cipher keeps the block
  length (\<open>block_ok\<close>), an AEAD opens what it sealed (\<open>aead_ok\<close>), random sources fill the buffer (\<open>env_ok\<close>, \<open>sources_ok\<close>),
  a datagram is written whole and a batch call writes what single calls would (\<open>whole_datagrams\<close>, \<open>sends_batches\<close>).
  Each such theorem has a witness with concrete functions (an exclusive-or codec, a toy block cipher).

  \<^bold>\<open>What the lemmas show.\<close>
  \<^item> The protocol: over any network the bytes received are a prefix of the bytes sent, and nothing the sender lets go of
    is lost, up to \<open>2 ^ 32\<close> and \<open>2 ^ 31\<close> segments.
  \<^item> Protocol machine: no operation panics or loops forever, given an MTU of at most \<^verbatim>\<open>maxPacketSize\<close> (1472) and packets whose
    data segments are at most as long (\<open>payloads_fit\<close>); the bound is sharp, since a longer data segment in the window
    panics where its data are copied into a pool buffer. Packets that the read loops and the FEC decoder deliver keep it;
    a packet pusher's need not (\<open>pushed_packet_panics\<close>); sequence numbers in flight, waiting and out of order
    are consistent in every reachable state; no buffer leaks; a message is returned whole; \<^verbatim>\<open>flush\<close> implements a
    specification of what it sends, with the window probes and the choice of what is sent again; \<^verbatim>\<open>Input\<close> is total on
    arbitrary bytes within that bound; windows, MTU and timers are respected.
  \<^item> Containers: ring and send queue are first-in first-out queues; the heaps pop the nearest element.
  \<^item> Error correction: any \<open>d\<close> packets of a group give back the missing ones; the decoder never panics; detection finds
    the peer's parameters and nothing else (finds them when the samples kept span less than half of the
    number range).
  \<^item> Ciphers: the unrolled loops are cipher feedback mode; decryption inverts encryption.
  \<^item> Session and listener: no panic on packets of any bytes up to \<^verbatim>\<open>maxPacketSize\<close> and ciphers of at most 1367 bytes of overhead
    (from 1376 bytes on the constructor always panics, \<open>overhead_too_large\<close>); datagrams fit; the outgoing and the incoming pipeline are inverse; reads
    return the stream in order; writes end; peers are isolated; the address map holds the open sessions; sockets are closed by
    their owner; a socket error reaches every session.
  \<^item> Waiting: no reader sleeps while data is ready and nobody is told; a single writer neither, as long as
    the window is not enlarged under it, and then at the latest at the next update; the write gate is never
    lost or doubled; errors, deadlines and \<^verbatim>\<open>Close\<close> wake every sleeper but the writer that the rate limit holds back.
  \<^item> Sockets and buffers: all read paths agree, batches or not; both transmit paths send the same prefix; pool buffers are
    whole whatever is put back, and have one holder if users put back only what they hold; the messages of a batch keep their buffers.
  \<^item> Concurrency: one worker at a time has a session, no queued packet is forgotten and the workers never all sleep on it, no timer task is lost or slept through.
  \<^item> Where the code does something else than it means, a theorem shows it: an empty message blocks every reader for good, a long
    pushed packet panics, \<^verbatim>\<open>SetWindowSize\<close> tells no writer, an out-of-band packet resets a session, a closed session's batch leaves through another one, a writer at the gate
    takes another's wake-up, and two wrap-arounds in the windows.

  \<^bold>\<open>Not modelled.\<close> The \<^verbatim>\<open>OutSegs\<close> counter of \<^verbatim>\<open>encode\<close>, a statistic no code reads. When a deadline passes and how long pacing lasts: both are steps of the environment, since the timer
  (\<^verbatim>\<open>deadline.go\<close> frees it) and the token bucket are other packages. A goroutine that selected on a deadline that was then
  replaced may still see the old one pass; the model shows it the new one. The system calls themselves, logging
  (\<^verbatim>\<open>kcp_trace_*.go\<close>, \<^verbatim>\<open>SetLogger\<close>), the empty counters of \<^verbatim>\<open>snmp_off.go\<close> and the example have no logic of their own. In the
  session theories a method is one step, as the session's mutex makes it; finer interleavings are the subject of
  \<open>Blocking\<close>, \<open>Post_Process\<close> and \<open>Timed_Sched\<close>, where each worker keeps its own batch.
\<close>

end
